(* ===== verification/Prelude.thy ===== *)
theory Prelude
  imports Main "HOL-Library.Word"
begin

text \<open>
  Shared vocabulary of the development: the errors the code throws, the result type that
  carries them, the integer operators of ECMAScript on \<open>number\<close> values (which the code uses
  for all its flag and window arithmetic), byte strings and their little-endian reading, and
  the collections of simplification rules that the component theories extend.

  A JavaScript \<open>number\<close> or \<open>bigint\<close> that holds an integer is an \<open>int\<close>.  The bitwise operators
  of the language convert to 32 bits first; the conversions are written out here.
\<close>

unbundle bit_operations_syntax

subsection \<open>Errors and results\<close>

text \<open>
  One constructor for each error class that the modelled code throws or relays.  \<open>RangeError\<close>
  and \<open>TypeError\<close> are the ones the language itself throws.
\<close>

datatype js_error =
    UnexpectedDataError
  | NotImplementedError
  | InternalError
  | ImplementationError
  | MatterFlowError
  | UnexpectedMessageError
  | DuplicateMessageError
  | ValidationOutOfBoundsError
  | ValidationDatatypeMismatchError
  | ValidationMandatoryFieldMissingError
  | BtpProtocolError
  | BtpFlowError
  | BleError
  | StorageError
  | RetransmissionLimitReachedError
  | ChannelNotConnectedError
  | EndOfStreamError
  | NoResponseTimeoutError
  | CryptoDecryptError
  | NoChannelError
  | NoAssociatedFabricError
  | FabricNotFoundError
  | FabricTableFullError
  | TransactionFlowError
  | SynchronousTransactionConflictError
  | TransactionDeadlockError
  | FinalizationError
  | TransactionDestroyedError
  | UnsettledStateError
  | StatusResponseError int
  | PlainError
  | RangeError
  | TypeError

type_synonym 'a res = "js_error + 'a"

definition and_then :: "'e + 'a \<Rightarrow> ('a \<Rightarrow> 'e + 'b) \<Rightarrow> 'e + 'b" where
  "and_then m f = (case m of Inl e \<Rightarrow> Inl e | Inr x \<Rightarrow> f x)"

lemma and_then_simps [simp]:
  "and_then (Inl e) f = Inl e"
  "and_then (Inr x) f = f x"
  by (simp_all add: and_then_def)

lemma and_then_Inr_iff: "and_then m f = Inr y \<longleftrightarrow> (\<exists>x. m = Inr x \<and> f x = Inr y)"
  by (cases m) auto

lemma and_then_Inl_iff:
  "and_then m f = Inl e \<longleftrightarrow> m = Inl e \<or> (\<exists>x. m = Inr x \<and> f x = Inl e)"
  by (cases m) auto

lemma and_then_assoc: "and_then (and_then m f) g = and_then m (\<lambda>x. and_then (f x) g)"
  by (cases m) auto

lemma and_then_cong [fundef_cong]:
  "m = n \<Longrightarrow> (\<And>x. n = Inr x \<Longrightarrow> f x = g x) \<Longrightarrow> and_then m f = and_then n g"
  by (cases n) auto

definition throw_if :: "bool \<Rightarrow> 'e \<Rightarrow> 'e + unit" where
  "throw_if b e = (if b then Inl e else Inr ())"

lemma throw_if_simps [simp]:
  "throw_if True e = Inl e"
  "throw_if False e = Inr ()"
  "throw_if b e = Inr u \<longleftrightarrow> \<not> b"
  "throw_if b e = Inl e' \<longleftrightarrow> b \<and> e' = e"
  by (auto simp: throw_if_def)

text \<open>A loop over a list whose body may throw, threading a state: \<open>for (const x of xs)\<close>.\<close>

fun fold_res :: "('a \<Rightarrow> 's \<Rightarrow> 'e + 's) \<Rightarrow> 'a list \<Rightarrow> 's \<Rightarrow> 'e + 's" where
  "fold_res f [] s = Inr s"
| "fold_res f (x # xs) s = and_then (f x s) (fold_res f xs)"

lemma fold_res_append:
  "fold_res f (xs @ ys) s = and_then (fold_res f xs s) (fold_res f ys)"
  by (induction xs arbitrary: s) (auto simp: and_then_def split: sum.splits)

text \<open>\<open>xs.map(f)\<close> with a function that may throw.\<close>

fun map_res :: "('a \<Rightarrow> 'e + 'b) \<Rightarrow> 'a list \<Rightarrow> 'e + 'b list" where
  "map_res f [] = Inr []"
| "map_res f (x # xs) = and_then (f x) (\<lambda>y. and_then (map_res f xs) (\<lambda>ys. Inr (y # ys)))"

lemma map_res_Inr: "(\<And>x. x \<in> set xs \<Longrightarrow> f x = Inr (g x)) \<Longrightarrow> map_res f xs = Inr (map g xs)"
  by (induction xs) auto

lemma map_res_cong [fundef_cong]:
  "xs = ys \<Longrightarrow> (\<And>x. x \<in> set ys \<Longrightarrow> f x = g x) \<Longrightarrow> map_res f xs = map_res g ys"
  by (induction ys arbitrary: xs) auto

lemma length_map_res: "map_res f xs = Inr ys \<Longrightarrow> length ys = length xs"
  by (induction xs arbitrary: ys) (auto simp: and_then_Inr_iff)

subsection \<open>Integer operators of the language\<close>

named_theorems js_ops \<open>definitions of the 32-bit operators\<close>
named_theorems codec_simps \<open>what a read returns on the bytes a write produced\<close>

definition to_int32 :: "int \<Rightarrow> int" where
  "to_int32 x = (x + 2147483648) mod 4294967296 - 2147483648"

definition to_uint32 :: "int \<Rightarrow> int" where
  "to_uint32 x = x mod 4294967296"

definition js_and :: "int \<Rightarrow> int \<Rightarrow> int" where [js_ops]:
  "js_and a b = (to_int32 a AND to_int32 b)"

definition js_or :: "int \<Rightarrow> int \<Rightarrow> int" where [js_ops]:
  "js_or a b = (to_int32 a OR to_int32 b)"

definition js_xor :: "int \<Rightarrow> int \<Rightarrow> int" where [js_ops]:
  "js_xor a b = (to_int32 a XOR to_int32 b)"

text \<open>Shift counts are taken modulo 32: \<open>x << 32\<close> is \<open>x\<close>.\<close>

definition js_shl :: "int \<Rightarrow> int \<Rightarrow> int" where [js_ops]:
  "js_shl a n = to_int32 (to_int32 a * 2 ^ nat (n mod 32))"

definition js_shr :: "int \<Rightarrow> int \<Rightarrow> int" where [js_ops]:
  "js_shr a n = to_int32 a div 2 ^ nat (n mod 32)"

definition js_ushr :: "int \<Rightarrow> int \<Rightarrow> int" where [js_ops]:
  "js_ushr a n = to_uint32 a div 2 ^ nat (n mod 32)"

lemma to_int32_id [simp]: "-2147483648 \<le> x \<Longrightarrow> x < 2147483648 \<Longrightarrow> to_int32 x = x"
  by (simp add: to_int32_def)

lemma to_int32_bounds: "-2147483648 \<le> to_int32 x" "to_int32 x < 2147483648"
  by (simp_all add: to_int32_def)

lemma to_int32_cong: "x mod 4294967296 = y mod 4294967296 \<Longrightarrow> to_int32 x = to_int32 y"
  unfolding to_int32_def by (metis mod_add_left_eq)

lemma to_uint32_id [simp]: "0 \<le> x \<Longrightarrow> x < 4294967296 \<Longrightarrow> to_uint32 x = x"
  by (simp add: to_uint32_def)

lemma to_uint32_bounds: "0 \<le> to_uint32 x" "to_uint32 x < 4294967296"
  by (simp_all add: to_uint32_def)

lemma to_uint32_to_int32 [simp]: "to_uint32 (to_int32 x) = to_uint32 x"
proof -
  have "((x + 2147483648) mod 4294967296 - 2147483648) mod 4294967296
      = (x + 2147483648 - 2147483648) mod (4294967296::int)"
    by (rule mod_diff_left_eq)
  then show ?thesis by (simp add: to_int32_def to_uint32_def)
qed

lemma int_and_pow2_minus1: "(x::int) AND (2 ^ n - 1) = x mod 2 ^ n"
  by (simp add: take_bit_eq_mask [symmetric] take_bit_eq_mod mask_eq_exp_minus_1 [symmetric])

lemma int_and_masks:
  "(x::int) AND 1 = x mod 2"
  "(x::int) AND 3 = x mod 4"
  "(x::int) AND 7 = x mod 8"
  "(x::int) AND 15 = x mod 16"
  "(x::int) AND 31 = x mod 32"
  "(x::int) AND 255 = x mod 256"
  "(x::int) AND 16383 = x mod 16384"
  "(x::int) AND 65535 = x mod 65536"
proof -
  show "x AND 1 = x mod 2" by (rule and_one_eq)
  show "x AND 3 = x mod 4" using int_and_pow2_minus1 [of x 2] by simp
  show "x AND 7 = x mod 8" using int_and_pow2_minus1 [of x 3] by simp
  show "x AND 15 = x mod 16" using int_and_pow2_minus1 [of x 4] by simp
  show "x AND 31 = x mod 32" using int_and_pow2_minus1 [of x 5] by simp
  show "x AND 255 = x mod 256" using int_and_pow2_minus1 [of x 8] by simp
  show "x AND 16383 = x mod 16384" using int_and_pow2_minus1 [of x 14] by simp
  show "x AND 65535 = x mod 65536" using int_and_pow2_minus1 [of x 16] by simp
qed

text \<open>Disjoint bit ranges: an OR of a shifted value and a small one is a sum.\<close>

lemma int_or_shift:
  assumes "0 \<le> b" "b < 2 ^ n"
  shows "(a * 2 ^ n) OR b = a * 2 ^ n + (b::int)"
proof -
  from assms have b: "take_bit n b = b" by (rule take_bit_int_eq_self)
  have "push_bit n a AND b = 0"
    by (rule bit_eqI, subst b [symmetric]) (auto simp: bit_simps)
  then have "push_bit n a + b = push_bit n a OR b"
    by (rule disjunctive_add_eq_or)
  then show ?thesis by (simp add: push_bit_eq_mult)
qed

text \<open>The operators bit by bit, below position 32.\<close>

lemma to_int32_signed_take_bit: "to_int32 x = signed_take_bit 31 x"
  by (simp add: to_int32_def signed_take_bit_eq_take_bit_shift take_bit_eq_mod)

lemma to_uint32_take_bit: "to_uint32 x = take_bit 32 x"
  by (simp add: to_uint32_def take_bit_eq_mod)

lemma bit_to_int32: "j < 32 \<Longrightarrow> bit (to_int32 x) j \<longleftrightarrow> bit x j"
  by (cases "j = 31") (auto simp: to_int32_signed_take_bit bit_signed_take_bit_iff min_def)

lemma bit_to_uint32: "bit (to_uint32 x) j \<longleftrightarrow> j < 32 \<and> bit x j"
  by (simp add: to_uint32_take_bit bit_take_bit_iff)

lemma bit_js_or: "j < 32 \<Longrightarrow> bit (js_or a b) j \<longleftrightarrow> bit a j \<or> bit b j"
  by (simp add: js_or_def bit_or_iff bit_to_int32)

lemma bit_js_and: "j < 32 \<Longrightarrow> bit (js_and a b) j \<longleftrightarrow> bit a j \<and> bit b j"
  by (simp add: js_and_def bit_and_iff bit_to_int32)

lemma bit_js_shl:
  "j < 32 \<Longrightarrow> bit (js_shl a n) j \<longleftrightarrow> nat (n mod 32) \<le> j \<and> bit a (j - nat (n mod 32))"
proof -
  assume j: "j < 32"
  have "bit (js_shl a n) j \<longleftrightarrow> bit (push_bit (nat (n mod 32)) (to_int32 a)) j"
    using j by (simp add: js_shl_def bit_to_int32 push_bit_eq_mult)
  also have "\<dots> \<longleftrightarrow> nat (n mod 32) \<le> j \<and> bit a (j - nat (n mod 32))"
    using j by (auto simp: bit_push_bit_iff_int bit_to_int32)
  finally show ?thesis .
qed

lemma js_ushr_0: "js_ushr x 0 = to_uint32 x"
  by (simp add: js_ushr_def)

lemma bit_one_int: "bit (1::int) j \<longleftrightarrow> j = 0"
  by (simp add: bit_1_iff)

text \<open>A mask with one bit finds exactly that bit.\<close>

lemma js_and_single_bit:
  assumes "0 \<le> n" "n < 32"
  shows "js_and x (js_shl 1 n) \<noteq> 0 \<longleftrightarrow> bit x (nat n)"
proof
  assume "bit x (nat n)"
  with assms have "bit (js_and x (js_shl 1 n)) (nat n)"
    by (simp add: bit_js_and bit_js_shl bit_one_int)
  then show "js_and x (js_shl 1 n) \<noteq> 0" by auto
next
  assume nz: "js_and x (js_shl 1 n) \<noteq> 0"
  define y where "y = js_and x (js_shl 1 n)"
  have low: "bit y j \<longleftrightarrow> j = nat n \<and> bit x (nat n)" if "j < 32" for j
    using that assms by (auto simp: y_def bit_js_and bit_js_shl bit_one_int)
  have sgn: "bit y j \<longleftrightarrow> bit y 31" if "31 \<le> j" for j
    using that assms unfolding y_def js_and_def
    by (auto simp: bit_and_iff to_int32_signed_take_bit bit_signed_take_bit_iff min_def js_shl_def)
  from nz have "y \<noteq> 0" by (simp add: y_def)
  then obtain j where "bit y j" by (auto simp: bit_eq_iff)
  have "bit y (if j < 32 then j else 31)" using \<open>bit y j\<close> sgn [of j] by (cases "j < 32") simp_all
  then show "bit x (nat n)" using low [of "if j < 32 then j else 31"] by (simp split: if_splits)
qed

end
