(* ===== verification/Reception.thy ===== *)
theory Reception
  imports Prelude
begin

text \<open>
  The duplicate detection of packages/protocol/src/protocol/MessageReceptionState.ts: a maximum
  counter and a bitmap of the 32 counters below it.  The base class and its two subclasses differ
  only in \<open>calculateDiff\<close>, which is an argument of the shared operations here, as it is the
  overridden method there.  The locale \<open>reception_window\<close> states what such a difference has to
  satisfy for the window to be sound; the three classes interpret it, the unencrypted one only
  away from the rollover, where its difference is wrong.
\<close>

subsection \<open>State and constants\<close>

record reception_state =
  maximumMessageCounter :: "int option"
  messageCounterBitmap :: int

definition MAX_COUNTER_VALUE_32BIT :: int where
  "MAX_COUNTER_VALUE_32BIT = 4294967294"

definition MAX_COUNTER_INCREASE_2POW31 :: int where
  "MAX_COUNTER_INCREASE_2POW31 = 2147483648"

definition MSG_COUNTER_WINDOW_SIZE :: int where
  "MSG_COUNTER_WINDOW_SIZE = 32"

lemmas reception_consts =
  MAX_COUNTER_VALUE_32BIT_def MAX_COUNTER_INCREASE_2POW31_def MSG_COUNTER_WINDOW_SIZE_def

definition initialize :: "int \<Rightarrow> reception_state \<Rightarrow> reception_state" where
  "initialize m s = s\<lparr>maximumMessageCounter := Some m, messageCounterBitmap := 4294967295\<rparr>"

definition new_MessageReceptionState :: "int option \<Rightarrow> reception_state" where
  "new_MessageReceptionState mc =
     (let s = \<lparr>maximumMessageCounter = None, messageCounterBitmap = 4294967295\<rparr>
      in case mc of None \<Rightarrow> s | Some m \<Rightarrow> initialize m s)"

subsection \<open>The three differences\<close>

text \<open>
  \<open>calculateDiff\<close> is called with a defined maximum in every path of \<open>updateMessageCounter\<close>; the
  branch for an undefined one is kept.
\<close>

definition calculateDiff_without_rollover :: "int option \<Rightarrow> int \<Rightarrow> int" where
  "calculateDiff_without_rollover mx m = (case mx of None \<Rightarrow> 0 | Some M \<Rightarrow> m - M)"

definition calculateDiff_with_rollover :: "int option \<Rightarrow> int \<Rightarrow> int" where
  "calculateDiff_with_rollover mx m =
     (case mx of None \<Rightarrow> 0
      | Some M \<Rightarrow>
          let diff = m - M
          in if diff > 0 then
               (if diff < MAX_COUNTER_INCREASE_2POW31 then diff
                else diff - MAX_COUNTER_VALUE_32BIT - 1)
             else if diff < 0 then
               (if diff \<ge> - MAX_COUNTER_INCREASE_2POW31 then diff
                else diff + MAX_COUNTER_VALUE_32BIT + 1)
             else 0)"

definition calculateDiff_unencrypted :: "int option \<Rightarrow> int \<Rightarrow> int" where
  "calculateDiff_unencrypted mx m =
     (case mx of None \<Rightarrow> 0
      | Some M \<Rightarrow>
          let diff = m - M
          in if diff > 0 then
               (if - diff + MAX_COUNTER_VALUE_32BIT < MSG_COUNTER_WINDOW_SIZE
                then diff - MAX_COUNTER_VALUE_32BIT - 1 else diff)
             else if diff < 0 then
               (if diff < - MSG_COUNTER_WINDOW_SIZE then MAX_COUNTER_VALUE_32BIT + diff else diff)
             else 0)"

lemma wo_diff [simp]: "calculateDiff_without_rollover (Some M) m = m - M"
  by (simp add: calculateDiff_without_rollover_def)

subsection \<open>The window\<close>

definition calculateMessageCounterBitmap :: "int \<Rightarrow> int \<Rightarrow> int res" where
  "calculateMessageCounterBitmap bitmap diff =
     (if diff < 0 then
        if diff < - MSG_COUNTER_WINDOW_SIZE then Inl InternalError
        else let bit = js_shl 1 (- diff - 1) in Inr (js_ushr (js_or bitmap bit) 0)
      else if diff > 0 then
        if diff \<le> MSG_COUNTER_WINDOW_SIZE then
          let bit = js_shl 1 (diff - 1)
          in Inr (js_ushr (js_or (js_ushr (js_shl bitmap diff) 0) bit) 0)
        else Inr (js_ushr 0 0)
      else Inr (js_ushr bitmap 0))"

definition updateMessageCounterAndBitmap :: "int \<Rightarrow> int \<Rightarrow> reception_state \<Rightarrow> reception_state res" where
  "updateMessageCounterAndBitmap m diff s =
     (case maximumMessageCounter s of
        None \<Rightarrow> Inr (initialize m s)
      | Some _ \<Rightarrow>
          and_then (calculateMessageCounterBitmap (messageCounterBitmap s) diff) (\<lambda>bm.
            let s = s\<lparr>messageCounterBitmap := bm\<rparr>
            in Inr (if diff > 0 \<or> diff < - MSG_COUNTER_WINDOW_SIZE
                    then s\<lparr>maximumMessageCounter := Some m\<rparr> else s)))"

definition isCounterKnownInBitmap :: "int \<Rightarrow> reception_state \<Rightarrow> bool res" where
  "isCounterKnownInBitmap diff s =
     (if diff < - MSG_COUNTER_WINDOW_SIZE \<or> diff \<ge> 0 then Inl InternalError
      else let bit = js_shl 1 (- diff - 1) in Inr (js_and (messageCounterBitmap s) bit \<noteq> 0))"

definition updateMessageCounter ::
  "(int option \<Rightarrow> int \<Rightarrow> int) \<Rightarrow> int \<Rightarrow> reception_state \<Rightarrow> reception_state res" where
  "updateMessageCounter calculateDiff m s =
     (if m < 0 \<or> m > MAX_COUNTER_VALUE_32BIT then Inl InternalError
      else case maximumMessageCounter s of
        None \<Rightarrow> updateMessageCounterAndBitmap m 0 s
      | Some M \<Rightarrow>
          if m = M then Inl DuplicateMessageError
          else
            let diff = calculateDiff (Some M) m
            in and_then
                 (if diff < 0 then
                    if diff < - MSG_COUNTER_WINDOW_SIZE then Inl DuplicateMessageError
                    else and_then (isCounterKnownInBitmap diff s)
                           (\<lambda>known. throw_if known DuplicateMessageError)
                  else Inr ())
                 (\<lambda>_. updateMessageCounterAndBitmap m diff s))"

text \<open>
  A receiver drops a message whose counter is refused and keeps the state (the update throws
  before it writes): the run of a list of counters with the verdict on each.
\<close>

fun receive_all ::
  "(int option \<Rightarrow> int \<Rightarrow> int) \<Rightarrow> int list \<Rightarrow> reception_state \<Rightarrow> int list \<times> reception_state" where
  "receive_all f [] s = ([], s)"
| "receive_all f (m # ms) s =
     (case updateMessageCounter f m s of
        Inl e \<Rightarrow> receive_all f ms s
      | Inr s' \<Rightarrow> (let (acc, t) = receive_all f ms s' in (m # acc, t)))"

lemma receive_all_accepted [simp]:
  "updateMessageCounter f m s = Inr s' \<Longrightarrow> fst (receive_all f (m # ms) s) = m # fst (receive_all f ms s')"
  "updateMessageCounter f m s = Inr s' \<Longrightarrow> snd (receive_all f (m # ms) s) = snd (receive_all f ms s')"
  by (simp_all split: prod.splits)

lemma receive_all_refused [simp]:
  "updateMessageCounter f m s = Inl e \<Longrightarrow> receive_all f (m # ms) s = receive_all f ms s"
  by simp

declare receive_all.simps(2) [simp del]

subsection \<open>The bitmap, bit by bit\<close>

lemma bitmap_behind:
  assumes "- 32 \<le> d" "d < 0"
  shows "\<exists>bm. calculateMessageCounterBitmap b d = Inr bm \<and>
    (\<forall>j<32. bit bm j \<longleftrightarrow> bit b j \<or> j = nat (- d - 1))"
  using assms
  by (auto simp: calculateMessageCounterBitmap_def reception_consts Let_def js_ushr_0 bit_to_uint32
      bit_js_or bit_js_shl bit_one_int)

lemma bitmap_ahead:
  assumes "0 < d" "d \<le> 32"
  shows "\<exists>bm. calculateMessageCounterBitmap b d = Inr bm \<and>
    (\<forall>j<32. bit bm j \<longleftrightarrow> j = nat (d - 1) \<or>
      (if d = 32 then bit b j else nat d \<le> j \<and> bit b (j - nat d)))"
proof -
  have m: "(d - 1) mod 32 = d - 1" "d \<noteq> 32 \<Longrightarrow> d mod 32 = d" using assms by auto
  show ?thesis
    using assms
    by (auto simp: calculateMessageCounterBitmap_def reception_consts Let_def js_ushr_0 bit_to_uint32
        bit_js_or bit_js_shl bit_one_int m)
qed

lemma bitmap_far_ahead: "32 < d \<Longrightarrow> calculateMessageCounterBitmap b d = Inr 0"
  by (simp add: calculateMessageCounterBitmap_def reception_consts js_ushr_0)

lemma bitmap_same: "calculateMessageCounterBitmap b 0 = Inr (js_ushr b 0)"
  by (simp add: calculateMessageCounterBitmap_def)

lemma known_bit:
  assumes "- 32 \<le> d" "d < 0"
  shows "isCounterKnownInBitmap d s = Inr (bit (messageCounterBitmap s) (nat (- d - 1)))"
  using assms js_and_single_bit [of "- d - 1" "messageCounterBitmap s"]
  by (simp add: isCounterKnownInBitmap_def reception_consts)

lemma update_none:
  "maximumMessageCounter s = None \<Longrightarrow> 0 \<le> m \<Longrightarrow> m \<le> MAX_COUNTER_VALUE_32BIT \<Longrightarrow>
   updateMessageCounter f m s = Inr (initialize m s)"
  by (simp add: updateMessageCounter_def updateMessageCounterAndBitmap_def)

text \<open>All the ways an update with a known maximum can end.\<close>

lemma update_cases:
  fixes f :: "int option \<Rightarrow> int \<Rightarrow> int"
  assumes "maximumMessageCounter s = Some M" "0 \<le> m" "m \<le> MAX_COUNTER_VALUE_32BIT"
  defines "d \<equiv> f (Some M) m"
  shows "updateMessageCounter f m s =
    (if m = M \<or> d < - 32 \<or> (d < 0 \<and> bit (messageCounterBitmap s) (nat (- d - 1)))
     then Inl DuplicateMessageError
     else and_then (calculateMessageCounterBitmap (messageCounterBitmap s) d)
       (\<lambda>bm. Inr (s\<lparr>messageCounterBitmap := bm,
                    maximumMessageCounter := (if d > 0 then Some m else Some M)\<rparr>)))"
  using assms known_bit [of d s]
  by (auto simp: updateMessageCounter_def updateMessageCounterAndBitmap_def MSG_COUNTER_WINDOW_SIZE_def
      Let_def and_then_def throw_if_def split: sum.splits)

subsection \<open>How far a counter lies behind, and how far a run moves the window\<close>

definition counter_age :: "(int option \<Rightarrow> int \<Rightarrow> int) \<Rightarrow> reception_state \<Rightarrow> int \<Rightarrow> int" where
  "counter_age f s c = - f (maximumMessageCounter s) c"

definition window_step :: "(int option \<Rightarrow> int \<Rightarrow> int) \<Rightarrow> int \<Rightarrow> reception_state \<Rightarrow> int" where
  "window_step f m s = max 0 (f (maximumMessageCounter s) m)"

fun window_advance :: "(int option \<Rightarrow> int \<Rightarrow> int) \<Rightarrow> int list \<Rightarrow> reception_state \<Rightarrow> int" where
  "window_advance f [] s = 0"
| "window_advance f (m # ms) s =
     (case updateMessageCounter f m s of
        Inl e \<Rightarrow> window_advance f ms s
      | Inr s' \<Rightarrow> window_step f m s + window_advance f ms s')"

subsection \<open>What a difference must satisfy\<close>

text \<open>
  \<open>diff (Some M) c\<close> is the signed distance from the maximum \<open>M\<close> to \<open>c\<close>.  Moving the maximum ahead
  by \<open>e\<close> must move every counter at or behind the old maximum back by \<open>e\<close>, up to the distance
  \<open>B\<close> the difference can express.
\<close>

locale reception_window =
  fixes diff :: "int option \<Rightarrow> int \<Rightarrow> int" and valid :: "int \<Rightarrow> bool" and B :: int
  assumes diff_zero: "valid M \<Longrightarrow> valid c \<Longrightarrow> diff (Some M) c = 0 \<longleftrightarrow> c = M"
    and diff_advance: "valid M \<Longrightarrow> valid M' \<Longrightarrow> valid c \<Longrightarrow> 0 < diff (Some M) M' \<Longrightarrow>
      diff (Some M) c \<le> 0 \<Longrightarrow> - B \<le> diff (Some M) c - diff (Some M) M' \<Longrightarrow>
      diff (Some M') c = diff (Some M) c - diff (Some M) M'"
begin

text \<open>The counter \<open>c\<close> is remembered: it is the maximum, or behind it with its bit set, or beyond
  the window.\<close>

definition knows :: "reception_state \<Rightarrow> int \<Rightarrow> bool" where
  "knows s c \<longleftrightarrow> (\<exists>M. maximumMessageCounter s = Some M \<and> valid M) \<and> 0 \<le> counter_age diff s c \<and>
     (1 \<le> counter_age diff s c \<and> counter_age diff s c \<le> 32 \<longrightarrow> bit (messageCounterBitmap s) (nat (counter_age diff s c - 1)))"

lemma advance_nonneg: "0 \<le> window_advance diff ms s"
  by (induction ms arbitrary: s) (auto simp: window_step_def split: sum.splits intro: add_nonneg_nonneg)

lemma knows_refused:
  assumes "knows s c" "valid c" "0 \<le> c" "c \<le> MAX_COUNTER_VALUE_32BIT"
  shows "updateMessageCounter diff c s = Inl DuplicateMessageError"
proof -
  from assms(1) obtain M where M: "maximumMessageCounter s = Some M" "valid M"
    by (auto simp: knows_def)
  let ?d = "diff (Some M) c"
  have a: "counter_age diff s c = - ?d" by (simp add: counter_age_def M)
  have "0 \<le> counter_age diff s c" using assms(1) by (simp add: knows_def)
  then consider "?d = 0" | "?d < - 32" | "- 32 \<le> ?d" "?d < 0"
    using a by linarith
  then show ?thesis
  proof cases
    case 1
    then show ?thesis using diff_zero [OF M(2) assms(2)] update_cases [OF M(1) assms(3,4), of diff] by simp
  next
    case 2
    then show ?thesis using update_cases [OF M(1) assms(3,4), of diff] by simp
  next
    case 3
    then have "bit (messageCounterBitmap s) (nat (- ?d - 1))" using assms(1) a by (simp add: knows_def)
    then show ?thesis using 3 update_cases [OF M(1) assms(3,4), of diff] by simp
  qed
qed

lemma knows_step:
  assumes k: "knows s c" and v: "valid c" "valid m" "0 \<le> m" "m \<le> MAX_COUNTER_VALUE_32BIT"
    and u: "updateMessageCounter diff m s = Inr s'" and b: "counter_age diff s c + window_step diff m s \<le> B"
  shows "knows s' c \<and> counter_age diff s' c = counter_age diff s c + window_step diff m s"
proof -
  from k obtain M where M: "maximumMessageCounter s = Some M" "valid M"
    by (auto simp: knows_def)
  let ?d = "diff (Some M) m" and ?b = "messageCounterBitmap s"
  have a: "counter_age diff s c = - diff (Some M) c" by (simp add: counter_age_def M)
  from u update_cases [OF M(1) v(3,4), of diff] obtain bm where
    ne: "m \<noteq> M" and lo: "- 32 \<le> ?d" and bm: "calculateMessageCounterBitmap ?b ?d = Inr bm"
    and s': "s' = s\<lparr>messageCounterBitmap := bm, maximumMessageCounter := (if ?d > 0 then Some m else Some M)\<rparr>"
    by (auto simp: and_then_Inr_iff split: if_splits)
  have d0: "?d \<noteq> 0" using diff_zero [OF M(2) v(2)] ne by simp
  show ?thesis
  proof (cases "0 < ?d")
    case False
    with d0 have neg: "?d < 0" by simp
    have "\<forall>j<32. bit bm j \<longleftrightarrow> bit ?b j \<or> j = nat (- ?d - 1)"
      using bitmap_behind [OF lo neg, of ?b] bm by simp
    then show ?thesis using k M neg by (auto simp: knows_def counter_age_def window_step_def s')
  next
    case True
    have nxt: "diff (Some m) c = diff (Some M) c - ?d"
      using diff_advance [OF M(2) v(2) v(1) True] k b a by (simp add: knows_def window_step_def M True)
    have age': "counter_age diff s' c = counter_age diff s c + ?d" using True nxt by (simp add: counter_age_def s' M)
    have "bit bm (nat (counter_age diff s' c - 1))" if r: "1 \<le> counter_age diff s' c" "counter_age diff s' c \<le> 32"
    proof -
      have le: "?d \<le> 32" "0 \<le> counter_age diff s c" using r age' k by (auto simp: knows_def)
      have bits: "\<forall>j<32. bit bm j \<longleftrightarrow> j = nat (?d - 1) \<or>
          (if ?d = 32 then bit ?b j else nat ?d \<le> j \<and> bit ?b (j - nat ?d))"
        using bitmap_ahead [OF True le(1), of ?b] bm by simp
      show ?thesis
      proof (cases "counter_age diff s c = 0")
        case True
        then show ?thesis using bits r age' by simp
      next
        case False
        with le r age' have "1 \<le> counter_age diff s c" "counter_age diff s c \<le> 32" "?d < 32" using True by auto
        then have "bit ?b (nat (counter_age diff s c - 1))" using k by (simp add: knows_def)
        moreover have "nat (counter_age diff s' c - 1) - nat ?d = nat (counter_age diff s c - 1)" using True False le age' by simp
        moreover have "nat ?d \<le> nat (counter_age diff s' c - 1)" using False le age' by simp
        ultimately show ?thesis using bits r \<open>?d < 32\<close> by simp
      qed
    qed
    then show ?thesis using True k v(2) age' by (auto simp: knows_def s' window_step_def M)
  qed
qed

lemma update_in_range:
  "updateMessageCounter diff m s = Inr s' \<Longrightarrow> 0 \<le> m \<and> m \<le> MAX_COUNTER_VALUE_32BIT"
  by (auto simp: updateMessageCounter_def split: if_splits)

lemma knows_run:
  assumes "knows s c" "valid c" "0 \<le> c" "c \<le> MAX_COUNTER_VALUE_32BIT"
    and "\<forall>m\<in>set ms. 0 \<le> m \<and> m \<le> MAX_COUNTER_VALUE_32BIT \<longrightarrow> valid m"
    and "counter_age diff s c + window_advance diff ms s \<le> B"
  shows "knows (snd (receive_all diff ms s)) c \<and> c \<notin> set (fst (receive_all diff ms s))"
  using assms
proof (induction ms arbitrary: s)
  case (Cons m ms)
  show ?case
  proof (cases "updateMessageCounter diff m s")
    case (Inl e)
    with Cons show ?thesis by simp
  next
    case (Inr s')
    have r: "0 \<le> m" "m \<le> MAX_COUNTER_VALUE_32BIT" using update_in_range [OF Inr] by simp_all
    have vm: "valid m" using Cons.prems(5) r by simp
    have b: "counter_age diff s c + window_step diff m s + window_advance diff ms s' \<le> B" using Cons.prems(6) Inr by simp
    have st: "counter_age diff s c + window_step diff m s \<le> B" using b advance_nonneg [of ms s'] by simp
    have "knows s' c" "counter_age diff s' c = counter_age diff s c + window_step diff m s"
      using knows_step [OF Cons.prems(1,2) vm r Inr st] by simp_all
    moreover have "m \<noteq> c" using knows_refused [OF Cons.prems(1-4)] Inr by auto
    ultimately show ?thesis using Cons.IH [of s'] Cons.prems b Inr by simp
  qed
qed simp

text \<open>An accepted counter is remembered from then on.\<close>

lemma accepted_known:
  assumes "valid c" "\<And>M. maximumMessageCounter s = Some M \<Longrightarrow> valid M"
    and u: "updateMessageCounter diff c s = Inr s'"
    and "32 \<le> B"
  shows "knows s' c \<and> counter_age diff s' c \<le> 32"
proof (cases "maximumMessageCounter s")
  case None
  have "s' = initialize c s" using u update_none [OF None] update_in_range [OF u] by simp
  then show ?thesis
    using diff_zero [OF assms(1,1)] assms(1) by (simp add: knows_def counter_age_def initialize_def)
next
  case (Some M)
  note r = update_in_range [OF u, THEN conjunct1] update_in_range [OF u, THEN conjunct2]
  let ?d = "diff (Some M) c" and ?b = "messageCounterBitmap s"
  from u update_cases [OF Some r, of diff] obtain bm where
    ne: "c \<noteq> M" and lo: "- 32 \<le> ?d" and bm: "calculateMessageCounterBitmap ?b ?d = Inr bm"
    and s': "s' = s\<lparr>messageCounterBitmap := bm, maximumMessageCounter := (if ?d > 0 then Some c else Some M)\<rparr>"
    by (auto simp: and_then_Inr_iff split: if_splits)
  have vM: "valid M" using assms(2) Some by simp
  show ?thesis
  proof (cases "0 < ?d")
    case True
    then show ?thesis
      using diff_zero [OF assms(1,1)] assms(1) by (simp add: knows_def counter_age_def s')
  next
    case False
    with diff_zero [OF vM assms(1)] ne have neg: "?d < 0" by (cases "?d = 0") auto
    have "bit bm (nat (- ?d - 1))" using bitmap_behind [OF lo neg, of ?b] bm neg lo by auto
    then show ?thesis using vM neg lo by (simp add: knows_def counter_age_def s')
  qed
qed

end

subsection \<open>The three classes\<close>

definition counter_range :: "int \<Rightarrow> bool" where
  "counter_range c \<longleftrightarrow> 0 \<le> c \<and> c \<le> MAX_COUNTER_VALUE_32BIT"

lemma in_counter_range: "c \<in> {0..MAX_COUNTER_VALUE_32BIT} \<Longrightarrow> counter_range c"
  by (simp add: counter_range_def)

interpretation wo: reception_window calculateDiff_without_rollover counter_range 8589934592
  by unfold_locales (simp_all add: calculateDiff_without_rollover_def)

interpretation wr: reception_window calculateDiff_with_rollover counter_range 2147483647
proof unfold_locales
  fix M c :: int
  assume "counter_range M" "counter_range c"
  then show "calculateDiff_with_rollover (Some M) c = 0 \<longleftrightarrow> c = M"
    by (auto simp: calculateDiff_with_rollover_def reception_consts counter_range_def Let_def)
next
  fix M M' c :: int
  assume r: "counter_range M" "counter_range M'" "counter_range c"
    and d: "0 < calculateDiff_with_rollover (Some M) M'" "calculateDiff_with_rollover (Some M) c \<le> 0"
      "- 2147483647 \<le> calculateDiff_with_rollover (Some M) c - calculateDiff_with_rollover (Some M) M'"
  then show "calculateDiff_with_rollover (Some M') c =
      calculateDiff_with_rollover (Some M) c - calculateDiff_with_rollover (Some M) M'"
    by (simp add: calculateDiff_with_rollover_def reception_consts counter_range_def Let_def
        split: if_splits)
qed

definition unencrypted_range :: "int \<Rightarrow> bool" where
  "unencrypted_range c \<longleftrightarrow> 0 \<le> c \<and> c \<le> MAX_COUNTER_VALUE_32BIT - 33"

interpretation un: reception_window calculateDiff_unencrypted unencrypted_range 32
  by unfold_locales
    (auto simp: calculateDiff_unencrypted_def reception_consts unencrypted_range_def Let_def
      split: if_splits)

subsection \<open>No replay\<close>

lemma wo_advance_bounded:
  "maximumMessageCounter s = Some M \<Longrightarrow> counter_range M \<Longrightarrow>
   M + window_advance calculateDiff_without_rollover ms s \<le> MAX_COUNTER_VALUE_32BIT"
proof (induction ms arbitrary: s M)
  case Nil
  then show ?case by (simp add: counter_range_def)
next
  case (Cons m ms)
  show ?case
  proof (cases "updateMessageCounter calculateDiff_without_rollover m s")
    case (Inl e)
    with Cons show ?thesis by simp
  next
    case (Inr s')
    note r = wo.update_in_range [OF Inr]
    from Inr update_cases [OF Cons.prems(1), of m calculateDiff_without_rollover] r
    have mx: "maximumMessageCounter s' = Some (max M m)"
      by (auto simp: and_then_Inr_iff max_def split: if_splits)
    moreover have "counter_range (max M m)" using r Cons.prems(2) by (auto simp: counter_range_def)
    ultimately have "max M m + window_advance calculateDiff_without_rollover ms s' \<le> MAX_COUNTER_VALUE_32BIT"
      by (rule Cons.IH)
    then show ?thesis
      using Inr Cons.prems(1) by (simp add: window_step_def max_def split: if_splits)
  qed
qed

lemma wo_accepted_fresh:
  assumes u: "updateMessageCounter calculateDiff_without_rollover m s = Inr s'"
    and v: "\<And>M. maximumMessageCounter s = Some M \<Longrightarrow> counter_range M"
  shows "m \<notin> set (fst (receive_all calculateDiff_without_rollover ms s')) \<and>
    (\<forall>M. maximumMessageCounter s' = Some M \<longrightarrow> counter_range M)"
proof -
  have r: "0 \<le> m" "m \<le> MAX_COUNTER_VALUE_32BIT" using wo.update_in_range [OF u] by simp_all
  then have cr: "counter_range m" by (simp add: counter_range_def)
  have k: "wo.knows s' m" "counter_age calculateDiff_without_rollover s' m \<le> 32"
    using wo.accepted_known [OF cr v u] by simp_all
  then obtain M' where M': "maximumMessageCounter s' = Some M'" "counter_range M'"
    by (auto simp: wo.knows_def)
  have "counter_age calculateDiff_without_rollover s' m +
      window_advance calculateDiff_without_rollover ms s' \<le> 8589934592"
    using wo_advance_bounded [OF M', of ms] k(2) M'(2)
    by (simp add: counter_range_def MAX_COUNTER_VALUE_32BIT_def)
  then show ?thesis
    using wo.knows_run [OF k(1) cr r] M' by (simp add: counter_range_def)
qed

lemma wo_accepted_distinct:
  "(\<And>M. maximumMessageCounter s = Some M \<Longrightarrow> counter_range M) \<Longrightarrow>
   distinct (fst (receive_all calculateDiff_without_rollover ms s))"
proof (induction ms arbitrary: s)
  case (Cons m ms)
  show ?case
  proof (cases "updateMessageCounter calculateDiff_without_rollover m s")
    case (Inl e)
    with Cons show ?thesis by simp
  next
    case (Inr s')
    from wo_accepted_fresh [OF Inr Cons.prems] Cons.IH [of s'] Inr
    show ?thesis by simp
  qed
qed simp

text \<open>C1: Replay protection of an encrypted session (no rollover): whatever sequence of counters
  arrives at a freshly created reception state, no counter is accepted twice.\<close>

theorem encrypted_no_replay:
  "distinct (fst (receive_all calculateDiff_without_rollover ms (new_MessageReceptionState None)))"
  by (rule wo_accepted_distinct) (simp add: new_MessageReceptionState_def)



subsection \<open>Refinement of the window to the set of counters seen\<close>

text \<open>
  The documented behaviour: a counter above the maximum is new, a counter within the window is new
  unless it was seen, every other one is a duplicate.
\<close>

definition spec_accepts :: "int \<Rightarrow> int set \<Rightarrow> int \<Rightarrow> bool" where
  "spec_accepts M seen m \<longleftrightarrow> m > M \<or> (M - 32 \<le> m \<and> m < M \<and> m \<notin> seen)"

definition window_refines :: "reception_state \<Rightarrow> int \<Rightarrow> int set \<Rightarrow> bool" where
  "window_refines s M seen \<longleftrightarrow>
     maximumMessageCounter s = Some M \<and> seen \<subseteq> {..M} \<and> M \<in> seen \<and>
     (\<forall>j<32. bit (messageCounterBitmap s) j \<longleftrightarrow> M - 1 - int j \<in> seen)"

lemma window_refines_ahead:
  assumes r: "window_refines s M seen" and d: "M < m" "m - M \<noteq> 32"
    and bm: "calculateMessageCounterBitmap (messageCounterBitmap s) (m - M) = Inr bm"
  shows "window_refines (s\<lparr>messageCounterBitmap := bm, maximumMessageCounter := Some m\<rparr>) m (insert m seen)"
proof -
  have sub: "seen \<subseteq> {..M}" and mem: "M \<in> seen"
    and bits: "\<And>j. j < 32 \<Longrightarrow> bit (messageCounterBitmap s) j \<longleftrightarrow> M - 1 - int j \<in> seen"
    using r by (auto simp: window_refines_def)
  have "bit bm j \<longleftrightarrow> m - 1 - int j \<in> seen" if j: "j < 32" for j
  proof (cases "m - M \<le> 32")
    case True
    then have b: "bit bm j \<longleftrightarrow> j = nat (m - M - 1) \<or>
        (nat (m - M) \<le> j \<and> bit (messageCounterBitmap s) (j - nat (m - M)))"
      using bitmap_ahead [of "m - M" "messageCounterBitmap s"] bm d j by auto
    consider "int j < m - M - 1" | "int j = m - M - 1" | "m - M \<le> int j" by linarith
    then show ?thesis
    proof cases
      case 1
      with sub d show ?thesis by (auto simp: b)
    next
      case 2
      then have eq: "m - 1 - int j = M" "j = nat (m - M - 1)" by simp_all
      from eq(2) b have "bit bm j" by blast
      moreover have "m - 1 - int j \<in> seen" using eq(1) mem by simp
      ultimately show ?thesis by blast
    next
      case 3
      then have eq: "M - 1 - int (j - nat (m - M)) = m - 1 - int j" "j \<noteq> nat (m - M - 1)"
        using d by (auto simp: of_nat_diff)
      from 3 eq(2) b have "bit bm j \<longleftrightarrow> bit (messageCounterBitmap s) (j - nat (m - M))" by auto
      also have "\<dots> \<longleftrightarrow> M - 1 - int (j - nat (m - M)) \<in> seen" by (rule bits) (use j in simp)
      finally show ?thesis by (simp only: eq(1))
    qed
  next
    case False
    with bm bitmap_far_ahead [of "m - M"] have "bm = 0" by simp
    with False sub j show ?thesis by auto
  qed
  with sub d show ?thesis by (auto simp: window_refines_def)
qed

lemma window_refines_behind:
  assumes r: "window_refines s M seen" and d: "m < M" "M - 32 \<le> m"
    and bm: "calculateMessageCounterBitmap (messageCounterBitmap s) (m - M) = Inr bm"
  shows "window_refines (s\<lparr>messageCounterBitmap := bm, maximumMessageCounter := Some M\<rparr>) M (insert m seen)"
proof -
  have "bit bm j \<longleftrightarrow> bit (messageCounterBitmap s) j \<or> j = nat (M - m - 1)" if "j < 32" for j
    using bitmap_behind [of "m - M" "messageCounterBitmap s"] bm d that by auto
  with r d show ?thesis by (auto simp: window_refines_def)
qed

text \<open>C3: Without rollover the bitmap implements the documented window exactly: related to the set of
  counters seen, an update accepts precisely the new counters, reports the others as duplicates and
  stays related, for every valid counter that is not exactly 32 ahead of the maximum.\<close>

theorem encrypted_refines_spec:
  assumes "window_refines s M seen" and "0 \<le> m" "m \<le> MAX_COUNTER_VALUE_32BIT" and "m - M \<noteq> 32"
  shows "(if spec_accepts M seen m
    then \<exists>s'. updateMessageCounter calculateDiff_without_rollover m s = Inr s' \<and>
      window_refines s' (max M m) (insert m seen)
    else updateMessageCounter calculateDiff_without_rollover m s = Inl DuplicateMessageError)"
proof -
  let ?b = "messageCounterBitmap s"
  have M: "maximumMessageCounter s = Some M" using assms(1) by (simp add: window_refines_def)
  note u = update_cases [OF M assms(2,3), of calculateDiff_without_rollover]
  have d: "calculateDiff_without_rollover (Some M) m = m - M"
    by (simp add: calculateDiff_without_rollover_def)
  consider "m > M" | "m = M" | "m < M - 32" | "M - 32 \<le> m" "m < M" by linarith
  then show ?thesis
  proof cases
    case 1
    obtain bm where bm: "calculateMessageCounterBitmap ?b (m - M) = Inr bm"
      using 1 bitmap_ahead [of "m - M" ?b] bitmap_far_ahead [of "m - M" ?b] by (cases "m - M \<le> 32") auto
    with 1 u d window_refines_ahead [OF assms(1) 1 assms(4) bm] show ?thesis
      by (simp add: spec_accepts_def max_def)
  next
    case 4
    then have j: "bit ?b (nat (M - m - 1)) \<longleftrightarrow> m \<in> seen"
      using assms(1) by (auto simp: window_refines_def)
    obtain bm where bm: "calculateMessageCounterBitmap ?b (m - M) = Inr bm"
      using 4 bitmap_behind [of "m - M" ?b] by auto
    with 4 u d j window_refines_behind [OF assms(1) 4(2,1) bm] show ?thesis
      by (simp add: spec_accepts_def max_def)
  qed (use u d in \<open>simp_all add: spec_accepts_def\<close>)
qed

lemma window_refines_new: "window_refines (new_MessageReceptionState (Some m)) m {..m}"
proof -
  have "bit (4294967295::int) j" if "j < 32" for j
    using that bit_mask_iff [where 'a = int, of 32 j] by (simp add: mask_eq_exp_minus_1)
  then show ?thesis by (simp add: window_refines_def new_MessageReceptionState_def initialize_def)
qed

lemma encrypted_refines_spec_witness:
  "\<exists>s'. updateMessageCounter calculateDiff_without_rollover 7 (new_MessageReceptionState (Some 5)) = Inr s' \<and>
     window_refines s' 7 (insert 7 {..5})"
  using encrypted_refines_spec [OF window_refines_new [of 5], of 7]
  by (simp add: spec_accepts_def reception_consts)

subsection \<open>Where the window departs from its documentation\<close>

text \<open>A counter exactly 32 ahead leaves the bitmap unshifted (the shift count 32 is 0): right after
  the first message, each of the 31 counters between the two maxima is refused although it never
  arrived.\<close>

theorem jump_of_32_drops_unseen:
  assumes "0 \<le> M" "M + 32 \<le> MAX_COUNTER_VALUE_32BIT" "M < m" "m < M + 32"
  shows "fst (receive_all calculateDiff_without_rollover [M, M + 32, m] (new_MessageReceptionState None)) = [M, M + 32]"
proof -
  let ?f = calculateDiff_without_rollover
  have s0: "updateMessageCounter ?f M (new_MessageReceptionState None) = Inr (new_MessageReceptionState (Some M))"
    using assms by (subst update_none) (simp_all add: new_MessageReceptionState_def initialize_def)
  have mx: "maximumMessageCounter (new_MessageReceptionState (Some M)) = Some M"
    by (simp add: new_MessageReceptionState_def initialize_def)
  obtain bm where bm: "calculateMessageCounterBitmap 4294967295 32 = Inr bm"
    and bits: "\<forall>j<32. bit bm j \<longleftrightarrow> j = 31 \<or> bit (4294967295::int) j"
    using bitmap_ahead [of 32 4294967295] by auto
  define s1 where "s1 = \<lparr>maximumMessageCounter = Some (M + 32), messageCounterBitmap = bm\<rparr>"
  have s1: "updateMessageCounter ?f (M + 32) (new_MessageReceptionState (Some M)) = Inr s1"
    using assms bm by (subst update_cases [OF mx])
      (simp_all add: s1_def calculateDiff_without_rollover_def new_MessageReceptionState_def initialize_def)
  have "bit bm (nat (M + 31 - m))"
    using bits assms window_refines_new [of M]
    by (auto simp: window_refines_def new_MessageReceptionState_def initialize_def)
  then have "updateMessageCounter ?f m s1 = Inl DuplicateMessageError"
    using assms by (subst update_cases [of s1 "M + 32"])
      (auto simp: s1_def calculateDiff_without_rollover_def algebra_simps)
  with s0 s1 show ?thesis by simp
qed

lemma jump_of_32_drops_unseen_witness:
  "fst (receive_all calculateDiff_without_rollover [100, 100 + 32, 120] (new_MessageReceptionState None)) = [100, 100 + 32]"
  by (rule jump_of_32_drops_unseen) (simp_all add: MAX_COUNTER_VALUE_32BIT_def)

text \<open>On an unencrypted session the difference is one too small at the rollover: once the largest
  counter has been received, counter 0 is accepted every time it arrives, without moving the window.\<close>

theorem unencrypted_rollover_replay:
  "fst (receive_all calculateDiff_unencrypted (MAX_COUNTER_VALUE_32BIT # replicate n 0)
     (new_MessageReceptionState None)) = MAX_COUNTER_VALUE_32BIT # replicate n 0"
proof -
  let ?f = calculateDiff_unencrypted
  have first: "updateMessageCounter ?f MAX_COUNTER_VALUE_32BIT (new_MessageReceptionState None) =
      Inr (new_MessageReceptionState (Some MAX_COUNTER_VALUE_32BIT))"
    by (subst update_none) (simp_all add: new_MessageReceptionState_def initialize_def MAX_COUNTER_VALUE_32BIT_def)
  have again: "updateMessageCounter ?f 0 s = Inr s"
    if "s = new_MessageReceptionState (Some MAX_COUNTER_VALUE_32BIT)" for s
    using that by (subst update_cases [of s MAX_COUNTER_VALUE_32BIT])
      (simp_all add: new_MessageReceptionState_def initialize_def calculateDiff_unencrypted_def
        reception_consts bitmap_same js_ushr_0)
  have "fst (receive_all ?f (replicate n 0) (new_MessageReceptionState (Some MAX_COUNTER_VALUE_32BIT))) = replicate n 0"
    by (induction n) (simp_all add: again)
  with first show ?thesis by simp
qed

end
