(* ===== verification/BytesIO.thy ===== *)
theory BytesIO
  imports Prelude
begin

text \<open>
  Byte strings and the two classes all codecs are written with, \<open>DataReader\<close> and \<open>DataWriter\<close>
  of packages/general/src/util, with the number helpers of \<open>Number.ts\<close> and \<open>Bytes.concat\<close>.
  A \<open>Uint8Array\<close> is a list of bytes, a \<open>DataView\<close> read outside the array is a \<open>RangeError\<close>, and
  the endianness of a reader or writer is a field of its record.  The locale \<open>field_codec\<close> states
  the contract between the encoder and the decoder of one field or message; it is interpreted
  here for the integer fields and, in the component theories, for the headers and TLV elements.
\<close>

type_synonym byte = "8 word"

subsection \<open>Integers as bytes\<close>

fun le_bytes :: "nat \<Rightarrow> int \<Rightarrow> byte list" where
  "le_bytes 0 v = []"
| "le_bytes (Suc n) v = word_of_int v # le_bytes n (v div 256)"

fun le_val :: "byte list \<Rightarrow> int" where
  "le_val [] = 0"
| "le_val (b # bs) = uint b + 256 * le_val bs"

lemma length_le_bytes [simp]: "length (le_bytes n v) = n"
  by (induction n arbitrary: v) auto

lemma uint_byte [simp]: "uint (word_of_int v :: byte) = v mod 256"
  by (simp add: uint_word_of_int)

lemma byte_bounds [simp]: "0 \<le> uint (b :: byte)" "uint (b :: byte) < 256" "uint (b :: byte) \<le> 255"
  using uint_bounded [of b] by simp_all

lemma le_val_le_bytes [simp]: "le_val (le_bytes n v) = v mod 256 ^ n"
  by (induction n arbitrary: v) (simp_all add: zmod_zmult2_eq)

lemma le_val_bounds: "0 \<le> le_val bs \<and> le_val bs < 256 ^ length bs"
proof (induction bs)
  case (Cons b bs)
  have "0 \<le> uint b" "uint b \<le> 255" by simp_all
  with Cons have "0 \<le> uint b + 256 * le_val bs \<and> uint b + 256 * le_val bs < 256 * 256 ^ length bs"
    by linarith
  then show ?case by simp
qed simp

lemma le_bytes_le_val: "le_bytes (length bs) (le_val bs) = bs"
proof (induction bs)
  case (Cons b bs)
  have "(uint b + 256 * le_val bs) div 256 = le_val bs" by simp
  moreover have "(word_of_int (uint b + 256 * le_val bs) :: byte) = b"
    by (rule word_uint_eqI) (simp only: uint_byte mod_mult_self4 mod_mult_self1 mod_mult_self2
        mod_pos_pos_trivial [OF byte_bounds(1,2)])
  ultimately show ?case using Cons by simp
qed simp

lemma le_bytes_mod: "le_bytes n (v mod 256 ^ n) = le_bytes n v"
  using le_bytes_le_val [of "le_bytes n v"] by simp

lemma le_bytes_add: "le_bytes (m + n) v = le_bytes m v @ le_bytes n (v div 256 ^ m)"
  by (induction m arbitrary: v) (simp_all add: zdiv_zmult2_eq)

declare le_bytes.simps [simp del]

text \<open>Two's complement reading of an \<open>n\<close>-byte unsigned value.\<close>

definition as_signed :: "nat \<Rightarrow> int \<Rightarrow> int" where
  "as_signed n v = (if v < 2 ^ (8 * n - 1) then v else v - 2 ^ (8 * n))"

lemma as_signed_mod:
  assumes "0 < n" "- (2 ^ (8 * n - 1)) \<le> v" "v < 2 ^ (8 * n - 1)"
  shows "as_signed n (v mod 256 ^ n) = v"
proof -
  have e: "(256::int) ^ n = 2 ^ (8 * n)" by (simp add: power_mult)
  have d: "(2::int) ^ (8 * n) = 2 * 2 ^ (8 * n - 1)"
    using assms(1) by (simp add: power_eq_if)
  show ?thesis
  proof (cases "0 \<le> v")
    case True
    with assms d e have "v mod 256 ^ n = v" by simp
    with assms show ?thesis by (simp add: as_signed_def)
  next
    case False
    have "v mod 256 ^ n = (v + 2 ^ (8 * n)) mod 256 ^ n" by (simp add: e)
    also have "\<dots> = v + 2 ^ (8 * n)" using False assms d e by (intro mod_pos_pos_trivial) auto
    finally show ?thesis using assms d by (simp add: as_signed_def)
  qed
qed

subsection \<open>Number.ts\<close>

text \<open>
  \<open>Number(bigint)\<close> rounds to 53 significant bits, ties to even.  \<open>to_number\<close> is the identity on
  every integer a \<open>number\<close> can hold, so it also models the \<open>number\<close> case.
\<close>

definition round_half_even :: "int \<Rightarrow> int \<Rightarrow> int" where
  "round_half_even a d =
     (let q = a div d; r = a mod d
      in if 2 * r < d \<or> (2 * r = d \<and> even q) then q else q + 1)"

function bit_width :: "int \<Rightarrow> nat" where
  "bit_width n = (if n \<le> 0 then 0 else Suc (bit_width (n div 2)))"
  by pat_completeness auto
termination
  by (relation "measure nat") auto

declare bit_width.simps [simp del]

definition toNumber :: "int \<Rightarrow> int" where
  "toNumber v =
     (if \<bar>v\<bar> \<le> 9007199254740992 then v
      else let k = bit_width \<bar>v\<bar> - 53
           in sgn v * (round_half_even \<bar>v\<bar> (2 ^ k) * 2 ^ k))"

lemma toNumber_id [simp]: "- 9007199254740992 \<le> v \<Longrightarrow> v \<le> 9007199254740992 \<Longrightarrow> toNumber v = v"
  by (auto simp: toNumber_def)

definition UINT8_MAX :: int where "UINT8_MAX = 255"
definition UINT16_MAX :: int where "UINT16_MAX = 65535"
definition UINT24_MAX :: int where "UINT24_MAX = 16777215"
definition UINT32_MAX :: int where "UINT32_MAX = 4294967295"
definition UINT64_MAX :: int where "UINT64_MAX = 18446744073709551615"
definition INT8_MIN :: int where "INT8_MIN = - 128"
definition INT16_MIN :: int where "INT16_MIN = - 32768"
definition INT32_MIN :: int where "INT32_MIN = - 2147483648"
definition INT64_MIN :: int where "INT64_MIN = - 9223372036854775808"
definition INT8_MAX :: int where "INT8_MAX = 127"
definition INT16_MAX :: int where "INT16_MAX = 32767"
definition INT32_MAX :: int where "INT32_MAX = 2147483647"
definition INT64_MAX :: int where "INT64_MAX = 9223372036854775807"

lemmas int_limit_defs =
  UINT8_MAX_def UINT16_MAX_def UINT24_MAX_def UINT32_MAX_def UINT64_MAX_def
  INT8_MIN_def INT16_MIN_def INT32_MIN_def INT64_MIN_def
  INT8_MAX_def INT16_MAX_def INT32_MAX_def INT64_MAX_def

text \<open>The optional bounds of a schema: \<open>undefined\<close> is \<open>None\<close>.\<close>

fun minValue :: "int option \<Rightarrow> int option \<Rightarrow> int option" where
  "minValue None b = b"
| "minValue a None = a"
| "minValue (Some a) (Some b) = Some (if a < b then a else b)"

fun maxValue :: "int option \<Rightarrow> int option \<Rightarrow> int option" where
  "maxValue None b = b"
| "maxValue a None = a"
| "maxValue (Some a) (Some b) = Some (if a > b then a else b)"

subsection \<open>Uint8Array and DataView\<close>

text \<open>
  \<open>subarray(begin, end)\<close>: negative positions count from the end, positions are clamped, an end
  before the beginning gives the empty array.
\<close>

definition rel_index :: "int \<Rightarrow> int \<Rightarrow> int" where
  "rel_index len i = (if i < 0 then max (len + i) 0 else min i len)"

definition subarray :: "byte list \<Rightarrow> int \<Rightarrow> int \<Rightarrow> byte list" where
  "subarray bs b e =
     (let len = int (length bs); b' = rel_index len b; e' = rel_index len e
      in take (nat (e' - b')) (drop (nat b') bs))"

definition data_view_get :: "nat \<Rightarrow> byte list \<Rightarrow> int \<Rightarrow> byte list res" where
  "data_view_get n bs off =
     (if off < 0 \<or> off + int n > int (length bs) then Inl RangeError
      else Inr (take n (drop (nat off) bs)))"

text \<open>\<open>array.set(chunk, offset)\<close>.\<close>

definition array_set :: "byte list \<Rightarrow> byte list \<Rightarrow> nat \<Rightarrow> byte list res" where
  "array_set arr chunk off =
     (if off + length chunk > length arr then Inl RangeError
      else Inr (take off arr @ chunk @ drop (off + length chunk) arr))"

fun copy_chunks :: "byte list list \<Rightarrow> nat \<Rightarrow> byte list \<Rightarrow> byte list res" where
  "copy_chunks [] off arr = Inr arr"
| "copy_chunks (c # cs) off arr =
     and_then (array_set arr c off) (copy_chunks cs (off + length c))"

lemma copy_chunks_fill:
  "length (concat cs) = length post \<Longrightarrow>
   copy_chunks cs (length pre) (pre @ post) = Inr (pre @ concat cs)"
proof (induction cs arbitrary: pre post)
  case (Cons c cs)
  from Cons.prems have l: "length (concat cs) = length (drop (length c) post)" by simp
  from Cons.prems have "array_set (pre @ post) c (length pre) = Inr ((pre @ c) @ drop (length c) post)"
    by (simp add: array_set_def)
  with Cons.IH [OF l, of "pre @ c"] show ?case by simp
qed simp

definition bytes_concat :: "byte list list \<Rightarrow> byte list res" where
  "bytes_concat arrays =
     (let len = fold (\<lambda>a l. l + length a) arrays 0
      in copy_chunks arrays 0 (replicate len 0))"

lemma fold_length: "fold (\<lambda>a l. l + length a) arrays n = n + length (concat arrays)"
  by (induction arrays arbitrary: n) auto

lemma bytes_concat_eq [simp]: "bytes_concat arrays = Inr (concat arrays)"
  using copy_chunks_fill [of arrays "replicate (length (concat arrays)) 0" "[]"]
  by (simp add: bytes_concat_def fold_length)

subsection \<open>DataReader.ts\<close>

record data_reader =
  littleEndian :: bool
  buffer :: "byte list"
  offset :: int

definition new_DataReader :: "byte list \<Rightarrow> bool \<Rightarrow> data_reader" where
  "new_DataReader buf little = \<lparr>littleEndian = little, buffer = buf, offset = 0\<rparr>"

definition getOffsetAndAdvance :: "int \<Rightarrow> data_reader \<Rightarrow> int \<times> data_reader" where
  "getOffsetAndAdvance sz r =
     (let result = offset r;
          off = offset r + sz;
          off = (if off > int (length (buffer r)) then int (length (buffer r)) else off)
      in (result, r\<lparr>offset := off\<rparr>))"

text \<open>The unsigned and signed integer reads share the fetch of \<open>n\<close> bytes.\<close>

definition read_uint :: "nat \<Rightarrow> data_reader \<Rightarrow> (int \<times> data_reader) res" where
  "read_uint n r =
     (let (off, r') = getOffsetAndAdvance (int n) r
      in and_then (data_view_get n (buffer r) off)
           (\<lambda>bs. Inr (le_val (if littleEndian r then bs else rev bs), r')))"

definition readUInt8 :: "data_reader \<Rightarrow> (int \<times> data_reader) res" where
  "readUInt8 = read_uint 1"

definition readUInt16 :: "data_reader \<Rightarrow> (int \<times> data_reader) res" where
  "readUInt16 = read_uint 2"

definition readUInt32 :: "data_reader \<Rightarrow> (int \<times> data_reader) res" where
  "readUInt32 = read_uint 4"

definition readUInt64 :: "data_reader \<Rightarrow> (int \<times> data_reader) res" where
  "readUInt64 = read_uint 8"

definition read_int :: "nat \<Rightarrow> data_reader \<Rightarrow> (int \<times> data_reader) res" where
  "read_int n r = and_then (read_uint n r) (\<lambda>(v, r'). Inr (as_signed n v, r'))"

definition readInt8 :: "data_reader \<Rightarrow> (int \<times> data_reader) res" where
  "readInt8 = read_int 1"

definition readInt16 :: "data_reader \<Rightarrow> (int \<times> data_reader) res" where
  "readInt16 = read_int 2"

definition readInt32 :: "data_reader \<Rightarrow> (int \<times> data_reader) res" where
  "readInt32 = read_int 4"

definition readInt64 :: "data_reader \<Rightarrow> (int \<times> data_reader) res" where
  "readInt64 = read_int 8"

definition readByteArray :: "int \<Rightarrow> data_reader \<Rightarrow> byte list \<times> data_reader" where
  "readByteArray len r =
     (let (off, r') = getOffsetAndAdvance len r in (subarray (buffer r) off (off + len), r'))"

definition remainingBytesCount :: "data_reader \<Rightarrow> int" where
  "remainingBytesCount r = int (length (buffer r)) - offset r"

definition remainingBytes :: "data_reader \<Rightarrow> byte list" where
  "remainingBytes r = subarray (buffer r) (offset r) (int (length (buffer r)))"

definition reader_length :: "data_reader \<Rightarrow> int" where
  "reader_length r = int (length (buffer r))"

definition set_offset :: "int \<Rightarrow> data_reader \<Rightarrow> data_reader res" where
  "set_offset off r =
     (if off > int (length (buffer r)) then Inl PlainError else Inr (r\<lparr>offset := off\<rparr>))"

text \<open>
  The reader after \<open>pre\<close> with \<open>rest\<close> still to come: the normal form in which the codec proofs
  step through a message.
\<close>

definition rd :: "byte list \<Rightarrow> byte list \<Rightarrow> data_reader" where
  "rd pre rest = \<lparr>littleEndian = True, buffer = pre @ rest, offset = int (length pre)\<rparr>"

lemma new_DataReader_rd: "new_DataReader bs True = rd [] bs"
  by (simp add: new_DataReader_def rd_def)

lemma rd_inject: "rd pre rest = rd pre' rest' \<longleftrightarrow> pre = pre' \<and> rest = rest'"
  by (auto simp: rd_def)

lemma getOffsetAndAdvance_rd:
  "length bs = n \<Longrightarrow> getOffsetAndAdvance (int n) (rd pre (bs @ rest)) = (int (length pre), rd (pre @ bs) rest)"
  by (auto simp: getOffsetAndAdvance_def rd_def Let_def)

lemma read_uint_rd:
  "length bs = n \<Longrightarrow> read_uint n (rd pre (bs @ rest)) = Inr (le_val bs, rd (pre @ bs) rest)"
  by (simp add: read_uint_def getOffsetAndAdvance_rd) (simp add: rd_def data_view_get_def)

lemma read_uint_le_bytes [codec_simps]:
  "read_uint n (rd pre (le_bytes n v @ rest)) = Inr (v mod 256 ^ n, rd (pre @ le_bytes n v) rest)"
  using read_uint_rd [of "le_bytes n v" n] by simp

lemma read_uint_le_bytes_end [codec_simps]:
  "read_uint n (rd pre (le_bytes n v)) = Inr (v mod 256 ^ n, rd (pre @ le_bytes n v) [])"
  using read_uint_le_bytes [of n pre v "[]"] by simp

lemma read_uint_range: "read_uint n r = Inr (v, r') \<Longrightarrow> 0 \<le> v \<and> v < 256 ^ n"
proof -
  assume "read_uint n r = Inr (v, r')"
  then obtain bs where "v = le_val bs" "length bs = n"
    by (auto simp: read_uint_def Let_def data_view_get_def and_then_Inr_iff split: if_splits prod.splits)
  with le_val_bounds [of bs] show ?thesis by simp
qed

lemma readUInt8_range: "readUInt8 r = Inr (v, r') \<Longrightarrow> 0 \<le> v \<and> v < 256"
  using read_uint_range [of 1 r v r'] by (simp add: readUInt8_def)

lemma read_uint_short: "length rest < n \<Longrightarrow> read_uint n (rd pre rest) = Inl RangeError"
  by (simp add: read_uint_def getOffsetAndAdvance_def rd_def data_view_get_def Let_def)

lemma subarray_rest [simp]: "subarray (pre @ rest) (int (length pre)) (int (length pre) + int (length rest)) = rest"
  by (simp add: subarray_def rel_index_def)

lemma remainingBytes_rd [codec_simps]: "remainingBytes (rd pre rest) = rest"
  by (simp add: remainingBytes_def rd_def)

lemma remainingBytesCount_rd [codec_simps]: "remainingBytesCount (rd pre rest) = int (length rest)"
  by (simp add: remainingBytesCount_def rd_def)

lemma reader_length_rd [codec_simps]: "reader_length (rd pre rest) = int (length pre + length rest)"
  by (simp add: reader_length_def rd_def)

lemma readByteArray_rd [codec_simps]:
  "l = int (length bs) \<Longrightarrow> readByteArray l (rd pre (bs @ rest)) = (bs, rd (pre @ bs) rest)"
proof -
  have "readByteArray (int (length bs)) (rd pre (bs @ rest)) = (bs, rd (pre @ bs) rest)"
    unfolding readByteArray_def getOffsetAndAdvance_rd [OF refl] prod.case
    by (simp add: rd_def subarray_def rel_index_def)
  then show "l = int (length bs) \<Longrightarrow> ?thesis" by simp
qed

text \<open>A read of more bytes than are left gives what is left and stops at the end.\<close>

lemma readByteArray_rd_take:
  "0 \<le> l \<Longrightarrow> readByteArray l (rd pre rest) = (take (nat l) rest, rd (pre @ take (nat l) rest) (drop (nat l) rest))"
proof (cases "nat l \<le> length rest")
  case True
  assume "0 \<le> l"
  with True show ?thesis
    using readByteArray_rd [of l "take (nat l) rest" pre "drop (nat l) rest"] by simp
next
  case False
  assume "0 \<le> l"
  with False show ?thesis
    by (auto simp: readByteArray_def getOffsetAndAdvance_def rd_def Let_def subarray_def rel_index_def)
qed

subsection \<open>DataWriter.ts\<close>

record data_writer =
  wLittleEndian :: bool
  wlength :: nat
  chunks :: "byte list list"

definition new_DataWriter :: "bool \<Rightarrow> data_writer" where
  "new_DataWriter little = \<lparr>wLittleEndian = little, wlength = 0, chunks = []\<rparr>"

definition push_chunk :: "byte list \<Rightarrow> data_writer \<Rightarrow> data_writer" where
  "push_chunk c w = w\<lparr>chunks := chunks w @ [c], wlength := wlength w + length c\<rparr>"

text \<open>
  \<open>setUint16\<close>, \<open>setInt16\<close> and their kin store the low bytes of the value, so the signed and the
  unsigned writes of one width are the same function.
\<close>

definition write_int :: "nat \<Rightarrow> int \<Rightarrow> data_writer \<Rightarrow> data_writer" where
  "write_int n v w =
     push_chunk (if wLittleEndian w then le_bytes n v else rev (le_bytes n v)) w"

definition writeUInt8 :: "int \<Rightarrow> data_writer \<Rightarrow> data_writer" where
  "writeUInt8 v = write_int 1 (toNumber v)"

definition writeUInt16 :: "int \<Rightarrow> data_writer \<Rightarrow> data_writer" where
  "writeUInt16 v = write_int 2 (toNumber v)"

definition writeUInt32 :: "int \<Rightarrow> data_writer \<Rightarrow> data_writer" where
  "writeUInt32 v = write_int 4 (toNumber v)"

definition writeUInt64 :: "int \<Rightarrow> data_writer \<Rightarrow> data_writer" where
  "writeUInt64 v = write_int 8 v"

definition writeInt8 :: "int \<Rightarrow> data_writer \<Rightarrow> data_writer" where
  "writeInt8 v = write_int 1 (toNumber v)"

definition writeInt16 :: "int \<Rightarrow> data_writer \<Rightarrow> data_writer" where
  "writeInt16 v = write_int 2 (toNumber v)"

definition writeInt32 :: "int \<Rightarrow> data_writer \<Rightarrow> data_writer" where
  "writeInt32 v = write_int 4 (toNumber v)"

definition writeInt64 :: "int \<Rightarrow> data_writer \<Rightarrow> data_writer" where
  "writeInt64 v = write_int 8 v"

definition writeByteArray :: "byte list \<Rightarrow> data_writer \<Rightarrow> data_writer" where
  "writeByteArray bs = push_chunk bs"

definition toByteArray :: "data_writer \<Rightarrow> (byte list \<times> data_writer) res" where
  "toByteArray w =
     (case chunks w of
        [] \<Rightarrow> Inr ([], w)
      | [c] \<Rightarrow> Inr (c, w)
      | cs \<Rightarrow> and_then (copy_chunks cs 0 (replicate (wlength w) 0))
                (\<lambda>result. Inr (result, w\<lparr>chunks := [result]\<rparr>)))"

text \<open>What has been written so far, and the invariant that makes \<open>toByteArray\<close> return it.\<close>

definition written :: "data_writer \<Rightarrow> byte list" where
  "written w = concat (chunks w)"

definition wf_writer :: "data_writer \<Rightarrow> bool" where
  "wf_writer w \<longleftrightarrow> wLittleEndian w \<and> wlength w = length (written w)"

named_theorems writer_simps \<open>effect of the write operations on the written bytes\<close>

lemma new_DataWriter_wf [writer_simps]:
  "wf_writer (new_DataWriter True)" "written (new_DataWriter True) = []"
  by (simp_all add: new_DataWriter_def wf_writer_def written_def)

lemma write_int_written [writer_simps]:
  "wf_writer w \<Longrightarrow> written (write_int n v w) = written w @ le_bytes n v"
  "wf_writer w \<Longrightarrow> wf_writer (write_int n v w)"
  by (simp_all add: write_int_def push_chunk_def written_def wf_writer_def)

lemma writeByteArray_written [writer_simps]:
  "written (writeByteArray bs w) = written w @ bs"
  "wf_writer w \<Longrightarrow> wf_writer (writeByteArray bs w)"
  by (simp_all add: writeByteArray_def push_chunk_def written_def wf_writer_def)

lemmas write_defs =
  writeUInt8_def writeUInt16_def writeUInt32_def writeUInt64_def
  writeInt8_def writeInt16_def writeInt32_def writeInt64_def

lemmas read_defs =
  readUInt8_def readUInt16_def readUInt32_def readUInt64_def

lemma toByteArray_written:
  assumes "wf_writer w"
  shows "\<exists>w'. toByteArray w = Inr (written w, w')"
proof -
  have "copy_chunks (chunks w) 0 (replicate (wlength w) 0) = Inr (written w)"
    using copy_chunks_fill [of "chunks w" "replicate (wlength w) 0" "[]"] assms
    by (simp add: wf_writer_def written_def)
  then show ?thesis by (auto simp: toByteArray_def written_def split: list.splits)
qed

text \<open>The bytes \<open>toByteArray\<close> returns, when the writer is dropped afterwards.\<close>

definition writer_bytes :: "data_writer \<Rightarrow> byte list res" where
  "writer_bytes w = and_then (toByteArray w) (\<lambda>(bs, w'). Inr bs)"

lemma writer_bytes_written [writer_simps]: "wf_writer w \<Longrightarrow> writer_bytes w = Inr (written w)"
  using toByteArray_written [of w] by (auto simp: writer_bytes_def)

subsection \<open>The contract between an encoder and a decoder\<close>

text \<open>
  A decoder that is given what the encoder produced, anywhere in a buffer and whatever follows,
  returns the value and stands right behind it.  What follows from that alone is proved once.
\<close>

locale field_codec =
  fixes enc :: "'a \<Rightarrow> byte list"
    and dec :: "data_reader \<Rightarrow> (js_error + 'a \<times> data_reader)"
    and ok :: "'a \<Rightarrow> bool"
  assumes dec_enc: "ok x \<Longrightarrow> dec (rd pre (enc x @ rest)) = Inr (x, rd (pre @ enc x) rest)"
begin

lemma whole: "ok x \<Longrightarrow> dec (new_DataReader (enc x) True) = Inr (x, rd (enc x) [])"
  using dec_enc [of x "[]" "[]"] by (simp add: new_DataReader_rd)

lemma unambiguous:
  assumes "ok x" "ok y" "enc x @ r = enc y @ s"
  shows "x = y \<and> r = s"
proof -
  have "dec (rd [] (enc x @ r)) = dec (rd [] (enc y @ s))" using assms(3) by simp
  with dec_enc [OF assms(1), of "[]" r] dec_enc [OF assms(2), of "[]" s] assms(3)
  show ?thesis by simp
qed

lemma enc_inject: "ok x \<Longrightarrow> ok y \<Longrightarrow> enc x = enc y \<Longrightarrow> x = y"
  using unambiguous [of x y "[]" "[]"] by simp

end

text \<open>The integer fields, in little-endian order.\<close>

interpretation uint_field: field_codec "le_bytes n" "read_uint n" "\<lambda>v. 0 \<le> v \<and> v < 256 ^ n" for n
  by unfold_locales (simp add: read_uint_le_bytes mod_pos_pos_trivial)

lemma read_int_le_bytes [codec_simps]:
  "0 < n \<Longrightarrow> - (2 ^ (8 * n - 1)) \<le> v \<Longrightarrow> v < 2 ^ (8 * n - 1) \<Longrightarrow>
   read_int n (rd pre (le_bytes n v @ rest)) = Inr (v, rd (pre @ le_bytes n v) rest)"
  by (simp add: read_int_def read_uint_le_bytes as_signed_mod)

interpretation int_field: field_codec "le_bytes n" "read_int n"
  "\<lambda>v. 0 < n \<and> - (2 ^ (8 * n - 1)) \<le> v \<and> v < 2 ^ (8 * n - 1)" for n
  by unfold_locales (simp add: read_int_le_bytes)

end
