(* ===== verification/Storage.thy ===== *)
theory Storage
  imports JsText
begin

text \<open>
  The key/value storage of packages/general/src/storage: the in-memory backend
  (\<open>StorageBackendMemory.ts\<close>) and the view of it through \<open>StorageContext.ts\<close>, on the synchronous
  path (the promise path returns the same values).  A stored value is a \<open>'v option\<close>, since a key
  can be set to \<open>undefined\<close>.  The locale \<open>storage_backend\<close> is the contract a \<open>StorageContext\<close>
  relies on; the memory backend is its interpretation.  Keys that name members of
  \<open>Object.prototype\<close> are outside the model.
\<close>

subsection \<open>StorageBackendMemory\<close>

record 'v storage_memory =
  isInitialized :: bool
  store :: "('v option) js_object js_object"

definition new_StorageBackendMemory :: "('v option) js_object js_object \<Rightarrow> 'v storage_memory" where
  "new_StorageBackendMemory st = \<lparr>isInitialized = False, store = st\<rparr>"

definition createContextKey :: "string list \<Rightarrow> string res" where
  "createContextKey contexts =
     (let key = js_join ''.'' contexts
      in if key = [] \<or> js_includes ''..'' key \<or> starts_with ''.'' key \<or> ends_with ''.'' key
         then Inl StorageError else Inr key)"

definition mem_initialize :: "'v storage_memory \<Rightarrow> 'v storage_memory res" where
  "mem_initialize s = (if isInitialized s then Inl StorageError else Inr (s\<lparr>isInitialized := True\<rparr>))"

definition mem_create :: "('v option) js_object js_object \<Rightarrow> 'v storage_memory res" where
  "mem_create st = mem_initialize (new_StorageBackendMemory st)"

definition mem_clone :: "'v storage_memory \<Rightarrow> 'v storage_memory res" where
  "mem_clone s = mem_initialize (new_StorageBackendMemory (store s))"

definition mem_close :: "'v storage_memory \<Rightarrow> 'v storage_memory" where
  "mem_close s = s\<lparr>isInitialized := False\<rparr>"

definition mem_clear :: "'v storage_memory \<Rightarrow> 'v storage_memory" where
  "mem_clear s = s\<lparr>store := []\<rparr>"

definition mem_get :: "'v storage_memory \<Rightarrow> string list \<Rightarrow> string \<Rightarrow> 'v option res" where
  "mem_get s contexts key =
     (if \<not> isInitialized s then Inl StorageError
      else if contexts = [] \<or> key = [] then Inl StorageError
      else and_then (createContextKey contexts) (\<lambda>ck.
        Inr (case map_of (store s) ck of
               None \<Rightarrow> None
             | Some ob \<Rightarrow> (case map_of ob key of None \<Rightarrow> None | Some v \<Rightarrow> v))))"

definition mem_setKey ::
  "string list \<Rightarrow> string \<Rightarrow> 'v option \<Rightarrow> 'v storage_memory \<Rightarrow> 'v storage_memory res" where
  "mem_setKey contexts key v s =
     (if contexts = [] \<or> key = [] then Inl StorageError
      else and_then (createContextKey contexts) (\<lambda>ck.
        let s = (if map_of (store s) ck = None then s\<lparr>store := obj_set ck [] (store s)\<rparr> else s);
            ob = (case map_of (store s) ck of None \<Rightarrow> [] | Some ob \<Rightarrow> ob)
        in Inr (s\<lparr>store := obj_set ck (obj_set key v ob) (store s)\<rparr>)))"

definition mem_set ::
  "'v storage_memory \<Rightarrow> string list \<Rightarrow> string \<Rightarrow> 'v option \<Rightarrow> 'v storage_memory res" where
  "mem_set s contexts key v =
     (if \<not> isInitialized s then Inl StorageError else mem_setKey contexts key v s)"

definition mem_set_values ::
  "'v storage_memory \<Rightarrow> string list \<Rightarrow> ('v option) js_object \<Rightarrow> 'v storage_memory res" where
  "mem_set_values s contexts vals =
     (if \<not> isInitialized s then Inl StorageError
      else fold_res (\<lambda>k s. mem_setKey contexts k
             (case map_of vals k of None \<Rightarrow> None | Some v \<Rightarrow> v) s) (obj_keys vals) s)"

definition mem_delete :: "'v storage_memory \<Rightarrow> string list \<Rightarrow> string \<Rightarrow> 'v storage_memory res" where
  "mem_delete s contexts key =
     (if \<not> isInitialized s then Inl StorageError
      else if contexts = [] \<or> key = [] then Inl StorageError
      else and_then (createContextKey contexts) (\<lambda>ck.
        Inr (case map_of (store s) ck of
               None \<Rightarrow> s
             | Some ob \<Rightarrow> s\<lparr>store := obj_set ck (obj_delete key ob) (store s)\<rparr>)))"

definition mem_keys :: "'v storage_memory \<Rightarrow> string list \<Rightarrow> string list res" where
  "mem_keys s contexts =
     (if \<not> isInitialized s then Inl StorageError
      else if contexts = [] then Inl StorageError
      else and_then (createContextKey contexts) (\<lambda>ck.
        Inr (case map_of (store s) ck of None \<Rightarrow> [] | Some ob \<Rightarrow> obj_keys ob)))"

definition mem_values :: "'v storage_memory \<Rightarrow> string list \<Rightarrow> ('v option) js_object res" where
  "mem_values s contexts =
     and_then (mem_keys s contexts) (\<lambda>ks.
       fold_res (\<lambda>k vals. and_then (mem_get s contexts k) (\<lambda>v. Inr (obj_set k v vals))) ks [])"

definition mem_contexts :: "'v storage_memory \<Rightarrow> string list \<Rightarrow> string list res" where
  "mem_contexts s contexts =
     (if \<not> isInitialized s then Inl StorageError
      else and_then (if contexts \<noteq> [] then createContextKey contexts else Inr []) (\<lambda>contextKey.
        let startContextKey = (if contextKey \<noteq> [] then contextKey @ ''.'' else [])
        in Inr (fold (\<lambda>key found.
                  if starts_with startContextKey key then
                    let context = hd (js_split CHR ''.'' (drop (length startContextKey) key))
                    in if context \<in> set found then found else found @ [context]
                  else found) (obj_keys (store s)) [])))"

definition mem_clearAll :: "'v storage_memory \<Rightarrow> string list \<Rightarrow> 'v storage_memory res" where
  "mem_clearAll s contexts =
     (if \<not> isInitialized s then Inl StorageError
      else and_then (createContextKey contexts) (\<lambda>contextKey.
        let s = (if contextKey \<noteq> [] then s\<lparr>store := obj_delete contextKey (store s)\<rparr> else s);
            startContextKey = (if contextKey \<noteq> [] then contextKey @ ''.'' else [])
        in Inr (fold (\<lambda>key s. if starts_with startContextKey key
                              then s\<lparr>store := obj_delete key (store s)\<rparr> else s)
                 (obj_keys (store s)) s)))"

subsection \<open>StorageContext\<close>

text \<open>A context is a list of names; its operations call the backend they are given.\<close>

definition context_get ::
  "(string list \<Rightarrow> string \<Rightarrow> 'v option res) \<Rightarrow> string list \<Rightarrow> string \<Rightarrow> 'v option \<Rightarrow> 'v res" where
  "context_get get thisContexts key defaultValue =
     and_then (get thisContexts key) (\<lambda>v.
       case v of
         Some x \<Rightarrow> Inr x
       | None \<Rightarrow> (case defaultValue of None \<Rightarrow> Inl StorageError | Some d \<Rightarrow> Inr d))"

definition context_has ::
  "(string list \<Rightarrow> string \<Rightarrow> 'v option res) \<Rightarrow> string list \<Rightarrow> string \<Rightarrow> bool res" where
  "context_has get thisContexts key =
     and_then (get thisContexts key) (\<lambda>v. Inr (v \<noteq> None))"

definition createContext :: "string list \<Rightarrow> string \<Rightarrow> string list res" where
  "createContext thisContexts context =
     (if context = [] then Inl StorageError
      else if js_includes ''.'' context then Inl StorageError
      else Inr (thisContexts @ [context]))"

definition context_clear :: "'v storage_memory \<Rightarrow> string list \<Rightarrow> 'v storage_memory res" where
  "context_clear s thisContexts =
     and_then (mem_keys s thisContexts) (\<lambda>ks.
       fold_res (\<lambda>k s. mem_delete s thisContexts k) ks s)"

subsection \<open>Context keys\<close>

lemma js_includes_iff: "js_includes p s \<longleftrightarrow> (\<exists>a b. s = a @ p @ b)"
proof (induction s)
  case (Cons x xs)
  have "starts_with p (x # xs) \<longleftrightarrow> (\<exists>b. x # xs = p @ b)"
    by (metis starts_withE starts_with_append)
  moreover have "(\<exists>a b. x # xs = a @ p @ b) \<longleftrightarrow> (\<exists>b. x # xs = p @ b) \<or> (\<exists>a b. xs = a @ p @ b)"
    by (metis append_Cons append_Nil list.exhaust list.sel(3))
  ultimately show ?case using Cons by simp
qed simp

lemma js_includes_single: "js_includes [c] s \<longleftrightarrow> c \<in> set s"
  by (auto simp: js_includes_iff in_set_conv_decomp)

text \<open>Context names as \<open>createContext\<close> admits them.\<close>

definition context_names :: "string list \<Rightarrow> bool" where
  "context_names contexts \<longleftrightarrow> contexts \<noteq> [] \<and> (\<forall>c\<in>set contexts. c \<noteq> [] \<and> CHR ''.'' \<notin> set c)"

lemma createContext_names:
  "(thisContexts = [] \<or> context_names thisContexts) \<Longrightarrow> createContext thisContexts c = Inr cs \<Longrightarrow> context_names cs"
  by (auto simp: createContext_def context_names_def js_includes_single split: if_splits)

lemma split_context: "context_names cs \<Longrightarrow> js_split CHR ''.'' (js_join ''.'' cs) = cs"
  by (simp add: context_names_def js_split_join)

lemma createContextKey_names:
  assumes "context_names cs"
  shows "createContextKey cs = Inr (js_join ''.'' cs)"
proof -
  let ?k = "js_join ''.'' cs"
  have sp: "[] \<notin> set (js_split CHR ''.'' ?k)"
    using assms split_context [OF assms] by (auto simp: context_names_def)
  have "?k \<noteq> []" using sp by auto
  moreover have "\<not> js_includes ''..'' ?k"
  proof
    assume "js_includes ''..'' ?k"
    then obtain a b where "?k = a @ CHR ''.'' # CHR ''.'' # b" by (auto simp: js_includes_iff)
    with sp show False by (simp add: js_split_append)
  qed
  moreover have "\<not> starts_with ''.'' ?k"
    using sp by (auto dest!: starts_withE)
  moreover have "\<not> ends_with ''.'' ?k"
  proof
    assume "ends_with ''.'' ?k"
    then obtain a where "?k = a @ CHR ''.'' # []"
      unfolding ends_with_def by (metis append_take_drop_id)
    with sp show False by (simp add: js_split_append)
  qed
  ultimately show ?thesis by (simp add: createContextKey_def)
qed

lemma context_key_inject:
  "context_names cs \<Longrightarrow> context_names cs' \<Longrightarrow> js_join ''.'' cs = js_join ''.'' cs' \<longleftrightarrow> cs = cs'"
  by (metis split_context)

lemma context_key_below:
  "context_names cs \<Longrightarrow> context_names cs' \<Longrightarrow>
   starts_with (js_join ''.'' cs @ ''.'') (js_join ''.'' cs') \<longleftrightarrow> (\<exists>ds. ds \<noteq> [] \<and> cs' = cs @ ds)"
  by (rule js_join_starts_with) (auto simp: context_names_def)

subsection \<open>The contract of a backend\<close>

text \<open>
  A backend that is ready stores under an admissible address and reads back, per address, what was
  stored last.
\<close>

locale storage_backend =
  fixes get :: "'s \<Rightarrow> string list \<Rightarrow> string \<Rightarrow> (js_error + 'v option)"
    and put :: "'s \<Rightarrow> string list \<Rightarrow> string \<Rightarrow> 'v option \<Rightarrow> (js_error + 's)"
    and ready :: "'s \<Rightarrow> bool"
    and address :: "string list \<Rightarrow> string \<Rightarrow> bool"
  assumes put_ready: "ready s \<Longrightarrow> address cs k \<Longrightarrow> \<exists>s'. put s cs k v = Inr s' \<and> ready s'"
    and get_put: "ready s \<Longrightarrow> address cs k \<Longrightarrow> address cs' k' \<Longrightarrow> put s cs k v = Inr s' \<Longrightarrow>
      get s' cs' k' = (if cs' = cs \<and> k' = k then Inr v else get s cs' k')"
begin

lemma context_after_set:
  assumes "ready s" "address cs k"
  obtains s' where "put s cs k (Some x) = Inr s'" "ready s'"
    "context_get (get s') cs k d = Inr x" "context_has (get s') cs k = Inr True"
proof -
  from put_ready [OF assms] obtain s' where s': "put s cs k (Some x) = Inr s'" "ready s'" by blast
  have "get s' cs k = Inr (Some x)" using get_put [OF assms assms(2) s'(1)] by simp
  with s' that show ?thesis by (simp add: context_get_def context_has_def)
qed

lemma context_other_untouched:
  "ready s \<Longrightarrow> address cs k \<Longrightarrow> address cs' k' \<Longrightarrow> (cs', k') \<noteq> (cs, k) \<Longrightarrow> put s cs k v = Inr s' \<Longrightarrow>
   context_get (get s') cs' k' d = context_get (get s) cs' k' d"
  using get_put [of s cs k cs' k' v s'] by (auto simp: context_get_def)

end

definition storage_address :: "string list \<Rightarrow> string \<Rightarrow> bool" where
  "storage_address cs k \<longleftrightarrow> context_names cs \<and> k \<noteq> []"

text \<open>The value under an address, read off the store.\<close>

definition lookup :: "'v storage_memory \<Rightarrow> string \<Rightarrow> string \<Rightarrow> 'v option" where
  "lookup s ck key =
     (case map_of (store s) ck of None \<Rightarrow> None
      | Some ob \<Rightarrow> (case map_of ob key of None \<Rightarrow> None | Some v \<Rightarrow> v))"

lemma mem_get_lookup:
  "isInitialized s \<Longrightarrow> storage_address cs k \<Longrightarrow> mem_get s cs k = Inr (lookup s (js_join ''.'' cs) k)"
  by (auto simp: mem_get_def storage_address_def lookup_def createContextKey_names context_names_def)

lemma mem_set_lookup:
  assumes "isInitialized s" "storage_address cs k"
  shows "\<exists>s'. mem_set s cs k v = Inr s' \<and> isInitialized s' \<and>
    (\<forall>ck key. lookup s' ck key = (if ck = js_join ''.'' cs \<and> key = k then v else lookup s ck key))"
  using assms
  by (auto simp: mem_set_def mem_setKey_def storage_address_def createContextKey_names context_names_def
      lookup_def Let_def split: option.splits)

interpretation mem: storage_backend mem_get mem_set isInitialized storage_address
proof unfold_locales
  fix s :: "'v storage_memory" and cs k v
  assume "isInitialized s" "storage_address cs k"
  then show "\<exists>s'. mem_set s cs k v = Inr s' \<and> isInitialized s'" using mem_set_lookup by blast
next
  fix s s' :: "'v storage_memory" and cs k cs' k' v
  assume a: "isInitialized s" "storage_address cs k" "storage_address cs' k'" "mem_set s cs k v = Inr s'"
  from mem_set_lookup [OF a(1,2), of v] a(4) have s': "isInitialized s'"
    "\<And>ck key. lookup s' ck key = (if ck = js_join ''.'' cs \<and> key = k then v else lookup s ck key)"
    by auto
  have "js_join ''.'' cs' = js_join ''.'' cs \<longleftrightarrow> cs' = cs"
    using a(2,3) by (intro context_key_inject) (simp_all add: storage_address_def)
  then show "mem_get s' cs' k' = (if cs' = cs \<and> k' = k then Inr v else mem_get s cs' k')"
    using a s' by (simp add: mem_get_lookup)
qed



subsection \<open>clearAll\<close>

lemma fold_delete_store:
  "store (fold (\<lambda>key s. if P key then s\<lparr>store := obj_delete key (store s)\<rparr> else s) ks s)
     = filter (\<lambda>p. \<not> (P (fst p) \<and> fst p \<in> set ks)) (store s)"
  "isInitialized (fold (\<lambda>key s. if P key then s\<lparr>store := obj_delete key (store s)\<rparr> else s) ks s) = isInitialized s"
  by (induction ks arbitrary: s) (auto simp: obj_delete_def intro!: filter_cong)

lemma map_of_filter_fst: "map_of (filter (\<lambda>p. P (fst p)) xs) k = (if P k then map_of xs k else None)"
  by (induction xs) auto

text \<open>\<open>clearAll\<close> removes every key of the context and of all contexts created below it, and nothing
  else.\<close>

theorem clearAll_exact:
  assumes "isInitialized s" "context_names cs" "storage_address cs' k"
  shows "\<exists>s'. mem_clearAll s cs = Inr s' \<and>
    mem_get s' cs' k = (if \<exists>ds. cs' = cs @ ds then Inr None else mem_get s cs' k)"
proof -
  let ?k = "js_join ''.'' cs" and ?k' = "js_join ''.'' cs'"
  have nm: "context_names cs'" using assms(3) by (simp add: storage_address_def)
  have ne: "?k \<noteq> []"
    using createContextKey_names [OF assms(2)] by (auto simp: createContextKey_def Let_def split: if_splits)
  define s1 where "s1 = s\<lparr>store := obj_delete ?k (store s)\<rparr>"
  define s' where "s' = fold (\<lambda>key s. if starts_with (?k @ ''.'') key
      then s\<lparr>store := obj_delete key (store s)\<rparr> else s) (obj_keys (store s1)) s1"
  have s': "mem_clearAll s cs = Inr s'" "isInitialized s'"
    using assms(1) ne
    by (simp_all add: mem_clearAll_def createContextKey_names [OF assms(2)] Let_def s'_def s1_def fold_delete_store)
  have st: "store s' = filter (\<lambda>p. \<not> (starts_with (?k @ ''.'') (fst p) \<and>
      fst p \<in> set (obj_keys (store s1)))) (store s1)"
    by (simp only: s'_def fold_delete_store)
  have "store s' = filter (\<lambda>p. \<not> starts_with (?k @ ''.'') (fst p) \<and> fst p \<noteq> ?k) (store s)"
    unfolding st s1_def by (auto simp: obj_delete_def image_iff intro!: filter_cong)
  then have "map_of (store s') ?k' = (if \<not> starts_with (?k @ ''.'') ?k' \<and> ?k' \<noteq> ?k then map_of (store s) ?k' else None)"
    using map_of_filter_fst [of "\<lambda>k. \<not> starts_with (?k @ ''.'') k \<and> k \<noteq> ?k" "store s" ?k'] by simp
  moreover have "(\<exists>ds. cs' = cs @ ds) \<longleftrightarrow> starts_with (?k @ ''.'') ?k' \<or> ?k' = ?k"
    using context_key_below [OF assms(2) nm] context_key_inject [OF nm assms(2)] by auto
  ultimately show ?thesis
    using s' assms(1,3) by (auto simp: mem_get_lookup lookup_def)
qed

lemma clearAll_exact_witness:
  "\<exists>s'. mem_clearAll \<lparr>isInitialized = True, store = [(''a.b'', [(''k'', Some (1::int))])]\<rparr> [''a''] = Inr s' \<and>
    mem_get s' [''a'', ''b''] ''k'' = (if \<exists>ds. [''a'', ''b''] = [''a''] @ ds then Inr None
      else mem_get \<lparr>isInitialized = True, store = [(''a.b'', [(''k'', Some (1::int))])]\<rparr> [''a'', ''b''] ''k'')"
  by (rule clearAll_exact) (simp_all add: storage_address_def context_names_def)

end
