(* ===== verification/Counter.thy ===== *)
theory Counter
  imports Reception Storage
begin

text \<open>
  The outgoing message counters of packages/protocol/src/protocol/MessageCounter.ts: the plain
  counter with its rollover callback and the one persisted through a storage context.  The random
  start value is an argument; a call of the callback is counted in the state.  The locale
  \<open>persisted_counter\<close> extends the storage contract with the counter's own address.
\<close>

record message_counter =
  messageCounter :: int
  aboutToRolloverCallback :: bool  \<comment> \<open>whether a callback was provided\<close>
  rolloverInfoDifference :: int
  callbackCalls :: nat

definition ROLLOVER_INFO_DIFFERENCE :: int where
  "ROLLOVER_INFO_DIFFERENCE = 1000"

definition new_MessageCounter :: "int \<Rightarrow> bool \<Rightarrow> int \<Rightarrow> message_counter" where
  "new_MessageCounter randomUInt32 cb info =
     \<lparr>messageCounter = js_ushr randomUInt32 4 + 1, aboutToRolloverCallback = cb,
      rolloverInfoDifference = info, callbackCalls = 0\<rparr>"

definition call_callback :: "message_counter \<Rightarrow> message_counter" where
  "call_callback c = c\<lparr>callbackCalls := Suc (callbackCalls c)\<rparr>"

text \<open>The counter is incremented before it is tested, so the new state also comes with an error.\<close>

definition getIncrementedCounter :: "message_counter \<Rightarrow> int res \<times> message_counter" where
  "getIncrementedCounter c =
     (let c = c\<lparr>messageCounter := messageCounter c + 1\<rparr>
      in if messageCounter c > MAX_COUNTER_VALUE_32BIT then
           if aboutToRolloverCallback c
           then let c = c\<lparr>messageCounter := 0\<rparr> in (Inr (messageCounter c), c)
           else (Inl InternalError, c)
         else if aboutToRolloverCallback c \<and>
           messageCounter c = MAX_COUNTER_VALUE_32BIT - rolloverInfoDifference c
         then let c = call_callback c in (Inr (messageCounter c), c)
         else (Inr (messageCounter c), c))"

subsection \<open>The persisted counter\<close>

definition persisted_create ::
  "(string list \<Rightarrow> string \<Rightarrow> int option res) \<Rightarrow> string list \<Rightarrow> string \<Rightarrow> int \<Rightarrow> bool \<Rightarrow> int
   \<Rightarrow> message_counter res" where
  "persisted_create get contexts storageKey randomUInt32 cb info =
     (let c = new_MessageCounter randomUInt32 cb info
      in and_then (context_has get contexts storageKey) (\<lambda>has.
        if has then
          and_then (context_get get contexts storageKey None) (\<lambda>v.
            let c = c\<lparr>messageCounter := v\<rparr>
            in if messageCounter c < 0 \<or> messageCounter c > MAX_COUNTER_VALUE_32BIT
               then Inl InternalError
               else if aboutToRolloverCallback c \<and>
                 messageCounter c \<ge> MAX_COUNTER_VALUE_32BIT - rolloverInfoDifference c
               then Inr (call_callback c)
               else Inr c)
        else Inr c))"

definition persisted_getIncrementedCounter ::
  "('s \<Rightarrow> string list \<Rightarrow> string \<Rightarrow> int option \<Rightarrow> 's res) \<Rightarrow> string list \<Rightarrow> string \<Rightarrow>
   message_counter \<times> 's \<Rightarrow> int res \<times> (message_counter \<times> 's)" where
  "persisted_getIncrementedCounter put contexts storageKey cs =
     (case cs of (c, s) \<Rightarrow>
       (case getIncrementedCounter c of
          (Inl e, c) \<Rightarrow> (Inl e, (c, s))
        | (Inr counter, c) \<Rightarrow>
            (case put s contexts storageKey (Some counter) of
               Inl e \<Rightarrow> (Inl e, (c, s))
             | Inr s \<Rightarrow> (Inr counter, (c, s)))))"

text \<open>
  A life of the persisted counter: messages are sent, and the process is restarted with whatever
  random number, in any order.  The list of the counters handed out.
\<close>

datatype counter_op = SendMessage | RestartProcess int

fun counter_life ::
  "('s \<Rightarrow> string list \<Rightarrow> string \<Rightarrow> int option res) \<Rightarrow>
   ('s \<Rightarrow> string list \<Rightarrow> string \<Rightarrow> int option \<Rightarrow> 's res) \<Rightarrow> string list \<Rightarrow> string \<Rightarrow>
   counter_op list \<Rightarrow> message_counter \<times> 's \<Rightarrow> int list" where
  "counter_life get put ctx key [] cs = []"
| "counter_life get put ctx key (SendMessage # ops) cs =
     (case persisted_getIncrementedCounter put ctx key cs of
        (Inl e, cs) \<Rightarrow> counter_life get put ctx key ops cs
      | (Inr n, cs) \<Rightarrow> n # counter_life get put ctx key ops cs)"
| "counter_life get put ctx key (RestartProcess r # ops) (c, s) =
     (case persisted_create (get s) ctx key r (aboutToRolloverCallback c) (rolloverInfoDifference c) of
        Inl e \<Rightarrow> []
      | Inr c \<Rightarrow> counter_life get put ctx key ops (c, s))"

lemma getIncrementedCounter_rollover:
  assumes "aboutToRolloverCallback c" "0 \<le> messageCounter c" "messageCounter c \<le> MAX_COUNTER_VALUE_32BIT"
  shows "\<exists>c'. getIncrementedCounter c = (Inr ((messageCounter c + 1) mod (MAX_COUNTER_VALUE_32BIT + 1)), c') \<and>
    messageCounter c' = (messageCounter c + 1) mod (MAX_COUNTER_VALUE_32BIT + 1) \<and>
    aboutToRolloverCallback c' \<and> rolloverInfoDifference c' = rolloverInfoDifference c"
proof (cases "messageCounter c = MAX_COUNTER_VALUE_32BIT")
  case True
  with assms show ?thesis by (simp add: getIncrementedCounter_def Let_def)
next
  case False
  with assms have "(messageCounter c + 1) mod (MAX_COUNTER_VALUE_32BIT + 1) = messageCounter c + 1"
    by (intro mod_pos_pos_trivial) auto
  with assms False show ?thesis by (auto simp: getIncrementedCounter_def Let_def call_callback_def)
qed

locale persisted_counter =
  storage_backend get put ready address
  for get :: "'s \<Rightarrow> string list \<Rightarrow> string \<Rightarrow> (js_error + int option)"
    and put :: "'s \<Rightarrow> string list \<Rightarrow> string \<Rightarrow> int option \<Rightarrow> (js_error + 's)"
    and ready :: "'s \<Rightarrow> bool" and address :: "string list \<Rightarrow> string \<Rightarrow> bool"
begin

text \<open>The stored value is the counter's, under an address the backend admits.\<close>

definition synced :: "string list \<Rightarrow> string \<Rightarrow> message_counter \<times> 's \<Rightarrow> bool" where
  "synced ctx key cs \<longleftrightarrow> address ctx key \<and> ready (snd cs) \<and> get (snd cs) ctx key = Inr (Some (messageCounter (fst cs))) \<and>
     0 \<le> messageCounter (fst cs) \<and> messageCounter (fst cs) \<le> MAX_COUNTER_VALUE_32BIT \<and>
     aboutToRolloverCallback (fst cs)"

lemma send_synced:
  assumes "synced ctx key (c, s)"
  obtains c' s' where
    "persisted_getIncrementedCounter put ctx key (c, s) =
       (Inr ((messageCounter c + 1) mod (MAX_COUNTER_VALUE_32BIT + 1)), (c', s'))"
    "synced ctx key (c', s')" "messageCounter c' = (messageCounter c + 1) mod (MAX_COUNTER_VALUE_32BIT + 1)"
proof -
  let ?n = "(messageCounter c + 1) mod (MAX_COUNTER_VALUE_32BIT + 1)"
  have n: "0 \<le> ?n" "?n \<le> MAX_COUNTER_VALUE_32BIT" by (simp_all add: MAX_COUNTER_VALUE_32BIT_def)
  from assms obtain c' where c': "getIncrementedCounter c = (Inr ?n, c')" "messageCounter c' = ?n"
    "aboutToRolloverCallback c'"
    using getIncrementedCounter_rollover [of c] by (auto simp: synced_def)
  obtain s' where s': "put s ctx key (Some ?n) = Inr s'" "ready s'"
    using put_ready [of s ctx key "Some ?n"] assms by (auto simp: synced_def)
  moreover have "get s' ctx key = Inr (Some ?n)"
    using get_put [of s ctx key ctx key "Some ?n" s'] s' assms by (simp add: synced_def)
  ultimately show ?thesis
    using c' n assms by (intro that [of c' s']) (simp_all add: persisted_getIncrementedCounter_def synced_def)
qed

lemma restart_synced:
  assumes "synced ctx key (c, s)"
  obtains c' where "persisted_create (get s) ctx key r True info = Inr c'"
    "synced ctx key (c', s)" "messageCounter c' = messageCounter c"
proof -
  define cb where "cb \<longleftrightarrow> messageCounter c \<ge> MAX_COUNTER_VALUE_32BIT - info"
  define c0 where "c0 = (new_MessageCounter r True info)\<lparr>messageCounter := messageCounter c\<rparr>"
  have "persisted_create (get s) ctx key r True info = Inr (if cb then call_callback c0 else c0)"
    using assms
    by (simp add: persisted_create_def context_has_def context_get_def synced_def Let_def
        new_MessageCounter_def c0_def cb_def)
  then show ?thesis
    using assms by (intro that [of "if cb then call_callback c0 else c0"])
      (auto simp: synced_def c0_def call_callback_def new_MessageCounter_def)
qed

lemma life_consecutive:
  "synced ctx key cs \<Longrightarrow> i < length (counter_life get put ctx key ops cs) \<Longrightarrow>
   counter_life get put ctx key ops cs ! i = (messageCounter (fst cs) + 1 + int i) mod (MAX_COUNTER_VALUE_32BIT + 1)"
proof (induction ops arbitrary: cs i)
  case (Cons op ops)
  obtain c s where cs: "cs = (c, s)" by (cases cs)
  note sy = Cons.prems(1) [unfolded cs]
  show ?case
  proof (cases op)
    case SendMessage
    obtain c' s' where n: "persisted_getIncrementedCounter put ctx key (c, s) =
        (Inr ((messageCounter c + 1) mod (MAX_COUNTER_VALUE_32BIT + 1)), (c', s'))"
      "synced ctx key (c', s')" "messageCounter c' = (messageCounter c + 1) mod (MAX_COUNTER_VALUE_32BIT + 1)"
      using send_synced [OF sy] by blast
    show ?thesis
    proof (cases i)
      case 0
      then show ?thesis using n cs SendMessage by simp
    next
      case (Suc j)
      then have "counter_life get put ctx key ops (c', s') ! j =
          (messageCounter c' + 1 + int j) mod (MAX_COUNTER_VALUE_32BIT + 1)"
        using Cons.IH [OF n(2), of j] Cons.prems(2) n cs SendMessage by simp
      also have "\<dots> = (messageCounter c + 1 + int i) mod (MAX_COUNTER_VALUE_32BIT + 1)"
        unfolding n(3) Suc of_nat_Suc add.assoc mod_add_left_eq by (simp add: algebra_simps)
      finally show ?thesis using n cs SendMessage Suc by simp
    qed
  next
    case (RestartProcess r)
    obtain c' where c': "persisted_create (get s) ctx key r True (rolloverInfoDifference c) = Inr c'"
      "synced ctx key (c', s)" "messageCounter c' = messageCounter c"
      using restart_synced [OF sy] by blast
    then show ?thesis using Cons.IH [OF c'(2), of i] Cons.prems(2) sy cs RestartProcess
      by (simp add: synced_def)
  qed
qed simp

end

interpretation mem_counter: persisted_counter mem_get mem_set isInitialized storage_address
  by unfold_locales

subsection \<open>Properties\<close>



text \<open>At the largest value the counter starts again from 0 exactly when a rollover callback was
  provided, and fails exactly when none was; below it, it counts on by one.\<close>

theorem rollover_iff_callback:
  assumes "0 \<le> messageCounter c" "messageCounter c \<le> MAX_COUNTER_VALUE_32BIT"
  shows "fst (getIncrementedCounter c) =
    (if messageCounter c < MAX_COUNTER_VALUE_32BIT then Inr (messageCounter c + 1)
     else if aboutToRolloverCallback c then Inr 0 else Inl InternalError)"
  using assms by (auto simp: getIncrementedCounter_def Let_def call_callback_def)

lemma rollover_iff_callback_witness:
  "fst (getIncrementedCounter \<lparr>messageCounter = MAX_COUNTER_VALUE_32BIT, aboutToRolloverCallback = True,
      rolloverInfoDifference = 1000, callbackCalls = 0\<rparr>) = Inr 0"
  using rollover_iff_callback [of "\<lparr>messageCounter = MAX_COUNTER_VALUE_32BIT, aboutToRolloverCallback = True,
      rolloverInfoDifference = 1000, callbackCalls = 0\<rparr>"]
  by (simp add: MAX_COUNTER_VALUE_32BIT_def)

end
