(* ===== verification/Packet.thy ===== *)
theory Packet
  imports BytesIO
begin

text \<open>
  The Matter message format, packages/protocol/src/codec/MessageCodec.ts: the packet header, the
  payload header and the packets and messages around them.  Node and group ids are the integers
  they brand.  The locale \<open>field_codec\<close> is interpreted for both headers.
\<close>

subsection \<open>Headers\<close>

text \<open>A \<open>SessionType\<close> is the number the enum stands for: the decoder compares the two low bits
  with it and the encoder writes it as it is.\<close>

record packet_header =
  sessionId :: int
  sessionType :: int
  hasPrivacyEnhancements :: bool
  isControlMessage :: bool
  hasMessageExtensions :: bool
  messageId :: int
  sourceNodeId :: "int option"
  destNodeId :: "int option"
  destGroupId :: "int option"

record decoded_packet_header = packet_header +
  securityFlags :: int

record payload_header =
  exchangeId :: int
  protocolId :: int
  messageType :: int
  isInitiatorMessage :: bool
  requiresAck :: bool
  ackedMessageId :: "int option"
  hasSecuredExtension :: bool

record packet =
  pktHeader :: packet_header
  messageExtension :: "byte list option"
  applicationPayload :: "byte list"

record decoded_packet =
  dpktHeader :: decoded_packet_header
  dmessageExtension :: "byte list option"
  dapplicationPayload :: "byte list"

record message =
  packetHeader :: packet_header
  payloadHeader :: payload_header
  securityExtension :: "byte list option"
  payload :: "byte list"

record decoded_message =
  dpacketHeader :: decoded_packet_header
  dpayloadHeader :: payload_header
  dsecurityExtension :: "byte list option"
  dpayload :: "byte list"

definition HEADER_VERSION :: int where "HEADER_VERSION = 0"
definition SessionType_Group :: int where "SessionType_Group = 1"
definition SessionType_Unicast :: int where "SessionType_Unicast = 0"
definition COMMON_VENDOR_ID :: int where "COMMON_VENDOR_ID = 0"

text \<open>\<open>PacketHeaderFlag\<close>, \<open>PayloadHeaderFlag\<close> and \<open>SecurityFlag\<close>.\<close>

definition PacketHeaderFlag_HasDestNodeId :: int where "PacketHeaderFlag_HasDestNodeId = 1"
definition PacketHeaderFlag_HasDestGroupId :: int where "PacketHeaderFlag_HasDestGroupId = 2"
definition PacketHeaderFlag_HasSourceNodeId :: int where "PacketHeaderFlag_HasSourceNodeId = 4"
definition PacketHeaderFlag_VersionMask :: int where "PacketHeaderFlag_VersionMask = 240"

definition PayloadHeaderFlag_IsInitiatorMessage :: int where "PayloadHeaderFlag_IsInitiatorMessage = 1"
definition PayloadHeaderFlag_IsAckMessage :: int where "PayloadHeaderFlag_IsAckMessage = 2"
definition PayloadHeaderFlag_RequiresAck :: int where "PayloadHeaderFlag_RequiresAck = 4"
definition PayloadHeaderFlag_HasSecureExtension :: int where "PayloadHeaderFlag_HasSecureExtension = 8"
definition PayloadHeaderFlag_HasVendorId :: int where "PayloadHeaderFlag_HasVendorId = 16"

definition SecurityFlag_HasPrivacyEnhancements :: int where "SecurityFlag_HasPrivacyEnhancements = 128"
definition SecurityFlag_IsControlMessage :: int where "SecurityFlag_IsControlMessage = 64"
definition SecurityFlag_HasMessageExtension :: int where "SecurityFlag_HasMessageExtension = 32"

lemmas packet_consts =
  HEADER_VERSION_def SessionType_Group_def SessionType_Unicast_def COMMON_VENDOR_ID_def
  PacketHeaderFlag_HasDestNodeId_def PacketHeaderFlag_HasDestGroupId_def
  PacketHeaderFlag_HasSourceNodeId_def PacketHeaderFlag_VersionMask_def
  PayloadHeaderFlag_IsInitiatorMessage_def PayloadHeaderFlag_IsAckMessage_def
  PayloadHeaderFlag_RequiresAck_def PayloadHeaderFlag_HasSecureExtension_def
  PayloadHeaderFlag_HasVendorId_def SecurityFlag_HasPrivacyEnhancements_def
  SecurityFlag_IsControlMessage_def SecurityFlag_HasMessageExtension_def

subsection \<open>Decoding\<close>

text \<open>A field that is present only when its flag is set.\<close>

definition read_when ::
  "bool \<Rightarrow> (data_reader \<Rightarrow> (int \<times> data_reader) res) \<Rightarrow> data_reader \<Rightarrow> (int option \<times> data_reader) res" where
  "read_when b rf r = (if b then and_then (rf r) (\<lambda>(v, r). Inr (Some v, r)) else Inr (None, r))"

text \<open>\<open>NodeId(bigint)\<close> and \<open>GroupId(number)\<close>: the branding functions; \<open>GroupId\<close> refuses values
  outside 0 to 0xffff, which a 16-bit read never gives.\<close>

definition decodePacketHeader :: "data_reader \<Rightarrow> (decoded_packet_header \<times> data_reader) res" where
  "decodePacketHeader r =
     and_then (readUInt8 r) (\<lambda>(flags, r).
     let version = js_shr (js_and flags PacketHeaderFlag_VersionMask) 4;
         hasDestNodeId = (js_and flags PacketHeaderFlag_HasDestNodeId \<noteq> 0);
         hasDestGroupId = (js_and flags PacketHeaderFlag_HasDestGroupId \<noteq> 0);
         hasSourceNodeId = (js_and flags PacketHeaderFlag_HasSourceNodeId \<noteq> 0)
     in
     if hasDestNodeId \<and> hasDestGroupId then Inl UnexpectedDataError
     else if version \<noteq> HEADER_VERSION then Inl NotImplementedError
     else
     and_then (readUInt16 r) (\<lambda>(sessionId, r).
     and_then (readUInt8 r) (\<lambda>(securityFlags, r).
     and_then (readUInt32 r) (\<lambda>(messageId, r).
     and_then (read_when hasSourceNodeId readUInt64 r) (\<lambda>(sourceNodeId, r).
     and_then (read_when hasDestNodeId readUInt64 r) (\<lambda>(destNodeId, r).
     and_then (read_when hasDestGroupId readUInt16 r) (\<lambda>(destGroupId, r).
     let sessionType = js_and securityFlags 3 in
     if sessionType \<noteq> SessionType_Group \<and> sessionType \<noteq> SessionType_Unicast then Inl UnexpectedDataError
     else
     let hasPrivacyEnhancements = (js_and securityFlags SecurityFlag_HasPrivacyEnhancements \<noteq> 0) in
     if hasPrivacyEnhancements then Inl NotImplementedError
     else
     let isControlMessage = (js_and securityFlags SecurityFlag_IsControlMessage \<noteq> 0) in
     if isControlMessage then Inl NotImplementedError
     else
     let hasMessageExtensions = (js_and securityFlags SecurityFlag_HasMessageExtension \<noteq> 0) in
     Inr (\<lparr>sessionId = sessionId, sessionType = sessionType,
           hasPrivacyEnhancements = hasPrivacyEnhancements, isControlMessage = isControlMessage,
           hasMessageExtensions = hasMessageExtensions, messageId = messageId,
           sourceNodeId = sourceNodeId, destNodeId = destNodeId, destGroupId = destGroupId,
           securityFlags = securityFlags\<rparr>, r))))))))"

definition decodePayloadHeader :: "data_reader \<Rightarrow> (payload_header \<times> data_reader) res" where
  "decodePayloadHeader r =
     and_then (readUInt8 r) (\<lambda>(exchangeFlags, r).
     let isInitiatorMessage = (js_and exchangeFlags PayloadHeaderFlag_IsInitiatorMessage \<noteq> 0);
         isAckMessage = (js_and exchangeFlags PayloadHeaderFlag_IsAckMessage \<noteq> 0);
         requiresAck = (js_and exchangeFlags PayloadHeaderFlag_RequiresAck \<noteq> 0);
         hasSecuredExtension = (js_and exchangeFlags PayloadHeaderFlag_HasSecureExtension \<noteq> 0);
         hasVendorId = (js_and exchangeFlags PayloadHeaderFlag_HasVendorId \<noteq> 0)
     in
     and_then (readUInt8 r) (\<lambda>(messageType, r).
     and_then (readUInt16 r) (\<lambda>(exchangeId, r).
     and_then (if hasVendorId then readUInt16 r else Inr (COMMON_VENDOR_ID, r)) (\<lambda>(vendorId, r).
     and_then (readUInt16 r) (\<lambda>(protocol, r).
     let protocolId = js_or (js_shl vendorId 16) protocol in
     and_then (read_when isAckMessage readUInt32 r) (\<lambda>(ackedMessageId, r).
     Inr (\<lparr>exchangeId = exchangeId, protocolId = protocolId, messageType = messageType,
           isInitiatorMessage = isInitiatorMessage, requiresAck = requiresAck,
           ackedMessageId = ackedMessageId, hasSecuredExtension = hasSecuredExtension\<rparr>, r)))))))"

definition decodePacket :: "byte list \<Rightarrow> decoded_packet res" where
  "decodePacket bs =
     (let reader = new_DataReader bs True in
      and_then (decodePacketHeader reader) (\<lambda>(header, reader).
      and_then (if hasMessageExtensions header
                then and_then (readUInt16 reader) (\<lambda>(extensionLength, reader).
                  let (ext, reader) = readByteArray extensionLength reader in Inr (Some ext, reader))
                else Inr (None, reader)) (\<lambda>(messageExtension, reader).
      Inr \<lparr>dpktHeader = header, dmessageExtension = messageExtension,
           dapplicationPayload = remainingBytes reader\<rparr>)))"

definition decodePayload :: "decoded_packet \<Rightarrow> decoded_message res" where
  "decodePayload p =
     (let reader = new_DataReader (dapplicationPayload p) True in
      and_then (decodePayloadHeader reader) (\<lambda>(payloadHeader, reader).
      and_then (if hasSecuredExtension payloadHeader
                then and_then (readUInt16 reader) (\<lambda>(extensionLength, reader).
                  let (ext, reader) = readByteArray extensionLength reader in Inr (Some ext, reader))
                else Inr (None, reader)) (\<lambda>(securityExtension, reader).
      Inr \<lparr>dpacketHeader = dpktHeader p, dpayloadHeader = payloadHeader,
           dsecurityExtension = securityExtension, dpayload = remainingBytes reader\<rparr>)))"

subsection \<open>Encoding\<close>

definition write_when :: "int option \<Rightarrow> (int \<Rightarrow> data_writer \<Rightarrow> data_writer) \<Rightarrow> data_writer \<Rightarrow> data_writer" where
  "write_when v wr w = (case v of None \<Rightarrow> w | Some x \<Rightarrow> wr x w)"

definition encodePacketHeader :: "packet_header \<Rightarrow> byte list res" where
  "encodePacketHeader h =
     (let w = new_DataWriter True;
          flags = js_or (js_or (js_or (js_shl HEADER_VERSION 4)
                    (if destGroupId h \<noteq> None then PacketHeaderFlag_HasDestGroupId else 0))
                    (if destNodeId h \<noteq> None then PacketHeaderFlag_HasDestNodeId else 0))
                    (if sourceNodeId h \<noteq> None then PacketHeaderFlag_HasSourceNodeId else 0);
          securityFlags = sessionType h;
          w = writeUInt8 flags w;
          w = writeUInt16 (sessionId h) w;
          w = writeUInt8 securityFlags w;
          w = writeUInt32 (messageId h) w;
          w = write_when (sourceNodeId h) writeUInt64 w;
          w = write_when (destNodeId h) writeUInt64 w;
          w = write_when (destGroupId h) writeUInt32 w
      in writer_bytes w)"

definition encodePayloadHeader :: "payload_header \<Rightarrow> byte list res" where
  "encodePayloadHeader h =
     (let w = new_DataWriter True;
          vendorId = js_shr (js_and (protocolId h) 4294901760) 16;
          flags = js_or (js_or (js_or
                    (if isInitiatorMessage h then PayloadHeaderFlag_IsInitiatorMessage else 0)
                    (if ackedMessageId h \<noteq> None then PayloadHeaderFlag_IsAckMessage else 0))
                    (if requiresAck h then PayloadHeaderFlag_RequiresAck else 0))
                    (if vendorId \<noteq> COMMON_VENDOR_ID then PayloadHeaderFlag_HasVendorId else 0);
          w = writeUInt8 flags w;
          w = writeUInt8 (messageType h) w;
          w = writeUInt16 (exchangeId h) w;
          w = (if vendorId \<noteq> COMMON_VENDOR_ID then writeUInt32 (protocolId h) w
               else writeUInt16 (protocolId h) w);
          w = write_when (ackedMessageId h) writeUInt32 w
      in writer_bytes w)"

definition encodePayload :: "message \<Rightarrow> packet res" where
  "encodePayload m =
     (if securityExtension m \<noteq> None \<or> hasSecuredExtension (payloadHeader m) then Inl NotImplementedError
      else and_then (encodePayloadHeader (payloadHeader m)) (\<lambda>h.
           and_then (bytes_concat [h, payload m]) (\<lambda>bs.
           Inr \<lparr>pktHeader = packetHeader m, messageExtension = None, applicationPayload = bs\<rparr>)))"

definition encodePacket :: "packet \<Rightarrow> byte list res" where
  "encodePacket p =
     (if messageExtension p \<noteq> None \<or> hasMessageExtensions (pktHeader p) then Inl NotImplementedError
      else and_then (encodePacketHeader (pktHeader p)) (\<lambda>h. bytes_concat [h, applicationPayload p]))"

subsection \<open>What the encoders write\<close>

named_theorems packet_simps \<open>definitions unfolded when stepping through a header\<close>

lemma read_when_simps [simp]:
  "read_when False rf r = Inr (None, r)"
  "read_when True rf r = and_then (rf r) (\<lambda>(v, r). Inr (Some v, r))"
  by (simp_all add: read_when_def)

lemma write_when_simps [simp]: "write_when None f w = w" "write_when (Some x) f w = f x w"
  by (simp_all add: write_when_def)

text \<open>Headers the encoder represents faithfully: fields in range, an implemented session type, none
  of the unsupported features, at most one destination, and (see below) no group destination.\<close>

definition valid_packet_header :: "packet_header \<Rightarrow> bool" where
  "valid_packet_header h \<longleftrightarrow>
     0 \<le> sessionId h \<and> sessionId h < 65536 \<and>
     (sessionType h = SessionType_Group \<or> sessionType h = SessionType_Unicast) \<and>
     \<not> hasPrivacyEnhancements h \<and> \<not> isControlMessage h \<and> \<not> hasMessageExtensions h \<and>
     0 \<le> messageId h \<and> messageId h < 4294967296 \<and>
     (\<forall>n. sourceNodeId h = Some n \<longrightarrow> 0 \<le> n \<and> n < 18446744073709551616) \<and>
     (\<forall>n. destNodeId h = Some n \<longrightarrow> 0 \<le> n \<and> n < 18446744073709551616) \<and>
     destGroupId h = None"

definition opt_bytes :: "nat \<Rightarrow> int option \<Rightarrow> byte list" where
  "opt_bytes n v = (case v of None \<Rightarrow> [] | Some x \<Rightarrow> le_bytes n x)"

lemma opt_bytes_simps [simp]: "opt_bytes n None = []" "opt_bytes n (Some x) = le_bytes n x"
  by (simp_all add: opt_bytes_def)

definition packet_header_bytes :: "packet_header \<Rightarrow> byte list" where
  "packet_header_bytes h =
     le_bytes 1 ((if destGroupId h \<noteq> None then 2 else 0) + (if destNodeId h \<noteq> None then 1 else 0) +
       (if sourceNodeId h \<noteq> None then 4 else 0)) @
     le_bytes 2 (sessionId h) @ le_bytes 1 (sessionType h) @ le_bytes 4 (messageId h) @
     opt_bytes 8 (sourceNodeId h) @ opt_bytes 8 (destNodeId h) @ opt_bytes 4 (destGroupId h)"

lemma encodePacketHeader_bytes:
  assumes "0 \<le> sessionId h" "sessionId h < 65536" "0 \<le> sessionType h" "sessionType h < 256"
    and "0 \<le> messageId h" "messageId h < 4294967296"
    and "\<And>g. destGroupId h = Some g \<Longrightarrow> 0 \<le> g \<and> g < 65536"
  shows "encodePacketHeader h = Inr (packet_header_bytes h)"
  using assms
  by (cases "destGroupId h"; cases "destNodeId h"; cases "sourceNodeId h")
    (simp_all add: encodePacketHeader_def packet_header_bytes_def packet_consts Let_def write_defs
      writer_simps js_or_def js_shl_def)

text \<open>What is read back: the header with the security flags byte, here just the session type.\<close>

definition as_decoded :: "packet_header \<Rightarrow> decoded_packet_header" where
  "as_decoded h = packet_header.extend h (decoded_packet_header.fields (sessionType h))"

definition header_of :: "decoded_packet_header \<Rightarrow> packet_header" where
  "header_of d = packet_header.truncate d"

lemma header_of_as_decoded [simp]: "header_of (as_decoded h) = h"
  by (cases h) (simp add: header_of_def as_decoded_def packet_header.defs decoded_packet_header.defs)

lemma decodePacketHeader_bytes:
  assumes "valid_packet_header h"
  shows "decodePacketHeader (rd pre (packet_header_bytes h @ rest)) =
    Inr (as_decoded h, rd (pre @ packet_header_bytes h) rest)"
proof -
  obtain sid st mid src dst where h: "h = \<lparr>sessionId = sid, sessionType = st,
      hasPrivacyEnhancements = False, isControlMessage = False, hasMessageExtensions = False,
      messageId = mid, sourceNodeId = src, destNodeId = dst, destGroupId = None\<rparr>"
    using assms by (cases h) (auto simp: valid_packet_header_def)
  have v: "0 \<le> sid" "sid < 65536" "st = 1 \<or> st = 0" "0 \<le> mid" "mid < 4294967296"
    "\<And>n. src = Some n \<Longrightarrow> 0 \<le> n \<and> n < 18446744073709551616"
    "\<And>n. dst = Some n \<Longrightarrow> 0 \<le> n \<and> n < 18446744073709551616"
    using assms by (auto simp: valid_packet_header_def h packet_consts)
  show ?thesis
    using v
    by (cases src; cases dst) (elim disjE;
      simp add: h decodePacketHeader_def packet_header_bytes_def packet_consts Let_def read_defs
        codec_simps js_and_def js_shr_def as_decoded_def packet_header.defs decoded_packet_header.defs)+
qed

interpretation packet_header: field_codec "\<lambda>d. packet_header_bytes (header_of d)" decodePacketHeader
  "\<lambda>d. valid_packet_header (header_of d) \<and> d = as_decoded (header_of d)"
  by unfold_locales (metis decodePacketHeader_bytes)

definition valid_payload_header :: "payload_header \<Rightarrow> bool" where
  "valid_payload_header h \<longleftrightarrow>
     0 \<le> exchangeId h \<and> exchangeId h < 65536 \<and> 0 \<le> protocolId h \<and> protocolId h < 65536 \<and>
     0 \<le> messageType h \<and> messageType h < 256 \<and> \<not> hasSecuredExtension h \<and>
     (\<forall>n. ackedMessageId h = Some n \<longrightarrow> 0 \<le> n \<and> n < 4294967296)"

definition payload_header_bytes :: "payload_header \<Rightarrow> byte list" where
  "payload_header_bytes h =
     le_bytes 1 ((if isInitiatorMessage h then 1 else 0) + (if ackedMessageId h \<noteq> None then 2 else 0) +
       (if requiresAck h then 4 else 0) + (if protocolId h div 65536 \<noteq> 0 then 16 else 0)) @
     le_bytes 1 (messageType h) @ le_bytes 2 (exchangeId h) @
     (if protocolId h div 65536 \<noteq> 0 then le_bytes 4 (protocolId h) else le_bytes 2 (protocolId h)) @
     opt_bytes 4 (ackedMessageId h)"

lemma high_half: "((x::int) AND - 65536) div 65536 = x div 65536"
proof -
  have "drop_bit 16 (x AND NOT (mask 16)) = drop_bit 16 x"
    by (rule bit_eqI) (simp add: bit_simps)
  then show ?thesis by (simp add: drop_bit_eq_div mask_eq_exp_minus_1)
qed

lemma vendor_of_protocol:
  "0 \<le> p \<Longrightarrow> p < 2147483648 \<Longrightarrow> js_shr (js_and p 4294901760) 16 = p div 65536"
proof -
  assume p: "0 \<le> p" "p < 2147483648"
  have "to_int32 4294901760 = - 65536" by (simp add: to_int32_def)
  moreover have "0 \<le> p AND - 65536" "p AND - 65536 \<le> p"
    using p by (simp_all add: AND_upper1)
  ultimately show ?thesis using p high_half [of p] by (simp add: js_shr_def js_and_def)
qed

lemma encodePayloadHeader_bytes:
  assumes "0 \<le> exchangeId h" "exchangeId h < 65536" "0 \<le> protocolId h" "protocolId h < 2147483648"
    and "0 \<le> messageType h" "messageType h < 256"
    and "\<And>n. ackedMessageId h = Some n \<Longrightarrow> 0 \<le> n \<and> n < 4294967296"
  shows "encodePayloadHeader h = Inr (payload_header_bytes h)"
proof -
  have v: "js_shr (js_and (protocolId h) 4294901760) 16 = protocolId h div 65536"
    using assms by (intro vendor_of_protocol)
  show ?thesis
    using assms
    by (cases "isInitiatorMessage h"; cases "requiresAck h"; cases "ackedMessageId h";
        cases "protocolId h div 65536 = 0")
      (simp_all add: encodePayloadHeader_def v payload_header_bytes_def packet_consts Let_def write_defs
        writer_simps js_or_def)
qed

text \<open>
  With a vendor the decoder reads the two halves of the protocol id in the other order than the
  encoder wrote them; without one the header comes back as it was.
\<close>

definition read_back_protocol :: "int \<Rightarrow> int" where
  "read_back_protocol p =
     (if p div 65536 \<noteq> 0 then js_or (js_shl (p mod 65536) 16) (p div 65536) else p)"

lemma js_or_shl_0: "0 \<le> p \<Longrightarrow> p < 2147483648 \<Longrightarrow> js_or (js_shl 0 n) p = p"
  by (simp add: js_or_def js_shl_def)

lemma decodePayloadHeader_bytes:
  assumes "0 \<le> exchangeId h" "exchangeId h < 65536" "0 \<le> protocolId h" "protocolId h < 2147483648"
    and "0 \<le> messageType h" "messageType h < 256" "\<not> hasSecuredExtension h"
    and "\<And>n. ackedMessageId h = Some n \<Longrightarrow> 0 \<le> n \<and> n < 4294967296"
  shows "decodePayloadHeader (rd pre (payload_header_bytes h @ rest)) =
    Inr (h\<lparr>protocolId := read_back_protocol (protocolId h)\<rparr>, rd (pre @ payload_header_bytes h) rest)"
proof -
  obtain ex p mt ini req ack where h: "h = \<lparr>exchangeId = ex, protocolId = p, messageType = mt,
      isInitiatorMessage = ini, requiresAck = req, ackedMessageId = ack, hasSecuredExtension = False\<rparr>"
    using assms(7) by (cases h) auto
  define q where "q = p div 65536"
  have sp: "le_bytes 4 p = le_bytes 2 p @ le_bytes 2 q"
    using le_bytes_add [of 2 2 p] by (simp add: q_def)
  have r: "0 \<le> ex" "ex < 65536" "0 \<le> mt" "mt < 256" "0 \<le> p" "p < 2147483648"
    "\<And>n. ack = Some n \<Longrightarrow> 0 \<le> n \<and> n < 4294967296"
    using assms by (auto simp: h)
  have q: "0 \<le> q" "q < 65536" "q = 0 \<Longrightarrow> p mod 65536 = p" using r by (auto simp: q_def)
  show ?thesis
  proof (cases "q = 0")
    case True
    with q have small: "p mod 65536 = p" by simp
    show ?thesis
      using r True
      by (cases ini; cases req; cases ack)
        (simp_all add: h decodePayloadHeader_def payload_header_bytes_def packet_consts Let_def read_defs
          codec_simps js_and_def read_back_protocol_def q_def [symmetric] small js_or_shl_0)
  next
    case False
    then show ?thesis
      using r q(1,2)
      by (cases ini; cases req; cases ack)
        (simp_all add: h decodePayloadHeader_def payload_header_bytes_def packet_consts Let_def read_defs
          codec_simps js_and_def read_back_protocol_def q_def [symmetric] sp)
  qed
qed

lemma read_back_small: "0 \<le> p \<Longrightarrow> p < 65536 \<Longrightarrow> read_back_protocol p = p"
  by (simp add: read_back_protocol_def)

interpretation payload_header: field_codec payload_header_bytes decodePayloadHeader valid_payload_header
  by unfold_locales
    (subst decodePayloadHeader_bytes; auto simp: valid_payload_header_def read_back_small)

subsection \<open>Properties\<close>

text \<open>The message a receiver sees of a message that was sent.\<close>

definition as_decoded_message :: "message \<Rightarrow> decoded_message" where
  "as_decoded_message m =
     \<lparr>dpacketHeader = as_decoded (packetHeader m), dpayloadHeader = payloadHeader m,
      dsecurityExtension = None, dpayload = payload m\<rparr>"

lemma decodePacket_bytes:
  "valid_packet_header h \<Longrightarrow> decodePacket (packet_header_bytes h @ app) =
   Inr \<lparr>dpktHeader = as_decoded h, dmessageExtension = None, dapplicationPayload = app\<rparr>"
  using decodePacketHeader_bytes [of h "[]" app]
  by (cases h) (simp add: decodePacket_def Let_def new_DataReader_rd codec_simps as_decoded_def
      valid_packet_header_def packet_header.defs decoded_packet_header.defs)

text \<open>C4: Round trip of a message: encoding a message with in-range fields, no extensions and no group
  destination into a packet and then into bytes, and decoding packet and payload, gives the message
  back, with no byte of the payload lost or added.\<close>

theorem message_roundtrip:
  assumes "valid_packet_header (packetHeader m)" "valid_payload_header (payloadHeader m)"
    and "securityExtension m = None"
  shows "and_then (encodePayload m) (\<lambda>p. and_then (encodePacket p) (\<lambda>bs.
      and_then (decodePacket bs) decodePayload)) = Inr (as_decoded_message m)"
proof -
  let ?ph = "packetHeader m" and ?lh = "payloadHeader m"
  have lh: "encodePayloadHeader ?lh = Inr (payload_header_bytes ?lh)"
    using assms(2) by (intro encodePayloadHeader_bytes) (auto simp: valid_payload_header_def)
  have ph: "encodePacketHeader ?ph = Inr (packet_header_bytes ?ph)"
    using assms(1) by (intro encodePacketHeader_bytes) (auto simp: valid_packet_header_def packet_consts)
  have "\<not> hasSecuredExtension ?lh" "\<not> hasMessageExtensions ?ph"
    using assms by (auto simp: valid_payload_header_def valid_packet_header_def)
  then show ?thesis
    using assms payload_header.dec_enc [OF assms(2), of "[]" "payload m"]
    by (simp add: encodePayload_def encodePacket_def lh ph decodePacket_bytes decodePayload_def
        new_DataReader_rd as_decoded_message_def codec_simps)
qed

definition sample_message :: message where
  "sample_message =
     \<lparr>packetHeader = \<lparr>sessionId = 7, sessionType = 0, hasPrivacyEnhancements = False,
        isControlMessage = False, hasMessageExtensions = False, messageId = 1000,
        sourceNodeId = Some 5, destNodeId = Some 18446744073709551615, destGroupId = None\<rparr>,
      payloadHeader = \<lparr>exchangeId = 77, protocolId = 1, messageType = 2, isInitiatorMessage = True,
        requiresAck = True, ackedMessageId = Some 999, hasSecuredExtension = False\<rparr>,
      securityExtension = None, payload = [21, 24]\<rparr>"

lemma message_roundtrip_witness:
  "and_then (encodePayload sample_message) (\<lambda>p. and_then (encodePacket p) (\<lambda>bs.
      and_then (decodePacket bs) decodePayload)) = Inr (as_decoded_message sample_message)"
  by (rule message_roundtrip)
    (simp_all add: sample_message_def valid_packet_header_def valid_payload_header_def packet_consts)

text \<open>Messages are parsed unambiguously: two valid payload headers with whatever follows them
  have different encodings unless headers and rests agree.\<close>

theorem payload_header_unambiguous:
  assumes "valid_payload_header h" "valid_payload_header h'"
    and "encodePayloadHeader h = Inr bs" "encodePayloadHeader h' = Inr bs'" "bs @ r = bs' @ r'"
  shows "h = h' \<and> r = r'"
proof -
  have "bs = payload_header_bytes h" "bs' = payload_header_bytes h'"
    using assms encodePayloadHeader_bytes [of h] encodePayloadHeader_bytes [of h']
    by (auto simp: valid_payload_header_def)
  with assms(5) payload_header.unambiguous [OF assms(1,2), of r r'] show ?thesis by simp
qed

lemma payload_header_unambiguous_witness:
  "payloadHeader sample_message = payloadHeader sample_message \<and> [1::byte] = [1]"
  by (rule payload_header_unambiguous [where bs = "payload_header_bytes (payloadHeader sample_message)"
        and bs' = "payload_header_bytes (payloadHeader sample_message)"])
    (rule encodePayloadHeader_bytes | simp add: sample_message_def valid_payload_header_def)+

text \<open>A vendor-specific protocol id does not survive: the encoder writes the protocol half before
  the vendor half, the decoder takes the first half for the vendor, so the halves come back
  exchanged and every other field as it was.\<close>

theorem vendor_protocol_swapped:
  assumes "valid_payload_header (h\<lparr>protocolId := 0\<rparr>)"
    and "65536 \<le> protocolId h" "protocolId h < 2147483648"
  shows "and_then (encodePayloadHeader h) (\<lambda>bs. and_then (decodePayloadHeader (new_DataReader bs True))
      (\<lambda>(h', r). Inr h')) =
    Inr (h\<lparr>protocolId := js_or (js_shl (protocolId h mod 65536) 16) (protocolId h div 65536)\<rparr>)"
proof -
  have "protocolId h div 65536 \<noteq> 0" using assms(2) by simp
  moreover have "encodePayloadHeader h = Inr (payload_header_bytes h)"
    using assms by (intro encodePayloadHeader_bytes) (auto simp: valid_payload_header_def)
  moreover have "decodePayloadHeader (rd [] (payload_header_bytes h @ [])) =
      Inr (h\<lparr>protocolId := read_back_protocol (protocolId h)\<rparr>, rd ([] @ payload_header_bytes h) [])"
    using assms by (intro decodePayloadHeader_bytes) (auto simp: valid_payload_header_def)
  ultimately show ?thesis by (simp add: new_DataReader_rd read_back_protocol_def)
qed

lemma vendor_protocol_swapped_witness:
  "and_then (encodePayloadHeader (payloadHeader sample_message\<lparr>protocolId := 65538\<rparr>))
     (\<lambda>bs. and_then (decodePayloadHeader (new_DataReader bs True)) (\<lambda>(h', r). Inr h')) =
    Inr (payloadHeader sample_message\<lparr>protocolId := 131073\<rparr>)"
  using vendor_protocol_swapped [of "payloadHeader sample_message\<lparr>protocolId := 65538\<rparr>"]
  by (simp add: sample_message_def valid_payload_header_def js_or_def js_shl_def)

text \<open>A group destination is written with four bytes and read with two: the decoded application
  payload starts with two bytes that do not belong to it.\<close>

theorem group_id_leaks_into_payload:
  assumes "valid_packet_header (h\<lparr>destGroupId := None\<rparr>)" "destNodeId h = None"
    and "destGroupId h = Some g" "0 \<le> g" "g < 65536"
  shows "and_then (encodePacket \<lparr>pktHeader = h, messageExtension = None, applicationPayload = app\<rparr>)
      (\<lambda>bs. and_then (decodePacket bs) (\<lambda>p. Inr (destGroupId (dpktHeader p), dapplicationPayload p))) =
    Inr (Some g, [0, 0] @ app)"
proof -
  obtain sid st mid src where h: "h = \<lparr>sessionId = sid, sessionType = st,
      hasPrivacyEnhancements = False, isControlMessage = False, hasMessageExtensions = False,
      messageId = mid, sourceNodeId = src, destNodeId = None, destGroupId = Some g\<rparr>"
    using assms by (cases h) (auto simp: valid_packet_header_def)
  have v: "0 \<le> sid" "sid < 65536" "st = 1 \<or> st = 0" "0 \<le> mid" "mid < 4294967296"
    "\<And>n. src = Some n \<Longrightarrow> 0 \<le> n \<and> n < 18446744073709551616"
    using assms(1) by (auto simp: valid_packet_header_def h packet_consts)
  have enc: "encodePacketHeader h = Inr (packet_header_bytes h)"
    using v assms by (intro encodePacketHeader_bytes) (auto simp: h)
  have sp: "le_bytes 4 g = le_bytes 2 g @ le_bytes 2 0"
    using le_bytes_add [of 2 2 g] assms by simp
  have "decodePacket (packet_header_bytes h @ app) = Inr \<lparr>dpktHeader = as_decoded h,
      dmessageExtension = None, dapplicationPayload = le_bytes 2 0 @ app\<rparr>"
    using v assms(4,5)
    by (cases src) (elim disjE;
      simp add: h decodePacket_def decodePacketHeader_def packet_header_bytes_def packet_consts Let_def
        read_defs codec_simps js_and_def js_shr_def as_decoded_def packet_header.defs
        decoded_packet_header.defs sp new_DataReader_rd)+
  moreover have "le_bytes 2 0 = [0, 0]" by (simp add: le_bytes.simps numeral_2_eq_2)
  ultimately show ?thesis
    by (simp add: encodePacket_def enc [unfolded h] h as_decoded_def packet_header.defs decoded_packet_header.defs)
qed

lemma group_id_leaks_into_payload_witness:
  "and_then (encodePacket \<lparr>pktHeader = (packetHeader sample_message)\<lparr>destNodeId := None, destGroupId := Some 258\<rparr>,
       messageExtension = None, applicationPayload = [9]\<rparr>)
     (\<lambda>bs. and_then (decodePacket bs) (\<lambda>p. Inr (destGroupId (dpktHeader p), dapplicationPayload p))) =
   Inr (Some 258, [0, 0] @ [9])"
  by (rule group_id_leaks_into_payload) (simp_all add: sample_message_def valid_packet_header_def packet_consts)

end
