(* ===== verification/BtpCodec.thy ===== *)
theory BtpCodec
  imports BytesIO "HOL-Library.Multiset"
begin

text \<open>
  The codec of the Bluetooth transport protocol, packages/protocol/src/codec/BtpCodec.ts: the
  handshake request and response, the data packets and the BLE advertisement.
\<close>

subsection \<open>Data\<close>

record btp_handshake_request =
  versions :: "int list"
  reqAttMtu :: int
  clientWindowSize :: int

record btp_handshake_response =
  version :: int
  respAttMtu :: int
  windowSize :: int

record btp_header =
  isHandshakeRequest :: bool
  hasManagementOpcode :: bool
  hasAckNumber :: bool
  isEndingSegment :: bool
  isContinuingSegment :: bool
  isBeginningSegment :: bool

record btp_payload =
  ackNumber :: "int option"
  sequenceNumber :: int
  messageLength :: "int option"
  segmentPayload :: "byte list option"

record decoded_btp_payload =
  dAckNumber :: "int option"
  dSequenceNumber :: int
  dMessageLength :: "int option"
  dSegmentPayload :: "byte list"

definition HandshakeBit :: int where "HandshakeBit = 64"
definition ManagementMsg :: int where "ManagementMsg = 32"
definition AckMsg :: int where "AckMsg = 8"
definition EndSegment :: int where "EndSegment = 4"
definition ContinuingSegment :: int where "ContinuingSegment = 2"
definition BeginSegment :: int where "BeginSegment = 1"
definition HandshakeManagementOpcode :: int where "HandshakeManagementOpcode = 108"
definition HANDSHAKE_HEADER :: int where "HANDSHAKE_HEADER = 101"

lemmas btp_consts =
  HandshakeBit_def ManagementMsg_def AckMsg_def EndSegment_def ContinuingSegment_def
  BeginSegment_def HandshakeManagementOpcode_def HANDSHAKE_HEADER_def

subsection \<open>Handshake\<close>

text \<open>\<open>versions[i]\<close> beyond the end is \<open>undefined\<close>, which the bit operators take for 0.\<close>

definition version_at :: "int list \<Rightarrow> nat \<Rightarrow> int" where
  "version_at vs i = (if i < length vs then vs ! i else 0)"

definition encodeBtpHandshakeRequest :: "btp_handshake_request \<Rightarrow> byte list res" where
  "encodeBtpHandshakeRequest q =
     (let v = version_at (versions q);
          w = new_DataWriter True;
          w = writeUInt8 HANDSHAKE_HEADER w;
          w = writeUInt8 HandshakeManagementOpcode w;
          w = writeUInt8 (js_or (js_shl (v 1) 4) (v 0)) w;
          w = writeUInt8 (js_or (js_shl (v 3) 4) (v 2)) w;
          w = writeUInt8 (js_or (js_shl (v 5) 4) (v 4)) w;
          w = writeUInt8 (js_or (js_shl (v 7) 4) (v 6)) w;
          w = writeUInt16 (reqAttMtu q) w;
          w = writeUInt8 (clientWindowSize q) w
      in writer_bytes w)"

definition encodeBtpHandshakeResponse :: "btp_handshake_response \<Rightarrow> byte list res" where
  "encodeBtpHandshakeResponse p =
     (let w = new_DataWriter True;
          w = writeUInt8 HANDSHAKE_HEADER w;
          w = writeUInt8 HandshakeManagementOpcode w;
          w = writeUInt8 (js_and (version p) 15) w;
          w = writeUInt16 (respAttMtu p) w;
          w = writeUInt8 (windowSize p) w
      in writer_bytes w)"

definition version_nibbles :: "int \<Rightarrow> int list" where
  "version_nibbles b = [js_shr (js_and b 240) 4, js_and b 15]"

definition decodeHandshakeRequestPayload :: "data_reader \<Rightarrow> btp_handshake_request res" where
  "decodeHandshakeRequestPayload r =
     and_then (readUInt8 r) (\<lambda>(header, r).
     and_then (readUInt8 r) (\<lambda>(opcode, r).
     and_then (readUInt8 r) (\<lambda>(version, r).
     if header \<noteq> HANDSHAKE_HEADER then Inl BtpProtocolError
     else if opcode \<noteq> HandshakeManagementOpcode then Inl BtpProtocolError
     else
     let ver = version_nibbles version in
     and_then (readUInt8 r) (\<lambda>(version, r).
     let ver = ver @ version_nibbles version in
     and_then (readUInt8 r) (\<lambda>(version, r).
     let ver = ver @ version_nibbles version in
     and_then (readUInt8 r) (\<lambda>(version, r).
     let ver = ver @ version_nibbles version;
         versions = filter (\<lambda>v. v \<noteq> 0) ver in
     if length versions = 0 then Inl BtpProtocolError
     else
     and_then (readUInt16 r) (\<lambda>(attMtu, r).
     and_then (readUInt8 r) (\<lambda>(clientWindowSize, r).
     Inr \<lparr>versions = versions, reqAttMtu = attMtu, clientWindowSize = clientWindowSize\<rparr>))))))))"

definition decodeBtpHandshakeRequest :: "byte list \<Rightarrow> btp_handshake_request res" where
  "decodeBtpHandshakeRequest bs = decodeHandshakeRequestPayload (new_DataReader bs True)"

definition decodeBtpHandshakeResponsePayload :: "byte list \<Rightarrow> btp_handshake_response res" where
  "decodeBtpHandshakeResponsePayload bs =
     (let r = new_DataReader bs True in
     and_then (readUInt8 r) (\<lambda>(header, r).
     if header \<noteq> HANDSHAKE_HEADER then Inl BtpProtocolError
     else
     and_then (readUInt8 r) (\<lambda>(opcode, r).
     if opcode \<noteq> HandshakeManagementOpcode then Inl BtpProtocolError
     else
     and_then (readUInt8 r) (\<lambda>(version, r).
     let version = js_and version 15 in
     and_then (readUInt16 r) (\<lambda>(attMtu, r).
     and_then (readUInt8 r) (\<lambda>(windowSize, r).
     Inr \<lparr>version = version, respAttMtu = attMtu, windowSize = windowSize\<rparr>))))))"

subsection \<open>Data packets\<close>

definition decodeBtpPacketHeader :: "data_reader \<Rightarrow> (btp_header \<times> data_reader) res" where
  "decodeBtpPacketHeader r =
     and_then (readUInt8 r) (\<lambda>(headerBits, r).
     let h = \<lparr>isHandshakeRequest = (js_and headerBits HandshakeBit \<noteq> 0),
              hasManagementOpcode = (js_and headerBits ManagementMsg \<noteq> 0),
              hasAckNumber = (js_and headerBits AckMsg \<noteq> 0),
              isEndingSegment = (js_and headerBits EndSegment \<noteq> 0),
              isContinuingSegment = (js_and headerBits ContinuingSegment \<noteq> 0),
              isBeginningSegment = (js_and headerBits BeginSegment \<noteq> 0)\<rparr> in
     if hasManagementOpcode h then Inl BtpProtocolError else Inr (h, r))"

definition decodeBtpPacketPayload :: "data_reader \<Rightarrow> btp_header \<Rightarrow> decoded_btp_payload res" where
  "decodeBtpPacketPayload r h =
     and_then (if hasAckNumber h then and_then (readUInt8 r) (\<lambda>(v, r). Inr (Some v, r)) else Inr (None, r))
       (\<lambda>(ackNumber, r).
     and_then (readUInt8 r) (\<lambda>(sequenceNumber, r).
     and_then (if isBeginningSegment h then and_then (readUInt16 r) (\<lambda>(v, r). Inr (Some v, r)) else Inr (None, r))
       (\<lambda>(messageLength, r).
     Inr \<lparr>dAckNumber = ackNumber, dSequenceNumber = sequenceNumber, dMessageLength = messageLength,
          dSegmentPayload = remainingBytes r\<rparr>)))"

definition decodeBtpPacket :: "byte list \<Rightarrow> (btp_header \<times> decoded_btp_payload) res" where
  "decodeBtpPacket bs =
     and_then (decodeBtpPacketHeader (new_DataReader bs True)) (\<lambda>(header, reader).
     and_then (decodeBtpPacketPayload reader header) (\<lambda>payload. Inr (header, payload)))"

definition encodeBtpPacketHeader :: "btp_header \<Rightarrow> byte list res" where
  "encodeBtpPacketHeader h =
     (if isHandshakeRequest h \<or> hasManagementOpcode h then Inl BtpProtocolError
      else
        let header = js_or (js_or (js_or
              (if hasAckNumber h then AckMsg else 0)
              (if isEndingSegment h then EndSegment else 0))
              (if isContinuingSegment h then ContinuingSegment else 0))
              (if isBeginningSegment h then BeginSegment else 0)
        in writer_bytes (writeUInt8 header (new_DataWriter True)))"

definition encodeBtpPacketPayload :: "btp_header \<Rightarrow> btp_payload \<Rightarrow> byte list res" where
  "encodeBtpPacketPayload h p =
     (let w = new_DataWriter True in
      if \<not> hasAckNumber h \<and> ackNumber p \<noteq> None then Inl BtpProtocolError
      else if hasAckNumber h \<and> ackNumber p = None then Inl BtpProtocolError
      else if isBeginningSegment h \<and> isContinuingSegment h then Inl BtpProtocolError
      else if isEndingSegment h \<and> \<not> isContinuingSegment h \<and> \<not> isBeginningSegment h then Inl BtpProtocolError
      else if (isBeginningSegment h \<or> isContinuingSegment h) \<and>
        (segmentPayload p = None \<or> segmentPayload p = Some []) then Inl BtpProtocolError
      else if isBeginningSegment h \<and> messageLength p = None then Inl BtpProtocolError
      else if \<not> isBeginningSegment h \<and> messageLength p \<noteq> None then Inl BtpProtocolError
      else
        let w = (case ackNumber p of None \<Rightarrow> w | Some a \<Rightarrow> writeUInt8 a w);
            w = writeUInt8 (sequenceNumber p) w;
            w = (case messageLength p of None \<Rightarrow> w | Some l \<Rightarrow> writeUInt16 l w);
            w = (case segmentPayload p of None \<Rightarrow> w | Some bs \<Rightarrow> writeByteArray bs w)
        in writer_bytes w)"

definition encodeBtpPacket :: "btp_header \<Rightarrow> btp_payload \<Rightarrow> byte list res" where
  "encodeBtpPacket h p =
     and_then (encodeBtpPacketHeader h) (\<lambda>hb.
     and_then (encodeBtpPacketPayload h p) (\<lambda>pb. bytes_concat [hb, pb]))"

subsection \<open>BLE advertisement\<close>

record ble_advertisement =
  discriminator :: int
  vendorId :: int
  productId :: int
  hasAdditionalAdvertisementData :: bool

definition encodeBleAdvertisementData :: "ble_advertisement \<Rightarrow> byte list res" where
  "encodeBleAdvertisementData a =
     (let w = new_DataWriter True;
          w = writeUInt8 2 w;
          w = writeUInt8 1 w;
          w = writeUInt8 6 w;
          w = writeUInt8 11 w;
          w = writeUInt8 22 w;
          w = writeUInt16 65526 w;
          w = writeUInt8 0 w;
          w = writeUInt16 (discriminator a) w;
          w = writeUInt16 (vendorId a) w;
          w = writeUInt16 (productId a) w;
          w = writeUInt8 (if hasAdditionalAdvertisementData a then 1 else 0) w
      in writer_bytes w)"

definition decodeBleAdvertisementServiceData :: "byte list \<Rightarrow> ble_advertisement res" where
  "decodeBleAdvertisementServiceData bs =
     and_then (readUInt8 (new_DataReader bs True)) (\<lambda>(b, r).
     if b \<noteq> 0 then Inl BleError
     else
     and_then (readUInt16 r) (\<lambda>(discriminator, r).
     and_then (readUInt16 r) (\<lambda>(vendorId, r).
     and_then (readUInt16 r) (\<lambda>(productId, r).
     and_then (readUInt8 r) (\<lambda>(additional, r).
     Inr \<lparr>discriminator = discriminator, vendorId = vendorId, productId = productId,
          hasAdditionalAdvertisementData = (additional \<noteq> 0)\<rparr>)))))"

text \<open>The five prefix bytes are compared left to right, stopping at the first difference.\<close>

definition decodeBleAdvertisementData :: "byte list \<Rightarrow> ble_advertisement res" where
  "decodeBleAdvertisementData bs =
     and_then (fold_res (\<lambda>b r. and_then (readUInt8 r) (\<lambda>(v, r). if v \<noteq> b then Inl BleError else Inr r))
         [2, 1, 6, 11, 22] (new_DataReader bs True)) (\<lambda>r.
     and_then (readUInt16 r) (\<lambda>(serviceUuid, r).
     if serviceUuid \<noteq> 65526 then Inl BleError
     else decodeBleAdvertisementServiceData (remainingBytes r)))"

subsection \<open>Round trips\<close>

lemma nibbles_byte:
  assumes "0 \<le> a" "a < 16" "0 \<le> b" "b < 16"
  shows "js_or (js_shl a 4) b = 16 * a + b"
  using assms int_or_shift [of b 4 a] by (simp add: js_or_def js_shl_def mult.commute)

lemma version_nibbles_byte:
  assumes "0 \<le> a" "a < 16" "0 \<le> b" "b < 16"
  shows "version_nibbles (16 * a + b) = [a, b]"
proof -
  have "drop_bit 4 ((16 * a + b) AND 240) = drop_bit 4 (16 * a + b) AND 15"
    using drop_bit_and [of 4 "16 * a + b" 240] by simp
  then have "((16 * a + b) AND 240) div 16 = (16 * a + b) div 16 mod 16"
    by (simp only: drop_bit_eq_div int_and_masks) simp
  also have "\<dots> = a" using assms by simp
  finally have "((16 * a + b) AND 240) div 16 = a" .
  moreover have "0 \<le> (16 * a + b) AND 240" "(16 * a + b) AND 240 \<le> 16 * a + b"
    using assms by (simp_all add: AND_upper1)
  ultimately show ?thesis
    using assms by (simp add: version_nibbles_def js_shr_def js_and_def int_and_masks)
qed

definition valid_handshake_request :: "btp_handshake_request \<Rightarrow> bool" where
  "valid_handshake_request q \<longleftrightarrow>
     length (versions q) \<le> 8 \<and> (\<forall>v\<in>set (versions q). 0 \<le> v \<and> v < 16) \<and> (\<exists>v\<in>set (versions q). v \<noteq> 0) \<and>
     0 \<le> reqAttMtu q \<and> reqAttMtu q < 65536 \<and> 0 \<le> clientWindowSize q \<and> clientWindowSize q < 256"

definition paired_versions :: "int list \<Rightarrow> int list" where
  "paired_versions vs = map (version_at vs) [1, 0, 3, 2, 5, 4, 7, 6]"

lemma version_at_range: "\<forall>v\<in>set vs. 0 \<le> v \<and> v < 16 \<Longrightarrow> 0 \<le> version_at vs i \<and> version_at vs i < 16"
  by (simp add: version_at_def)

lemma mset_paired_versions:
  assumes "length vs \<le> 8"
  shows "mset (filter (\<lambda>v. v \<noteq> 0) (paired_versions vs)) = mset (filter (\<lambda>v. v \<noteq> 0) vs)"
proof -
  have "map (version_at vs) [0..<8] = vs @ replicate (8 - length vs) 0"
    by (rule nth_equalityI) (use assms in \<open>auto simp: version_at_def nth_append\<close>)
  moreover have "[0..<8] = [0, 1, 2, 3, 4, 5, 6, 7::nat]" by code_simp
  then have "mset (paired_versions vs) = mset (map (version_at vs) [0..<8])"
    by (simp add: paired_versions_def)
  ultimately have "mset (paired_versions vs) = mset (vs @ replicate (8 - length vs) 0)" by simp
  then have "mset (filter (\<lambda>v. v \<noteq> 0) (paired_versions vs)) =
      mset (filter (\<lambda>v. v \<noteq> 0) (vs @ replicate (8 - length vs) 0))"
    by (simp only: mset_filter)
  then show ?thesis by (simp only: filter_append filter_replicate) simp
qed

lemma handshake_request_back:
  assumes "valid_handshake_request q"
  shows "and_then (encodeBtpHandshakeRequest q) decodeBtpHandshakeRequest =
    Inr (q\<lparr>versions := filter (\<lambda>v. v \<noteq> 0) (paired_versions (versions q))\<rparr>)"
proof -
  let ?v = "version_at (versions q)"
  have v: "0 \<le> ?v i" "?v i < 16" for i
    using assms version_at_range [of "versions q" i] by (auto simp: valid_handshake_request_def)
  have b: "toNumber (16 * ?v i + ?v j) = 16 * ?v i + ?v j"
    "(16 * ?v i + ?v j) mod 256 = 16 * ?v i + ?v j" for i j
    using v [of i] v [of j] by (auto intro!: toNumber_id mod_pos_pos_trivial)
  have ne: "filter (\<lambda>v. v \<noteq> 0) (paired_versions (versions q)) \<noteq> []"
  proof -
    have "set (filter (\<lambda>v. v \<noteq> 0) (paired_versions (versions q))) = set (filter (\<lambda>v. v \<noteq> 0) (versions q))"
      using assms by (intro mset_eq_setD mset_paired_versions) (simp add: valid_handshake_request_def)
    moreover obtain v where "v \<in> set (filter (\<lambda>v. v \<noteq> 0) (versions q))"
      using assms by (auto simp: valid_handshake_request_def)
    ultimately show ?thesis by (metis empty_iff empty_set)
  qed
  obtain vs mtu win where q: "q = \<lparr>versions = vs, reqAttMtu = mtu, clientWindowSize = win\<rparr>"
    by (cases q)
  have r: "0 \<le> mtu" "mtu < 65536" "0 \<le> win" "win < 256"
    using assms by (simp_all add: valid_handshake_request_def q)
  show ?thesis
    using ne r v b
    by (simp add: q encodeBtpHandshakeRequest_def Let_def nibbles_byte writer_simps write_defs btp_consts
        decodeBtpHandshakeRequest_def decodeHandshakeRequestPayload_def new_DataReader_rd read_defs
        codec_simps version_nibbles_byte paired_versions_def del: filter.simps filter_append)
qed

text \<open>A packet whose numbers fit their fields, and what the decoder makes of its payload.\<close>

definition btp_in_range :: "btp_payload \<Rightarrow> bool" where
  "btp_in_range p \<longleftrightarrow>
     (\<forall>a. ackNumber p = Some a \<longrightarrow> 0 \<le> a \<and> a < 256) \<and> 0 \<le> sequenceNumber p \<and> sequenceNumber p < 256 \<and>
     (\<forall>l. messageLength p = Some l \<longrightarrow> 0 \<le> l \<and> l < 65536)"

definition as_decoded_btp :: "btp_payload \<Rightarrow> decoded_btp_payload" where
  "as_decoded_btp p =
     \<lparr>dAckNumber = ackNumber p, dSequenceNumber = sequenceNumber p, dMessageLength = messageLength p,
      dSegmentPayload = (case segmentPayload p of None \<Rightarrow> [] | Some bs \<Rightarrow> bs)\<rparr>"

definition btp_header_byte :: "btp_header \<Rightarrow> int" where
  "btp_header_byte h =
     (if hasAckNumber h then 8 else 0) + (if isEndingSegment h then 4 else 0) +
     (if isContinuingSegment h then 2 else 0) + (if isBeginningSegment h then 1 else 0)"

lemma encodeBtpPacketHeader_byte:
  "encodeBtpPacketHeader h =
   (if isHandshakeRequest h \<or> hasManagementOpcode h then Inl BtpProtocolError
    else Inr (le_bytes 1 (btp_header_byte h)))"
  by (cases "hasAckNumber h"; cases "isEndingSegment h"; cases "isContinuingSegment h";
      cases "isBeginningSegment h")
    (simp_all add: encodeBtpPacketHeader_def btp_header_byte_def btp_consts js_or_def Let_def
      write_defs writer_simps)

lemma decodeBtpPacketHeader_byte:
  assumes "\<not> isHandshakeRequest h" "\<not> hasManagementOpcode h"
  shows "decodeBtpPacketHeader (rd pre (le_bytes 1 (btp_header_byte h) @ rest)) =
    Inr (h, rd (pre @ le_bytes 1 (btp_header_byte h)) rest)"
proof -
  obtain a e c b where h: "h = \<lparr>isHandshakeRequest = False, hasManagementOpcode = False,
      hasAckNumber = a, isEndingSegment = e, isContinuingSegment = c, isBeginningSegment = b\<rparr>"
    using assms by (cases h) auto
  show ?thesis
    by (cases a; cases e; cases c; cases b)
      (simp_all add: h decodeBtpPacketHeader_def btp_header_byte_def btp_consts js_and_def Let_def
        read_defs codec_simps)
qed

interpretation btp_header: field_codec "\<lambda>h. le_bytes 1 (btp_header_byte h)" decodeBtpPacketHeader
  "\<lambda>h. \<not> isHandshakeRequest h \<and> \<not> hasManagementOpcode h"
  by unfold_locales (rule decodeBtpPacketHeader_byte; blast)

definition btp_payload_bytes :: "btp_payload \<Rightarrow> byte list" where
  "btp_payload_bytes p =
     (case ackNumber p of None \<Rightarrow> [] | Some a \<Rightarrow> le_bytes 1 a) @ le_bytes 1 (sequenceNumber p) @
     (case messageLength p of None \<Rightarrow> [] | Some l \<Rightarrow> le_bytes 2 l) @
     (case segmentPayload p of None \<Rightarrow> [] | Some bs \<Rightarrow> bs)"

text \<open>What the encoder's checks let through.\<close>

lemma encodeBtpPacketPayload_Inr:
  assumes "encodeBtpPacketPayload h p = Inr bs" "btp_in_range p"
  shows "(hasAckNumber h \<longleftrightarrow> ackNumber p \<noteq> None) \<and> (isBeginningSegment h \<longleftrightarrow> messageLength p \<noteq> None) \<and>
    bs = btp_payload_bytes p"
proof -
  obtain a sq l sg where p: "p = \<lparr>ackNumber = a, sequenceNumber = sq, messageLength = l, segmentPayload = sg\<rparr>"
    by (cases p)
  show ?thesis
    using assms
    by (cases a; cases l; cases sg)
      (auto simp: p encodeBtpPacketPayload_def Let_def btp_in_range_def btp_payload_bytes_def write_defs
        writer_simps split: if_splits)
qed

lemma decodeBtpPacketPayload_bytes:
  assumes "btp_in_range p" "hasAckNumber h \<longleftrightarrow> ackNumber p \<noteq> None"
    and "isBeginningSegment h \<longleftrightarrow> messageLength p \<noteq> None"
  shows "decodeBtpPacketPayload (rd pre (btp_payload_bytes p)) h = Inr (as_decoded_btp p)"
proof -
  obtain a sq l sg where p: "p = \<lparr>ackNumber = a, sequenceNumber = sq, messageLength = l, segmentPayload = sg\<rparr>"
    by (cases p)
  show ?thesis
    using assms
    by (cases a; cases l; cases sg)
      (simp_all add: p decodeBtpPacketPayload_def btp_in_range_def btp_payload_bytes_def as_decoded_btp_def
        read_defs codec_simps)
qed

lemma btp_packet_back:
  assumes "encodeBtpPacket h p = Inr bs" "btp_in_range p"
  shows "decodeBtpPacket bs = Inr (h, as_decoded_btp p)"
proof -
  from assms(1) obtain pb where h: "\<not> isHandshakeRequest h" "\<not> hasManagementOpcode h"
    and pb: "encodeBtpPacketPayload h p = Inr pb" and bs: "bs = le_bytes 1 (btp_header_byte h) @ pb"
    by (auto simp: encodeBtpPacket_def encodeBtpPacketHeader_byte and_then_Inr_iff split: if_splits)
  note e = encodeBtpPacketPayload_Inr [OF pb assms(2)]
  show ?thesis
    using h e decodeBtpPacketPayload_bytes [OF assms(2), of h "le_bytes 1 (btp_header_byte h)"]
      decodeBtpPacketHeader_byte [of h "[]" pb]
    by (simp add: bs decodeBtpPacket_def new_DataReader_rd)
qed

subsection \<open>Properties\<close>

text \<open>C25: Round trip of BTP packets: whatever header and payload the encoder accepts, with numbers that
  fit their fields, the decoder returns that header and that payload.\<close>

theorem btp_packet_roundtrip:
  assumes "encodeBtpPacket h p = Inr bs" "btp_in_range p"
  shows "decodeBtpPacket bs = Inr (h, as_decoded_btp p)"
  using assms by (rule btp_packet_back)

lemma btp_packet_roundtrip_witness:
  "decodeBtpPacket [13, 5, 6, 2, 0, 170, 187] =
   Inr (\<lparr>isHandshakeRequest = False, hasManagementOpcode = False, hasAckNumber = True, isEndingSegment = True,
        isContinuingSegment = False, isBeginningSegment = True\<rparr>,
     as_decoded_btp \<lparr>ackNumber = Some 5, sequenceNumber = 6, messageLength = Some 2, segmentPayload = Some [170, 187]\<rparr>)"
  by (rule btp_packet_roundtrip) (code_simp, simp add: btp_in_range_def)

text \<open>The encoder refuses every inconsistent packet: it accepts exactly when the header is not a
  handshake, the acknowledgement and the message length are present precisely when announced, no
  segment both begins and continues a message, an ending segment belongs to one, and a segment has
  a payload.\<close>

theorem btp_encoder_accepts_iff:
  "(\<exists>bs. encodeBtpPacket h p = Inr bs) \<longleftrightarrow>
   \<not> isHandshakeRequest h \<and> \<not> hasManagementOpcode h \<and>
   (hasAckNumber h \<longleftrightarrow> ackNumber p \<noteq> None) \<and> (isBeginningSegment h \<longleftrightarrow> messageLength p \<noteq> None) \<and>
   \<not> (isBeginningSegment h \<and> isContinuingSegment h) \<and>
   \<not> (isEndingSegment h \<and> \<not> isContinuingSegment h \<and> \<not> isBeginningSegment h) \<and>
   \<not> ((isBeginningSegment h \<or> isContinuingSegment h) \<and> (segmentPayload p = None \<or> segmentPayload p = Some []))"
proof -
  obtain a sq l sg where p: "p = \<lparr>ackNumber = a, sequenceNumber = sq, messageLength = l, segmentPayload = sg\<rparr>"
    by (cases p)
  show ?thesis
    by (cases a; cases l; cases sg)
      (auto simp: p encodeBtpPacket_def encodeBtpPacketHeader_byte encodeBtpPacketPayload_def Let_def
        write_defs writer_simps)
qed

text \<open>Round trip of the handshake request: the response side reads the MTU and window the request
  was made with, and the same supported versions up to their order (each pair of nibbles is read
  high first and written low first).\<close>

theorem handshake_request_roundtrip:
  assumes "valid_handshake_request q"
  shows "\<exists>q'. and_then (encodeBtpHandshakeRequest q) decodeBtpHandshakeRequest = Inr q' \<and>
    reqAttMtu q' = reqAttMtu q \<and> clientWindowSize q' = clientWindowSize q \<and>
    mset (versions q') = mset (filter (\<lambda>v. v \<noteq> 0) (versions q))"
  using handshake_request_back [OF assms] mset_paired_versions [of "versions q"] assms
  by (auto simp: valid_handshake_request_def)

lemma handshake_request_roundtrip_witness:
  "\<exists>q'. and_then (encodeBtpHandshakeRequest \<lparr>versions = [4, 3, 2], reqAttMtu = 200, clientWindowSize = 6\<rparr>)
      decodeBtpHandshakeRequest = Inr q' \<and> reqAttMtu q' = 200 \<and> clientWindowSize q' = 6 \<and>
    mset (versions q') = mset (filter (\<lambda>v. v \<noteq> 0) [4, 3, 2])"
  using handshake_request_roundtrip [of "\<lparr>versions = [4, 3, 2], reqAttMtu = 200, clientWindowSize = 6\<rparr>"]
  by (simp add: valid_handshake_request_def)

lemma handshake_response_back:
  "0 \<le> version p \<Longrightarrow> version p < 16 \<Longrightarrow> 0 \<le> respAttMtu p \<Longrightarrow> respAttMtu p < 65536 \<Longrightarrow>
   0 \<le> windowSize p \<Longrightarrow> windowSize p < 256 \<Longrightarrow>
   and_then (encodeBtpHandshakeResponse p) decodeBtpHandshakeResponsePayload = Inr p"
  by (cases p) (simp add: encodeBtpHandshakeResponse_def decodeBtpHandshakeResponsePayload_def Let_def
      write_defs writer_simps btp_consts new_DataReader_rd read_defs codec_simps js_and_def int_and_masks)

text \<open>Round trip of the BLE advertisement: every 16-bit discriminator, vendor and product id and the
  additional-data flag are read back from the advertisement that carries them.\<close>

theorem ble_advertisement_roundtrip:
  assumes "0 \<le> discriminator a" "discriminator a < 65536" "0 \<le> vendorId a" "vendorId a < 65536"
    and "0 \<le> productId a" "productId a < 65536"
  shows "and_then (encodeBleAdvertisementData a) decodeBleAdvertisementData = Inr a"
  using assms
  by (cases a) (simp add: encodeBleAdvertisementData_def decodeBleAdvertisementData_def Let_def write_defs
      decodeBleAdvertisementServiceData_def writer_simps new_DataReader_rd read_defs codec_simps)

lemma ble_advertisement_roundtrip_witness:
  "and_then (encodeBleAdvertisementData
     \<lparr>discriminator = 3840, vendorId = 65521, productId = 32768, hasAdditionalAdvertisementData = True\<rparr>)
     decodeBleAdvertisementData =
   Inr \<lparr>discriminator = 3840, vendorId = 65521, productId = 32768, hasAdditionalAdvertisementData = True\<rparr>"
  by (rule ble_advertisement_roundtrip) simp_all

end
