(* ===== verification/BtpSession.thy ===== *)
theory BtpSession
  imports BtpCodec
begin

text \<open>
  The session layer of the Bluetooth transport, packages/protocol/src/ble/BtpSessionHandler.ts:
  the state of a session and its handlers.

  Every handler runs without interruption up to an \<open>await\<close>.  The awaits that other handlers can
  interleave with are kept as separate operations: the send loop is suspended while a fragment is
  being written (\<open>sendLoop\<close> holds the one local variable the rest of the loop body reads) and
  continued by \<open>fragmentWritten\<close>; the acknowledgement timer waits for its write in the same way.
  What a handler does to the outside is a list of outputs.  Logging is left out.
\<close>

subsection \<open>Constants\<close>

definition BLE_MINIMUM_ATT_MTU :: int where "BLE_MINIMUM_ATT_MTU = 20"
definition BLE_MAXIMUM_BTP_MTU :: int where "BLE_MAXIMUM_BTP_MTU = 244"
definition BTP_MAXIMUM_WINDOW_SIZE :: int where "BTP_MAXIMUM_WINDOW_SIZE = 255"
definition BTP_SUPPORTED_VERSIONS :: "int list" where "BTP_SUPPORTED_VERSIONS = [4]"
definition MAXIMUM_SEQUENCE_NUMBER :: int where "MAXIMUM_SEQUENCE_NUMBER = 255"

lemmas btp_session_consts =
  BLE_MINIMUM_ATT_MTU_def BLE_MAXIMUM_BTP_MTU_def BTP_MAXIMUM_WINDOW_SIZE_def
  BTP_SUPPORTED_VERSIONS_def MAXIMUM_SEQUENCE_NUMBER_def

subsection \<open>State and outputs\<close>

datatype btp_role = Central | Peripheral

datatype btp_output =
    WriteBle "byte list"
  | DisconnectBle
  | HandleMatterMessage "byte list"
  | Rejects js_error

text \<open>A timer is whether it is running.  \<open>pendingAckWrites\<close> counts acknowledgements being written.\<close>

record btp_session =
  role :: btp_role
  fragmentSize :: int
  sessionWindowSize :: int
  currentIncomingSegmentedMsgLength :: "int option"
  currentIncomingSegmentedPayload :: "byte list option"
  prevIncomingSequenceNumber :: int
  prevIncomingAckNumber :: int
  ackReceiveTimer :: bool
  outSequenceNumber :: int
  prevAckedSequenceNumber :: int
  queuedOutgoingMatterMessages :: "data_reader list"
  sendInProgress :: bool
  sendAckTimer :: bool
  isActive :: bool
  idleTimeout :: bool
  sendLoop :: "bool option"
  pendingAckWrites :: nat

definition new_BtpSessionHandler :: "btp_role \<Rightarrow> int \<Rightarrow> int \<Rightarrow> int \<Rightarrow> btp_session res" where
  "new_BtpSessionHandler rl btpVersion fragSize winSize =
     (if btpVersion \<noteq> 4 then Inl BtpProtocolError
      else
        let s = \<lparr>role = rl, fragmentSize = fragSize, sessionWindowSize = winSize,
                 currentIncomingSegmentedMsgLength = None, currentIncomingSegmentedPayload = None,
                 prevIncomingSequenceNumber = 255, prevIncomingAckNumber = - 1, ackReceiveTimer = False,
                 outSequenceNumber = 0, prevAckedSequenceNumber = - 1,
                 queuedOutgoingMatterMessages = [], sendInProgress = False, sendAckTimer = False,
                 isActive = True, idleTimeout = False, sendLoop = None, pendingAckWrites = 0\<rparr>
        in Inr (if rl = Peripheral then s\<lparr>ackReceiveTimer := True\<rparr>
                else s\<lparr>sendAckTimer := True, prevIncomingSequenceNumber := 0,
                       prevIncomingAckNumber := - 1, outSequenceNumber := - 1\<rparr>))"

text \<open>The factory of the peripheral: the new session and the handshake response it writes.\<close>

definition createFromHandshakeRequest ::
  "int option \<Rightarrow> byte list \<Rightarrow> btp_session res \<times> btp_output list" where
  "createFromHandshakeRequest maxDataSize request =
     (case decodeBtpHandshakeRequest request of
        Inl e \<Rightarrow> (Inl e, [])
      | Inr q \<Rightarrow>
        (case find (\<lambda>v. v \<in> set (versions q)) BTP_SUPPORTED_VERSIONS of
           None \<Rightarrow> (Inl BtpProtocolError, [DisconnectBle])
         | Some v \<Rightarrow>
           let attMtu =
                 (case maxDataSize of
                    None \<Rightarrow> BLE_MINIMUM_ATT_MTU
                  | Some maxData \<Rightarrow>
                    if maxData > BLE_MINIMUM_ATT_MTU then
                      if reqAttMtu q \<le> BLE_MINIMUM_ATT_MTU then min maxData BLE_MAXIMUM_BTP_MTU
                      else min (reqAttMtu q) (min maxData BLE_MAXIMUM_BTP_MTU)
                    else BLE_MINIMUM_ATT_MTU);
               windowSize = min BTP_MAXIMUM_WINDOW_SIZE (clientWindowSize q)
           in case encodeBtpHandshakeResponse
                  \<lparr>version = v, respAttMtu = attMtu, windowSize = windowSize\<rparr> of
                Inl e \<Rightarrow> (Inl e, [])
              | Inr response \<Rightarrow>
                (case new_BtpSessionHandler Peripheral v attMtu windowSize of
                   Inl e \<Rightarrow> (Inl e, [])
                 | Inr s \<Rightarrow> (Inr s, [WriteBle response]))))"

definition createAsCentral :: "byte list \<Rightarrow> btp_session res" where
  "createAsCentral response =
     and_then (decodeBtpHandshakeResponsePayload response) (\<lambda>p.
     new_BtpSessionHandler Central (version p) (min (respAttMtu p) BLE_MAXIMUM_BTP_MTU) (windowSize p))"

subsection \<open>Sequence numbers and window\<close>

definition getNextSequenceNumber :: "btp_session \<Rightarrow> int \<times> btp_session" where
  "getNextSequenceNumber s =
     (let n = outSequenceNumber s + 1;
          n = (if n > MAXIMUM_SEQUENCE_NUMBER then 0 else n)
      in (n, s\<lparr>outSequenceNumber := n\<rparr>))"

text \<open>The remainder of a non-negative number; \<open>prevAck > current\<close> makes it one.\<close>

definition exceedsWindowSize :: "btp_session \<Rightarrow> int \<Rightarrow> int \<Rightarrow> bool" where
  "exceedsWindowSize s prevAck current =
     (let prevAck = (if prevAck > current then prevAck mod MAXIMUM_SEQUENCE_NUMBER - 1 else prevAck)
      in current - prevAck > sessionWindowSize s - 1)"

definition close :: "btp_session \<Rightarrow> btp_session \<times> btp_output list" where
  "close s =
     (let s = s\<lparr>sendAckTimer := False, ackReceiveTimer := False, idleTimeout := False\<rparr>
      in if isActive s then (s\<lparr>isActive := False\<rparr>, [DisconnectBle]) else (s, []))"

subsection \<open>Receiving\<close>

text \<open>
  A statement that may throw keeps what it has already assigned: the error carries the state.
\<close>

type_synonym 'a btp_res = "(js_error \<times> btp_session) + 'a"

definition accept_ack :: "btp_header \<Rightarrow> decoded_btp_payload \<Rightarrow> btp_session \<Rightarrow> btp_session btp_res" where
  "accept_ack h p s =
     (case dAckNumber p of
        Some ack \<Rightarrow>
          if hasAckNumber h then
            if ack > outSequenceNumber s \<or> exceedsWindowSize s (prevIncomingAckNumber s) ack
            then Inl (BtpProtocolError, s)
            else
              let s = s\<lparr>ackReceiveTimer := False, prevIncomingAckNumber := ack\<rparr>
              in Inr (if ack \<noteq> outSequenceNumber s then s\<lparr>ackReceiveTimer := True\<rparr> else s)
          else Inr s
      | None \<Rightarrow> Inr s)"

definition add_segment :: "btp_header \<Rightarrow> decoded_btp_payload \<Rightarrow> btp_session \<Rightarrow> btp_session btp_res" where
  "add_segment h p s =
     (if isBeginningSegment h then
        if currentIncomingSegmentedPayload s \<noteq> None then Inl (BtpProtocolError, s)
        else Inr (s\<lparr>currentIncomingSegmentedMsgLength := dMessageLength p,
                    currentIncomingSegmentedPayload := Some (dSegmentPayload p)\<rparr>)
      else if isContinuingSegment h \<or> isEndingSegment h then
        (case currentIncomingSegmentedPayload s of
           None \<Rightarrow> Inl (BtpProtocolError, s)
         | Some sofar \<Rightarrow>
           if length (dSegmentPayload p) = 0 then Inl (BtpProtocolError, s)
           else Inr (s\<lparr>currentIncomingSegmentedPayload := Some (sofar @ dSegmentPayload p)\<rparr>))
      else Inr s)"

definition end_message :: "btp_header \<Rightarrow> btp_session \<Rightarrow> (btp_session \<times> btp_output list) btp_res" where
  "end_message h s =
     (if isEndingSegment h then
        (case (currentIncomingSegmentedMsgLength s, currentIncomingSegmentedPayload s) of
           (Some len, Some payload) \<Rightarrow>
             if int (length payload) \<noteq> len then Inl (BtpProtocolError, s)
             else Inr (s\<lparr>currentIncomingSegmentedMsgLength := None, currentIncomingSegmentedPayload := None\<rparr>,
                       [HandleMatterMessage payload])
         | _ \<Rightarrow> Inl (BtpProtocolError, s))
      else Inr (s, []))"

definition incoming_body :: "byte list \<Rightarrow> btp_session \<Rightarrow> (btp_session \<times> btp_output list) btp_res" where
  "incoming_body bs s =
     (if int (length bs) > fragmentSize s \<and> int (length bs) > fragmentSize s + 3 then Inl (BtpProtocolError, s)
      else
        case decodeBtpPacket bs of
          Inl e \<Rightarrow> Inl (e, s)
        | Inr (h, p) \<Rightarrow>
          if isHandshakeRequest h \<or> hasManagementOpcode h then Inl (BtpProtocolError, s)
          else if length (dSegmentPayload p) = 0 \<and> \<not> hasAckNumber h then Inl (BtpProtocolError, s)
          else if dSequenceNumber p \<noteq> (prevIncomingSequenceNumber s + 1) mod 256 then Inl (BtpProtocolError, s)
          else
            let s = s\<lparr>prevIncomingSequenceNumber := dSequenceNumber p, sendAckTimer := True\<rparr>
            in and_then (accept_ack h p s) (\<lambda>s. and_then (add_segment h p s) (end_message h)))"

text \<open>The \<open>catch\<close> block: close, and rethrow all but protocol errors.\<close>

definition incoming_failed :: "js_error \<Rightarrow> btp_session \<Rightarrow> btp_session \<times> btp_output list" where
  "incoming_failed e s =
     (let (s', out) = close s in (s', out @ (if e = BtpProtocolError then [] else [Rejects e])))"

definition handleIncomingBleData :: "byte list \<Rightarrow> btp_session \<Rightarrow> btp_session \<times> btp_output list" where
  "handleIncomingBleData bs s =
     (if \<not> isActive s then (s, [])
      else case incoming_body bs s of Inl (e, s') \<Rightarrow> incoming_failed e s' | Inr r \<Rightarrow> r)"

subsection \<open>Sending\<close>

text \<open>The loop body up to the write of the fragment.\<close>

definition send_fragment :: "btp_session \<Rightarrow> btp_session \<times> btp_output list" where
  "send_fragment s =
     (case queuedOutgoingMatterMessages s of
        [] \<Rightarrow> (s\<lparr>sendInProgress := False\<rparr>, [])
      | m # rest \<Rightarrow>
        let remaining = remainingBytesCount m;
            hasAck = (prevIncomingSequenceNumber s \<noteq> prevAckedSequenceNumber s);
            s = (if hasAck then s\<lparr>prevAckedSequenceNumber := prevIncomingSequenceNumber s, sendAckTimer := False\<rparr>
                 else s);
            isBeginning = (remaining = reader_length m);
            headerLength = 2 + (if isBeginning then 2 else 0) + (if hasAck then 1 else 0);
            isEnding = (remaining \<le> fragmentSize s - headerLength);
            (segment, m') = readByteArray (fragmentSize s - headerLength) m;
            s = s\<lparr>queuedOutgoingMatterMessages := m' # rest\<rparr>;
            (sq, s) = getNextSequenceNumber s
        in case encodeBtpPacket
               \<lparr>isHandshakeRequest = False, hasManagementOpcode = False, hasAckNumber = hasAck,
                isEndingSegment = isEnding, isContinuingSegment = \<not> isBeginning, isBeginningSegment = isBeginning\<rparr>
               \<lparr>ackNumber = (if hasAck then Some (prevIncomingSequenceNumber s) else None), sequenceNumber = sq,
                messageLength = (if isBeginning then Some remaining else None), segmentPayload = Some segment\<rparr> of
             Inl e \<Rightarrow> (s, [Rejects e])
           | Inr packet \<Rightarrow> (s\<lparr>sendLoop := Some isEnding\<rparr>, [WriteBle packet]))"

definition processSendQueue :: "btp_session \<Rightarrow> btp_session \<times> btp_output list" where
  "processSendQueue s =
     (if sendInProgress s then (s, [])
      else if exceedsWindowSize s (prevIncomingAckNumber s) (outSequenceNumber s) then (s, [])
      else if queuedOutgoingMatterMessages s = [] then (s, [])
      else send_fragment (s\<lparr>sendInProgress := True\<rparr>))"

text \<open>The rest of the loop body, once the fragment is written, and the next turn of the loop.\<close>

definition fragmentWritten :: "btp_session \<Rightarrow> btp_session \<times> btp_output list" where
  "fragmentWritten s =
     (case sendLoop s of
        None \<Rightarrow> (s, [])
      | Some isEnding \<Rightarrow>
        let s = s\<lparr>sendLoop := None, ackReceiveTimer := True\<rparr>;
            s = (if role s = Central then s\<lparr>idleTimeout := True\<rparr> else s);
            s = (if isEnding then s\<lparr>queuedOutgoingMatterMessages := tl (queuedOutgoingMatterMessages s)\<rparr> else s)
        in if exceedsWindowSize s (prevIncomingAckNumber s) (outSequenceNumber s)
           then (s\<lparr>sendInProgress := False\<rparr>, [])
           else send_fragment s)"

text \<open>A write that fails ends the loop by its exception.\<close>

definition fragmentWriteFailed :: "js_error \<Rightarrow> btp_session \<Rightarrow> btp_session \<times> btp_output list" where
  "fragmentWriteFailed e s = (s\<lparr>sendLoop := None\<rparr>, [Rejects e])"

definition sendMatterMessage :: "byte list \<Rightarrow> btp_session \<Rightarrow> btp_session \<times> btp_output list" where
  "sendMatterMessage bs s =
     (if \<not> isActive s then (s, [Rejects BtpFlowError])
      else if length bs = 0 then (s, [Rejects BtpFlowError])
      else processSendQueue (s\<lparr>queuedOutgoingMatterMessages :=
             queuedOutgoingMatterMessages s @ [new_DataReader bs True]\<rparr>))"

subsection \<open>Timers\<close>

definition btpSendAckTimeoutTriggered :: "btp_session \<Rightarrow> btp_session \<times> btp_output list" where
  "btpSendAckTimeoutTriggered s =
     (if prevIncomingSequenceNumber s > prevAckedSequenceNumber s then
        let (sq, s) = getNextSequenceNumber s;
            ack = prevIncomingSequenceNumber s;
            s = s\<lparr>prevAckedSequenceNumber := prevIncomingSequenceNumber s\<rparr>
        in case encodeBtpPacket
               \<lparr>isHandshakeRequest = False, hasManagementOpcode = False, hasAckNumber = True,
                isEndingSegment = False, isContinuingSegment = False, isBeginningSegment = False\<rparr>
               \<lparr>ackNumber = Some ack, sequenceNumber = sq, messageLength = None, segmentPayload = None\<rparr> of
             Inl e \<Rightarrow> (s, [Rejects e])
           | Inr packet \<Rightarrow> (s\<lparr>pendingAckWrites := pendingAckWrites s + 1\<rparr>, [WriteBle packet])
      else (s, []))"

definition ackWritten :: "btp_session \<Rightarrow> btp_session \<times> btp_output list" where
  "ackWritten s = (s\<lparr>pendingAckWrites := pendingAckWrites s - 1, ackReceiveTimer := True\<rparr>, [])"

definition btpAckTimeoutTriggered :: "btp_session \<Rightarrow> btp_session \<times> btp_output list" where
  "btpAckTimeoutTriggered s =
     (if prevIncomingAckNumber s \<noteq> outSequenceNumber s then close s else (s, []))"

text \<open>Whether a handler can run now, and what it does; an expiring timer stops running first.\<close>

datatype btp_event =
    SendMatterMessage "byte list"
  | FragmentWritten
  | AckWritten
  | HandlerRejected js_error
  | SendAckTimer
  | AckReceiveTimer
  | IdleTimer
  | CloseSession

fun enabled :: "btp_event \<Rightarrow> btp_session \<Rightarrow> bool" where
  "enabled FragmentWritten s = (sendLoop s \<noteq> None)"
| "enabled AckWritten s = (pendingAckWrites s > 0)"
| "enabled SendAckTimer s = sendAckTimer s"
| "enabled AckReceiveTimer s = ackReceiveTimer s"
| "enabled IdleTimer s = idleTimeout s"
| "enabled _ s = True"

fun handle_event :: "btp_event \<Rightarrow> btp_session \<Rightarrow> btp_session \<times> btp_output list" where
  "handle_event (SendMatterMessage bs) s = sendMatterMessage bs s"
| "handle_event FragmentWritten s = fragmentWritten s"
| "handle_event AckWritten s = ackWritten s"
| "handle_event (HandlerRejected e) s = incoming_failed e s"
| "handle_event SendAckTimer s = btpSendAckTimeoutTriggered (s\<lparr>sendAckTimer := False\<rparr>)"
| "handle_event AckReceiveTimer s = btpAckTimeoutTriggered (s\<lparr>ackReceiveTimer := False\<rparr>)"
| "handle_event IdleTimer s = close (s\<lparr>idleTimeout := False\<rparr>)"
| "handle_event CloseSession s = close s"

end
