(* ===== verification/BtpLink.thy ===== *)
theory BtpLink
  imports BtpSession "HOL-Library.Sublist"
begin

text \<open>
  Two Bluetooth transport sessions joined by a link that loses and reorders nothing: the step
  relation of all interleavings of their handlers, the invariant of each direction, and what
  follows for the messages handed to the users.
\<close>

subsection \<open>Two sessions on a link\<close>

text \<open>
  An endpoint is a session, the packets it has written that the peer has not read, the messages
  its user submitted and the messages it handed to its user.
\<close>

record btp_endpoint =
  session :: btp_session
  inflight :: "byte list list"
  submitted :: "byte list list"
  delivered :: "byte list list"

fun writes :: "btp_output list \<Rightarrow> byte list list" where
  "writes [] = []"
| "writes (WriteBle bs # out) = bs # writes out"
| "writes (_ # out) = writes out"

fun handled :: "btp_output list \<Rightarrow> byte list list" where
  "handled [] = []"
| "handled (HandleMatterMessage bs # out) = bs # handled out"
| "handled (_ # out) = handled out"

fun accepted :: "btp_event \<Rightarrow> btp_session \<Rightarrow> byte list list" where
  "accepted (SendMatterMessage bs) s = (if isActive s \<and> bs \<noteq> [] then [bs] else [])"
| "accepted _ s = []"

fun fits :: "btp_event \<Rightarrow> bool" where
  "fits (SendMatterMessage bs) = (length bs < 65536)"
| "fits _ = True"

inductive link_step :: "btp_endpoint \<times> btp_endpoint \<Rightarrow> btp_endpoint \<times> btp_endpoint \<Rightarrow> bool" where
  local_step: "enabled ev (session a) \<Longrightarrow> fits ev \<Longrightarrow> handle_event ev (session a) = (s, out) \<Longrightarrow>
    link_step (a, b) (a\<lparr>session := s, inflight := inflight a @ writes out,
      submitted := submitted a @ accepted ev (session a)\<rparr>, b)"
| receive_step: "inflight b = packet # rest \<Longrightarrow> handleIncomingBleData packet (session a) = (s, out) \<Longrightarrow>
    link_step (a, b) (a\<lparr>session := s, delivered := delivered a @ handled out\<rparr>, b\<lparr>inflight := rest\<rparr>)"
| other_side: "link_step (b, a) (b', a') \<Longrightarrow> link_step (a, b) (a', b')"

inductive link_reachable :: "btp_endpoint \<times> btp_endpoint \<Rightarrow> btp_endpoint \<times> btp_endpoint \<Rightarrow> bool"
  for start where
  reach_start: "link_reachable start start"
| reach_step: "link_reachable start l \<Longrightarrow> link_step l l' \<Longrightarrow> link_reachable start l'"

definition fresh_endpoint :: "btp_session \<Rightarrow> btp_endpoint" where
  "fresh_endpoint s = \<lparr>session = s, inflight = [], submitted = [], delivered = []\<rparr>"

text \<open>A peripheral and a central with the same fragment size, just after the handshake.\<close>

definition link_start :: "int \<Rightarrow> int \<Rightarrow> int \<Rightarrow> btp_endpoint \<times> btp_endpoint \<Rightarrow> bool" where
  "link_start fragSize wp wc l \<longleftrightarrow>
     (\<exists>p c. new_BtpSessionHandler Peripheral 4 fragSize wp = Inr p \<and>
        new_BtpSessionHandler Central 4 fragSize wc = Inr c \<and>
        l \<in> {(fresh_endpoint p, fresh_endpoint c), (fresh_endpoint c, fresh_endpoint p)})"

subsection \<open>The invariant of one direction\<close>

type_synonym segment = "btp_header \<times> btp_payload"

text \<open>
  What a receiver with \<open>P\<close> of a message already in hand makes of a sequence of packets, if it
  finds nothing wrong with them: the part it then has in hand and the messages completed.
\<close>

fun absorb :: "(int \<times> byte list) option \<Rightarrow> segment list \<Rightarrow> ((int \<times> byte list) option \<times> byte list list) option" where
  "absorb P [] = Some (P, [])"
| "absorb P ((h, p) # segs) =
     (let seg = dSegmentPayload (as_decoded_btp p);
          P' = (if isBeginningSegment h then
                  (case (P, messageLength p) of (None, Some l) \<Rightarrow> Some (Some (l, seg)) | _ \<Rightarrow> None)
                else if isContinuingSegment h \<or> isEndingSegment h then
                  (case P of Some (l, sofar) \<Rightarrow> if seg = [] then None else Some (Some (l, sofar @ seg)) | None \<Rightarrow> None)
                else Some P)
      in case P' of None \<Rightarrow> None
         | Some Q \<Rightarrow>
           if isEndingSegment h then
             (case Q of
                Some (l, payload) \<Rightarrow>
                  if int (length payload) = l
                  then map_option (\<lambda>(R, ms). (R, payload # ms)) (absorb None segs) else None
              | None \<Rightarrow> None)
           else absorb Q segs)"

lemma absorb_append:
  "absorb P (xs @ ys) =
   (case absorb P xs of None \<Rightarrow> None
    | Some (Q, ms) \<Rightarrow> map_option (\<lambda>(R, ns). (R, ms @ ns)) (absorb Q ys))"
  by (induction P xs rule: absorb.induct)
    (auto simp: Let_def option.map_comp comp_def case_prod_unfold option.map_ident
      split: option.splits prod.splits intro!: option.map_cong)

definition partial_in :: "btp_session \<Rightarrow> (int \<times> byte list) option" where
  "partial_in s =
     (case (currentIncomingSegmentedMsgLength s, currentIncomingSegmentedPayload s) of
        (Some l, Some bs) \<Rightarrow> Some (l, bs) | _ \<Rightarrow> None)"

definition active_queue :: "btp_session \<Rightarrow> data_reader list" where
  "active_queue s =
     (if sendLoop s = Some True then tl (queuedOutgoingMatterMessages s) else queuedOutgoingMatterMessages s)"

definition started :: "data_reader list \<Rightarrow> (int \<times> byte list) option" where
  "started q =
     (case q of [] \<Rightarrow> None
      | m # _ \<Rightarrow> if offset m = 0 then None else Some (int (length (buffer m)), take (nat (offset m)) (buffer m)))"

definition wf_queue :: "data_reader list \<Rightarrow> bool" where
  "wf_queue q \<longleftrightarrow>
     (case q of [] \<Rightarrow> True
      | m # ms \<Rightarrow> (\<exists>pre rest. m = rd pre rest \<and> rest \<noteq> [] \<and> length pre + length rest < 65536) \<and>
          (\<forall>m\<in>set ms. \<exists>bs. m = rd [] bs \<and> bs \<noteq> [] \<and> length bs < 65536))"

definition wf_session :: "btp_session \<Rightarrow> bool" where
  "wf_session s \<longleftrightarrow>
     6 \<le> fragmentSize s \<and> - 1 \<le> outSequenceNumber s \<and> outSequenceNumber s < 256 \<and>
     0 \<le> prevIncomingSequenceNumber s \<and> prevIncomingSequenceNumber s < 256 \<and>
     (sendLoop s \<noteq> None \<longrightarrow> sendInProgress s \<and> queuedOutgoingMatterMessages s \<noteq> []) \<and>
     (currentIncomingSegmentedMsgLength s = None \<longleftrightarrow> currentIncomingSegmentedPayload s = None) \<and>
     wf_queue (active_queue s)"

text \<open>Packets as they are on the wire, numbered from \<open>n\<close> on.\<close>

fun numbered :: "int \<Rightarrow> int \<Rightarrow> byte list list \<Rightarrow> segment list \<Rightarrow> bool" where
  "numbered fragSize n [] [] = True"
| "numbered fragSize n (packet # ps) ((h, p) # segs) =
     (encodeBtpPacket h p = Inr packet \<and> btp_in_range p \<and> int (length packet) \<le> fragSize \<and>
      sequenceNumber p = n \<and> (hasAckNumber h \<or> isBeginningSegment h \<or> isContinuingSegment h) \<and>
      numbered fragSize ((n + 1) mod 256) ps segs)"
| "numbered _ _ _ _ = False"

lemma numbered_append:
  "numbered f n ps segs \<Longrightarrow> numbered f ((n + int (length ps)) mod 256) qs segs' \<Longrightarrow> 0 \<le> n \<Longrightarrow> n < 256 \<Longrightarrow>
   numbered f n (ps @ qs) (segs @ segs')"
proof (induction f n ps segs rule: numbered.induct)
  case (2 fragSize n packet ps h p segs)
  then show ?case by (simp add: mod_add_right_eq algebra_simps)
qed auto

definition flow :: "btp_endpoint \<Rightarrow> btp_endpoint \<Rightarrow> bool" where
  "flow a b \<longleftrightarrow>
     prefix (delivered b) (submitted a) \<and>
     (isActive (session b) \<longrightarrow>
       (\<exists>segs ms.
          numbered (fragmentSize (session b)) ((prevIncomingSequenceNumber (session b) + 1) mod 256) (inflight a) segs \<and>
          (prevIncomingSequenceNumber (session b) + int (length (inflight a))) mod 256 =
            outSequenceNumber (session a) mod 256 \<and>
          absorb (partial_in (session b)) segs = Some (started (active_queue (session a)), ms) \<and>
          submitted a = delivered b @ ms @ map buffer (active_queue (session a))))"

definition link_ok :: "btp_endpoint \<times> btp_endpoint \<Rightarrow> bool" where
  "link_ok l \<longleftrightarrow>
     (let (a, b) = l in
      wf_session (session a) \<and> wf_session (session b) \<and> fragmentSize (session a) = fragmentSize (session b) \<and>
      flow a b \<and> flow b a)"

lemma encoded_length:
  assumes "encodeBtpPacket h p = Inr packet" "btp_in_range p"
  shows "length packet = 2 + (if hasAckNumber h then 1 else 0) + (if isBeginningSegment h then 2 else 0) +
    length (case segmentPayload p of None \<Rightarrow> [] | Some bs \<Rightarrow> bs)"
proof -
  from assms(1) obtain pb where pb: "encodeBtpPacketPayload h p = Inr pb"
    and bs: "packet = le_bytes 1 (btp_header_byte h) @ pb"
    by (auto simp: encodeBtpPacket_def encodeBtpPacketHeader_byte and_then_Inr_iff split: if_splits)
  show ?thesis
    using encodeBtpPacketPayload_Inr [OF pb assms(2)]
    by (auto simp: bs btp_payload_bytes_def split: option.splits)
qed

text \<open>What one turn of the send loop does with the message at the head of the queue.\<close>

lemma send_fragment_sends:
  assumes q: "queuedOutgoingMatterMessages s = rd pre rest # ms"
    and rest: "rest \<noteq> []" "length pre + length rest < 65536" and w: "6 \<le> fragmentSize s"
    and sq: "- 1 \<le> outSequenceNumber s" "outSequenceNumber s < 256"
    and pv: "0 \<le> prevIncomingSequenceNumber s" "prevIncomingSequenceNumber s < 256"
  obtains h p packet k s' where "send_fragment s = (s', [WriteBle packet])"
    "encodeBtpPacket h p = Inr packet" "btp_in_range p" "int (length packet) \<le> fragmentSize s"
    "hasAckNumber h \<or> isBeginningSegment h \<or> isContinuingSegment h"
    "sequenceNumber p = (outSequenceNumber s + 1) mod 256"
    "0 < k" "segmentPayload p = Some (take k rest)" "isBeginningSegment h \<longleftrightarrow> pre = []"
    "isContinuingSegment h \<longleftrightarrow> pre \<noteq> []" "isEndingSegment h \<longleftrightarrow> length rest \<le> k"
    "messageLength p = (if pre = [] then Some (int (length rest)) else None)"
    "queuedOutgoingMatterMessages s' = rd (pre @ take k rest) (drop k rest) # ms"
    "sendLoop s' = Some (length rest \<le> k)"
    "outSequenceNumber s' = (outSequenceNumber s + 1) mod 256"
    "fragmentSize s' = fragmentSize s" "isActive s' = isActive s" "sendInProgress s' = sendInProgress s"
    "prevIncomingSequenceNumber s' = prevIncomingSequenceNumber s"
    "currentIncomingSegmentedMsgLength s' = currentIncomingSegmentedMsgLength s"
    "currentIncomingSegmentedPayload s' = currentIncomingSegmentedPayload s"
proof -
  define hasAck where "hasAck = (prevIncomingSequenceNumber s \<noteq> prevAckedSequenceNumber s)"
  define hl :: int where "hl = 2 + (if pre = [] then 2 else 0) + (if hasAck then 1 else 0)"
  define k where "k = nat (fragmentSize s - hl)"
  have k: "fragmentSize s - hl = int k" "0 < k"
    using w by (auto simp: k_def hl_def)
  define sn where "sn = (outSequenceNumber s + 1) mod 256"
  have sn: "(if outSequenceNumber s + 1 > 255 then 0 else outSequenceNumber s + 1) = sn"
    using sq by (cases "outSequenceNumber s = 255") (auto simp: sn_def)
  define h where "h = \<lparr>isHandshakeRequest = False, hasManagementOpcode = False, hasAckNumber = hasAck,
    isEndingSegment = (length rest \<le> k), isContinuingSegment = (pre \<noteq> []), isBeginningSegment = (pre = [])\<rparr>"
  define p where "p = \<lparr>ackNumber = (if hasAck then Some (prevIncomingSequenceNumber s) else None),
    sequenceNumber = sn, messageLength = (if pre = [] then Some (int (length rest)) else None),
    segmentPayload = Some (take k rest)\<rparr>"
  have "\<exists>packet. encodeBtpPacket h p = Inr packet"
    using k rest by (auto simp: btp_encoder_accepts_iff h_def p_def)
  then obtain packet where enc: "encodeBtpPacket h p = Inr packet" by blast
  have rng: "btp_in_range p"
    using pv rest by (auto simp: btp_in_range_def p_def sn_def)
  define t where "t = (if hasAck then s\<lparr>prevAckedSequenceNumber := prevIncomingSequenceNumber s, sendAckTimer := False\<rparr> else s)"
  define s' where "s' = t\<lparr>queuedOutgoingMatterMessages := rd (pre @ take k rest) (drop k rest) # ms,
    outSequenceNumber := sn, sendLoop := Some (length rest \<le> k)\<rparr>"
  have "send_fragment s = (s', [WriteBle packet])"
  proof -
    have rb: "readByteArray (int k) (rd u rest) = (take k rest, rd (u @ take k rest) (drop k rest))" for u
      using readByteArray_rd_take [of "int k" u rest] by simp
    have fs: "fragmentSize s = int k + hl" using k(1) by simp
    have a: "(prevIncomingSequenceNumber s = prevAckedSequenceNumber s) = (\<not> hasAck)"
      by (simp add: hasAck_def)
    have n: "getNextSequenceNumber u = (sn, u\<lparr>outSequenceNumber := sn\<rparr>)"
      if "outSequenceNumber u = outSequenceNumber s" for u
      using that sn by (simp add: getNextSequenceNumber_def MAXIMUM_SEQUENCE_NUMBER_def Let_def)
    show ?thesis
      using enc
      by (cases hasAck; cases "pre = []")
        (simp_all add: send_fragment_def q Let_def n a fs hl_def remainingBytesCount_rd reader_length_rd rb
          h_def p_def s'_def t_def)
  qed
  moreover have "int (length packet) \<le> fragmentSize s"
    using encoded_length [OF enc rng] k by (auto simp: h_def p_def hl_def split: if_splits)
  ultimately show thesis
    using that [of s' packet h p k] enc rng k
    by (simp add: h_def p_def s'_def t_def sn_def)
qed

text \<open>What a local handler may do to the sending direction and must leave of the receiving one.\<close>

definition sends :: "btp_session \<Rightarrow> btp_session \<Rightarrow> btp_output list \<Rightarrow> byte list list \<Rightarrow> bool" where
  "sends s s' out acc \<longleftrightarrow>
     wf_session s' \<and> fragmentSize s' = fragmentSize s \<and> (isActive s' \<longrightarrow> isActive s) \<and>
     prevIncomingSequenceNumber s' = prevIncomingSequenceNumber s \<and> partial_in s' = partial_in s \<and>
     handled out = [] \<and>
     (\<exists>segs ms. numbered (fragmentSize s) ((outSequenceNumber s + 1) mod 256) (writes out) segs \<and>
        (outSequenceNumber s + int (length (writes out))) mod 256 = outSequenceNumber s' mod 256 \<and>
        absorb (started (active_queue s)) segs = Some (started (active_queue s'), ms) \<and>
        map buffer (active_queue s) @ acc = ms @ map buffer (active_queue s'))"

lemma sends_nothing:
  assumes "wf_session s'" "fragmentSize s' = fragmentSize s" "isActive s' \<Longrightarrow> isActive s"
    and "prevIncomingSequenceNumber s' = prevIncomingSequenceNumber s" "partial_in s' = partial_in s"
    and "handled out = []" "writes out = []" "outSequenceNumber s' = outSequenceNumber s"
    and "active_queue s' = active_queue s"
  shows "sends s s' out []"
  using assms by (auto simp: sends_def intro!: exI [of _ "[]"])

lemma sends_cong:
  assumes "sends t s' out acc" "fragmentSize t = fragmentSize s" "isActive t = isActive s"
    and "prevIncomingSequenceNumber t = prevIncomingSequenceNumber s" "partial_in t = partial_in s"
    and "outSequenceNumber t = outSequenceNumber s" "active_queue t = active_queue s"
  shows "sends s s' out acc"
  using assms by (simp add: sends_def)

lemma started_rd:
  "started (rd pre rest # ms) = (if pre = [] then None else Some (int (length pre + length rest), pre))"
  by (simp add: started_def rd_def)

lemma started_fresh: "wf_queue (m # q) \<Longrightarrow> started q = None"
  by (cases q) (auto simp: started_def wf_queue_def rd_def)

lemma wf_queue_rd:
  "wf_queue (rd pre rest # ms) \<longleftrightarrow> rest \<noteq> [] \<and> length pre + length rest < 65536 \<and>
     (\<forall>m\<in>set ms. \<exists>bs. m = rd [] bs \<and> bs \<noteq> [] \<and> length bs < 65536)"
  by (auto simp: wf_queue_def rd_inject)

lemma wf_queue_Cons: "wf_queue (m # ms) \<Longrightarrow> wf_queue ms"
  by (cases ms) (auto simp: wf_queue_rd, simp_all add: wf_queue_def, force+)

lemma wf_queue_snoc: "wf_queue q \<Longrightarrow> bs \<noteq> [] \<Longrightarrow> length bs < 65536 \<Longrightarrow> wf_queue (q @ [rd [] bs])"
  by (cases q) (auto simp: wf_queue_rd, auto simp: wf_queue_def)

lemma send_fragment_ok:
  assumes wf: "wf_session s" and l: "sendLoop s = None" "sendInProgress s"
    and e: "send_fragment s = (s', out)"
  shows "sends s s' out []"
proof (cases "queuedOutgoingMatterMessages s")
  case Nil
  then show ?thesis
    using wf e l
    by (intro sends_nothing) (auto simp: send_fragment_def wf_session_def active_queue_def partial_in_def)
next
  case (Cons m ms)
  have wq: "wf_queue (m # ms)"
    using wf l Cons by (simp add: wf_session_def active_queue_def)
  then obtain pre rest where m: "m = rd pre rest" and r: "rest \<noteq> []" "length pre + length rest < 65536"
    by (auto simp: wf_queue_def)
  have b: "6 \<le> fragmentSize s" "- 1 \<le> outSequenceNumber s" "outSequenceNumber s < 256"
    "0 \<le> prevIncomingSequenceNumber s" "prevIncomingSequenceNumber s < 256"
    using wf by (simp_all add: wf_session_def)
  note q = Cons [unfolded m]
  show ?thesis
  proof (rule send_fragment_sends [OF q r b], goal_cases)
    case (1 h p packet k s2)
    with e have s2: "s2 = s'" and out: "out = [WriteBle packet]" by simp_all
    note f = 1 [unfolded s2]
    have aqs: "active_queue s = rd pre rest # ms"
      by (simp add: active_queue_def l Cons m)
    have aq: "active_queue s' = (if length rest \<le> k then ms else rd (pre @ take k rest) (drop k rest) # ms)"
      using f by (simp add: active_queue_def)
    have wf': "wf_queue (active_queue s')"
      using wq [unfolded m] wf_queue_Cons [OF wq] by (auto simp: aq wf_queue_rd)
    have seg: "take k rest \<noteq> []" using r f by auto
    have st: "started ms = None" by (rule started_fresh [OF wq])
    have ab: "absorb (started (active_queue s)) [(h, p)] =
        Some (started (active_queue s'), if length rest \<le> k then [pre @ rest] else [])"
      using f seg l by (auto simp: active_queue_def Cons m started_rd Let_def as_decoded_btp_def st)
    have "wf_session s'"
      using f wf wf' by (auto simp: wf_session_def l)
    moreover have "numbered (fragmentSize s) ((outSequenceNumber s + 1) mod 256) (writes out) [(h, p)]"
      using f by (simp add: out)
    moreover have "map buffer (active_queue s) @ [] =
        (if length rest \<le> k then [pre @ rest] else []) @ map buffer (active_queue s')"
      using aqs by (simp add: aq rd_def)
    ultimately show ?case
      using f ab unfolding sends_def
      by (intro conjI exI [of _ "[(h, p)]"] exI [of _ "if length rest \<le> k then [pre @ rest] else []"])
        (simp_all add: out partial_in_def del: absorb.simps)
  qed
qed

lemma close_ok:
  assumes "wf_session s" "close s = (s', out)"
  shows "sends s s' out []"
  using assms by (intro sends_nothing)
    (auto simp: close_def Let_def wf_session_def active_queue_def partial_in_def split: if_splits)

lemma btpSendAckTimeoutTriggered_ok:
  assumes wf: "wf_session s" and e: "btpSendAckTimeoutTriggered s = (s', out)"
  shows "sends s s' out []"
proof (cases "prevIncomingSequenceNumber s > prevAckedSequenceNumber s")
  case False
  with wf e show ?thesis
    by (intro sends_nothing) (auto simp: btpSendAckTimeoutTriggered_def)
next
  case True
  define sn where "sn = (outSequenceNumber s + 1) mod 256"
  have n: "getNextSequenceNumber s = (sn, s\<lparr>outSequenceNumber := sn\<rparr>)"
    using wf by (cases "outSequenceNumber s = 255")
      (auto simp: getNextSequenceNumber_def MAXIMUM_SEQUENCE_NUMBER_def Let_def sn_def wf_session_def)
  define h where "h = \<lparr>isHandshakeRequest = False, hasManagementOpcode = False, hasAckNumber = True,
    isEndingSegment = False, isContinuingSegment = False, isBeginningSegment = False\<rparr>"
  define p where "p = \<lparr>ackNumber = Some (prevIncomingSequenceNumber s), sequenceNumber = sn,
    messageLength = None, segmentPayload = None\<rparr>"
  have "\<exists>packet. encodeBtpPacket h p = Inr packet"
    by (simp add: btp_encoder_accepts_iff h_def p_def)
  then obtain packet where enc: "encodeBtpPacket h p = Inr packet" by blast
  have rng: "btp_in_range p"
    using wf by (auto simp: btp_in_range_def p_def sn_def wf_session_def)
  define t where "t = s\<lparr>outSequenceNumber := sn, prevAckedSequenceNumber := prevIncomingSequenceNumber s,
    pendingAckWrites := pendingAckWrites s + 1\<rparr>"
  have "btpSendAckTimeoutTriggered s = (t, [WriteBle packet])"
    using True enc by (simp add: btpSendAckTimeoutTriggered_def n h_def p_def Let_def t_def)
  with e have eq: "s' = t" "out = [WriteBle packet]" by simp_all
  have sn: "0 \<le> sn" "sn < 256" by (simp_all add: sn_def)
  have "wf_session t"
    using wf sn by (auto simp: wf_session_def t_def active_queue_def)
  moreover have "absorb P [(h, p)] = Some (P, [])" for P
    by (simp add: h_def)
  moreover have "int (length packet) \<le> fragmentSize s"
    using wf by (simp add: encoded_length [OF enc rng] h_def p_def wf_session_def)
  ultimately show ?thesis
    using enc rng unfolding sends_def
    by (intro conjI exI [of _ "[(h, p)]"] exI [of _ "[]"])
      (simp_all add: eq t_def partial_in_def active_queue_def h_def p_def sn_def del: absorb.simps)
qed

lemma processSendQueue_ok:
  assumes "wf_session s" "processSendQueue s = (s', out)"
  shows "sends s s' out []"
proof (cases "sendInProgress s \<or> exceedsWindowSize s (prevIncomingAckNumber s) (outSequenceNumber s) \<or>
    queuedOutgoingMatterMessages s = []")
  case True
  with assms show ?thesis by (intro sends_nothing) (auto simp: processSendQueue_def split: if_splits)
next
  case False
  with assms have "send_fragment (s\<lparr>sendInProgress := True\<rparr>) = (s', out)" and l: "sendLoop s = None"
    by (auto simp: processSendQueue_def wf_session_def)
  moreover have "wf_session (s\<lparr>sendInProgress := True\<rparr>)"
    using assms(1) by (auto simp: wf_session_def active_queue_def)
  ultimately have "sends (s\<lparr>sendInProgress := True\<rparr>) s' out []"
    by (intro send_fragment_ok) (simp_all add: l)
  then show ?thesis
    by (rule sends_cong) (simp_all add: partial_in_def active_queue_def)
qed

lemma sends_extend:
  assumes "sends t s' out []" "active_queue t = active_queue s @ [rd [] bs]"
    and "fragmentSize t = fragmentSize s" "isActive t = isActive s"
    and "prevIncomingSequenceNumber t = prevIncomingSequenceNumber s" "partial_in t = partial_in s"
    and "outSequenceNumber t = outSequenceNumber s"
  shows "sends s s' out [bs]"
proof -
  have "started (active_queue t) = started (active_queue s)"
    by (cases "active_queue s") (simp_all add: assms(2) started_def rd_def)
  then show ?thesis
    using assms by (simp add: sends_def) (simp add: rd_def)
qed

lemma sendMatterMessage_ok:
  assumes wf: "wf_session s" and e: "sendMatterMessage bs s = (s', out)" and b: "length bs < 65536"
  shows "sends s s' out (if isActive s \<and> bs \<noteq> [] then [bs] else [])"
proof (cases "isActive s \<and> bs \<noteq> []")
  case False
  with wf e show ?thesis
    by (auto simp: sendMatterMessage_def intro!: sends_nothing split: if_splits)
next
  case True
  define t where "t = s\<lparr>queuedOutgoingMatterMessages := queuedOutgoingMatterMessages s @ [rd [] bs]\<rparr>"
  have aq: "active_queue t = active_queue s @ [rd [] bs]"
    using wf by (auto simp: active_queue_def t_def wf_session_def)
  have "wf_session t"
    using wf True b wf_queue_snoc [of "active_queue s" bs] aq
    unfolding wf_session_def aq by (auto simp: t_def)
  moreover have "processSendQueue t = (s', out)"
    using True e by (simp add: sendMatterMessage_def t_def new_DataReader_rd)
  ultimately have "sends t s' out []" by (rule processSendQueue_ok)
  from this aq have "sends s s' out [bs]"
    by (rule sends_extend) (simp_all add: t_def partial_in_def)
  then show ?thesis using True by simp
qed

lemma fragmentWritten_ok:
  assumes wf: "wf_session s" and l: "sendLoop s = Some isEnding" and e: "fragmentWritten s = (s', out)"
  shows "sends s s' out []"
proof -
  define t where "t = (let s = s\<lparr>sendLoop := None, ackReceiveTimer := True\<rparr>;
            s = (if role s = Central then s\<lparr>idleTimeout := True\<rparr> else s)
        in (if isEnding then s\<lparr>queuedOutgoingMatterMessages := tl (queuedOutgoingMatterMessages s)\<rparr> else s))"
  have t: "fragmentSize t = fragmentSize s" "isActive t = isActive s" "sendInProgress t = sendInProgress s"
    "prevIncomingSequenceNumber t = prevIncomingSequenceNumber s" "partial_in t = partial_in s"
    "outSequenceNumber t = outSequenceNumber s" "active_queue t = active_queue s" "sendLoop t = None"
    "currentIncomingSegmentedMsgLength t = currentIncomingSegmentedMsgLength s"
    "currentIncomingSegmentedPayload t = currentIncomingSegmentedPayload s"
    using l by (auto simp: t_def Let_def partial_in_def active_queue_def split: option.split)
  have wft: "wf_session t" and sp: "sendInProgress s"
    using wf l by (simp_all add: wf_session_def t)
  have u: "fragmentWritten s = (if exceedsWindowSize t (prevIncomingAckNumber t) (outSequenceNumber t)
      then (t\<lparr>sendInProgress := False\<rparr>, []) else send_fragment t)"
    by (simp add: fragmentWritten_def l t_def Let_def)
  show ?thesis
  proof (cases "exceedsWindowSize t (prevIncomingAckNumber t) (outSequenceNumber t)")
    case True
    with e u have o: "s' = t\<lparr>sendInProgress := False\<rparr>" "out = []" by auto
    have "active_queue s' = active_queue s" "partial_in s' = partial_in s"
      using t by (simp_all add: o active_queue_def partial_in_def)
    moreover have "wf_session s'"
      using wft t by (auto simp: o wf_session_def active_queue_def)
    ultimately show ?thesis by (intro sends_nothing) (simp_all add: o t)
  next
    case False
    with e u have "send_fragment t = (s', out)" by simp
    with wft t sp have "sends t s' out []" by (intro send_fragment_ok) simp_all
    then show ?thesis by (rule sends_cong) (simp_all add: t)
  qed
qed

definition ack_refused :: "btp_payload \<Rightarrow> btp_session \<Rightarrow> bool" where
  "ack_refused p s =
     (case ackNumber p of None \<Rightarrow> False
      | Some a \<Rightarrow> a > outSequenceNumber s \<or> exceedsWindowSize s (prevIncomingAckNumber s) a)"

lemma incoming_failed_ok:
  assumes "wf_session s" "incoming_failed e s = (s', out)"
  shows "sends s s' out []" "\<not> isActive s'"
proof -
  obtain o1 where c: "close s = (s', o1)"
    using assms(2) by (auto simp: incoming_failed_def Let_def split: prod.splits)
  have "writes out = writes o1 \<and> handled out = handled o1"
    using assms(2) c by (cases e) (auto simp: incoming_failed_def close_def Let_def split: if_splits)
  with close_ok [OF assms(1) c] show "sends s s' out []" by (simp add: sends_def)
  show "\<not> isActive s'" using c by (auto simp: close_def Let_def split: if_splits)
qed

lemma encoded_flags:
  assumes "encodeBtpPacket h p = Inr packet"
  shows "\<not> isHandshakeRequest h" "\<not> hasManagementOpcode h" "hasAckNumber h \<longleftrightarrow> ackNumber p \<noteq> None"
    "isBeginningSegment h \<longleftrightarrow> messageLength p \<noteq> None"
    "isBeginningSegment h \<or> isContinuingSegment h \<Longrightarrow> dSegmentPayload (as_decoded_btp p) \<noteq> []"
proof -
  have "\<exists>bs. encodeBtpPacket h p = Inr bs" using assms by blast
  then have *: "\<not> isHandshakeRequest h \<and> \<not> hasManagementOpcode h \<and>
   (hasAckNumber h \<longleftrightarrow> ackNumber p \<noteq> None) \<and> (isBeginningSegment h \<longleftrightarrow> messageLength p \<noteq> None) \<and>
   \<not> (isBeginningSegment h \<and> isContinuingSegment h) \<and>
   \<not> (isEndingSegment h \<and> \<not> isContinuingSegment h \<and> \<not> isBeginningSegment h) \<and>
   \<not> ((isBeginningSegment h \<or> isContinuingSegment h) \<and> (segmentPayload p = None \<or> segmentPayload p = Some []))"
    unfolding btp_encoder_accepts_iff .
  then show "\<not> isHandshakeRequest h" "\<not> hasManagementOpcode h" "hasAckNumber h \<longleftrightarrow> ackNumber p \<noteq> None"
    "isBeginningSegment h \<longleftrightarrow> messageLength p \<noteq> None" by blast+
  show "isBeginningSegment h \<or> isContinuingSegment h \<Longrightarrow> dSegmentPayload (as_decoded_btp p) \<noteq> []"
    using * by (auto simp: as_decoded_btp_def split: option.split)
qed

lemma add_segment_absorbs:
  assumes ab: "absorb (partial_in s) [(h, p)] = Some (Q, ms)"
    and part: "currentIncomingSegmentedMsgLength s = None \<longleftrightarrow> currentIncomingSegmentedPayload s = None"
    and b: "isBeginningSegment h \<longleftrightarrow> messageLength p \<noteq> None"
  obtains l c where "and_then (add_segment h (as_decoded_btp p) s) (end_message h) =
      Inr (s\<lparr>currentIncomingSegmentedMsgLength := l, currentIncomingSegmentedPayload := c\<rparr>, map HandleMatterMessage ms)"
    "(case (l, c) of (Some l, Some bs) \<Rightarrow> Some (l, bs) | _ \<Rightarrow> None) = Q" "l = None \<longleftrightarrow> c = None"
proof -
  let ?seg = "dSegmentPayload (as_decoded_btp p)"
  have ml: "dMessageLength (as_decoded_btp p) = messageLength p" by (simp add: as_decoded_btp_def)
  consider (none) "currentIncomingSegmentedMsgLength s = None" "currentIncomingSegmentedPayload s = None"
    | (some) l0 c0 where "currentIncomingSegmentedMsgLength s = Some l0" "currentIncomingSegmentedPayload s = Some c0"
    using part by (cases "currentIncomingSegmentedMsgLength s"; cases "currentIncomingSegmentedPayload s") auto
  then show thesis
  proof cases
    case none
    then show thesis
      using ab b that [of None None] that [of "Some ?seg" "messageLength p"]
      by (auto simp: add_segment_def end_message_def partial_in_def Let_def ml split: if_splits option.splits)
  next
    case some
    then show thesis
      using ab b that [of None None] that [of "Some (c0 @ ?seg)" "Some l0"] that [of "Some c0" "Some l0"]
      by (auto simp: add_segment_def end_message_def partial_in_def Let_def ml split: if_splits option.splits)
  qed
qed

text \<open>A packet of the expected number that continues what is in hand: only its acknowledgement can be wrong.\<close>

lemma incoming_body_packet:
  assumes enc: "encodeBtpPacket h p = Inr packet" "btp_in_range p" "int (length packet) \<le> fragmentSize s"
    and sq: "sequenceNumber p = (prevIncomingSequenceNumber s + 1) mod 256"
    and ne: "hasAckNumber h \<or> isBeginningSegment h \<or> isContinuingSegment h"
    and part: "currentIncomingSegmentedMsgLength s = None \<longleftrightarrow> currentIncomingSegmentedPayload s = None"
    and ab: "absorb (partial_in s) [(h, p)] = Some (Q, ms)"
  shows "ack_refused p s \<and> (\<exists>t. incoming_body packet s = Inl (BtpProtocolError, t) \<and>
       t = s\<lparr>prevIncomingSequenceNumber := sequenceNumber p, sendAckTimer := True\<rparr>) \<or>
    \<not> ack_refused p s \<and> (\<exists>t l c ack at. incoming_body packet s = Inr (t, map HandleMatterMessage ms) \<and>
       t = s\<lparr>prevIncomingSequenceNumber := sequenceNumber p, sendAckTimer := True,
         ackReceiveTimer := at, prevIncomingAckNumber := ack,
         currentIncomingSegmentedMsgLength := l, currentIncomingSegmentedPayload := c\<rparr> \<and>
       partial_in t = Q \<and> (l = None \<longleftrightarrow> c = None))"
proof -
  define s1 where "s1 = s\<lparr>prevIncomingSequenceNumber := sequenceNumber p, sendAckTimer := True\<rparr>"
  note fl = encoded_flags [OF enc(1)]
  have body: "incoming_body packet s = and_then (accept_ack h (as_decoded_btp p) s1)
      (\<lambda>s. and_then (add_segment h (as_decoded_btp p) s) (end_message h))"
    using enc(3) fl ne by (auto simp: incoming_body_def btp_packet_back [OF enc(1,2)] sq s1_def Let_def as_decoded_btp_def)
  show ?thesis
  proof (cases "ack_refused p s")
    case True
    then have "accept_ack h (as_decoded_btp p) s1 = Inl (BtpProtocolError, s1)"
      using fl by (auto simp: ack_refused_def accept_ack_def as_decoded_btp_def s1_def exceedsWindowSize_def
          split: option.splits)
    with True body show ?thesis by (simp add: s1_def)
  next
    case False
    then obtain ack "at" where acc: "accept_ack h (as_decoded_btp p) s1 =
        Inr (s1\<lparr>ackReceiveTimer := at, prevIncomingAckNumber := ack\<rparr>)"
    proof (cases "ackNumber p")
      case None
      with that [of "prevIncomingAckNumber s1" "ackReceiveTimer s1"] show thesis
        by (simp add: accept_ack_def as_decoded_btp_def)
    next
      case (Some a)
      with False fl that [of a "a \<noteq> outSequenceNumber s"] show thesis
        by (auto simp: accept_ack_def as_decoded_btp_def ack_refused_def s1_def exceedsWindowSize_def Let_def)
    qed
    define s2 where "s2 = s1\<lparr>ackReceiveTimer := at, prevIncomingAckNumber := ack\<rparr>"
    have b2: "incoming_body packet s = and_then (add_segment h (as_decoded_btp p) s2) (end_message h)"
      by (simp add: body acc s2_def)
    have p2: "currentIncomingSegmentedMsgLength s2 = currentIncomingSegmentedMsgLength s"
      "currentIncomingSegmentedPayload s2 = currentIncomingSegmentedPayload s"
      by (simp_all add: s2_def s1_def)
    obtain l c where "and_then (add_segment h (as_decoded_btp p) s2) (end_message h) =
        Inr (s2\<lparr>currentIncomingSegmentedMsgLength := l, currentIncomingSegmentedPayload := c\<rparr>, map HandleMatterMessage ms)"
      and lc: "(case (l, c) of (Some l, Some bs) \<Rightarrow> Some (l, bs) | _ \<Rightarrow> None) = Q" "l = None \<longleftrightarrow> c = None"
      by (rule add_segment_absorbs [of s2 h p Q ms]) (use ab part fl(4) p2 in \<open>auto simp: partial_in_def\<close>)
    then have "incoming_body packet s = Inr (s2\<lparr>currentIncomingSegmentedMsgLength := l, currentIncomingSegmentedPayload := c\<rparr>,
        map HandleMatterMessage ms)" by (simp add: b2)
    with False lc show ?thesis
      by (intro disjI2 conjI exI [of _ "s2\<lparr>currentIncomingSegmentedMsgLength := l, currentIncomingSegmentedPayload := c\<rparr>"]
          exI [of _ l] exI [of _ c] exI [of _ ack] exI [of _ "at"]) (simp_all add: s2_def s1_def partial_in_def)
  qed
qed

lemma flow_send:
  assumes f: "flow a b" and s: "sends (session a) s' out acc" and fs: "fragmentSize (session a) = fragmentSize (session b)"
  shows "flow (a\<lparr>session := s', inflight := inflight a @ writes out, submitted := submitted a @ acc\<rparr>) b"
proof (cases "isActive (session b)")
  case False
  with f show ?thesis by (simp add: flow_def)
next
  case True
  define v where "v = prevIncomingSequenceNumber (session b)"
  from f True obtain segs ms where
    1: "numbered (fragmentSize (session b)) ((v + 1) mod 256) (inflight a) segs"
    "(v + int (length (inflight a))) mod 256 = outSequenceNumber (session a) mod 256"
    "absorb (partial_in (session b)) segs = Some (started (active_queue (session a)), ms)"
    "submitted a = delivered b @ ms @ map buffer (active_queue (session a))"
    by (auto simp: flow_def v_def)
  from s obtain segs' ns where
    2: "numbered (fragmentSize (session a)) ((outSequenceNumber (session a) + 1) mod 256) (writes out) segs'"
    "(outSequenceNumber (session a) + int (length (writes out))) mod 256 = outSequenceNumber s' mod 256"
    "absorb (started (active_queue (session a))) segs' = Some (started (active_queue s'), ns)"
    "map buffer (active_queue (session a)) @ acc = ns @ map buffer (active_queue s')"
    by (auto simp: sends_def)
  have "((v + 1) mod 256 + int (length (inflight a))) mod 256 = ((v + int (length (inflight a))) mod 256 + 1) mod 256"
    by (simp add: mod_add_left_eq mod_add_right_eq algebra_simps)
  also have "\<dots> = (outSequenceNumber (session a) + 1) mod 256"
    by (simp only: 1(2)) (simp add: mod_add_left_eq)
  finally have "numbered (fragmentSize (session b)) ((v + 1) mod 256) (inflight a @ writes out) (segs @ segs')"
    using 1(1) 2(1) fs by (intro numbered_append) simp_all
  moreover have "(v + int (length (inflight a @ writes out))) mod 256 = outSequenceNumber s' mod 256"
  proof -
    have "(v + int (length (inflight a @ writes out))) mod 256 =
        ((v + int (length (inflight a))) mod 256 + int (length (writes out))) mod 256"
      by (simp add: mod_add_left_eq mod_add_right_eq algebra_simps)
    then show ?thesis by (simp only: 1(2) mod_add_left_eq 2(2))
  qed
  moreover have "absorb (partial_in (session b)) (segs @ segs') = Some (started (active_queue s'), ms @ ns)"
    by (simp add: absorb_append 1 2)
  moreover have "submitted a @ acc = delivered b @ (ms @ ns) @ map buffer (active_queue s')"
    using 1(4) 2(4) by simp
  ultimately show ?thesis
    using f unfolding flow_def
    by (intro conjI impI exI [of _ "segs @ segs'"] exI [of _ "ms @ ns"]) (simp_all add: v_def)
qed

lemma flow_receiver_local:
  assumes "flow a b" and "sends (session b) s' out acc"
  shows "flow a (b\<lparr>session := s', inflight := i, submitted := su\<rparr>)"
  using assms by (auto simp: flow_def sends_def)

lemma numbered_Cons:
  assumes "numbered f n (packet # ps) segs"
  obtains h p segs' where "segs = (h, p) # segs'" "encodeBtpPacket h p = Inr packet" "btp_in_range p"
    "int (length packet) \<le> f" "sequenceNumber p = n" "hasAckNumber h \<or> isBeginningSegment h \<or> isContinuingSegment h"
    "numbered f ((n + 1) mod 256) ps segs'"
  using assms by (cases segs) auto

lemma handled_map [simp]: "handled (map HandleMatterMessage ms) = ms"
  by (induction ms) auto

lemma writes_map [simp]: "writes (map HandleMatterMessage ms) = []"
  by (induction ms) auto

lemma flow_nextE:
  assumes f: "flow b a" and i: "inflight b = packet # rest" and act: "isActive (session a)"
  obtains h p Q ms segs ns where "encodeBtpPacket h p = Inr packet" "btp_in_range p"
    "int (length packet) \<le> fragmentSize (session a)"
    "sequenceNumber p = (prevIncomingSequenceNumber (session a) + 1) mod 256"
    "hasAckNumber h \<or> isBeginningSegment h \<or> isContinuingSegment h"
    "absorb (partial_in (session a)) [(h, p)] = Some (Q, ms)"
    "numbered (fragmentSize (session a)) ((sequenceNumber p + 1) mod 256) rest segs"
    "(sequenceNumber p + int (length rest)) mod 256 = outSequenceNumber (session b) mod 256"
    "absorb Q segs = Some (started (active_queue (session b)), ns)"
    "submitted b = delivered a @ (ms @ ns) @ map buffer (active_queue (session b))"
proof -
  define v where "v = prevIncomingSequenceNumber (session a)"
  from f act i obtain segs0 ms0 where
    1: "numbered (fragmentSize (session a)) ((v + 1) mod 256) (packet # rest) segs0"
    "(v + int (length (packet # rest))) mod 256 = outSequenceNumber (session b) mod 256"
    "absorb (partial_in (session a)) segs0 = Some (started (active_queue (session b)), ms0)"
    "submitted b = delivered a @ ms0 @ map buffer (active_queue (session b))"
    unfolding flow_def v_def by auto
  obtain h p segs where 2: "segs0 = (h, p) # segs" "encodeBtpPacket h p = Inr packet" "btp_in_range p"
    "int (length packet) \<le> fragmentSize (session a)" "sequenceNumber p = (v + 1) mod 256"
    "hasAckNumber h \<or> isBeginningSegment h \<or> isContinuingSegment h"
    "numbered (fragmentSize (session a)) (((v + 1) mod 256 + 1) mod 256) rest segs"
    by (rule numbered_Cons [OF 1(1)])
  have "absorb (partial_in (session a)) ([(h, p)] @ segs) = Some (started (active_queue (session b)), ms0)"
    using 1(3) 2(1) by simp
  then obtain Q ms ns where 3: "absorb (partial_in (session a)) [(h, p)] = Some (Q, ms)"
    "absorb Q segs = Some (started (active_queue (session b)), ns)" "ms0 = ms @ ns"
    unfolding absorb_append by (auto simp del: absorb.simps split: option.splits)
  have "((v + 1) mod 256 + int (length rest)) mod 256 = outSequenceNumber (session b) mod 256"
    using 1(2) by (simp add: mod_add_left_eq mod_add_right_eq algebra_simps)
  then show thesis
    by (intro that [OF 2(2-4) 2(5) [unfolded v_def] 2(6) 3(1) 2(7) [folded 2(5)] _ 3(2) 1(4) [unfolded 3(3)]])
      (simp only: 2(5))
qed

lemma incoming_ok:
  assumes wf: "wf_session (session a)" and f: "flow b a" and i: "inflight b = packet # rest"
    and e: "handleIncomingBleData packet (session a) = (s', out)"
  shows "wf_session s'" "fragmentSize s' = fragmentSize (session a)" "writes out = []"
    "outSequenceNumber s' = outSequenceNumber (session a)" "active_queue s' = active_queue (session a)"
    "flow (b\<lparr>inflight := rest\<rparr>) (a\<lparr>session := s', delivered := delivered a @ handled out\<rparr>)"
proof -
  have "wf_session s' \<and> fragmentSize s' = fragmentSize (session a) \<and> writes out = [] \<and>
    outSequenceNumber s' = outSequenceNumber (session a) \<and> active_queue s' = active_queue (session a) \<and>
    flow (b\<lparr>inflight := rest\<rparr>) (a\<lparr>session := s', delivered := delivered a @ handled out\<rparr>)"
  proof (cases "isActive (session a)")
    case False
    with e wf f show ?thesis by (auto simp: handleIncomingBleData_def flow_def)
  next
    case True
    let ?s = "session a"
    show ?thesis
    proof (rule flow_nextE [OF f i True], goal_cases)
      case (1 h p Q ms segs ns)
      have part: "currentIncomingSegmentedMsgLength ?s = None \<longleftrightarrow> currentIncomingSegmentedPayload ?s = None"
        using wf by (simp add: wf_session_def)
      have sr: "0 \<le> sequenceNumber p" "sequenceNumber p < 256" using 1 by simp_all
      from incoming_body_packet [OF 1(1-5) part 1(6)] show ?case
      proof (elim disjE conjE exE, goal_cases)
        case (1 t)
        then have "incoming_failed BtpProtocolError t = (s', out)"
          using e True by (simp add: handleIncomingBleData_def)
        then have s': "s' = t\<lparr>sendAckTimer := False, ackReceiveTimer := False, idleTimeout := False, isActive := False\<rparr>"
          and o: "out = [DisconnectBle]"
          using True 1 by (auto simp: incoming_failed_def close_def Let_def)
        show ?thesis
          using wf f sr by (auto simp: s' o 1 wf_session_def active_queue_def flow_def)
      next
        case (2 t l c ack at)
        then have "(t, map HandleMatterMessage ms) = (s', out)"
          using e True by (simp add: handleIncomingBleData_def)
        then have s': "s' = t" and o: "out = map HandleMatterMessage ms" by simp_all
        have fl: "flow (b\<lparr>inflight := rest\<rparr>) (a\<lparr>session := s', delivered := delivered a @ ms\<rparr>)"
          unfolding flow_def using 1(7-10) 2
          by (auto simp: s' intro!: exI [of _ segs] exI [of _ ns])
        show ?thesis
          using wf sr 2 fl by (auto simp: s' o wf_session_def active_queue_def)
      qed
    qed
  qed
  then show "wf_session s'" "fragmentSize s' = fragmentSize (session a)" "writes out = []"
    "outSequenceNumber s' = outSequenceNumber (session a)" "active_queue s' = active_queue (session a)"
    "flow (b\<lparr>inflight := rest\<rparr>) (a\<lparr>session := s', delivered := delivered a @ handled out\<rparr>)"
    by blast+
qed

subsection \<open>The invariant of the link\<close>

lemma handle_event_sends:
  assumes "wf_session s" "enabled ev s" "fits ev" "handle_event ev s = (s', out)"
  shows "sends s s' out (accepted ev s)"
proof (cases ev)
  case (SendMatterMessage bs)
  with assms sendMatterMessage_ok [of s bs s' out] show ?thesis by simp
next
  case FragmentWritten
  with assms show ?thesis by (auto intro: fragmentWritten_ok)
next
  case AckWritten
  with assms show ?thesis
    by (auto simp: ackWritten_def wf_session_def active_queue_def partial_in_def intro!: sends_nothing)
next
  case (HandlerRejected e)
  with assms show ?thesis by (auto intro: incoming_failed_ok)
next
  case SendAckTimer
  have w: "wf_session (s\<lparr>sendAckTimer := False\<rparr>)"
    using assms(1) by (auto simp: wf_session_def active_queue_def)
  have "sends (s\<lparr>sendAckTimer := False\<rparr>) s' out []"
    using SendAckTimer assms btpSendAckTimeoutTriggered_ok [OF w] by simp
  then show ?thesis
    by (simp add: SendAckTimer) (erule sends_cong; simp add: partial_in_def active_queue_def)
next
  case AckReceiveTimer
  have w: "wf_session (s\<lparr>ackReceiveTimer := False\<rparr>)"
    using assms(1) by (auto simp: wf_session_def active_queue_def)
  have "sends (s\<lparr>ackReceiveTimer := False\<rparr>) s' out []"
    using AckReceiveTimer assms close_ok [OF w] w
    by (auto simp: btpAckTimeoutTriggered_def intro!: sends_nothing split: if_splits)
  then show ?thesis
    by (simp add: AckReceiveTimer) (erule sends_cong; simp add: partial_in_def active_queue_def)
next
  case IdleTimer
  have w: "wf_session (s\<lparr>idleTimeout := False\<rparr>)"
    using assms(1) by (auto simp: wf_session_def active_queue_def)
  have "sends (s\<lparr>idleTimeout := False\<rparr>) s' out []"
    using IdleTimer assms close_ok [OF w] by simp
  then show ?thesis
    by (simp add: IdleTimer) (erule sends_cong; simp add: partial_in_def active_queue_def)
next
  case CloseSession
  with assms show ?thesis by (auto intro: close_ok)
qed

lemma flow_sender_receives:
  assumes "flow a b" "outSequenceNumber s' = outSequenceNumber (session a)"
    and "active_queue s' = active_queue (session a)"
  shows "flow (a\<lparr>session := s', delivered := d\<rparr>) (b\<lparr>inflight := i\<rparr>)"
  using assms by (simp add: flow_def)

lemma link_ok_step: "link_step l l' \<Longrightarrow> link_ok l \<Longrightarrow> link_ok l'"
proof (induction rule: link_step.induct)
  case (local_step ev a s out b)
  then have s: "sends (session a) s out (accepted ev (session a))"
    by (intro handle_event_sends) (simp_all add: link_ok_def)
  have "flow a b" "flow b a" "fragmentSize (session a) = fragmentSize (session b)"
    using local_step.prems by (simp_all add: link_ok_def)
  with flow_send [OF _ s] flow_receiver_local [OF _ s] s show ?case
    using local_step.prems by (simp add: link_ok_def sends_def)
next
  case (receive_step b packet rest a s out)
  then have wf: "wf_session (session a)" and f: "flow b a" "flow a b" by (simp_all add: link_ok_def)
  note r = incoming_ok [OF wf f(1) receive_step.hyps]
  show ?case
    using r flow_sender_receives [OF f(2) r(4,5)] receive_step.prems by (simp add: link_ok_def)
next
  case (other_side b a b' a')
  then show ?case by (simp add: link_ok_def)
qed

lemma link_ok_start: "link_start fragSize wp wc l \<Longrightarrow> 6 \<le> fragSize \<Longrightarrow> link_ok l"
  by (auto simp: link_start_def new_BtpSessionHandler_def Let_def link_ok_def wf_session_def flow_def
      fresh_endpoint_def active_queue_def wf_queue_def partial_in_def started_def
      intro!: exI [of _ "[]"] split: if_splits)

lemma link_ok_reachable:
  assumes "link_reachable l l'" "link_start fragSize wp wc l" "6 \<le> fragSize"
  shows "link_ok l'"
  using assms by (induction rule: link_reachable.induct) (auto intro: link_ok_start link_ok_step)

subsection \<open>Properties\<close>

text \<open>A concrete run: the left side sends a message of 30 bytes in two fragments, the right side reads them.\<close>

definition run_local :: "btp_event \<Rightarrow> btp_endpoint \<times> btp_endpoint \<Rightarrow> btp_endpoint \<times> btp_endpoint" where
  "run_local ev l =
     (let (a, b) = l; (s, out) = handle_event ev (session a)
      in (a\<lparr>session := s, inflight := inflight a @ writes out,
            submitted := submitted a @ accepted ev (session a)\<rparr>, b))"

definition run_receive :: "btp_endpoint \<times> btp_endpoint \<Rightarrow> btp_endpoint \<times> btp_endpoint" where
  "run_receive l =
     (let (a, b) = l; (s, out) = handleIncomingBleData (hd (inflight a)) (session b)
      in (a\<lparr>inflight := tl (inflight a)\<rparr>, b\<lparr>session := s, delivered := delivered b @ handled out\<rparr>))"

lemma link_step_swap: "link_step l l' \<Longrightarrow> link_step (prod.swap l) (prod.swap l')"
  by (cases l; cases l') (simp add: link_step.other_side)

lemma link_reachable_swap: "link_reachable l l' \<Longrightarrow> link_reachable (prod.swap l) (prod.swap l')"
  by (induction rule: link_reachable.induct) (auto intro: link_reachable.intros link_step_swap)

lemma run_local_step: "enabled ev (session (fst l)) \<Longrightarrow> fits ev \<Longrightarrow> link_step l (run_local ev l)"
  by (cases l) (auto simp: run_local_def Let_def split: prod.split intro: link_step.local_step)

lemma run_receive_step: "inflight (fst l) \<noteq> [] \<Longrightarrow> link_step l (run_receive l)"
  by (cases l; cases "inflight (fst l)")
    (auto simp: run_receive_def Let_def split: prod.split intro!: link_step.other_side [OF link_step.receive_step])

definition sample_link :: "btp_endpoint \<times> btp_endpoint" where
  "sample_link =
     (fresh_endpoint (projr (new_BtpSessionHandler Central 4 20 8)),
      fresh_endpoint (projr (new_BtpSessionHandler Peripheral 4 20 8)))"

definition sample_message_bytes :: "byte list" where
  "sample_message_bytes = map of_nat [0..<30]"

definition sample_sending :: "btp_endpoint \<times> btp_endpoint" where
  "sample_sending = run_local (SendMatterMessage sample_message_bytes) sample_link"

definition sample_sent :: "btp_endpoint \<times> btp_endpoint" where
  "sample_sent = run_receive (run_local FragmentWritten (run_receive (run_local FragmentWritten sample_sending)))"

lemma sample_link_start: "link_start 20 8 8 sample_link"
  by (simp add: link_start_def sample_link_def new_BtpSessionHandler_def Let_def)

lemma sample_sending_reachable: "link_reachable sample_link sample_sending"
  unfolding sample_sending_def
  by (rule reach_step [OF reach_start run_local_step]) (simp_all add: sample_message_bytes_def)

lemma sample_sent_reachable: "link_reachable sample_link sample_sent"
  unfolding sample_sent_def
  by (rule reach_step [OF reach_step [OF reach_step [OF reach_step [OF sample_sending_reachable run_local_step]
    run_receive_step] run_local_step] run_receive_step]; code_simp)

lemma sample_sent_state:
  "isActive (session (snd sample_sent))" "inflight (fst sample_sent) = []"
  "queuedOutgoingMatterMessages (session (fst sample_sent)) = []"
  "submitted (fst sample_sent) = [sample_message_bytes]"
  by code_simp+

text \<open>C7: Two sessions on a reliable link: for every interleaving of sends, writes, reads and timers on both
  sides, each user has been handed a prefix of the messages the other user submitted, unchanged and
  in order, whatever the fragmentation; nothing is lost, repeated or mixed up before the end.\<close>

theorem btp_delivers_prefix:
  assumes "link_start fragSize wp wc l" "6 \<le> fragSize" "link_reachable l (a, b)"
  shows "prefix (delivered b) (submitted a) \<and> prefix (delivered a) (submitted b)"
  using link_ok_reachable [OF assms(3,1,2)] by (simp add: link_ok_def flow_def)

lemma btp_delivers_prefix_witness:
  "prefix (delivered (snd sample_sending)) (submitted (fst sample_sending)) \<and>
   prefix (delivered (fst sample_sending)) (submitted (snd sample_sending))"
  by (rule btp_delivers_prefix [of 20 8 8 sample_link]) (simp_all add: sample_link_start sample_sending_reachable)

text \<open>C12: When one side has nothing left to send and nothing is in flight from it, an active peer has been
  handed everything that was submitted.\<close>

theorem btp_delivers_all:
  assumes "link_start fragSize wp wc l" "6 \<le> fragSize" "link_reachable l (a, b)"
    and "isActive (session b)" "inflight a = []" "queuedOutgoingMatterMessages (session a) = []"
  shows "delivered b = submitted a"
proof -
  have "wf_session (session a)" "flow a b"
    using link_ok_reachable [OF assms(3,1,2)] by (simp_all add: link_ok_def)
  with assms(4-6) obtain segs ms where
    "numbered (fragmentSize (session b)) ((prevIncomingSequenceNumber (session b) + 1) mod 256) [] segs"
    "absorb (partial_in (session b)) segs = Some (started [], ms)" "submitted a = delivered b @ ms"
    by (auto simp: flow_def active_queue_def)
  then show ?thesis by (cases segs) auto
qed

lemma btp_delivers_all_witness: "delivered (snd sample_sent) = submitted (fst sample_sent)"
  by (rule btp_delivers_all [of 20 8 8 sample_link])
    (simp_all add: sample_link_start sample_sent_reachable sample_sent_state)



lemma decodeBtpHandshakeRequest_window:
  "decodeBtpHandshakeRequest request = Inr q \<Longrightarrow> 0 \<le> clientWindowSize q \<and> clientWindowSize q < 256"
  by (auto simp: decodeBtpHandshakeRequest_def decodeHandshakeRequestPayload_def and_then_Inr_iff Let_def
      dest: readUInt8_range split: if_splits)

text \<open>The handshake: a peripheral that accepts a request uses fragments of 20 to 244 bytes and answers with a
  packet from which the central sets up a session of the same fragment size and window.\<close>

theorem btp_handshake_agrees:
  assumes "createFromHandshakeRequest maxDataSize request = (Inr s, out)"
  shows "20 \<le> fragmentSize s \<and> fragmentSize s \<le> 244 \<and>
    (\<exists>response c. out = [WriteBle response] \<and> createAsCentral response = Inr c \<and>
       fragmentSize c = fragmentSize s \<and> sessionWindowSize c = sessionWindowSize s)"
proof -
  from assms obtain q where q: "decodeBtpHandshakeRequest request = Inr q"
    by (auto simp: createFromHandshakeRequest_def split: sum.splits)
  note w = decodeBtpHandshakeRequest_window [OF q]
  define mtu where "mtu = (case maxDataSize of
                    None \<Rightarrow> BLE_MINIMUM_ATT_MTU
                  | Some maxData \<Rightarrow>
                    if maxData > BLE_MINIMUM_ATT_MTU then
                      if reqAttMtu q \<le> BLE_MINIMUM_ATT_MTU then min maxData BLE_MAXIMUM_BTP_MTU
                      else min (reqAttMtu q) (min maxData BLE_MAXIMUM_BTP_MTU)
                    else BLE_MINIMUM_ATT_MTU)"
  have m: "20 \<le> mtu" "mtu \<le> 244"
    by (auto simp: mtu_def btp_session_consts split: option.split)
  define win where "win = min 255 (clientWindowSize q)"
  have win: "0 \<le> win" "win < 256" using w by (auto simp: win_def)
  define resp where "resp = le_bytes 1 101 @ le_bytes 1 108 @ le_bytes 1 4 @ le_bytes 2 mtu @ le_bytes 1 win"
  have enc: "encodeBtpHandshakeResponse \<lparr>version = 4, respAttMtu = mtu, windowSize = win\<rparr> = Inr resp"
    using m win by (simp add: encodeBtpHandshakeResponse_def Let_def btp_consts js_and_def write_defs writer_simps resp_def)
  have 4: "4 \<in> set (versions q)"
    using assms by (auto simp: createFromHandshakeRequest_def q BTP_SUPPORTED_VERSIONS_def split: if_splits)
  have s: "out = [WriteBle resp]" "fragmentSize s = mtu" "sessionWindowSize s = win"
    using assms 4 enc
    by (auto simp: createFromHandshakeRequest_def q BTP_SUPPORTED_VERSIONS_def mtu_def [symmetric]
        BTP_MAXIMUM_WINDOW_SIZE_def win_def [symmetric] new_BtpSessionHandler_def Let_def)
  have "createAsCentral resp = new_BtpSessionHandler Central 4 (min mtu 244) win"
    using m win
    by (simp add: createAsCentral_def decodeBtpHandshakeResponsePayload_def resp_def new_DataReader_rd
        read_defs codec_simps btp_consts js_and_def Let_def BLE_MAXIMUM_BTP_MTU_def)
  then show ?thesis using m s by (simp add: new_BtpSessionHandler_def Let_def)
qed

lemma btp_handshake_agrees_witness:
  "\<exists>response c. createFromHandshakeRequest (Some 100) [101, 108, 4, 0, 0, 0, 200, 0, 6] =
     (Inr (projr (fst (createFromHandshakeRequest (Some 100) [101, 108, 4, 0, 0, 0, 200, 0, 6]))), [WriteBle response]) \<and>
   createAsCentral response = Inr c \<and> fragmentSize c = 100"
proof -
  have e: "createFromHandshakeRequest (Some 100) [101, 108, 4, 0, 0, 0, 200, 0, 6] =
      (Inr (projr (fst (createFromHandshakeRequest (Some 100) [101, 108, 4, 0, 0, 0, 200, 0, 6]))),
       snd (createFromHandshakeRequest (Some 100) [101, 108, 4, 0, 0, 0, 200, 0, 6]))"
    and f: "fragmentSize (projr (fst (createFromHandshakeRequest (Some 100) [101, 108, 4, 0, 0, 0, 200, 0, 6]))) = 100"
    by code_simp+
  from btp_handshake_agrees [OF e] e f show ?thesis by metis
qed

lemma accept_ack_quiet:
  "case accept_ack h p s of Inl (e, t) \<Rightarrow> queuedOutgoingMatterMessages t = queuedOutgoingMatterMessages s
   | Inr t \<Rightarrow> queuedOutgoingMatterMessages t = queuedOutgoingMatterMessages s"
  by (auto simp: accept_ack_def Let_def split: option.split)

lemma add_segment_quiet:
  "case add_segment h p s of Inl (e, t) \<Rightarrow> queuedOutgoingMatterMessages t = queuedOutgoingMatterMessages s
   | Inr t \<Rightarrow> queuedOutgoingMatterMessages t = queuedOutgoingMatterMessages s"
  by (auto simp: add_segment_def split: option.split)

lemma end_message_quiet:
  "case end_message h s of Inl (e, t) \<Rightarrow> queuedOutgoingMatterMessages t = queuedOutgoingMatterMessages s
   | Inr (t, out) \<Rightarrow> queuedOutgoingMatterMessages t = queuedOutgoingMatterMessages s \<and> writes out = []"
  by (auto simp: end_message_def split: option.split)

definition quiet :: "btp_session \<Rightarrow> (btp_session \<times> btp_output list) btp_res \<Rightarrow> bool" where
  "quiet s r \<longleftrightarrow>
     (case r of Inl (e, t) \<Rightarrow> queuedOutgoingMatterMessages t = queuedOutgoingMatterMessages s
      | Inr (t, out) \<Rightarrow> queuedOutgoingMatterMessages t = queuedOutgoingMatterMessages s \<and> writes out = [])"

lemma segment_steps_quiet:
  assumes "queuedOutgoingMatterMessages s1 = queuedOutgoingMatterMessages s"
  shows "quiet s (and_then (accept_ack h p s1) (\<lambda>s. and_then (add_segment h p s) (end_message h)))"
proof (cases "accept_ack h p s1")
  case (Inl x)
  with assms accept_ack_quiet [of s1 h p] show ?thesis by (auto simp: quiet_def)
next
  case (Inr t)
  with assms accept_ack_quiet [of s1 h p] add_segment_quiet [of t h p] show ?thesis
    by (cases "add_segment h p t")
      (use end_message_quiet [of "projr (add_segment h p t)" h] in \<open>auto simp: quiet_def split: sum.splits\<close>)
qed

lemma incoming_body_quiet: "quiet s (incoming_body packet s)"
proof -
  have "quiet s (Inl (e, s))" for e by (simp add: quiet_def)
  then show ?thesis
    by (auto simp: incoming_body_def Let_def segment_steps_quiet split: sum.split)
qed

text \<open>The queue of outgoing messages moves only when a message is submitted or a write completes: no
  incoming packet, acknowledgements included, sends a fragment or touches the queue, so a message
  stopped by a full window stays where it is until the next one is submitted.\<close>

theorem btp_ack_does_not_resume_sending:
  "queuedOutgoingMatterMessages (fst (handleIncomingBleData packet s)) = queuedOutgoingMatterMessages s \<and>
   writes (snd (handleIncomingBleData packet s)) = []"
  using incoming_body_quiet [of s packet]
  by (auto simp: handleIncomingBleData_def incoming_failed_def close_def Let_def quiet_def split: sum.splits)

text \<open>The window check goes wrong when the numbers wrap: with an acknowledgement below 255 still the last one
  received, no number below it ever exceeds the window, whatever its size.\<close>

theorem btp_window_lost_after_wrap:
  assumes "0 \<le> current" "current < prevAck" "prevAck < 255" "1 \<le> sessionWindowSize s"
  shows "\<not> exceedsWindowSize s prevAck current"
  using assms by (simp add: exceedsWindowSize_def MAXIMUM_SEQUENCE_NUMBER_def)

lemma btp_window_lost_after_wrap_witness:
  "\<not> exceedsWindowSize (session (fst sample_link)) 250 249"
  by (rule btp_window_lost_after_wrap)
    (simp_all add: sample_link_def fresh_endpoint_def new_BtpSessionHandler_def Let_def)

text \<open>A stand-alone acknowledgement.\<close>

definition ack_header :: btp_header where
  "ack_header = \<lparr>isHandshakeRequest = False, hasManagementOpcode = False, hasAckNumber = True,
     isEndingSegment = False, isContinuingSegment = False, isBeginningSegment = False\<rparr>"

definition ack_payload :: "int \<Rightarrow> int \<Rightarrow> btp_payload" where
  "ack_payload ack sn = \<lparr>ackNumber = Some ack, sequenceNumber = sn, messageLength = None, segmentPayload = None\<rparr>"

text \<open>After the numbers wrap, the acknowledgement of any packet sent before the wrap is larger than the
  current number, and the session that receives it closes.\<close>

theorem btp_late_ack_closes:
  assumes "encodeBtpPacket ack_header (ack_payload ack ((prevIncomingSequenceNumber s + 1) mod 256)) = Inr packet"
    and "outSequenceNumber s < ack" "0 \<le> ack" "ack < 256" "3 \<le> fragmentSize s" "isActive s"
  shows "isActive (fst (handleIncomingBleData packet s)) = False \<and>
    snd (handleIncomingBleData packet s) = [DisconnectBle]"
proof -
  let ?p = "ack_payload ack ((prevIncomingSequenceNumber s + 1) mod 256)"
  have rng: "btp_in_range ?p" using assms by (simp add: btp_in_range_def ack_payload_def)
  have "dSequenceNumber (as_decoded_btp ?p) = (prevIncomingSequenceNumber s + 1) mod 256"
    "dAckNumber (as_decoded_btp ?p) = Some ack"
    by (simp_all add: ack_payload_def as_decoded_btp_def)
  moreover have "int (length packet) \<le> fragmentSize s"
    using assms(5) by (simp add: encoded_length [OF assms(1) rng] ack_header_def ack_payload_def)
  ultimately have "incoming_body packet s = Inl (BtpProtocolError,
      s\<lparr>prevIncomingSequenceNumber := (prevIncomingSequenceNumber s + 1) mod 256, sendAckTimer := True\<rparr>)"
    using assms(2) by (simp add: incoming_body_def btp_packet_back [OF assms(1) rng] accept_ack_def ack_header_def Let_def)
  then show ?thesis
    using assms(6) by (simp add: handleIncomingBleData_def incoming_failed_def close_def Let_def)
qed

lemma btp_late_ack_closes_witness:
  "isActive (fst (handleIncomingBleData [8, 255, 0] (session (snd sample_link)\<lparr>outSequenceNumber := 3\<rparr>))) = False"
proof -
  have "encodeBtpPacket ack_header (ack_payload 255 ((prevIncomingSequenceNumber
      (session (snd sample_link)\<lparr>outSequenceNumber := 3\<rparr>) + 1) mod 256)) = Inr [8, 255, 0]"
    by code_simp
  then show ?thesis
    by (rule btp_late_ack_closes [THEN conjunct1])
      (simp_all add: sample_link_def fresh_endpoint_def new_BtpSessionHandler_def Let_def)
qed

text \<open>Once packet 255 of the peer has been acknowledged, the acknowledgement timer never sends another
  acknowledgement: it compares the wrapped numbers by size.\<close>

theorem btp_no_timer_ack_after_wrap:
  assumes "prevAckedSequenceNumber s = 255" "prevIncomingSequenceNumber s < 256"
  shows "btpSendAckTimeoutTriggered s = (s, [])"
  using assms by (simp add: btpSendAckTimeoutTriggered_def)

lemma btp_no_timer_ack_after_wrap_witness:
  "btpSendAckTimeoutTriggered (session (snd sample_link)\<lparr>prevAckedSequenceNumber := 255, prevIncomingSequenceNumber := 0\<rparr>) =
   (session (snd sample_link)\<lparr>prevAckedSequenceNumber := 255, prevIncomingSequenceNumber := 0\<rparr>, [])"
  by (rule btp_no_timer_ack_after_wrap) simp_all

end
