(* ===== verification/Broker.thy ===== *)
theory Broker
  imports Complex_Main Prelude JsText
begin

text \<open>
  The virtual broker node, packages/cs525/src/VirtualMatterBrokerNode.ts: which endpoints of a
  commissioned node it records and subscribes to, how it accumulates the values reported by them
  and what it publishes as the average of an interval.

  The controller, the bridge node and the clock belong to libraries and the platform: what they
  answer is an argument, what is asked of them is an output.  Measured values are integers or
  \<open>null\<close>; areas and averages are rational numbers, so the rounding of binary floating point is not
  part of the model.  Publishing awaits the bridge between computing an average and clearing the
  sums, and reports can arrive in between: it is two operations.
\<close>

subsection \<open>State\<close>

record datapoint =
  dpValue :: "int option"
  dpTimestamp :: int

record more_datapoint =
  latest :: datapoint
  riemann :: "(int \<times> rat) list"

text \<open>Objects with integer keys are enumerated in ascending order.\<close>

fun idx_set :: "int \<Rightarrow> 'v \<Rightarrow> (int \<times> 'v) list \<Rightarrow> (int \<times> 'v) list" where
  "idx_set k v [] = [(k, v)]"
| "idx_set k v (p # ps) =
     (if k < fst p then (k, v) # p # ps else if k = fst p then (k, v) # ps else p # idx_set k v ps)"

type_synonym endpoint_data = "(int \<times> more_datapoint) list js_object"

text \<open>
  The endpoints of a commissioned node: number, the clusters the code asks for, children.
\<close>

datatype south_endpoint =
  SouthEndpoint (endpointNumber: int) (hasAggregatedStats: bool) (hasTemperature: bool)
    (childEndpoints: "south_endpoint list")

text \<open>
  The keys of the two maps are objects, which a \<open>Map\<close> compares by identity: a key is the object's
  identity with its fields.
\<close>

record endpoint_key =
  keyObject :: nat
  keyNodeId :: int
  keyEndpointId :: int

record broker =
  lastIntervalFired :: "(int \<times> int) list"
  aggregatorData :: endpoint_data
  proxiedEndpoints :: "(endpoint_key \<times> string) list"
  southboundEndpoints :: "(endpoint_key \<times> south_endpoint) list"
  nextObject :: nat

datatype broker_output =
    AddProxy string string
  | SubscribeAverage int int
  | SubscribeMeasuredValue int
  | ListenAttributeChanged
  | SetAggregated string rat
  | SetProxy string string string "int option"
  | SetInterval int

subsection \<open>Setup\<close>

definition AggregateIntervals :: "int list" where "AggregateIntervals = [10, 60]"
definition AttributeList :: "string list" where "AttributeList = [''MeasuredValue'']"

definition broker_start :: "(int \<Rightarrow> int) \<Rightarrow> broker \<times> broker_output list" where
  "broker_start now =
     (\<lparr>lastIntervalFired = fold (\<lambda>l m. idx_set l (now l) m) AggregateIntervals [],
       aggregatorData = [], proxiedEndpoints = [], southboundEndpoints = [], nextObject = 0\<rparr>,
      map (\<lambda>l. SetInterval (1000 * l)) AggregateIntervals)"

definition pairNode :: "(int \<Rightarrow> int \<Rightarrow> int \<Rightarrow> int res) \<Rightarrow> int \<Rightarrow> int \<Rightarrow> int \<Rightarrow> int res" where
  "pairNode commissionNode port longDiscriminator setupPin =
     (if longDiscriminator > 4095 then Inl PlainError
      else commissionNode port longDiscriminator setupPin)"

text \<open>\<open>parseInt(`${port}${port}`)\<close>\<close>

definition doubled_port :: "nat \<Rightarrow> int" where
  "doubled_port port = int (digits_value (dec_string port @ dec_string port) 0)"

definition main_pairs :: "(int \<Rightarrow> int \<Rightarrow> int \<Rightarrow> int res) \<Rightarrow> nat \<Rightarrow> int res" where
  "main_pairs commissionNode port = pairNode commissionNode (int port) (int port) (doubled_port port)"

subsection \<open>Commissioned nodes\<close>

definition add_southbound :: "int \<Rightarrow> south_endpoint \<Rightarrow> broker \<Rightarrow> broker" where
  "add_southbound nodeId child s =
     s\<lparr>southboundEndpoints := southboundEndpoints s @
         [(\<lparr>keyObject = nextObject s, keyNodeId = nodeId, keyEndpointId = endpointNumber child\<rparr>, child)],
       nextObject := nextObject s + 1\<rparr>"

text \<open>
  One endpoint of the node.  The outputs keep the order of the code; the callback of \<open>forEach\<close> runs
  up to its last statement before the next.
\<close>

definition commission_child :: "int \<Rightarrow> south_endpoint \<Rightarrow> broker \<Rightarrow> broker \<times> broker_output list" where
  "commission_child nodeId child s =
     (let (s, out) =
            (if hasAggregatedStats child then
               (fold (add_southbound nodeId) (childEndpoints child) (add_southbound nodeId child s),
                map (\<lambda>nested. AddProxy
                    (''ple-'' @ int_string nodeId @ ''-'' @ int_string (endpointNumber nested))
                    (int_string nodeId @ ''-'' @ int_string (endpointNumber nested))) (childEndpoints child))
             else (s, []))
      in (s, out @ (if hasTemperature child
                    then [AddProxy (''ple-'' @ int_string nodeId) (''node-matter-'' @ int_string nodeId)]
                    else [])))"

fun commission_children :: "int \<Rightarrow> south_endpoint list \<Rightarrow> broker \<Rightarrow> broker \<times> broker_output list" where
  "commission_children nodeId [] s = (s, [])"
| "commission_children nodeId (child # rest) s =
     (let (s, out) = commission_child nodeId child s;
          (s, out') = commission_children nodeId rest s
      in (s, out @ out'))"

text \<open>\<open>details\<close> are the node ids the controller reports as commissioned.\<close>

definition onNodeCommission ::
  "int list \<Rightarrow> int \<Rightarrow> south_endpoint list \<Rightarrow> broker \<Rightarrow> (broker \<times> broker_output list) res" where
  "onNodeCommission details nodeId endpoints s =
     (if nodeId \<notin> set details then Inl PlainError
      else Inr (commission_children nodeId endpoints s))"

definition subscribe_endpoint :: "endpoint_key \<times> south_endpoint \<Rightarrow> broker_output list" where
  "subscribe_endpoint kv =
     (if hasAggregatedStats (snd kv)
      then [SubscribeAverage 10 (keyEndpointId (fst kv)), SubscribeAverage 60 (keyEndpointId (fst kv))] else []) @
     (if hasTemperature (snd kv) then [SubscribeMeasuredValue (keyEndpointId (fst kv))] else [])"

definition connectNode :: "int \<Rightarrow> broker \<Rightarrow> broker_output list" where
  "connectNode nodeId s =
     (let found = filter (\<lambda>kv. keyNodeId (fst kv) = nodeId) (southboundEndpoints s)
      in if length found = 0 then []
         else concat (map subscribe_endpoint found) @ [ListenAttributeChanged])"

subsection \<open>Reports\<close>

definition proxiedClusters :: "string list" where
  "proxiedClusters = [''AggregatedStats'', ''TemperatureMeasurement'']"

definition aggregatedAttributes :: "string list" where
  "aggregatedAttributes =
     concat (map (\<lambda>cluster. map (\<lambda>attribute. cluster @ ''.'' @ lower_first attribute) AttributeList) proxiedClusters)"

definition last_fired :: "int \<Rightarrow> broker \<Rightarrow> int" where
  "last_fired l s = the (map_of (lastIntervalFired s) l)"

text \<open>
  \<open>null\<close> counts as 0 in the product; a missing sum is 0.  \<open>fired\<close> is when the interval was last
  published: the area reaches back to it, not to the previous report.
\<close>

definition report_area :: "int option \<Rightarrow> int \<Rightarrow> int \<Rightarrow> rat" where
  "report_area value timestamp fired =
     of_int (case value of None \<Rightarrow> 0 | Some v \<Rightarrow> v) * (of_int (timestamp - fired) / 1000)"

definition interval_sum :: "int \<Rightarrow> more_datapoint \<Rightarrow> rat" where
  "interval_sum l d = (case map_of (riemann d) l of None \<Rightarrow> 0 | Some r \<Rightarrow> r)"

definition add_area :: "broker \<Rightarrow> int option \<Rightarrow> int \<Rightarrow> int \<Rightarrow> more_datapoint \<Rightarrow> more_datapoint" where
  "add_area s value timestamp l d =
     d\<lparr>riemann := idx_set l (interval_sum l d + report_area value timestamp (last_fired l s)) (riemann d)\<rparr>"

definition track_value :: "string \<Rightarrow> int \<Rightarrow> int option \<Rightarrow> int \<Rightarrow> broker \<Rightarrow> broker" where
  "track_value key endpointId value timestamp s =
     (let data = (case map_of (aggregatorData s) key of None \<Rightarrow> [] | Some d \<Rightarrow> d);
          sofar = (case map_of data endpointId of None \<Rightarrow> [] | Some d \<Rightarrow> riemann d);
          d = \<lparr>latest = \<lparr>dpValue = value, dpTimestamp = timestamp\<rparr>, riemann = sofar\<rparr>;
          d = fold (add_area s value timestamp) AggregateIntervals d
      in s\<lparr>aggregatorData := obj_set key (idx_set endpointId d data) (aggregatorData s)\<rparr>)"

text \<open>
  A lookup in \<open>#proxiedEndpoints\<close> builds its key as a new object.  The cluster is what the registry
  has under the reported id.
\<close>

definition attributeChanged ::
  "string option \<Rightarrow> int \<Rightarrow> int \<Rightarrow> string \<Rightarrow> int option \<Rightarrow> int \<Rightarrow> broker \<Rightarrow> (broker \<times> broker_output list) res" where
  "attributeChanged cluster nodeId endpointId attributeName value timestamp s =
     (case cluster of
        None \<Rightarrow> Inl PlainError
      | Some name \<Rightarrow>
        let clusterPlusAttribute = name @ ''.'' @ attributeName;
            s = (if clusterPlusAttribute \<in> set aggregatedAttributes
                 then track_value clusterPlusAttribute endpointId value timestamp s else s);
            k = \<lparr>keyObject = nextObject s, keyNodeId = nodeId, keyEndpointId = endpointId\<rparr>;
            s = s\<lparr>nextObject := nextObject s + 1\<rparr>
        in Inr (s, case map_of (map (\<lambda>(k, p). (keyObject k, p)) (proxiedEndpoints s)) (keyObject k) of
             None \<Rightarrow> []
           | Some proxy \<Rightarrow>
             if name \<in> set proxiedClusters then [SetProxy proxy (lower_first name) attributeName value] else []))"

subsection \<open>Publishing\<close>

type_synonym grouped = "(rat \<times> int) list js_object"

definition group_entry :: "int \<Rightarrow> string \<times> (int \<times> more_datapoint) list \<Rightarrow> grouped \<Rightarrow> grouped" where
  "group_entry l kv g =
     (let attribute = upper_first (js_split (CHR ''.'') (fst kv) ! 1);
          g = (if map_of g attribute = None then obj_set attribute [] g else g)
      in obj_set attribute
           (the (map_of g attribute) @ map (\<lambda>(endpointId, d). (interval_sum l d, endpointId)) (snd kv)) g)"

definition group_data :: "int \<Rightarrow> endpoint_data \<Rightarrow> grouped" where
  "group_data l data =
     (let g = fold (group_entry l) data []
      in obj_set ''MeasuredValue''
           (case map_of g ''MeasuredValue'' of None \<Rightarrow> [(0, - 1)] | Some v \<Rightarrow> v) g)"

definition publish_attribute :: "int \<Rightarrow> string \<times> (rat \<times> int) list \<Rightarrow> broker_output" where
  "publish_attribute l kv =
     SetAggregated (''average'' @ fst kv @ int_string l)
       (fold (\<lambda>v acc. acc + fst v) (snd kv) 0 / of_nat (length (snd kv)) / of_int l)"

text \<open>Up to the first wait for the bridge, and what follows the last.\<close>

definition recalculate_publish :: "int \<Rightarrow> broker \<Rightarrow> broker_output list" where
  "recalculate_publish l s = map (publish_attribute l) (group_data l (aggregatorData s))"

definition recalculate_reset :: "int \<Rightarrow> int \<Rightarrow> broker \<Rightarrow> broker" where
  "recalculate_reset l now s =
     s\<lparr>lastIntervalFired := idx_set l now (lastIntervalFired s),
       aggregatorData := map (\<lambda>(key, data).
         (key, map (\<lambda>(endpointId, d). (endpointId, d\<lparr>riemann := idx_set l 0 (riemann d)\<rparr>)) data)) (aggregatorData s)\<rparr>"

subsection \<open>Objects\<close>

lemma map_of_idx_set: "sorted_wrt (<) (map fst xs) \<Longrightarrow> map_of (idx_set k v xs) j = (if j = k then Some v else map_of xs j)"
  by (induction k v xs rule: idx_set.induct) auto

lemma set_fst_idx_set: "fst ` set (idx_set k v xs) = insert k (fst ` set xs)"
  by (induction k v xs rule: idx_set.induct) auto

lemma sorted_idx_set: "sorted_wrt (<) (map fst xs) \<Longrightarrow> sorted_wrt (<) (map fst (idx_set k v xs))"
  by (induction k v xs rule: idx_set.induct) (auto simp: set_fst_idx_set simp flip: image_set)

lemma idx_set_not_Nil [simp]: "idx_set k v xs \<noteq> []"
  by (cases xs) auto

lemma map_of_idx_hd: "\<forall>p\<in>set xs. (k::int) < fst p \<Longrightarrow> map_of xs k = None"
  by (auto simp: map_of_eq_None_iff)

lemma sum_idx_set:
  fixes f :: "'v \<Rightarrow> 'a::ab_group_add"
  assumes "sorted_wrt (<) (map fst xs)"
  shows "sum_list (map (\<lambda>p. f (snd p)) (idx_set k v xs)) =
    sum_list (map (\<lambda>p. f (snd p)) xs) - (case map_of xs k of None \<Rightarrow> 0 | Some w \<Rightarrow> f w) + f v"
  using assms
proof (induction k v xs rule: idx_set.induct)
  case (2 k v p ps)
  then have n: "k < fst p \<Longrightarrow> map_of (p # ps) k = None" by (intro map_of_idx_hd) auto
  show ?case
  proof (cases "k < fst p")
    case True
    then show ?thesis using n by (simp add: algebra_simps del: map_of.simps)
  next
    case False
    with 2 show ?thesis by (auto simp: algebra_simps split: option.splits)
  qed
qed simp

lemma sum_obj_set:
  fixes f :: "'v \<Rightarrow> 'a::ab_group_add"
  shows "sum_list (map (\<lambda>p. f (snd p)) (obj_set k v xs)) =
    sum_list (map (\<lambda>p. f (snd p)) xs) - (case map_of xs k of None \<Rightarrow> 0 | Some w \<Rightarrow> f w) + f v"
  by (induction k v xs rule: obj_set.induct) (auto simp: algebra_simps split: option.splits)

lemma set_fst_obj_set: "fst ` set (obj_set k v xs) = insert k (fst ` set xs)"
  by (induction k v xs rule: obj_set.induct) auto

lemma distinct_obj_set: "distinct (map fst xs) \<Longrightarrow> distinct (map fst (obj_set k v xs))"
  by (induction k v xs rule: obj_set.induct) (auto simp: set_fst_obj_set simp flip: image_set)

lemma obj_set_entries: "p \<in> set (obj_set k v xs) \<Longrightarrow> p = (k, v) \<or> p \<in> set xs"
  by (induction k v xs rule: obj_set.induct) (auto split: if_splits)

subsection \<open>Invariant and totals\<close>

definition wf_endpoints :: "(int \<times> more_datapoint) list \<Rightarrow> bool" where
  "wf_endpoints data \<longleftrightarrow> data \<noteq> [] \<and> sorted_wrt (<) (map fst data) \<and>
     (\<forall>(_, d)\<in>set data. sorted_wrt (<) (map fst (riemann d)))"

definition wf_broker :: "broker \<Rightarrow> bool" where
  "wf_broker s \<longleftrightarrow>
     sorted_wrt (<) (map fst (lastIntervalFired s)) \<and>
     (\<forall>l\<in>set AggregateIntervals. map_of (lastIntervalFired s) l \<noteq> None) \<and>
     (\<forall>(key, data)\<in>set (aggregatorData s). key \<in> set aggregatedAttributes \<and> wf_endpoints data) \<and>
     distinct (map fst (aggregatorData s)) \<and>
     (\<forall>(k, _)\<in>set (southboundEndpoints s). keyObject k < nextObject s) \<and> proxiedEndpoints s = []"

definition endpoints_area :: "int \<Rightarrow> (int \<times> more_datapoint) list \<Rightarrow> rat" where
  "endpoints_area l data = sum_list (map (\<lambda>p. interval_sum l (snd p)) data)"

definition area_total :: "int \<Rightarrow> broker \<Rightarrow> rat" where
  "area_total l s = sum_list (map (\<lambda>p. endpoints_area l (snd p)) (aggregatorData s))"

definition tracked :: "broker \<Rightarrow> nat" where
  "tracked s = sum_list (map (\<lambda>p. length (snd p)) (aggregatorData s))"

text \<open>The endpoints a broker keeps data of, under the attribute they reported.\<close>

definition tracked_endpoints :: "broker \<Rightarrow> (string \<times> int) set" where
  "tracked_endpoints s = {(k, e). \<exists>data. (k, data) \<in> set (aggregatorData s) \<and> e \<in> fst ` set data}"

lemma tracked_card:
  assumes "wf_broker s"
  shows "tracked s = card (tracked_endpoints s)"
proof -
  define ks where "ks = concat (map (\<lambda>p. map (\<lambda>q. (fst p, fst q)) (snd p)) (aggregatorData s))"
  have inner: "\<forall>p\<in>set (aggregatorData s). distinct (map fst (snd p))"
    using assms by (auto simp: wf_broker_def wf_endpoints_def strict_sorted_iff)
  have "distinct (concat (map (\<lambda>p. map (\<lambda>q. (fst p, fst q)) (snd p)) xs))"
    if "distinct (map fst xs)" "\<forall>p\<in>set xs. distinct (map fst (snd p))" for xs :: endpoint_data
    using that
  proof (induction xs)
    case (Cons p xs)
    have "distinct (map (\<lambda>q. (fst p, fst q)) (snd p))"
      using Cons.prems by (simp add: distinct_map inj_on_def)
    with Cons show ?case by (fastforce simp del: distinct_map)
  qed simp
  from this [of "aggregatorData s"] have "distinct ks"
    using inner assms by (simp add: ks_def wf_broker_def)
  then have "card (set ks) = length ks" by (rule distinct_card)
  moreover have "set ks = tracked_endpoints s"
    by (auto simp: ks_def tracked_endpoints_def image_iff intro!: bexI) (auto intro: bexI rev_bexI)
  moreover have "length ks = tracked s"
    by (simp add: ks_def tracked_def length_concat comp_def)
  ultimately show ?thesis by simp
qed

lemma set_obj_set: "distinct (map fst xs) \<Longrightarrow> set (obj_set k v xs) = insert (k, v) {p \<in> set xs. fst p \<noteq> k}"
  by (induction k v xs rule: obj_set.induct) (auto simp: image_iff)

lemma fold_intervals:
  "fold f AggregateIntervals d = f 60 (f 10 d)"
  by (simp add: AggregateIntervals_def)

lemma interval_sum_add_area:
  "sorted_wrt (<) (map fst (riemann d)) \<Longrightarrow>
   interval_sum m (add_area s v t l d) =
   (if m = l then interval_sum l d + report_area v t (last_fired l s) else interval_sum m d)"
  by (simp add: interval_sum_def add_area_def map_of_idx_set)

lemma sorted_add_area:
  "sorted_wrt (<) (map fst (riemann d)) \<Longrightarrow> sorted_wrt (<) (map fst (riemann (add_area s v t l d)))"
  by (simp add: add_area_def sorted_idx_set)

lemma wf_endpoints_idx_set:
  "data = [] \<or> wf_endpoints data \<Longrightarrow> sorted_wrt (<) (map fst (riemann d)) \<Longrightarrow> wf_endpoints (idx_set e d data)"
proof -
  have *: "p \<in> set (idx_set e d data) \<Longrightarrow> p = (e, d) \<or> p \<in> set data" for p
    by (induction e d data rule: idx_set.induct) (auto split: if_splits)
  show "data = [] \<or> wf_endpoints data \<Longrightarrow> sorted_wrt (<) (map fst (riemann d)) \<Longrightarrow> wf_endpoints (idx_set e d data)"
    by (auto simp: wf_endpoints_def sorted_idx_set dest!: *)
qed

lemma track_value_keeps:
  assumes wf: "wf_broker s" and k: "key \<in> set aggregatedAttributes" and l: "l \<in> set AggregateIntervals"
  shows "wf_broker (track_value key e v t s)"
    and "area_total l (track_value key e v t s) = area_total l s + report_area v t (last_fired l s)"
    and "aggregatorData (track_value key e v t s) \<noteq> []"
    and "lastIntervalFired (track_value key e v t s) = lastIntervalFired s"
    and "tracked_endpoints (track_value key e v t s) = insert (key, e) (tracked_endpoints s)"
proof -
  define data where "data = (case map_of (aggregatorData s) key of None \<Rightarrow> [] | Some d \<Rightarrow> d)"
  define sofar where "sofar = (case map_of data e of None \<Rightarrow> [] | Some d \<Rightarrow> riemann d)"
  define d0 where "d0 = \<lparr>latest = \<lparr>dpValue = v, dpTimestamp = t\<rparr>, riemann = sofar\<rparr>"
  define d where "d = fold (add_area s v t) AggregateIntervals d0"
  have tv: "track_value key e v t s = s\<lparr>aggregatorData := obj_set key (idx_set e d data) (aggregatorData s)\<rparr>"
    by (simp add: track_value_def data_def sofar_def d0_def d_def Let_def)
  have wd: "data = [] \<or> wf_endpoints data"
    using wf by (auto simp: data_def wf_broker_def split: option.split dest!: map_of_SomeD)
  have ss: "sorted_wrt (<) (map fst sofar)"
    using wd by (auto simp: sofar_def wf_endpoints_def split: option.split dest!: map_of_SomeD)
  have sd: "sorted_wrt (<) (map fst (riemann d))"
    using ss by (simp add: d_def d0_def fold_intervals sorted_add_area)
  have sdata: "sorted_wrt (<) (map fst data)" using wd by (auto simp: wf_endpoints_def)
  show "wf_broker (track_value key e v t s)"
    using wf k wf_endpoints_idx_set [OF wd sd, of e]
    by (auto simp: tv wf_broker_def distinct_obj_set dest!: obj_set_entries)
  have "interval_sum l d = interval_sum l d0 + report_area v t (last_fired l s)"
    using l ss by (auto simp: d_def fold_intervals interval_sum_add_area sorted_add_area d0_def AggregateIntervals_def)
  moreover have "interval_sum l d0 = (case map_of data e of None \<Rightarrow> 0 | Some w \<Rightarrow> interval_sum l w)"
    by (simp add: d0_def sofar_def interval_sum_def split: option.split)
  ultimately have "endpoints_area l (idx_set e d data) = endpoints_area l data + report_area v t (last_fired l s)"
    by (simp add: endpoints_area_def sum_idx_set [OF sdata])
  moreover have "(case map_of (aggregatorData s) key of None \<Rightarrow> 0 | Some w \<Rightarrow> endpoints_area l w) = endpoints_area l data"
    by (simp add: data_def endpoints_area_def split: option.split)
  ultimately show "area_total l (track_value key e v t s) = area_total l s + report_area v t (last_fired l s)"
    by (simp add: tv area_total_def sum_obj_set)
  show "aggregatorData (track_value key e v t s) \<noteq> []"
    by (cases "aggregatorData s") (simp_all add: tv)
  show "lastIntervalFired (track_value key e v t s) = lastIntervalFired s" by (simp add: tv)
  have dk: "distinct (map fst (aggregatorData s))" using wf by (simp add: wf_broker_def)
  have d1: "xs = data" if "(key, xs) \<in> set (aggregatorData s)" for xs
    using dk that by (auto simp: data_def dest: map_of_is_SomeI)
  have d2: "(key, data) \<in> set (aggregatorData s)" if "data \<noteq> []"
    using that by (auto simp: data_def split: option.splits dest: map_of_SomeD)
  have old: "(key, e') \<in> tracked_endpoints s \<longleftrightarrow> e' \<in> fst ` set data" for e'
  proof
    assume "(key, e') \<in> tracked_endpoints s"
    then obtain xs where "(key, xs) \<in> set (aggregatorData s)" "e' \<in> fst ` set xs"
      unfolding tracked_endpoints_def by blast
    with d1 show "e' \<in> fst ` set data" by blast
  next
    assume e': "e' \<in> fst ` set data"
    then have "(key, data) \<in> set (aggregatorData s)" by (intro d2) auto
    with e' show "(key, e') \<in> tracked_endpoints s" unfolding tracked_endpoints_def by blast
  qed
  have new: "(k, e') \<in> tracked_endpoints (track_value key e v t s) \<longleftrightarrow>
      (if k = key then e' \<in> insert e (fst ` set data) else (k, e') \<in> tracked_endpoints s)" for k e'
    unfolding tv tracked_endpoints_def using set_fst_idx_set [of e d data]
    by (cases "k = key") (simp_all add: set_obj_set [OF dk])
  show "tracked_endpoints (track_value key e v t s) = insert (key, e) (tracked_endpoints s)"
  proof (rule set_eqI, goal_cases)
    case (1 x)
    obtain k e' where x: "x = (k, e')" by (cases x)
    show ?case by (cases "k = key") (simp_all add: x new old)
  qed
qed

subsection \<open>What is published\<close>

lemma aggregatedAttributes_upper:
  "key \<in> set aggregatedAttributes \<Longrightarrow> upper_first (js_split (CHR ''.'') key ! Suc 0) = ''MeasuredValue''"
proof -
  have "\<forall>key\<in>set aggregatedAttributes. upper_first (js_split (CHR ''.'') key ! 1) = ''MeasuredValue''"
    by code_simp
  then show "key \<in> set aggregatedAttributes \<Longrightarrow> upper_first (js_split (CHR ''.'') key ! Suc 0) = ''MeasuredValue''"
    by simp
qed

definition entry_sums :: "int \<Rightarrow> string \<times> (int \<times> more_datapoint) list \<Rightarrow> (rat \<times> int) list" where
  "entry_sums l kv = map (\<lambda>(endpointId, d). (interval_sum l d, endpointId)) (snd kv)"

lemma group_fold:
  assumes "\<forall>p\<in>set data. fst p \<in> set aggregatedAttributes"
  shows "fold (group_entry l) data [(''MeasuredValue'', v)] =
    [(''MeasuredValue'', v @ concat (map (entry_sums l) data))]"
  using assms
  by (induction data arbitrary: v)
    (simp_all add: group_entry_def aggregatedAttributes_upper entry_sums_def Let_def del: js_split.simps)

lemma group_data_eq:
  assumes "\<forall>p\<in>set data. fst p \<in> set aggregatedAttributes" "data \<noteq> []"
  shows "group_data l data = [(''MeasuredValue'', concat (map (entry_sums l) data))]"
proof -
  obtain p ps where data: "data = p # ps" using assms(2) by (cases data) auto
  have "group_entry l p [] = [(''MeasuredValue'', entry_sums l p)]"
    using assms(1) by (simp add: data group_entry_def aggregatedAttributes_upper entry_sums_def Let_def)
  then have "fold (group_entry l) data [] = fold (group_entry l) ps [(''MeasuredValue'', entry_sums l p)]"
    by (simp add: data)
  also have "\<dots> = [(''MeasuredValue'', concat (map (entry_sums l) data))]"
    using assms(1) group_fold [of ps l "entry_sums l p"] by (simp add: data)
  finally show ?thesis by (simp add: group_data_def)
qed

lemma fold_plus: "fold (\<lambda>v acc. acc + fst v) xs a = a + sum_list (map fst xs)" for a :: rat
  by (induction xs arbitrary: a) simp_all

lemma publish_eq:
  assumes "wf_broker s" "aggregatorData s \<noteq> []"
  shows "recalculate_publish l s =
    [SetAggregated (''averageMeasuredValue'' @ int_string l) (area_total l s / of_nat (tracked s) / of_int l)]"
proof -
  have "\<forall>p\<in>set (aggregatorData s). fst p \<in> set aggregatedAttributes"
    using assms by (auto simp: wf_broker_def)
  note g = group_data_eq [OF this assms(2), of l]
  have "sum_list (map fst (concat (map (entry_sums l) data))) = sum_list (map (\<lambda>p. endpoints_area l (snd p)) data)" for data
    by (induction data) (simp_all add: entry_sums_def endpoints_area_def case_prod_unfold comp_def)
  moreover have "length (concat (map (entry_sums l) data)) = sum_list (map (\<lambda>p. length (snd p)) data)" for data
    by (induction data) (simp_all add: entry_sums_def)
  ultimately show ?thesis
    by (simp add: recalculate_publish_def g publish_attribute_def fold_plus area_total_def tracked_def)
qed

lemma reset_keeps:
  assumes wf: "wf_broker s"
  shows "wf_broker (recalculate_reset l now s)"
    and "area_total l (recalculate_reset l now s) = 0"
    and "tracked (recalculate_reset l now s) = tracked s"
    and "last_fired l (recalculate_reset l now s) = now"
    and "tracked_endpoints (recalculate_reset l now s) = tracked_endpoints s"
proof -
  let ?h = "\<lambda>(endpointId, d). (endpointId::int, d\<lparr>riemann := idx_set l 0 (riemann d)\<rparr>)"
  have we: "wf_endpoints (map ?h data) \<and> endpoints_area l (map ?h data) = 0" if "wf_endpoints data" for data
  proof -
    have f: "fst \<circ> ?h = fst" by (auto simp: fun_eq_iff)
    have "endpoints_area l (map ?h xs) = 0" if "\<forall>(_, d)\<in>set xs. sorted_wrt (<) (map fst (riemann d))" for xs
      using that by (induction xs) (auto simp: endpoints_area_def interval_sum_def map_of_idx_set)
    with that show ?thesis by (auto simp: wf_endpoints_def f sorted_idx_set)
  qed
  have e: "\<forall>p\<in>set (aggregatorData s). wf_endpoints (snd p)" using wf by (auto simp: wf_broker_def)
  have dd: "distinct (map fst (aggregatorData (recalculate_reset l now s)))"
    using wf by (simp add: wf_broker_def recalculate_reset_def comp_def case_prod_unfold)
  show "wf_broker (recalculate_reset l now s)"
    using wf we dd by (auto simp: wf_broker_def recalculate_reset_def sorted_idx_set map_of_idx_set)
  have "sum_list (map (\<lambda>p. endpoints_area l (snd p)) (map (\<lambda>(key, data). (key, map ?h data)) xs)) = 0"
    if "\<forall>p\<in>set xs. wf_endpoints (snd p)" for xs :: endpoint_data
    using that by (induction xs) (auto simp: we)
  from this [OF e] show "area_total l (recalculate_reset l now s) = 0"
    by (simp add: area_total_def recalculate_reset_def)
  show "tracked (recalculate_reset l now s) = tracked s"
    by (simp add: tracked_def recalculate_reset_def comp_def case_prod_unfold)
  show "tracked_endpoints (recalculate_reset l now s) = tracked_endpoints s"
    by (force simp: tracked_endpoints_def recalculate_reset_def image_iff)
  show "last_fired l (recalculate_reset l now s) = now"
    using wf by (simp add: last_fired_def recalculate_reset_def map_of_idx_set wf_broker_def)
qed

text \<open>A report as it reaches the handler, and a sequence of them.\<close>

record report =
  rCluster :: string
  rNode :: int
  rEndpoint :: int
  rAttribute :: string
  rValue :: "int option"
  rTime :: int

definition handle_report :: "report \<Rightarrow> broker \<Rightarrow> broker" where
  "handle_report r s =
     (case attributeChanged (Some (rCluster r)) (rNode r) (rEndpoint r) (rAttribute r) (rValue r) (rTime r) s of
        Inl e \<Rightarrow> s | Inr (s', out) \<Rightarrow> s')"

definition is_aggregated :: "report \<Rightarrow> bool" where
  "is_aggregated r \<longleftrightarrow> rCluster r @ ''.'' @ rAttribute r \<in> set aggregatedAttributes"

lemma handle_report_keeps:
  assumes wf: "wf_broker s" and l: "l \<in> set AggregateIntervals"
  shows "wf_broker (handle_report r s)"
    and "area_total l (handle_report r s) =
      area_total l s + (if is_aggregated r then report_area (rValue r) (rTime r) (last_fired l s) else 0)"
    and "is_aggregated r \<or> aggregatorData s \<noteq> [] \<Longrightarrow> aggregatorData (handle_report r s) \<noteq> []"
    and "last_fired l (handle_report r s) = last_fired l s"
    and "tracked_endpoints (handle_report r s) =
      (if is_aggregated r then {(rCluster r @ ''.'' @ rAttribute r, rEndpoint r)} else {}) \<union> tracked_endpoints s"
proof -
  define t where "t = (if is_aggregated r
    then track_value (rCluster r @ ''.'' @ rAttribute r) (rEndpoint r) (rValue r) (rTime r) s else s)"
  have h: "handle_report r s = t\<lparr>nextObject := nextObject t + 1\<rparr>"
    by (simp add: handle_report_def attributeChanged_def Let_def is_aggregated_def t_def)
  have t: "wf_broker t" "area_total l t =
      area_total l s + (if is_aggregated r then report_area (rValue r) (rTime r) (last_fired l s) else 0)"
    "is_aggregated r \<or> aggregatorData s \<noteq> [] \<Longrightarrow> aggregatorData t \<noteq> []" "lastIntervalFired t = lastIntervalFired s"
    using track_value_keeps(1-4) [OF wf _ l] wf by (auto simp: t_def is_aggregated_def)
  show "wf_broker (handle_report r s)" using t(1) by (auto simp: h wf_broker_def less_Suc_eq)
  show "area_total l (handle_report r s) =
      area_total l s + (if is_aggregated r then report_area (rValue r) (rTime r) (last_fired l s) else 0)"
    using t(2) by (simp add: h area_total_def)
  show "is_aggregated r \<or> aggregatorData s \<noteq> [] \<Longrightarrow> aggregatorData (handle_report r s) \<noteq> []"
    using t(3) by (simp add: h)
  show "last_fired l (handle_report r s) = last_fired l s" using t(4) by (simp add: h last_fired_def)
  have "tracked_endpoints t = (if is_aggregated r then {(rCluster r @ ''.'' @ rAttribute r, rEndpoint r)} else {}) \<union>
      tracked_endpoints s"
    using track_value_keeps(5) [OF wf _ l] by (simp add: t_def is_aggregated_def)
  then show "tracked_endpoints (handle_report r s) =
      (if is_aggregated r then {(rCluster r @ ''.'' @ rAttribute r, rEndpoint r)} else {}) \<union> tracked_endpoints s"
    by (simp add: h tracked_endpoints_def)
qed

definition reporters :: "report list \<Rightarrow> (string \<times> int) set" where
  "reporters rs = (\<lambda>r. (rCluster r @ ''.'' @ rAttribute r, rEndpoint r)) ` set (filter is_aggregated rs)"

lemma fold_reports_keeps:
  assumes "wf_broker s" "l \<in> set AggregateIntervals"
  shows "wf_broker (fold handle_report rs s) \<and> last_fired l (fold handle_report rs s) = last_fired l s \<and>
    area_total l (fold handle_report rs s) = area_total l s +
      sum_list (map (\<lambda>r. report_area (rValue r) (rTime r) (last_fired l s)) (filter is_aggregated rs)) \<and>
    (aggregatorData s \<noteq> [] \<or> (\<exists>r\<in>set rs. is_aggregated r) \<longrightarrow> aggregatorData (fold handle_report rs s) \<noteq> []) \<and>
    tracked_endpoints (fold handle_report rs s) = tracked_endpoints s \<union> reporters rs"
  using assms
proof (induction rs arbitrary: s)
  case (Cons r rs)
  note k = handle_report_keeps [OF Cons.prems, of r]
  from Cons.IH [OF k(1) Cons.prems(2)] k show ?case by (auto simp: reporters_def)
qed (simp add: reporters_def)

lemma wf_broker_start: "wf_broker (fst (broker_start now))"
  by (simp add: broker_start_def wf_broker_def AggregateIntervals_def)

text \<open>
  States of a running broker: started, then any sequence of reports, commissionings and publications
  of either interval.
\<close>

inductive broker_run :: "broker \<Rightarrow> bool" where
  run_start: "broker_run (fst (broker_start now))"
| run_report: "broker_run s \<Longrightarrow> broker_run (handle_report r s)"
| run_reset: "broker_run s \<Longrightarrow> broker_run (recalculate_reset l now s)"
| run_commission: "broker_run s \<Longrightarrow> onNodeCommission details nodeId endpoints s = Inr (s', out) \<Longrightarrow> broker_run s'"

lemma handle_report_wf: "wf_broker s \<Longrightarrow> wf_broker (handle_report r s)"
  by (rule handle_report_keeps(1) [of _ 10]) (simp_all add: AggregateIntervals_def)

lemma add_southbound_wf: "wf_broker s \<Longrightarrow> wf_broker (add_southbound nodeId child s)"
  by (auto simp: wf_broker_def add_southbound_def less_Suc_eq)

lemma fold_add_southbound_wf: "wf_broker s \<Longrightarrow> wf_broker (fold (add_southbound nodeId) children s)"
  by (induction children arbitrary: s) (auto intro: add_southbound_wf)

lemma commission_children_wf:
  "wf_broker s \<Longrightarrow> commission_children nodeId endpoints s = (s', out) \<Longrightarrow> wf_broker s'"
proof (induction endpoints arbitrary: s out)
  case (Cons child rest)
  have "wf_broker (fst (commission_child nodeId child s))"
    using Cons.prems(1) by (auto simp: commission_child_def Let_def intro: fold_add_southbound_wf add_southbound_wf)
  with Cons show ?case by (auto simp: Let_def split: prod.splits)
qed simp

lemma broker_run_wf: "broker_run s \<Longrightarrow> wf_broker s"
  by (induction rule: broker_run.induct)
    (auto intro: wf_broker_start handle_report_wf reset_keeps commission_children_wf
      simp: onNodeCommission_def split: if_splits)

subsection \<open>Properties\<close>

text \<open>C16: The published value: after an interval starts, with any reports arriving in any order from any nodes,
  what is published at its end is the sum over the matching reports of value times the seconds since
  the interval started, divided by the number of endpoints that have ever reported and by the length
  of the interval; reports of other attributes do not count.\<close>

theorem broker_average_exact:
  assumes "broker_run s" "l \<in> set AggregateIntervals" "\<exists>r\<in>set rs. is_aggregated r"
  shows "recalculate_publish l (fold handle_report rs (recalculate_reset l now s)) =
    [SetAggregated (''averageMeasuredValue'' @ int_string l)
      (sum_list (map (\<lambda>r. report_area (rValue r) (rTime r) now) (filter is_aggregated rs)) /
       of_nat (card (tracked_endpoints s \<union> reporters rs)) / of_int l)]"
proof -
  note r = reset_keeps [OF broker_run_wf [OF assms(1)], of l now]
  note f = fold_reports_keeps [OF r(1) assms(2), of rs, unfolded r]
  from publish_eq [of "fold handle_report rs (recalculate_reset l now s)" l] f assms(3)
    tracked_card [of "fold handle_report rs (recalculate_reset l now s)"] show ?thesis by simp
qed

definition temperature_report :: "int \<Rightarrow> int \<Rightarrow> int \<Rightarrow> int \<Rightarrow> report" where
  "temperature_report nodeId endpointId value time =
     \<lparr>rCluster = ''TemperatureMeasurement'', rNode = nodeId, rEndpoint = endpointId,
      rAttribute = ''measuredValue'', rValue = Some value, rTime = time\<rparr>"

lemma temperature_report_simps [simp]:
  "is_aggregated (temperature_report n e v t)"
  "report_area (rValue (temperature_report n e v t)) (rTime (temperature_report n e v t)) now =
     of_int v * (of_int (t - now) / 1000)"
  "reporters (temperature_report n e v t # rs) = insert (''TemperatureMeasurement.measuredValue'', e) (reporters rs)"
proof -
  have "is_aggregated (temperature_report 0 0 0 0)" by code_simp
  then show "is_aggregated (temperature_report n e v t)" by (simp add: is_aggregated_def temperature_report_def)
  then show "reporters (temperature_report n e v t # rs) = insert (''TemperatureMeasurement.measuredValue'', e) (reporters rs)"
    by (simp add: reporters_def temperature_report_def)
qed (simp add: report_area_def temperature_report_def)

lemma reporters_Nil [simp]: "reporters [] = {}"
  by (simp add: reporters_def)

lemma int_string_10: "int_string 10 = ''10''"
  by code_simp

lemma tracked_endpoints_start [simp]: "tracked_endpoints (fst (broker_start clock)) = {}"
  by (simp add: tracked_endpoints_def broker_start_def)

lemma broker_average_exact_witness:
  "recalculate_publish 10 (fold handle_report [temperature_report 1 1 20 10000, temperature_report 1 2 30 10000]
     (recalculate_reset 10 0 (fst (broker_start (\<lambda>_. 0))))) =
   [SetAggregated ''averageMeasuredValue10'' 25]"
  using broker_average_exact [OF run_start [of "\<lambda>_. 0"], of 10
    "[temperature_report 1 1 20 10000, temperature_report 1 2 30 10000]" 0]
  by (simp add: AggregateIntervals_def int_string_10)

lemma average_from_start:
  assumes "l \<in> set AggregateIntervals" "\<exists>r\<in>set rs. is_aggregated r"
  shows "recalculate_publish l (fold handle_report rs (recalculate_reset l now (fst (broker_start clock)))) =
    [SetAggregated (''averageMeasuredValue'' @ int_string l)
      (sum_list (map (\<lambda>r. report_area (rValue r) (rTime r) now) (filter is_aggregated rs)) /
       of_nat (card (reporters rs)) / of_int l)]"
proof -
  note r = reset_keeps [OF wf_broker_start, of l now clock]
  note f = fold_reports_keeps [OF r(1) assms(1), of rs, unfolded r]
  from publish_eq [of "fold handle_report rs (recalculate_reset l now (fst (broker_start clock)))" l] f assms(2)
    tracked_card [of "fold handle_report rs (recalculate_reset l now (fst (broker_start clock)))"] show ?thesis by simp
qed

text \<open>A sensor with a constant value that reports in the middle and at the end of the ten seconds is
  published as one and a half times its value.\<close>

theorem broker_constant_value_overcounted:
  "recalculate_publish 10 (fold handle_report [temperature_report n e v (now + 5000), temperature_report n e v (now + 10000)]
     (recalculate_reset 10 now (fst (broker_start clock)))) =
   [SetAggregated ''averageMeasuredValue10'' (3 / 2 * of_int v)]"
  using average_from_start [of 10 "[temperature_report n e v (now + 5000), temperature_report n e v (now + 10000)]" now clock]
  by (simp add: AggregateIntervals_def int_string_10)

text \<open>Two nodes whose sensors have the same endpoint number are taken for one: if both report a value at the
  end of the interval, the sum of the values is published, not their average.\<close>

theorem broker_mixes_nodes:
  "recalculate_publish 10 (fold handle_report [temperature_report n e v (now + 10000), temperature_report n' e w (now + 10000)]
     (recalculate_reset 10 now (fst (broker_start clock)))) =
   [SetAggregated ''averageMeasuredValue10'' (of_int v + of_int w)]"
  using average_from_start [of 10 "[temperature_report n e v (now + 10000), temperature_report n' e w (now + 10000)]" now clock]
  by (simp add: AggregateIntervals_def int_string_10)

text \<open>Reports that arrive while an average is being published are lost: whatever they are, the next
  publication without further reports is 0.\<close>

theorem broker_loses_reports_while_publishing:
  assumes "broker_run s" "l \<in> set AggregateIntervals" "\<exists>r\<in>set rs. is_aggregated r"
  shows "recalculate_publish l (recalculate_reset l now (fold handle_report rs s)) =
    [SetAggregated (''averageMeasuredValue'' @ int_string l) 0]"
proof -
  note f = fold_reports_keeps [OF broker_run_wf [OF assms(1)] assms(2), of rs]
  then have wf: "wf_broker (fold handle_report rs s)" and ne: "aggregatorData (fold handle_report rs s) \<noteq> []"
    using assms(3) by blast+
  note r = reset_keeps [OF wf, of l now]
  from ne have "aggregatorData (recalculate_reset l now (fold handle_report rs s)) \<noteq> []"
    by (simp add: recalculate_reset_def)
  from publish_eq [OF r(1) this, of l] show ?thesis by (simp add: r)
qed

lemma broker_loses_reports_while_publishing_witness:
  "recalculate_publish 10 (recalculate_reset 10 10000 (fold handle_report [temperature_report 1 1 20 9999]
     (fst (broker_start (\<lambda>_. 0))))) = [SetAggregated ''averageMeasuredValue10'' 0]"
  using broker_loses_reports_while_publishing [OF run_start [of "\<lambda>_. 0"], of 10 "[temperature_report 1 1 20 9999]" 10000]
  by (simp add: AggregateIntervals_def int_string_10)

definition bridged :: "south_endpoint \<Rightarrow> south_endpoint list" where
  "bridged c = (if hasAggregatedStats c then c # childEndpoints c else [])"

definition subscriptions :: "int \<Rightarrow> broker \<Rightarrow> broker_output list" where
  "subscriptions nodeId s =
     concat (map subscribe_endpoint (filter (\<lambda>kv. keyNodeId (fst kv) = nodeId) (southboundEndpoints s)))"

definition endpoint_subscriptions :: "south_endpoint \<Rightarrow> broker_output list" where
  "endpoint_subscriptions e =
     (if hasAggregatedStats e then [SubscribeAverage 10 (endpointNumber e), SubscribeAverage 60 (endpointNumber e)] else []) @
     (if hasTemperature e then [SubscribeMeasuredValue (endpointNumber e)] else [])"

definition southbound_of :: "int \<Rightarrow> broker \<Rightarrow> south_endpoint list" where
  "southbound_of nodeId s = map snd (filter (\<lambda>kv. keyNodeId (fst kv) = nodeId) (southboundEndpoints s))"

definition keys_match :: "broker \<Rightarrow> bool" where
  "keys_match s \<longleftrightarrow> (\<forall>kv\<in>set (southboundEndpoints s). keyEndpointId (fst kv) = endpointNumber (snd kv))"

lemma add_southbound_of:
  "southbound_of nodeId (add_southbound nodeId c s) = southbound_of nodeId s @ [c]"
  "keys_match s \<Longrightarrow> keys_match (add_southbound nodeId c s)"
  by (simp_all add: southbound_of_def add_southbound_def keys_match_def)

lemma fold_add_southbound_of:
  "southbound_of nodeId (fold (add_southbound nodeId) cs s) = southbound_of nodeId s @ cs"
  "keys_match s \<Longrightarrow> keys_match (fold (add_southbound nodeId) cs s)"
  by (induction cs arbitrary: s) (simp_all add: add_southbound_of)

lemma commission_children_of:
  "commission_children nodeId cs s = (s', out) \<Longrightarrow>
   southbound_of nodeId s' = southbound_of nodeId s @ concat (map bridged cs) \<and> (keys_match s \<longrightarrow> keys_match s')"
proof (induction cs arbitrary: s out)
  case (Cons c cs)
  have "southbound_of nodeId (fst (commission_child nodeId c s)) = southbound_of nodeId s @ bridged c"
    "keys_match s \<longrightarrow> keys_match (fst (commission_child nodeId c s))"
    by (simp_all add: commission_child_def Let_def bridged_def add_southbound_of fold_add_southbound_of)
  with Cons show ?case by (auto simp: Let_def split: prod.splits)
qed simp

lemma keys_match_report: "keys_match s \<Longrightarrow> keys_match (handle_report r s)"
  by (cases "rCluster r @ ''.'' @ rAttribute r \<in> set aggregatedAttributes")
    (simp_all add: handle_report_def attributeChanged_def Let_def keys_match_def track_value_def)

lemma broker_run_keys_match: "broker_run s \<Longrightarrow> keys_match s"
proof (induction rule: broker_run.induct)
  case (run_commission s details nodeId endpoints s' out)
  then show ?case using commission_children_of [of nodeId endpoints s s' out]
    by (simp add: onNodeCommission_def split: if_splits)
qed (simp_all add: keys_match_def broker_start_def recalculate_reset_def keys_match_report [unfolded keys_match_def])

lemma connectNode_eq:
  assumes "keys_match s"
  shows "connectNode nodeId s =
    (if southbound_of nodeId s = [] then []
     else concat (map endpoint_subscriptions (southbound_of nodeId s)) @ [ListenAttributeChanged])"
proof -
  have "map subscribe_endpoint xs = map endpoint_subscriptions (map snd xs)"
    if "\<forall>kv\<in>set xs. keyEndpointId (fst kv) = endpointNumber (snd kv)" for xs
    using that by (induction xs) (simp_all add: subscribe_endpoint_def endpoint_subscriptions_def)
  then have "map subscribe_endpoint (filter (\<lambda>kv. keyNodeId (fst kv) = nodeId) (southboundEndpoints s)) =
      map endpoint_subscriptions (map snd (filter (\<lambda>kv. keyNodeId (fst kv) = nodeId) (southboundEndpoints s)))"
    using assms by (simp add: keys_match_def)
  note c = arg_cong [OF this, of concat]
  show ?thesis unfolding connectNode_def Let_def southbound_of_def c by simp
qed



text \<open>No attribute change is ever forwarded to a proxy endpoint: the lookup of the proxy builds a new key,
  and a map compares object keys by identity.\<close>

theorem broker_never_updates_proxies:
  assumes "broker_run s" "attributeChanged cluster nodeId endpointId attributeName value timestamp s = Inr (s', out)"
  shows "out = []"
proof -
  have "proxiedEndpoints s = []" using broker_run_wf [OF assms(1)] by (simp add: wf_broker_def)
  with assms(2) show ?thesis
    by (auto simp: attributeChanged_def Let_def track_value_def split: option.splits if_splits)
qed

lemma broker_never_updates_proxies_witness:
  "snd (projr (attributeChanged (Some ''OnOff'') 1 2 ''onOff'' (Some 1) 5 (fst (broker_start (\<lambda>_. 0))))) = []"
proof -
  let ?r = "attributeChanged (Some ''OnOff'') 1 2 ''onOff'' (Some 1) 5 (fst (broker_start (\<lambda>_. 0)))"
  have "?r = Inr (fst (projr ?r), snd (projr ?r))" by (simp add: attributeChanged_def Let_def)
  then show ?thesis by (rule broker_never_updates_proxies [OF run_start])
qed

text \<open>Pairing uses the port as discriminator, so a node on a port above 4095 is never paired, whatever the
  controller would answer.\<close>

theorem broker_pairs_low_ports_only:
  assumes "port > 4095"
  shows "main_pairs commissionNode port = Inl PlainError"
  using assms by (simp add: main_pairs_def pairNode_def)

lemma broker_pairs_low_ports_only_witness: "main_pairs (\<lambda>_ _ _. Inr 1) 5540 = Inl PlainError"
  by (rule broker_pairs_low_ports_only) simp

end
