(* ===== verification/Bitmap.thy ===== *)
theory Bitmap
  imports BytesIO JsText
begin

text \<open>
  Bitmap schemas, packages/types/src/schema/BitmapSchema.ts: named bit ranges packed into a number
  or into a byte array.  A schema object is the list of its properties; a value is a partial map
  from names, a missing property being \<open>undefined\<close>.
\<close>

subsection \<open>Schemas and values\<close>

datatype bit_range_type = Flag | Number | Enum

record bit_range =
  brType :: bit_range_type
  brOffset :: nat
  brLength :: nat

definition BitFlag :: "nat \<Rightarrow> bit_range" where
  "BitFlag off = \<lparr>brType = Flag, brOffset = off, brLength = 1\<rparr>"

definition BitField :: "nat \<Rightarrow> nat \<Rightarrow> bit_range" where
  "BitField off len = \<lparr>brType = Number, brOffset = off, brLength = len\<rparr>"

definition BitFieldEnum :: "nat \<Rightarrow> nat \<Rightarrow> bit_range" where
  "BitFieldEnum off len = \<lparr>brType = Enum, brOffset = off, brLength = len\<rparr>"

type_synonym bit_schema = "(string \<times> bit_range) list"

datatype bit_value = BoolBits bool | NumBits int

type_synonym bit_values = "string \<Rightarrow> bit_value option"

definition truthy_bits :: "bit_value option \<Rightarrow> bool" where
  "truthy_bits v = (case v of None \<Rightarrow> False | Some (BoolBits b) \<Rightarrow> b | Some (NumBits n) \<Rightarrow> n \<noteq> 0)"

definition number_bits :: "bit_value option \<Rightarrow> int" where
  "number_bits v = (case v of None \<Rightarrow> 0 | Some (BoolBits b) \<Rightarrow> (if b then 1 else 0) | Some (NumBits n) \<Rightarrow> n)"

subsection \<open>Bitmaps in a number\<close>

definition number_mask :: "bit_range \<Rightarrow> int" where
  "number_mask r = js_shl (js_shl 1 (int (brLength r)) - 1) (int (brOffset r))"

definition bitmap_encode :: "bit_schema \<Rightarrow> bit_values \<Rightarrow> int" where
  "bitmap_encode sch vals =
     fold (\<lambda>(name, r) result.
         (case brType r of
            Flag \<Rightarrow> if truthy_bits (vals name) then js_or result (number_mask r) else result
          | _ \<Rightarrow> js_or result (js_shl (number_bits (vals name)) (int (brOffset r)))))
       sch 0"

definition bitmap_decode :: "bit_schema \<Rightarrow> int \<Rightarrow> (string \<times> bit_value) list" where
  "bitmap_decode sch bitmap =
     map (\<lambda>(name, r). (name,
         if brType r = Flag then BoolBits (js_and bitmap (number_mask r) \<noteq> 0)
         else NumBits (js_shr (js_and bitmap (number_mask r)) (int (brOffset r))))) sch"

subsection \<open>Bitmaps in a byte array\<close>

definition byteArrayLength :: "bit_schema \<Rightarrow> nat" where
  "byteArrayLength sch = (fold (\<lambda>(name, r) m. max m (brOffset r + brLength r)) sch 0 + 7) div 8"

definition bytes_mask :: "bit_range \<Rightarrow> int" where
  "bytes_mask r =
     (if brType r = Flag then js_shl 1 (int (brOffset r mod 8)) else js_shl 1 (int (brLength r)) - 1)"

text \<open>\<open>result[i] |= x\<close>; a write outside a typed array is ignored.\<close>

definition or_byte :: "nat \<Rightarrow> int \<Rightarrow> byte list \<Rightarrow> byte list" where
  "or_byte i x bs = (if i < length bs then bs[i := bs ! i OR word_of_int x] else bs)"

text \<open>The loop of the writer; the masked value is not negative, so it ends.\<close>

function write_bits :: "int \<Rightarrow> nat \<Rightarrow> nat \<Rightarrow> byte list \<Rightarrow> byte list" where
  "write_bits numValue bitOffset byteOffset bs =
     (if numValue \<le> 0 then bs
      else write_bits (js_shr numValue (8 - int bitOffset)) 0 (byteOffset + 1)
             (or_byte byteOffset (js_and (js_shl numValue (int bitOffset)) 255) bs))"
  by pat_completeness auto


lemma to_int32_le: "0 \<le> n \<Longrightarrow> to_int32 n \<le> n"
  by (cases "n < 2147483648") (auto intro: order_trans [OF less_imp_le [OF to_int32_bounds(2)]])

lemma div_pow_le: "0 \<le> (x::int) \<Longrightarrow> x div 2 ^ j \<le> x"
  using zdiv_mono2 [of x 1 "2 ^ j"] by simp

lemma js_shr_le: "0 < n \<Longrightarrow> nat (js_shr n k) \<le> nat n"
proof -
  assume n: "0 < n"
  have "to_int32 n div 2 ^ j \<le> n" for j
  proof (cases "0 \<le> to_int32 n")
    case True
    then have "to_int32 n div 2 ^ j \<le> to_int32 n" by (rule div_pow_le)
    with to_int32_le [of n] n show ?thesis by linarith
  next
    case False
    then have "to_int32 n div 2 ^ j \<le> 0" by (intro div_nonpos_pos_le0) simp_all
    with n show ?thesis by linarith
  qed
  then show ?thesis unfolding js_shr_def by (intro nat_mono)
qed

lemma js_shr_less: "0 < n \<Longrightarrow> nat (js_shr n 8) < nat n"
proof -
  assume n: "0 < n"
  then have "to_int32 n div 256 < n" using to_int32_le [of n] by linarith
  with n show ?thesis by (simp add: js_shr_def)
qed

lemma int_div_less_self_helper: "- 2147483648 \<le> (- 2147483648 :: int) div 2 ^ j"
proof -
  have "- 2147483648 = (- 2147483648 * 2 ^ j) div (2 ^ j :: int)"
    by (rule nonzero_mult_div_cancel_right [symmetric]) simp
  also have "\<dots> \<le> (- 2147483648) div 2 ^ j" by (intro zdiv_mono1) simp_all
  finally show ?thesis .
qed

lemma js_shr_int32: "js_shr (to_int32 m) k = js_shr m k" "to_int32 (js_shr m k) = js_shr m k"
proof -
  show "js_shr (to_int32 m) k = js_shr m k" by (simp add: js_shr_def to_int32_bounds)
  define x where "x = to_int32 m"
  have x: "- 2147483648 \<le> x" "x < 2147483648" using to_int32_bounds [of m] by (simp_all add: x_def)
  have "- 2147483648 \<le> x div 2 ^ j \<and> x div 2 ^ j < 2147483648" for j
  proof
    have "- 2147483648 div 2 ^ j \<le> x div 2 ^ j" using x by (intro zdiv_mono1) simp_all
    moreover have "- 2147483648 \<le> (- 2147483648 :: int) div 2 ^ j"
      using int_div_less_self_helper [of j] by linarith
    ultimately show "- 2147483648 \<le> x div 2 ^ j" by linarith
    show "x div 2 ^ j < 2147483648"
    proof (cases "0 \<le> x")
      case True
      then have "x div 2 ^ j \<le> x" by (rule div_pow_le)
      with x show ?thesis by linarith
    next
      case False
      then have "x div 2 ^ j \<le> 0" by (intro div_nonpos_pos_le0) simp_all
      then show ?thesis by linarith
    qed
  qed
  then show "to_int32 (js_shr m k) = js_shr m k" by (simp add: js_shr_def x_def [symmetric])
qed

termination write_bits
proof (relation "measure (\<lambda>(n, bo, _, _). 2 * nat n + (if bo = 0 then 0 else 1))", goal_cases)
  case (2 n bo i bs)
  then have "0 < n" by simp
  with js_shr_le [of n "8 - int bo"] js_shr_less [of n] show ?case by (cases "bo = 0") auto
qed simp

declare write_bits.simps [simp del]

definition bytearray_encode :: "bit_schema \<Rightarrow> bit_values \<Rightarrow> byte list" where
  "bytearray_encode sch vals =
     fold (\<lambda>(name, r) result.
         (case brType r of
            Flag \<Rightarrow> if truthy_bits (vals name) then or_byte (brOffset r div 8) (bytes_mask r) result else result
          | _ \<Rightarrow> write_bits (js_and (number_bits (vals name)) (bytes_mask r)) (brOffset r mod 8) (brOffset r div 8) result))
       sch (replicate (byteArrayLength sch) 0)"

text \<open>
  The loop of the reader, over the mask as the 32-bit operators see it: masks are not negative
  there, so the loop ends when nothing of the mask is left.  A byte outside the array reads as 0.
\<close>

function read_bits :: "int \<Rightarrow> nat \<Rightarrow> nat \<Rightarrow> nat \<Rightarrow> int \<Rightarrow> byte list \<Rightarrow> int" where
  "read_bits m bitOffset byteOffset valueBitOffset vals bitmap =
     (if to_int32 m \<le> 0 then vals
      else
        let b = (if byteOffset < length bitmap then uint (bitmap ! byteOffset) else 0);
            vals = js_or vals (js_shl (js_and (js_shr b (int bitOffset)) m) (int valueBitOffset));
            bitRead = 8 - int bitOffset
        in read_bits (js_shr m bitRead) 0 (byteOffset + 1) (nat (int valueBitOffset + bitRead)) vals bitmap)"
  by pat_completeness auto

termination read_bits
proof (relation "measure (\<lambda>(m, bo, _, _, _, _). 2 * nat (to_int32 m) + (if bo = 0 then 0 else 1))", goal_cases)
  case (2 m bo i vbo v bs b v' r)
  with js_shr_le [of "to_int32 m" "8 - int bo"] js_shr_less [of "to_int32 m"] show ?case
    by (cases "bo = 0") (auto simp: js_shr_int32)
qed simp

declare read_bits.simps [simp del]

definition bytearray_decode :: "bit_schema \<Rightarrow> byte list \<Rightarrow> (string \<times> bit_value) list res" where
  "bytearray_decode sch bitmap =
     (if length bitmap \<noteq> byteArrayLength sch then Inl UnexpectedDataError
      else Inr (map (\<lambda>(name, r). (name,
         if brType r = Flag
         then BoolBits (js_and (if brOffset r div 8 < length bitmap then uint (bitmap ! (brOffset r div 8)) else 0)
                (bytes_mask r) \<noteq> 0)
         else NumBits (read_bits (bytes_mask r) (brOffset r mod 8) (brOffset r div 8) 0 0 bitmap))) sch))"

text \<open>Values in disjoint bits.\<close>

lemma js_or_add:
  assumes "0 \<le> a" "a * 2 ^ n < 2147483648" "0 \<le> b" "b < 2 ^ n" "n < 31"
  shows "js_or (a * 2 ^ n) b = a * 2 ^ n + b" "js_or b (a * 2 ^ n) = a * 2 ^ n + b"
proof -
  have "(2::int) ^ n \<le> 2 ^ 31" using assms(5) by (intro power_increasing) simp_all
  with assms have i: "to_int32 (a * 2 ^ n) = a * 2 ^ n" "to_int32 b = b"
    by (auto intro!: to_int32_id intro: order_trans [of _ 0])
  show "js_or (a * 2 ^ n) b = a * 2 ^ n + b" "js_or b (a * 2 ^ n) = a * 2 ^ n + b"
    using int_or_shift [OF assms(3,4), of a] by (simp_all add: js_or_def i or.commute)
qed

subsection \<open>Bits of a byte array\<close>

definition bits_at :: "byte list \<Rightarrow> nat \<Rightarrow> bool" where
  "bits_at bs i \<longleftrightarrow> i div 8 < length bs \<and> bit (bs ! (i div 8)) (i mod 8)"

lemma length_or_byte [simp]: "length (or_byte k x bs) = length bs"
  by (simp add: or_byte_def)

lemma bits_at_or_byte:
  "bits_at (or_byte k x bs) i \<longleftrightarrow> bits_at bs i \<or> i div 8 = k \<and> k < length bs \<and> bit x (i mod 8)"
  by (auto simp: bits_at_def or_byte_def nth_list_update bit_or_iff bit_word_of_int_iff)

lemma js_shr_bit: "0 \<le> n \<Longrightarrow> n < 2147483648 \<Longrightarrow> 0 \<le> k \<Longrightarrow> k < 32 \<Longrightarrow> js_shr n k = drop_bit (nat k) n"
  by (simp add: js_shr_def drop_bit_eq_div)

lemma drop_bit_range:
  "0 \<le> n \<Longrightarrow> n < 2147483648 \<Longrightarrow> 0 \<le> drop_bit k n \<and> drop_bit k n < (2147483648::int)"
  using div_pow_le [of n k] by (simp add: drop_bit_eq_div pos_imp_zdiv_nonneg_iff)

lemma length_write_bits [simp]: "length (write_bits n bo k bs) = length bs"
proof (induction n bo k bs rule: write_bits.induct)
  case (1 n bo k bs)
  then show ?case by (subst write_bits.simps) auto
qed

lemma bits_at_write_bits:
  "0 \<le> n \<Longrightarrow> n < 2147483648 \<Longrightarrow> bo < 8 \<Longrightarrow>
   bits_at (write_bits n bo k bs) i \<longleftrightarrow>
   bits_at bs i \<or> i div 8 < length bs \<and> 8 * k + bo \<le> i \<and> bit n (i - (8 * k + bo))"
proof (induction n bo k bs rule: write_bits.induct)
  case (1 n bo k bs)
  show ?case
  proof (cases "n = 0")
    case True
    then show ?thesis by (simp add: write_bits.simps)
  next
    case False
    with "1.prems" have n: "\<not> n \<le> 0" by simp
    define n' where "n' = drop_bit (8 - bo) n"
    have n': "js_shr n (8 - int bo) = n'" "0 \<le> n'" "n' < 2147483648"
      using "1.prems" drop_bit_range [of n "8 - bo"] by (simp_all add: n'_def js_shr_bit nat_diff_distrib')
    let ?bs = "or_byte k (js_and (js_shl n (int bo)) 255) bs"
    have byte: "bit (js_and (js_shl n (int bo)) 255) j \<longleftrightarrow> bo \<le> j \<and> bit n (j - bo)" if "j < 8" for j
    proof -
      have "bit (255::int) j" using that by (simp add: bit_iff_odd less_Suc_eq numeral_eq_Suc, elim disjE; simp)
      then show ?thesis using that "1.prems"(3) by (simp add: bit_js_and bit_js_shl)
    qed
    have step: "write_bits n bo k bs = write_bits n' 0 (k + 1) ?bs"
      using n by (subst write_bits.simps) (simp add: n'(1))
    have ih: "bits_at (write_bits n' 0 (k + 1) ?bs) i \<longleftrightarrow>
        bits_at ?bs i \<or> i div 8 < length bs \<and> 8 * (k + 1) \<le> i \<and> bit n' (i - 8 * (k + 1))"
      using "1.IH" [OF n] n' by simp
    show ?thesis
    proof (cases "i div 8 = k")
      case True
      define j where "j = i mod 8"
      have i: "i = 8 * k + j" "j < 8" using True by (auto simp: j_def)
      then have "\<not> 8 * (k + 1) \<le> i" "i - (8 * k + bo) = j - bo" "8 * k + bo \<le> i \<longleftrightarrow> bo \<le> j"
        by simp_all
      with True i(2) byte [of j] show ?thesis
        unfolding step ih bits_at_or_byte j_def [symmetric] by auto
    next
      case False
      have "8 * (k + 1) \<le> i \<Longrightarrow> bit n' (i - 8 * (k + 1)) \<longleftrightarrow> bit n (i - (8 * k + bo))"
        using "1.prems"(3) by (simp add: n'_def bit_drop_bit_eq add.commute)
      moreover have "8 * (k + 1) \<le> i \<longleftrightarrow> 8 * k + bo \<le> i"
      proof
        assume "8 * k + bo \<le> i"
        then have "k \<le> i div 8" by (simp add: less_eq_div_iff_mult_less_eq)
        with False have "k + 1 \<le> i div 8" by simp
        then show "8 * (k + 1) \<le> i" by (simp add: less_eq_div_iff_mult_less_eq)
      qed (use "1.prems"(3) in simp)
      ultimately show ?thesis using False unfolding step ih bits_at_or_byte by auto
    qed
  qed
qed


lemma to_int32_mask: "len \<le> 31 \<Longrightarrow> to_int32 (2 ^ len - 1) = 2 ^ len - 1"
proof -
  assume "len \<le> 31"
  then have "(2::int) ^ len \<le> 2 ^ 31" by (intro power_increasing) simp_all
  then have a: "(2::int) ^ len \<le> 2147483648" by simp
  have b: "(1::int) \<le> 2 ^ len" by simp
  show ?thesis by (rule to_int32_id) (use a b in linarith)+
qed

lemma js_shl_one: "len < 32 \<Longrightarrow> to_int32 (js_shl 1 (int len) - 1) = 2 ^ len - 1"
proof (cases "len = 31")
  case True
  then show ?thesis by (simp add: js_shl_def to_int32_def)
next
  case False
  assume "len < 32"
  with False have l: "len \<le> 30" by simp
  then have "(2::int) ^ len \<le> 2 ^ 30" by (intro power_increasing) simp_all
  then have a: "(2::int) ^ len \<le> 1073741824" by simp
  have b: "(1::int) \<le> 2 ^ len" by simp
  have "to_int32 (2 ^ len) = 2 ^ len" by (rule to_int32_id) (use a b in linarith)+
  then have "js_shl 1 (int len) = 2 ^ len" using l by (simp add: js_shl_def)
  then show ?thesis using l by (simp add: to_int32_mask)
qed

lemma js_and_int32: "js_and a (to_int32 b) = js_and a b"
  by (simp add: js_and_def to_int32_bounds)

lemma js_and_low_mask:
  assumes "0 \<le> b \<or> True" "to_int32 m = 2 ^ len - 1" "len < 32"
  shows "js_and b m = take_bit len b"
proof -
  have "js_and b m = to_int32 b AND (2 ^ len - 1)" by (simp add: js_and_def assms(2))
  also have "\<dots> = take_bit len (to_int32 b)" by (simp add: take_bit_eq_mask mask_eq_exp_minus_1)
  also have "\<dots> = take_bit len b"
    using assms(3) by (intro bit_eqI) (auto simp: bit_take_bit_iff bit_to_int32)
  finally show ?thesis .
qed

lemma to_int32_mask_pos: "to_int32 m = 2 ^ len - 1 \<Longrightarrow> to_int32 m \<le> 0 \<longleftrightarrow> len = 0"
proof -
  assume m: "to_int32 m = 2 ^ len - 1"
  have "(2::int) ^ len \<ge> 2" if "len \<noteq> 0" using that by (cases len) simp_all
  with m show ?thesis by (cases "len = 0") auto
qed

lemma js_shr_mask:
  assumes "to_int32 m = 2 ^ len - 1" "len < 32" "0 < k" "k \<le> 8"
  shows "to_int32 (js_shr m (int k)) = 2 ^ (len - k) - 1"
proof -
  have "js_shr m (int k) = (2 ^ len - 1) div 2 ^ k"
    using assms by (simp add: js_shr_def)
  also have "\<dots> = drop_bit k (mask len)" by (simp add: drop_bit_eq_div mask_eq_exp_minus_1)
  also have "\<dots> = mask (len - k)"
    by (intro bit_eqI) (auto simp: bit_drop_bit_eq bit_mask_iff)
  finally show ?thesis
    using assms(2) by (simp add: mask_eq_exp_minus_1 to_int32_mask)
qed

text \<open>The reader collects exactly the bits of its range.\<close>

lemma bit_read_bits:
  "to_int32 m = 2 ^ len - 1 \<Longrightarrow> len + vbo < 32 \<Longrightarrow> bo < 8 \<Longrightarrow> j < 32 \<Longrightarrow>
   bit (read_bits m bo k vbo v bs) j \<longleftrightarrow>
   bit v j \<or> vbo \<le> j \<and> j < vbo + len \<and> bits_at bs (8 * k + bo + (j - vbo))"
proof (induction m bo k vbo v bs arbitrary: len rule: read_bits.induct)
  case (1 m bo k vbo v bs)
  show ?case
  proof (cases "len = 0")
    case True
    with "1.prems" show ?thesis by (subst read_bits.simps) auto
  next
    case False
    then have pos: "\<not> to_int32 m \<le> 0" using to_int32_mask_pos [OF "1.prems"(1)] by simp
    define b where "b = (if k < length bs then uint (bs ! k) else 0)"
    define v' where "v' = js_or v (js_shl (js_and (js_shr b (int bo)) m) (int vbo))"
    have b: "0 \<le> b" "b < 256" using unsigned_less [of "bs ! k"] by (auto simp: b_def)
    have chunk: "js_and (js_shr b (int bo)) m = take_bit len (drop_bit bo b)"
      using b "1.prems" js_and_low_mask [of "js_shr b (int bo)" m len] by (simp add: js_shr_bit)
    have bb: "bit b i \<longleftrightarrow> i < 8 \<and> k < length bs \<and> bit (bs ! k) i" for i
      by (auto simp: b_def bit_uint_iff)
    have bv': "bit v' i \<longleftrightarrow> bit v i \<or> vbo \<le> i \<and> i < vbo + len \<and> i - vbo + bo < 8 \<and> bits_at bs (8 * k + bo + (i - vbo))"
      if "i < 32" for i
    proof -
      have "nat (int vbo mod 32) = vbo" using "1.prems" by simp
      moreover have "(8 * k + x) div 8 = k \<and> (8 * k + x) mod 8 = x" if "x < 8" for x :: nat using that by simp
      from this [of "bo + (i - vbo)"]
      have "(8 * k + bo + (i - vbo)) div 8 = k \<and> (8 * k + bo + (i - vbo)) mod 8 = bo + (i - vbo)"
        if "i - vbo + bo < 8" using that by (simp only: add.assoc add.commute [of "i - vbo" bo])
      ultimately show ?thesis
        using that "1.prems"
        by (auto simp: v'_def bit_js_or bit_js_shl chunk bit_take_bit_iff bit_drop_bit_eq bb bits_at_def add.commute)
    qed
    have nb: "nat (int vbo + (8 - int bo)) = vbo + (8 - bo)" using "1.prems"(3) by simp
    have step: "read_bits m bo k vbo v bs = read_bits (js_shr m (8 - int bo)) 0 (k + 1) (vbo + (8 - bo)) v' bs"
      using pos "1.prems"(3)
      by (subst read_bits.simps) (simp only: Let_def v'_def b_def nb if_False)
    define m' where "m' = js_shr m (8 - int bo)"
    have m': "to_int32 m' = 2 ^ (len - (8 - bo)) - 1"
      using js_shr_mask [of m len "8 - bo"] "1.prems" by (simp add: m'_def of_nat_diff)
    show ?thesis
    proof (cases "len \<le> 8 - bo")
      case True
      then have "read_bits m bo k vbo v bs = v'"
        using m' unfolding step m'_def [symmetric] by (subst read_bits.simps) simp
      then show ?thesis using bv' [OF "1.prems"(4)] True by auto
    next
      case False
      have "bit (read_bits m' 0 (k + 1) (vbo + (8 - bo)) v' bs) j \<longleftrightarrow>
          bit v' j \<or> vbo + (8 - bo) \<le> j \<and> j < vbo + (8 - bo) + (len - (8 - bo)) \<and>
          bits_at bs (8 * (k + 1) + 0 + (j - (vbo + (8 - bo))))"
        using "1.IH" [OF pos refl refl refl, of "len - (8 - bo)"] m' False "1.prems"
        by (simp only: m'_def v'_def b_def nb)
      moreover have "8 * (k + 1) + 0 + (j - (vbo + (8 - bo))) = 8 * k + bo + (j - vbo)" if "vbo + (8 - bo) \<le> j"
        using that "1.prems"(3) by simp
      ultimately show ?thesis
        using bv' [OF "1.prems"(4)] False "1.prems"(3) unfolding step m'_def [symmetric] by auto
    qed
  qed
qed


lemma int32_eqI:
  assumes "to_int32 x = x" "to_int32 y = y" "\<And>j. j < 32 \<Longrightarrow> bit x j \<longleftrightarrow> bit y j"
  shows "x = y"
proof -
  have "bit (to_int32 x) j \<longleftrightarrow> bit (to_int32 y) j" for j
    using assms(3) [of "min 31 j"] by (simp add: to_int32_signed_take_bit bit_signed_take_bit_iff)
  then show ?thesis using assms(1,2) by (metis bit_eq_iff)
qed

lemma to_int32_js_or [simp]: "to_int32 (js_or a b) = js_or a b"
  by (rule bit_eqI) (simp add: js_or_def to_int32_signed_take_bit bit_or_iff bit_signed_take_bit_iff)

lemma read_bits_int32: "to_int32 v = v \<Longrightarrow> to_int32 (read_bits m bo k vbo v bs) = read_bits m bo k vbo v bs"
proof (induction m bo k vbo v bs rule: read_bits.induct)
  case (1 m bo k vbo v bs)
  show ?case
  proof (cases "to_int32 m \<le> 0")
    case False
    show ?thesis
      using "1.IH" [OF False refl refl refl] False
      by (subst (1 2) read_bits.simps) (simp add: Let_def)
  qed (use "1.prems" in \<open>simp add: read_bits.simps\<close>)
qed

subsection \<open>Schemas with separate fields\<close>

definition good_schema :: "bit_schema \<Rightarrow> bool" where
  "good_schema sch \<longleftrightarrow>
     distinct (map fst sch) \<and>
     list_all (\<lambda>(_, r). 1 \<le> brLength r \<and> brLength r \<le> 31 \<and> (brType r = Flag \<longrightarrow> brLength r = 1)) sch \<and>
     sorted_wrt (\<lambda>(_, r) (_, q). brOffset r + brLength r \<le> brOffset q \<or> brOffset q + brLength q \<le> brOffset r) sch"

definition good_value :: "bit_range \<Rightarrow> bit_value option \<Rightarrow> bool" where
  "good_value r v =
     (case v of
        None \<Rightarrow> False
      | Some (BoolBits b) \<Rightarrow> brType r = Flag
      | Some (NumBits n) \<Rightarrow> brType r \<noteq> Flag \<and> 0 \<le> n \<and> n < 2 ^ brLength r)"

definition good_values :: "bit_schema \<Rightarrow> bit_values \<Rightarrow> bool" where
  "good_values sch vals \<longleftrightarrow> list_all (\<lambda>(name, r). good_value r (vals name)) sch"

definition field_bit :: "bit_range \<Rightarrow> bit_value option \<Rightarrow> nat \<Rightarrow> bool" where
  "field_bit r v i \<longleftrightarrow> brOffset r \<le> i \<and> i < brOffset r + brLength r \<and> bit (number_bits v) (i - brOffset r)"

definition put_field :: "bit_values \<Rightarrow> string \<times> bit_range \<Rightarrow> byte list \<Rightarrow> byte list" where
  "put_field vals = (\<lambda>(name, r) result.
         (case brType r of
            Flag \<Rightarrow> if truthy_bits (vals name) then or_byte (brOffset r div 8) (bytes_mask r) result else result
          | _ \<Rightarrow> write_bits (js_and (number_bits (vals name)) (bytes_mask r)) (brOffset r mod 8) (brOffset r div 8) result))"

lemma bytearray_encode_fold:
  "bytearray_encode sch vals = fold (put_field vals) sch (replicate (byteArrayLength sch) 0)"
  by (simp add: bytearray_encode_def put_field_def)

lemma bit_less_power: "0 \<le> x \<Longrightarrow> x < 2 ^ n \<Longrightarrow> bit (x::int) j \<Longrightarrow> j < n"
proof -
  assume "0 \<le> x" "x < 2 ^ n" "bit x j"
  then have "take_bit n x = x" by (simp add: take_bit_int_eq_self_iff)
  with \<open>bit x j\<close> have "bit (take_bit n x) j" by simp
  then show "j < n" by (simp add: bit_take_bit_iff)
qed

lemma bits_at_put_field:
  assumes len: "1 \<le> brLength r" "brLength r \<le> 31" "brType r = Flag \<longrightarrow> brLength r = 1"
    and v: "good_value r (vals name)"
  shows "bits_at (put_field vals (name, r) bs) i \<longleftrightarrow>
    bits_at bs i \<or> i div 8 < length bs \<and> field_bit r (vals name) i"
proof (cases "brType r = Flag")
  case True
  with v obtain b where b: "vals name = Some (BoolBits b)"
    by (auto simp: good_value_def split: option.splits bit_value.splits)
  have "bit (bytes_mask r) (i mod 8) \<longleftrightarrow> i mod 8 = brOffset r mod 8"
    using True by (auto simp: bytes_mask_def bit_js_shl bit_one_int)
  moreover have "i div 8 = brOffset r div 8 \<and> i mod 8 = brOffset r mod 8 \<longleftrightarrow> i = brOffset r"
    by (metis div_mod_decomp)
  ultimately show ?thesis
    using True len by (auto simp: put_field_def b truthy_bits_def bits_at_or_byte field_bit_def number_bits_def bit_one_int)
next
  case False
  with v obtain n where n: "vals name = Some (NumBits n)" "0 \<le> n" "n < 2 ^ brLength r"
    by (auto simp: good_value_def split: option.splits bit_value.splits)
  have "to_int32 (bytes_mask r) = 2 ^ brLength r - 1"
    using False len by (simp add: bytes_mask_def js_shl_one)
  then have "js_and n (bytes_mask r) = n"
    using js_and_low_mask [of n "bytes_mask r" "brLength r"] len n by (simp add: take_bit_int_eq_self_iff)
  then have p: "put_field vals (name, r) bs = write_bits n (brOffset r mod 8) (brOffset r div 8) bs"
    using False n(1) by (cases "brType r") (simp_all add: put_field_def number_bits_def)
  have "(2::int) ^ brLength r \<le> 2 ^ 31" using len by (intro power_increasing) simp_all
  with n have "n < 2147483648" by simp
  then show ?thesis
    using bits_at_write_bits [of n "brOffset r mod 8" "brOffset r div 8" bs i] n bit_less_power [of n "brLength r" "i - brOffset r"]
    unfolding p by (auto simp: field_bit_def number_bits_def)
qed

lemma length_put_field [simp]: "length (put_field vals p bs) = length bs"
  by (cases p; cases "brType (snd p)") (simp_all add: put_field_def)

lemma bits_at_put_fields:
  assumes "list_all (\<lambda>(_, r). 1 \<le> brLength r \<and> brLength r \<le> 31 \<and> (brType r = Flag \<longrightarrow> brLength r = 1)) sch"
    and "good_values sch vals"
  shows "length (fold (put_field vals) sch bs) = length bs \<and>
    (bits_at (fold (put_field vals) sch bs) i \<longleftrightarrow>
     bits_at bs i \<or> i div 8 < length bs \<and> (\<exists>(name, r)\<in>set sch. field_bit r (vals name) i))"
  using assms
proof (induction sch arbitrary: bs)
  case (Cons p sch)
  obtain name r where p: "p = (name, r)" by (cases p)
  from Cons.prems have "bits_at (put_field vals (name, r) bs) i \<longleftrightarrow>
      bits_at bs i \<or> i div 8 < length bs \<and> field_bit r (vals name) i"
    by (intro bits_at_put_field) (simp_all add: p good_values_def)
  with Cons show ?case by (auto simp: p good_values_def)
qed simp


lemma sorted_wrt_symD:
  "sorted_wrt P xs \<Longrightarrow> (\<And>x y. P x y \<Longrightarrow> P y x) \<Longrightarrow> x \<in> set xs \<Longrightarrow> y \<in> set xs \<Longrightarrow> x \<noteq> y \<Longrightarrow> P x y"
  by (induction xs) auto

lemma field_end_le:
  "(name, r) \<in> set sch \<Longrightarrow> brOffset r + brLength r \<le> fold (\<lambda>(name, r) m. max m (brOffset r + brLength r)) sch m"
proof (induction sch arbitrary: m)
  case (Cons p sch)
  have mono: "m \<le> fold (\<lambda>(name, r) m. max m (brOffset r + brLength r)) sch m" for m
  proof (induction sch arbitrary: m)
    case (Cons p sch)
    from Cons [of "max m (brOffset (snd p) + brLength (snd p))"] show ?case by (cases p) simp
  qed simp
  show ?case
  proof (cases "p = (name, r)")
    case True
    with mono [of "max m (brOffset r + brLength r)"] show ?thesis by simp
  next
    case False
    with Cons show ?thesis by auto
  qed
qed simp

lemma field_bits_encoded:
  assumes "good_schema sch" "good_values sch vals" "(name, r) \<in> set sch"
    and i: "brOffset r \<le> i" "i < brOffset r + brLength r"
  shows "bits_at (bytearray_encode sch vals) i \<longleftrightarrow> field_bit r (vals name) i"
proof -
  have "i < fold (\<lambda>(name, r) m. max m (brOffset r + brLength r)) sch 0"
    using field_end_le [OF assms(3), of 0] i by simp
  then have len: "i div 8 < byteArrayLength sch"
    by (simp add: byteArrayLength_def less_eq_div_iff_mult_less_eq div_less_iff_less_mult)
  have zero: "\<not> bits_at (replicate n 0) i" for n by (simp add: bits_at_def)
  have other: "p = (name, r)" if "p \<in> set sch" "field_bit (snd p) (vals (fst p)) i" for p
  proof (rule ccontr)
    assume "p \<noteq> (name, r)"
    have "(\<lambda>(_, r) (_, q). brOffset r + brLength r \<le> brOffset q \<or> brOffset q + brLength q \<le> brOffset r) p (name, r)"
      by (rule sorted_wrt_symD [OF _ _ that(1) assms(3) \<open>p \<noteq> (name, r)\<close>]) (use assms(1) in \<open>auto simp: good_schema_def\<close>)
    with that(2) i show False by (auto simp: field_bit_def split: prod.splits)
  qed
  have "bits_at (bytearray_encode sch vals) i \<longleftrightarrow> (\<exists>(name, r)\<in>set sch. field_bit r (vals name) i)"
    using bits_at_put_fields [of sch vals "replicate (byteArrayLength sch) 0" i] assms(1,2) len zero
    by (simp add: bytearray_encode_fold good_schema_def)
  also have "\<dots> \<longleftrightarrow> field_bit r (vals name) i"
  proof
    assume "\<exists>(name, r)\<in>set sch. field_bit r (vals name) i"
    then obtain p where "p \<in> set sch" "field_bit (snd p) (vals (fst p)) i" by force
    with other [of p] show "field_bit r (vals name) i" by simp
  qed (use assms(3) in blast)
  finally show ?thesis .
qed

lemma bytearray_field_back:
  assumes g: "good_schema sch" "good_values sch vals" and m: "(name, r) \<in> set sch"
  defines "bs \<equiv> bytearray_encode sch vals"
  shows "(if brType r = Flag
          then BoolBits (js_and (if brOffset r div 8 < length bs then uint (bs ! (brOffset r div 8)) else 0)
                 (bytes_mask r) \<noteq> 0)
          else NumBits (read_bits (bytes_mask r) (brOffset r mod 8) (brOffset r div 8) 0 0 bs)) = the (vals name)"
proof (cases "brType r = Flag")
  case True
  from g(2) m have "good_value r (vals name)" by (auto simp: good_values_def list_all_iff)
  with True obtain b where b: "vals name = Some (BoolBits b)"
    by (auto simp: good_value_def split: option.splits bit_value.splits)
  have "brLength r = 1" using g(1) m True by (auto simp: good_schema_def list_all_iff)
  then have "bits_at bs (brOffset r) \<longleftrightarrow> b"
    using field_bits_encoded [OF g m, of "brOffset r"]
    by (simp add: bs_def field_bit_def b number_bits_def bit_one_int)
  then show ?thesis
    using True b js_and_single_bit [of "int (brOffset r mod 8)"]
    by (auto simp: bytes_mask_def bits_at_def bit_uint_iff js_and_def)
next
  case False
  from g(2) m have "good_value r (vals name)" by (auto simp: good_values_def list_all_iff)
  with False obtain n where n: "vals name = Some (NumBits n)" "0 \<le> n" "n < 2 ^ brLength r"
    by (auto simp: good_value_def split: option.splits bit_value.splits)
  have len: "1 \<le> brLength r" "brLength r \<le> 31" using g(1) m by (auto simp: good_schema_def list_all_iff)
  have "to_int32 (bytes_mask r) = 2 ^ brLength r - 1"
    using False len by (simp add: bytes_mask_def js_shl_one)
  note rb = bit_read_bits [OF this, of 0 "brOffset r mod 8" _ "brOffset r div 8" 0 bs]
  have "read_bits (bytes_mask r) (brOffset r mod 8) (brOffset r div 8) 0 0 bs = n"
  proof (rule int32_eqI)
    show "to_int32 (read_bits (bytes_mask r) (brOffset r mod 8) (brOffset r div 8) 0 0 bs) =
        read_bits (bytes_mask r) (brOffset r mod 8) (brOffset r div 8) 0 0 bs"
      by (rule read_bits_int32) simp
    have "(2::int) ^ brLength r \<le> 2 ^ 31" using len by (intro power_increasing) simp_all
    with n show "to_int32 n = n" by simp
    fix j :: nat assume j: "j < 32"
    have "bit n j \<longleftrightarrow> j < brLength r \<and> bits_at bs (brOffset r + j)"
      using field_bits_encoded [OF g m, of "brOffset r + j"] bit_less_power [of n "brLength r" j] n
      by (auto simp: bs_def field_bit_def number_bits_def)
    then show "bit (read_bits (bytes_mask r) (brOffset r mod 8) (brOffset r div 8) 0 0 bs) j \<longleftrightarrow> bit n j"
      using rb [of j] j len by simp
  qed
  with False n show ?thesis by simp
qed

lemma length_bytearray_encode: "good_schema sch \<Longrightarrow> good_values sch vals \<Longrightarrow> length (bytearray_encode sch vals) = byteArrayLength sch"
  using bits_at_put_fields [of sch vals "replicate (byteArrayLength sch) 0"]
  by (simp add: bytearray_encode_fold good_schema_def)

subsection \<open>Bitmaps in a number, again\<close>

definition fits_number :: "bit_schema \<Rightarrow> bool" where
  "fits_number sch \<longleftrightarrow> list_all (\<lambda>(_, r). brOffset r + brLength r \<le> 31) sch"

lemma number_mask_eq:
  assumes "1 \<le> brLength r" "brOffset r + brLength r \<le> 31"
  shows "number_mask r = (2 ^ brLength r - 1) * 2 ^ brOffset r" "0 \<le> number_mask r" "number_mask r < 2147483648"
proof -
  have len: "brLength r < 32" "nat (int (brOffset r) mod 32) = brOffset r" using assms by simp_all
  have "(2::int) ^ (brLength r + brOffset r) \<le> 2 ^ 31" using assms by (intro power_increasing) simp_all
  then have p: "(2::int) ^ brLength r * 2 ^ brOffset r \<le> 2147483648" by (simp add: power_add)
  have q: "(1::int) \<le> 2 ^ brOffset r" "(1::int) \<le> 2 ^ brLength r" by simp_all
  then have r: "0 \<le> ((2::int) ^ brLength r - 1) * 2 ^ brOffset r" "((2::int) ^ brLength r - 1) * 2 ^ brOffset r < 2147483648"
  proof -
    show "0 \<le> ((2::int) ^ brLength r - 1) * 2 ^ brOffset r" using q by (intro mult_nonneg_nonneg) simp_all
    show "((2::int) ^ brLength r - 1) * 2 ^ brOffset r < 2147483648"
      unfolding left_diff_distrib using p q by linarith
  qed
  show e: "number_mask r = (2 ^ brLength r - 1) * 2 ^ brOffset r"
    unfolding number_mask_def js_shl_def [of _ "int (brOffset r)"] js_shl_one [OF len(1)] len(2)
    by (rule to_int32_id [OF order_trans [OF _ r(1)] r(2)]) simp
  show "0 \<le> number_mask r" "number_mask r < 2147483648" using r by (simp_all only: e)
qed

lemma bit_number_mask:
  assumes "1 \<le> brLength r" "brOffset r + brLength r \<le> 31"
  shows "bit (number_mask r) j \<longleftrightarrow> brOffset r \<le> j \<and> j < brOffset r + brLength r"
proof -
  have "number_mask r = push_bit (brOffset r) (mask (brLength r))"
    by (simp add: number_mask_eq [OF assms] push_bit_eq_mult mask_eq_exp_minus_1)
  then show ?thesis by (auto simp: bit_push_bit_iff_int bit_mask_iff)
qed

definition or_field :: "bit_values \<Rightarrow> string \<times> bit_range \<Rightarrow> int \<Rightarrow> int" where
  "or_field vals = (\<lambda>(name, r) result.
         (case brType r of
            Flag \<Rightarrow> if truthy_bits (vals name) then js_or result (number_mask r) else result
          | _ \<Rightarrow> js_or result (js_shl (number_bits (vals name)) (int (brOffset r)))))"

lemma bit_or_field:
  assumes len: "1 \<le> brLength r" "brOffset r + brLength r \<le> 31" "brType r = Flag \<longrightarrow> brLength r = 1"
    and v: "good_value r (vals name)" and j: "j < 32"
  shows "bit (or_field vals (name, r) x) j \<longleftrightarrow> bit x j \<or> field_bit r (vals name) j"
proof (cases "brType r = Flag")
  case True
  with v obtain b where b: "vals name = Some (BoolBits b)"
    by (auto simp: good_value_def split: option.splits bit_value.splits)
  then show ?thesis
    using True len j bit_number_mask [OF len(1,2), of j]
    by (auto simp: or_field_def truthy_bits_def bit_js_or field_bit_def number_bits_def bit_one_int)
next
  case False
  with v obtain n where n: "vals name = Some (NumBits n)" "0 \<le> n" "n < 2 ^ brLength r"
    by (auto simp: good_value_def split: option.splits bit_value.splits)
  have o: "nat (int (brOffset r) mod 32) = brOffset r" using len by simp
  have "or_field vals (name, r) x = js_or x (js_shl n (int (brOffset r)))"
    using False n by (cases "brType r") (simp_all add: or_field_def number_bits_def)
  then show ?thesis
    using j n bit_less_power [OF n(2,3), of "j - brOffset r"]
    by (auto simp: bit_js_or bit_js_shl o field_bit_def number_bits_def)
qed

lemma or_field_int32: "to_int32 x = x \<Longrightarrow> to_int32 (or_field vals p x) = or_field vals p x"
  by (cases p; cases "brType (snd p)") (simp_all add: or_field_def)

lemma bits_or_fields:
  assumes "list_all (\<lambda>(_, r). 1 \<le> brLength r \<and> brOffset r + brLength r \<le> 31 \<and> (brType r = Flag \<longrightarrow> brLength r = 1)) sch"
    and "good_values sch vals" "to_int32 x = x"
  shows "to_int32 (fold (or_field vals) sch x) = fold (or_field vals) sch x \<and>
    (\<forall>j < 32. bit (fold (or_field vals) sch x) j \<longleftrightarrow> bit x j \<or> (\<exists>p\<in>set sch. field_bit (snd p) (vals (fst p)) j))"
  using assms
proof (induction sch arbitrary: x)
  case (Cons p sch)
  obtain name r where p: "p = (name, r)" by (cases p)
  have "bit (or_field vals (name, r) x) j \<longleftrightarrow> bit x j \<or> field_bit r (vals name) j" if "j < 32" for j
    using Cons.prems that by (intro bit_or_field) (simp_all add: p good_values_def)
  moreover have "to_int32 (or_field vals p x) = or_field vals p x"
    using Cons.prems(3) by (rule or_field_int32)
  ultimately show ?case
    using Cons.IH [of "or_field vals p x"] Cons.prems by (auto simp: p good_values_def)
qed simp

lemma number_field_bits:
  assumes g: "good_schema sch" "good_values sch vals" "fits_number sch" and m: "(name, r) \<in> set sch"
    and j: "brOffset r \<le> j" "j < brOffset r + brLength r"
  shows "bit (bitmap_encode sch vals) j \<longleftrightarrow> field_bit r (vals name) j"
proof -
  have b: "\<forall>(_, r)\<in>set sch. 1 \<le> brLength r \<and> brOffset r + brLength r \<le> 31 \<and> (brType r = Flag \<longrightarrow> brLength r = 1)"
    using g by (auto simp: good_schema_def fits_number_def list_all_iff)
  then have j32: "j < 32" using m j by fastforce
  have "bitmap_encode sch vals = fold (or_field vals) sch 0"
    by (simp add: bitmap_encode_def or_field_def)
  then have "bit (bitmap_encode sch vals) j \<longleftrightarrow> (\<exists>p\<in>set sch. field_bit (snd p) (vals (fst p)) j)"
    using bits_or_fields [of sch vals 0] b g(2) j32 by (simp add: list_all_iff)
  also have "\<dots> \<longleftrightarrow> field_bit r (vals name) j"
  proof
    assume "\<exists>p\<in>set sch. field_bit (snd p) (vals (fst p)) j"
    then obtain p where p: "p \<in> set sch" "field_bit (snd p) (vals (fst p)) j" by blast
    have "p = (name, r)"
    proof (rule ccontr)
      assume ne: "p \<noteq> (name, r)"
      have "(\<lambda>(_, r) (_, q). brOffset r + brLength r \<le> brOffset q \<or> brOffset q + brLength q \<le> brOffset r) p (name, r)"
        by (rule sorted_wrt_symD [OF _ _ p(1) m ne]) (use g(1) in \<open>auto simp: good_schema_def\<close>)
      with p(2) j show False by (auto simp: field_bit_def split: prod.splits)
    qed
    with p(2) show "field_bit r (vals name) j" by simp
  qed (use m in force)
  finally show ?thesis .
qed

lemma number_field_back:
  assumes g: "good_schema sch" "good_values sch vals" "fits_number sch" and m: "(name, r) \<in> set sch"
  shows "(if brType r = Flag then BoolBits (js_and (bitmap_encode sch vals) (number_mask r) \<noteq> 0)
         else NumBits (js_shr (js_and (bitmap_encode sch vals) (number_mask r)) (int (brOffset r)))) = the (vals name)"
proof -
  have len: "1 \<le> brLength r" "brOffset r + brLength r \<le> 31" "brType r = Flag \<longrightarrow> brLength r = 1"
    using g m by (auto simp: good_schema_def fits_number_def list_all_iff)
  from g(2) m have v: "good_value r (vals name)" by (auto simp: good_values_def list_all_iff)
  define x where "x = js_and (bitmap_encode sch vals) (number_mask r)"
  have x: "bit x j \<longleftrightarrow> field_bit r (vals name) j" if "j < 32" for j
    using number_field_bits [OF g m, of j] that bit_number_mask [OF len(1,2), of j]
    by (auto simp: x_def bit_js_and field_bit_def)
  have x0: "0 \<le> x" "x < 2147483648"
  proof -
    have i: "to_int32 (number_mask r) = number_mask r"
      by (rule to_int32_id) (use number_mask_eq(2,3) [OF len(1,2)] in linarith)+
    have e: "x = to_int32 (bitmap_encode sch vals) AND number_mask r" by (simp only: x_def js_and_def i)
    show "0 \<le> x" unfolding e using number_mask_eq(2) [OF len(1,2)] by simp
    show "x < 2147483648"
      unfolding e using AND_upper2 [OF number_mask_eq(2) [OF len(1,2)]] number_mask_eq(3) [OF len(1,2)]
      by (rule le_less_trans)
  qed
  show ?thesis
  proof (cases "brType r = Flag")
    case True
    with v obtain b where b: "vals name = Some (BoolBits b)"
      by (auto simp: good_value_def split: option.splits bit_value.splits)
    have "x = 0 \<longleftrightarrow> \<not> b"
    proof
      assume "x = 0"
      then have "\<not> bit x (brOffset r)" by simp
      with x [of "brOffset r"] len True show "\<not> b"
        by (auto simp: field_bit_def b number_bits_def bit_one_int split: if_splits)
    next
      assume "\<not> b"
      show "x = 0"
        by (rule int32_eqI) (use x0 x \<open>\<not> b\<close> in \<open>simp_all add: field_bit_def b number_bits_def\<close>)
    qed
    with True b show ?thesis by (simp add: x_def)
  next
    case False
    with v obtain n where n: "vals name = Some (NumBits n)" "0 \<le> n" "n < 2 ^ brLength r"
      by (auto simp: good_value_def split: option.splits bit_value.splits)
    have s: "js_shr x (int (brOffset r)) = drop_bit (brOffset r) x"
      using x0 len by (simp add: js_shr_bit)
    have "drop_bit (brOffset r) x = n"
    proof (rule int32_eqI)
      show "to_int32 (drop_bit (brOffset r) x) = drop_bit (brOffset r) x"
        using drop_bit_range [OF x0, of "brOffset r"] by (intro to_int32_id) linarith+
      have "(2::int) ^ brLength r \<le> 2 ^ 31" using len by (intro power_increasing) simp_all
      with n show "to_int32 n = n" by simp
      fix j :: nat assume "j < 32"
      have hi: "\<not> bit x i" if "32 \<le> i" for i
        using bit_less_power [of x 31 i] x0 that by auto
      show "bit (drop_bit (brOffset r) x) j \<longleftrightarrow> bit n j"
        using x [of "brOffset r + j"] hi [of "brOffset r + j"] bit_less_power [OF n(2,3), of j] len
        by (cases "brOffset r + j < 32") (auto simp: bit_drop_bit_eq field_bit_def n number_bits_def)
    qed
    with False n show ?thesis by (simp add: x_def [symmetric] s)
  qed
qed

subsection \<open>Properties\<close>

text \<open>Round trip of byte-array bitmaps: for every schema of separate fields of at most 31 bits and every value
  that fits its fields, decoding what was encoded returns each field, wherever it lies across bytes.\<close>

theorem bytearray_bitmap_roundtrip:
  assumes "good_schema sch" "good_values sch vals"
  shows "bytearray_decode sch (bytearray_encode sch vals) = Inr (map (\<lambda>(name, r). (name, the (vals name))) sch)"
  unfolding bytearray_decode_def
  using bytearray_field_back [OF assms] length_bytearray_encode [OF assms] by auto

definition sample_schema :: bit_schema where
  "sample_schema = [(''a'', BitField 3 16), (''b'', BitFlag 19), (''c'', BitFieldEnum 20 2)]"

definition sample_values :: bit_values where
  "sample_values = [''a'' \<mapsto> NumBits 65521, ''b'' \<mapsto> BoolBits True, ''c'' \<mapsto> NumBits 2]"

lemma sample_schema_good: "good_schema sample_schema" "good_values sample_schema sample_values" "fits_number sample_schema"
  by (simp_all add: good_schema_def sample_schema_def BitField_def BitFlag_def BitFieldEnum_def good_values_def
      sample_values_def good_value_def fits_number_def)

lemma bytearray_bitmap_roundtrip_witness:
  "bytearray_decode sample_schema (bytearray_encode sample_schema sample_values) =
   Inr [(''a'', NumBits 65521), (''b'', BoolBits True), (''c'', NumBits 2)]"
  using bytearray_bitmap_roundtrip [OF sample_schema_good(1,2)] by (simp add: sample_schema_def sample_values_def)

text \<open>Round trip of bitmaps in a number: the same for schemas whose fields lie in the lower 31 bits.\<close>

theorem bitmap_roundtrip:
  assumes "good_schema sch" "good_values sch vals" "fits_number sch"
  shows "bitmap_decode sch (bitmap_encode sch vals) = map (\<lambda>(name, r). (name, the (vals name))) sch"
  unfolding bitmap_decode_def using number_field_back [OF assms] by auto

lemma bitmap_roundtrip_witness:
  "bitmap_decode sample_schema (bitmap_encode sample_schema sample_values) =
   [(''a'', NumBits 65521), (''b'', BoolBits True), (''c'', NumBits 2)]"
  using bitmap_roundtrip [OF sample_schema_good] by (simp add: sample_schema_def sample_values_def)

end
