(* ===== verification/Onboarding.thy ===== *)
theory Onboarding
  imports Bitmap
begin

text \<open>
  Onboarding payloads: Base 38 (packages/types/src/schema/Base38Schema.ts), the Verhoeff check
  digit (packages/general/src/math/Verhoeff.ts), the QR code payload and the manual pairing code
  (packages/types/src/schema/PairingCodeSchema.ts).
\<close>

subsection \<open>Base 38\<close>

definition BASE38_ALPHABET :: string where
  "BASE38_ALPHABET = ''0123456789ABCDEFGHIJKLMNOPQRSTUVWXYZ-.''"

fun encodeBase38 :: "int \<Rightarrow> nat \<Rightarrow> string" where
  "encodeBase38 v 0 = []"
| "encodeBase38 v (Suc charCount) =
     (let remainder = v mod 38
      in (BASE38_ALPHABET ! nat remainder) # encodeBase38 ((v - remainder) div 38) charCount)"

fun base38_encode :: "byte list \<Rightarrow> string" where
  "base38_encode [] = []"
| "base38_encode [a] = encodeBase38 (uint a) 2"
| "base38_encode [a, b] = encodeBase38 (js_or (uint a) (js_shl (uint b) 8)) 4"
| "base38_encode (a # b # c # rest) =
     encodeBase38 (js_or (js_or (uint a) (js_shl (uint b) 8)) (js_shl (uint c) 16)) 5 @ base38_encode rest"

fun index_of :: "'a \<Rightarrow> 'a list \<Rightarrow> nat option" where
  "index_of x [] = None"
| "index_of x (y # ys) = (if x = y then Some 0 else map_option Suc (index_of x ys))"

text \<open>The characters from the last to the first; they all exist where the decoder asks for them.\<close>

definition decodeBase38 :: "string \<Rightarrow> nat \<Rightarrow> nat \<Rightarrow> int res" where
  "decodeBase38 encoded off charCount =
     fold_res (\<lambda>ch result. case index_of ch BASE38_ALPHABET of
         None \<Rightarrow> Inl UnexpectedDataError
       | Some code \<Rightarrow> Inr (result * 38 + int code))
       (rev (take charCount (drop off encoded))) 0"

definition low_byte :: "int \<Rightarrow> byte" where
  "low_byte v = word_of_int (js_and v 255)"

text \<open>The decoding loop from an offset of the text; the result grows as the loop fills it.\<close>

function base38_chunks :: "string \<Rightarrow> nat \<Rightarrow> byte list res" where
  "base38_chunks encoded off =
     (if length encoded \<le> off then Inr []
      else
        let remaining = length encoded - off
        in if 5 < remaining then
             and_then (decodeBase38 encoded off 5) (\<lambda>v.
             and_then (base38_chunks encoded (off + 5)) (\<lambda>rest.
               Inr (low_byte v # low_byte (js_shr v 8) # low_byte (js_shr v 16) # rest)))
           else if remaining = 4 then
             and_then (decodeBase38 encoded off 4) (\<lambda>v. Inr [low_byte v, low_byte (js_shr v 8)])
           else
             and_then (decodeBase38 encoded off 2) (\<lambda>v. Inr [low_byte v]))"
  by pat_completeness auto
termination by (relation "measure (\<lambda>(e, k). length e - k)") auto

declare base38_chunks.simps [simp del]

definition base38_decode :: "string \<Rightarrow> byte list res" where
  "base38_decode encoded =
     (if length encoded mod 5 = 4 \<or> length encoded mod 5 = 2 then base38_chunks encoded 0
      else Inl UnexpectedDataError)"

subsection \<open>The Verhoeff check digit\<close>

definition verhoeff_multiply :: "nat list list" where
  "verhoeff_multiply =
     [[0, 1, 2, 3, 4, 5, 6, 7, 8, 9],
      [1, 2, 3, 4, 0, 6, 7, 8, 9, 5],
      [2, 3, 4, 0, 1, 7, 8, 9, 5, 6],
      [3, 4, 0, 1, 2, 8, 9, 5, 6, 7],
      [4, 0, 1, 2, 3, 9, 5, 6, 7, 8],
      [5, 9, 8, 7, 6, 0, 4, 3, 2, 1],
      [6, 5, 9, 8, 7, 1, 0, 4, 3, 2],
      [7, 6, 5, 9, 8, 2, 1, 0, 4, 3],
      [8, 7, 6, 5, 9, 3, 2, 1, 0, 4],
      [9, 8, 7, 6, 5, 4, 3, 2, 1, 0]]"

definition verhoeff_inverse :: "nat list" where
  "verhoeff_inverse = [0, 4, 3, 2, 1, 5, 6, 7, 8, 9]"

definition verhoeff_permute :: "nat list list" where
  "verhoeff_permute =
     [[0, 1, 2, 3, 4, 5, 6, 7, 8, 9],
      [1, 5, 7, 6, 2, 8, 3, 0, 9, 4],
      [5, 8, 0, 3, 7, 9, 6, 1, 4, 2],
      [8, 9, 1, 6, 0, 4, 3, 5, 2, 7],
      [9, 4, 5, 3, 1, 2, 6, 8, 7, 0],
      [4, 2, 8, 6, 5, 7, 3, 9, 0, 1],
      [2, 7, 9, 3, 8, 0, 6, 4, 1, 5],
      [7, 0, 4, 6, 9, 1, 3, 2, 5, 8]]"

text \<open>
  \<open>parseInt\<close> of one character; anything but a digit is \<open>NaN\<close>, which indexes no table: the entry is
  \<open>undefined\<close>, and indexing with that once more throws.
\<close>

definition parse_digit :: "char \<Rightarrow> nat option" where
  "parse_digit c = (if is_digit c then Some (of_char c - 48) else None)"

definition computeChecksum :: "string \<Rightarrow> nat option res" where
  "computeChecksum digits =
     and_then
       (fold_res (\<lambda>i checksum.
          case checksum of None \<Rightarrow> Inl TypeError
          | Some c \<Rightarrow> Inr (map_option (\<lambda>d. verhoeff_multiply ! c ! (verhoeff_permute ! (i mod 8) ! d))
              (parse_digit (digits ! (length digits - i)))))
        [1 ..< length digits + 1] (Some 0))
       (\<lambda>checksum. Inr (map_option (\<lambda>c. verhoeff_inverse ! c) checksum))"

subsection \<open>The manual pairing code\<close>

definition VendorId :: "int \<Rightarrow> int res" where
  "VendorId n = (if 0 \<le> n \<and> n \<le> 0xfff4 then Inr n else Inl ValidationOutOfBoundsError)"

datatype js_number = NaN | Num int

definition number_text :: "js_number \<Rightarrow> string" where
  "number_text n = (case n of NaN \<Rightarrow> ''NaN'' | Num i \<Rightarrow> int_string i)"

record manual_data =
  mdDiscriminator :: "int option"
  mdShortDiscriminator :: "int option"
  mdPasscode :: int
  mdVendorId :: "int option"
  mdProductId :: "js_number option"

definition checksum_text :: "nat option \<Rightarrow> string" where
  "checksum_text c = (case c of None \<Rightarrow> ''undefined'' | Some d \<Rightarrow> dec_string d)"

definition pad5 :: "string \<Rightarrow> string" where "pad5 s = pad_start 5 CHR ''0'' s"

definition manual_body :: "int \<Rightarrow> int \<Rightarrow> (int \<times> js_number) option \<Rightarrow> string" where
  "manual_body discriminator passcode ids =
     int_string (js_or (js_shr discriminator 10) (if ids \<noteq> None then js_shl 1 2 else 0)) @
     pad5 (int_string (js_or (js_shl (js_and discriminator 0x300) 6) (js_and passcode 0x3fff))) @
     pad_start 4 CHR ''0'' (int_string (js_shr passcode 14)) @
     (case ids of None \<Rightarrow> [] | Some (vendorId, productId) \<Rightarrow> pad5 (int_string vendorId) @ pad5 (number_text productId))"

definition manual_encode :: "manual_data \<Rightarrow> string res" where
  "manual_encode d =
     (case mdDiscriminator d of
        None \<Rightarrow> Inl UnexpectedDataError
      | Some discriminator \<Rightarrow>
          if 4095 < discriminator then Inl UnexpectedDataError
          else
            let ids = (case (mdVendorId d, mdProductId d) of (Some v, Some p) \<Rightarrow> Some (v, p) | _ \<Rightarrow> None);
                result = manual_body discriminator (mdPasscode d) ids
            in and_then (computeChecksum result) (\<lambda>c. Inr (result @ checksum_text c)))"

text \<open>\<open>parseInt\<close> of a slice of digits, where it is not empty; the product number may be missing.\<close>

definition parse_digits :: "string \<Rightarrow> nat \<Rightarrow> nat \<Rightarrow> int" where
  "parse_digits s a b = int (digits_value (take (b - a) (drop a s)) 0)"

definition manual_decode :: "string \<Rightarrow> manual_data res" where
  "manual_decode text =
     (let encoded = filter is_digit text
      in if length encoded \<noteq> 11 \<and> length encoded \<noteq> 21 then Inl UnexpectedDataError
         else and_then (computeChecksum (butlast encoded)) (\<lambda>checksum.
           if checksum \<noteq> parse_digit (last encoded) then Inl UnexpectedDataError
           else
             let first = parse_digits encoded 0 1;
                 hasVendorProductIds = (js_and first (js_shl 1 2) \<noteq> 0);
                 shortDiscriminator = js_or (js_shl (js_and first 3) 2) (js_and (js_shr (parse_digits encoded 1 6) 14) 3);
                 passcode = js_or (js_and (parse_digits encoded 1 6) 0x3fff) (js_shl (parse_digits encoded 6 10) 14);
                 result = \<lparr>mdDiscriminator = None, mdShortDiscriminator = Some shortDiscriminator,
                           mdPasscode = passcode, mdVendorId = None, mdProductId = None\<rparr>
             in if hasVendorProductIds then
                  and_then (VendorId (parse_digits encoded 10 15)) (\<lambda>vendorId.
                    Inr (result\<lparr>mdVendorId := Some vendorId, mdProductId := Some (if length encoded = 11 then NaN else Num (parse_digits encoded 15 20))\<rparr>))
                else Inr result))"

subsection \<open>The QR code payload\<close>

definition QrCodeDataSchema :: bit_schema where
  "QrCodeDataSchema =
     [(''version'', BitField 0 3), (''vendorId'', BitField 3 16), (''productId'', BitField 19 16),
      (''flowType'', BitFieldEnum 35 2), (''discoveryCapabilities'', BitField 37 8),
      (''discriminator'', BitField 45 12), (''passcode'', BitField 57 27)]"

definition PREFIX :: string where "PREFIX = ''MT:''"

record qr_data =
  qrFields :: bit_values
  qrTlvData :: "byte list option"

definition qr_payload :: "qr_data \<Rightarrow> byte list" where
  "qr_payload d = bytearray_encode QrCodeDataSchema (qrFields d) @ (case qrTlvData d of None \<Rightarrow> [] | Some t \<Rightarrow> t)"

definition qr_encode :: "qr_data list \<Rightarrow> string res" where
  "qr_encode payloadData =
     (if payloadData = [] then Inl ImplementationError
      else Inr (PREFIX @ js_join ''*'' (map (\<lambda>d. base38_encode (qr_payload d)) payloadData)))"

definition qr_decode_payload :: "string \<Rightarrow> qr_data res" where
  "qr_decode_payload encodedData =
     and_then (base38_decode encodedData) (\<lambda>data.
     and_then (bytearray_decode QrCodeDataSchema (take 11 data)) (\<lambda>fields.
       Inr \<lparr>qrFields = map_of fields, qrTlvData = (if 11 < length data then Some (drop 11 data) else None)\<rparr>))"

definition qr_decode :: "string \<Rightarrow> qr_data list res" where
  "qr_decode encoded =
     (if \<not> starts_with PREFIX encoded then Inl UnexpectedDataError
      else map_res qr_decode_payload (js_split CHR ''*'' (drop (length PREFIX) encoded)))"

subsection \<open>Base 38: proofs\<close>

lemma index_of_nth: "distinct xs \<Longrightarrow> i < length xs \<Longrightarrow> index_of (xs ! i) xs = Some i"
proof (induction xs arbitrary: i)
  case (Cons x xs)
  then show ?case by (cases i) (auto simp: in_set_conv_nth)
qed simp

lemma alphabet_facts: "length BASE38_ALPHABET = 38" "distinct BASE38_ALPHABET" "CHR ''*'' \<notin> set BASE38_ALPHABET"
  by (simp_all add: BASE38_ALPHABET_def)

lemma length_encodeBase38 [simp]: "length (encodeBase38 v n) = n"
  by (induction n arbitrary: v) (simp_all add: Let_def)

lemma set_encodeBase38: "set (encodeBase38 v n) \<subseteq> set BASE38_ALPHABET"
proof (induction n arbitrary: v)
  case (Suc n)
  have "nat (v mod 38) < length BASE38_ALPHABET" by (simp add: alphabet_facts nat_less_iff)
  with Suc show ?case by (simp add: Let_def)
qed simp

lemma decode_digits:
  "0 \<le> v \<Longrightarrow> v < 38 ^ n \<Longrightarrow>
   fold_res (\<lambda>ch result. case index_of ch BASE38_ALPHABET of
         None \<Rightarrow> Inl UnexpectedDataError
       | Some code \<Rightarrow> Inr (result * 38 + int code)) (rev (encodeBase38 v n)) 0 = Inr v"
proof (induction n arbitrary: v)
  case (Suc n)
  have q: "(v - v mod 38) div 38 = v div 38" by (simp add: minus_mod_eq_mult_div)
  have "v div 38 < 38 ^ n" using Suc.prems(2) by simp
  with Suc.IH [of "v div 38"] Suc.prems(1)
  have ih: "fold_res (\<lambda>ch result. case index_of ch BASE38_ALPHABET of
         None \<Rightarrow> Inl UnexpectedDataError
       | Some code \<Rightarrow> Inr (result * 38 + int code)) (rev (encodeBase38 (v div 38) n)) 0 = Inr (v div 38)"
    by (simp add: pos_imp_zdiv_nonneg_iff)
  have "index_of (BASE38_ALPHABET ! nat (v mod 38)) BASE38_ALPHABET = Some (nat (v mod 38))"
    by (rule index_of_nth) (simp_all add: alphabet_facts nat_less_iff)
  then show ?case by (simp add: Let_def q fold_res_append ih)
qed simp

lemma decodeBase38_encoded:
  "0 \<le> v \<Longrightarrow> v < 38 ^ n \<Longrightarrow> decodeBase38 (p @ encodeBase38 v n @ s) (length p) n = Inr v"
  using decode_digits [of v n] by (simp add: decodeBase38_def)

lemma byte_range: "0 \<le> uint (a::byte)" "uint (a::byte) < 256"
  using uint_lt2p [of a] by simp_all

lemma js_or_shl:
  assumes "0 \<le> x" "x < 2 ^ k" "0 \<le> y" "y < 256" "k \<le> 16"
  shows "js_or x (js_shl y (int k)) = x + y * 2 ^ k"
proof -
  have k: "(2::int) ^ k \<le> 2 ^ 16" using assms(5) by (intro power_increasing) simp_all
  have "y * 2 ^ k \<le> 255 * 2 ^ 16" using assms k by (intro mult_mono) simp_all
  then have y: "y * 2 ^ k < 2147483648" "0 \<le> y * 2 ^ k" using assms by simp_all
  have x: "x < 2147483648" using assms(2) k by simp
  have i: "to_int32 (y * 2 ^ k) = y * 2 ^ k" "to_int32 x = x" "to_int32 y = y" "nat (int k mod 32) = k"
    using assms y x by ((intro to_int32_id; linarith)+, simp)
  have "js_or x (js_shl y (int k)) = (y * 2 ^ k) OR x"
    by (simp add: js_or_def js_shl_def or.commute i)
  also have "\<dots> = y * 2 ^ k + x" using assms(1,2) by (rule int_or_shift)
  finally show ?thesis by simp
qed

lemma group_values:
  "js_or (uint (a::byte)) (js_shl (uint (b::byte)) 8) = uint a + uint b * 256"
  "js_or (js_or (uint (a::byte)) (js_shl (uint (b::byte)) 8)) (js_shl (uint (c::byte)) 16)
     = uint a + uint b * 256 + uint c * 65536"
proof -
  show e: "js_or (uint a) (js_shl (uint b) 8) = uint a + uint b * 256"
    using js_or_shl [of "uint a" 8 "uint b"] byte_range [of a] byte_range [of b] by simp
  show "js_or (js_or (uint a) (js_shl (uint b) 8)) (js_shl (uint c) 16) = uint a + uint b * 256 + uint c * 65536"
    unfolding e using js_or_shl [of "uint a + uint b * 256" 16 "uint c"]
      byte_range [of a] byte_range [of b] byte_range [of c] by simp
qed

lemma group_bytes:
  fixes a b c :: byte
  defines "v \<equiv> uint a + uint b * 256 + uint c * 65536"
  shows "low_byte v = a" "low_byte (js_shr v 8) = b" "low_byte (js_shr v 16) = c" "0 \<le> v" "v < 16777216"
proof -
  note r = byte_range [of a] byte_range [of b] byte_range [of c]
  show v: "0 \<le> v" "v < 16777216" unfolding v_def using r by linarith+
  have e: "v = uint a + 256 * (uint b + uint c * 256)" by (simp add: v_def)
  have "v mod 256 = uint a" unfolding e mod_mult_self2 using r by simp
  then show "low_byte v = a" using v by (simp add: low_byte_def js_and_def int_and_masks)
  have "v div 256 = (uint b + uint c * 256) + uint a div 256" unfolding e by (rule div_mult_self2) simp
  then have d1: "v div 256 = uint b + uint c * 256" using r by simp
  have "v div 65536 = v div 256 div 256" by (simp add: zdiv_zmult2_eq [symmetric])
  also have "\<dots> = uint c" unfolding d1 using r by simp
  finally have d: "v div 256 = uint b + uint c * 256" "v div 65536 = uint c" using d1 by simp_all
  have s: "js_shr v 8 = uint b + uint c * 256" "js_shr v 16 = uint c"
    using v d by (simp_all add: js_shr_def)
  show "low_byte (js_shr v 8) = b" "low_byte (js_shr v 16) = c"
  proof -
    have i: "to_int32 (uint b + uint c * 256) = uint b + uint c * 256" "to_int32 (uint c) = uint c"
      using r by (intro to_int32_id; linarith)+
    have m: "(uint b + uint c * 256) mod 256 = uint b" "uint c mod 256 = uint c"
      unfolding mod_mult_self1 using r by simp_all
    show "low_byte (js_shr v 8) = b" "low_byte (js_shr v 16) = c"
      by (simp_all add: low_byte_def js_and_def int_and_masks i m s)
  qed
qed

lemma length_base38_encode:
  "length (base38_encode bytes) = (length bytes div 3) * 5 + (if length bytes mod 3 = 2 then 4 else if length bytes mod 3 = 1 then 2 else 0)"
  by (induction bytes rule: base38_encode.induct) (simp_all add: div_add_self1 [of 3] add.commute [of _ 3])

lemma base38_chunks_encoded:
  "length bytes mod 3 \<noteq> 0 \<Longrightarrow> base38_chunks (p @ base38_encode bytes) (length p) = Inr bytes"
proof (induction bytes arbitrary: p rule: base38_encode.induct)
  case (2 a)
  have "decodeBase38 (p @ encodeBase38 (uint a) 2) (length p) 2 = Inr (uint a)"
    using decodeBase38_encoded [of "uint a" 2 p "[]"] byte_range [of a] by simp
  then show ?case using group_bytes(1) [of a 0 0] by (subst base38_chunks.simps) simp
next
  case (3 a b)
  have "decodeBase38 (p @ encodeBase38 (uint a + uint b * 256) 4) (length p) 4 = Inr (uint a + uint b * 256)"
    using decodeBase38_encoded [of "uint a + uint b * 256" 4 p "[]"] byte_range [of a] byte_range [of b] by simp
  then show ?case using group_bytes(1,2) [of a b 0] by (subst base38_chunks.simps) (simp add: group_values)
next
  case (4 a b c rest)
  let ?v = "uint a + uint b * 256 + uint c * 65536"
  have ne: "0 < length (base38_encode rest)" using "4.prems" by (simp add: length_base38_encode) presburger
  have d: "decodeBase38 (p @ encodeBase38 ?v 5 @ base38_encode rest) (length p) 5 = Inr ?v"
    using decodeBase38_encoded [of ?v 5 p "base38_encode rest"] group_bytes(4,5) [of a b c] by simp
  have "base38_chunks ((p @ encodeBase38 ?v 5) @ base38_encode rest) (length (p @ encodeBase38 ?v 5)) = Inr rest"
    using "4.prems" by (intro "4.IH") simp
  then show ?case
    using ne d group_bytes(1-3) [of a b c] by (subst base38_chunks.simps) (simp only: base38_encode.simps group_values(2), simp)
qed simp

lemma base38_decode_encode:
  "base38_decode (base38_encode bytes) = (if length bytes mod 3 = 0 then Inl UnexpectedDataError else Inr bytes)"
proof -
  have "length bytes mod 3 < 3" by simp
  then have "length bytes mod 3 = 0 \<or> length bytes mod 3 = 1 \<or> length bytes mod 3 = 2" by linarith
  then show ?thesis
    using base38_chunks_encoded [of bytes "[]"]
    by (auto simp: base38_decode_def length_base38_encode)
qed

lemma base38_encode_alphabet: "set (base38_encode bytes) \<subseteq> set BASE38_ALPHABET"
  by (induction bytes rule: base38_encode.induct) (use set_encodeBase38 in \<open>auto simp: subset_eq\<close>)

subsection \<open>The check digit: proofs\<close>

abbreviation vmul :: "nat \<Rightarrow> nat \<Rightarrow> nat" where "vmul a b \<equiv> verhoeff_multiply ! a ! b"
abbreviation vperm :: "nat \<Rightarrow> nat \<Rightarrow> nat" where "vperm i d \<equiv> verhoeff_permute ! (i mod 8) ! d"
abbreviation vinv :: "nat \<Rightarrow> nat" where "vinv a \<equiv> verhoeff_inverse ! a"

text \<open>The tables, checked entry by entry: a group, its inverses, and anti-symmetric permutations.\<close>

lemma table_facts:
  "\<forall>a\<in>set [0..<10]. \<forall>b\<in>set [0..<10]. vmul a b < 10"
  "\<forall>a\<in>set [0..<10]. \<forall>b\<in>set [0..<10]. \<forall>c\<in>set [0..<10]. vmul (vmul a b) c = vmul a (vmul b c)"
  "\<forall>a\<in>set [0..<10]. vmul 0 a = a \<and> vmul a 0 = a \<and> vmul a (vinv a) = 0 \<and> vmul (vinv a) a = 0 \<and> vinv a < 10"
  "\<forall>i\<in>set [0..<8]. \<forall>a\<in>set [0..<10]. verhoeff_permute ! i ! a < 10"
  "\<forall>i\<in>set [0..<8]. \<forall>a\<in>set [0..<10]. \<forall>b\<in>set [0..<10]. verhoeff_permute ! i ! a = verhoeff_permute ! i ! b \<longrightarrow> a = b"
  "\<forall>i\<in>set [0..<8]. \<forall>a\<in>set [0..<10]. \<forall>b\<in>set [0..<10].
     vmul (verhoeff_permute ! i ! a) (verhoeff_permute ! ((i + 1) mod 8) ! b) =
     vmul (verhoeff_permute ! i ! b) (verhoeff_permute ! ((i + 1) mod 8) ! a) \<longrightarrow> a = b"
  by code_simp+

lemma vmul_less [simp]: "a < 10 \<Longrightarrow> b < 10 \<Longrightarrow> vmul a b < 10"
  using table_facts(1) by simp

lemma vmul_assoc: "a < 10 \<Longrightarrow> b < 10 \<Longrightarrow> c < 10 \<Longrightarrow> vmul (vmul a b) c = vmul a (vmul b c)"
  using table_facts(2) by simp

lemma vmul_unit [simp]: "a < 10 \<Longrightarrow> vmul 0 a = a" "a < 10 \<Longrightarrow> vmul a 0 = a"
  using table_facts(3) by simp_all

lemma vinv [simp]: "a < 10 \<Longrightarrow> vmul a (vinv a) = 0" "a < 10 \<Longrightarrow> vmul (vinv a) a = 0" "a < 10 \<Longrightarrow> vinv a < 10"
  using table_facts(3) by simp_all

lemma vperm_less [simp]: "d < 10 \<Longrightarrow> vperm i d < 10"
  using table_facts(4) by simp

lemma vperm_inject: "a < 10 \<Longrightarrow> b < 10 \<Longrightarrow> vperm i a = vperm i b \<Longrightarrow> a = b"
  using table_facts(5) [THEN bspec [where x = "i mod 8"], THEN bspec [where x = a], THEN bspec [where x = b]] by simp

lemma vperm_anti:
  "a < 10 \<Longrightarrow> b < 10 \<Longrightarrow> vmul (vperm i a) (vperm (Suc i) b) = vmul (vperm i b) (vperm (Suc i) a) \<Longrightarrow> a = b"
proof -
  assume ab: "a < 10" "b < 10"
    and e: "vmul (vperm i a) (vperm (Suc i) b) = vmul (vperm i b) (vperm (Suc i) a)"
  have "(i mod 8 + 1) mod 8 = Suc i mod 8" by (simp add: mod_Suc)
  with table_facts(6) [THEN bspec [where x = "i mod 8"], THEN bspec [where x = a], THEN bspec [where x = b]] ab e
  show "a = b" by simp
qed

lemma vmul_cancel:
  "a < 10 \<Longrightarrow> b < 10 \<Longrightarrow> c < 10 \<Longrightarrow> vmul a b = vmul a c \<longleftrightarrow> b = c"
  "a < 10 \<Longrightarrow> b < 10 \<Longrightarrow> c < 10 \<Longrightarrow> vmul b a = vmul c a \<longleftrightarrow> b = c"
  by (metis vinv vmul_assoc vmul_unit(1), metis vinv vmul_assoc vmul_unit(2))

lemma vinv_inject: "a < 10 \<Longrightarrow> b < 10 \<Longrightarrow> vinv a = vinv b \<longleftrightarrow> a = b"
  by (metis vinv vmul_cancel(1))

text \<open>On digits the code computes the product of the permuted digits, from the last to the first.\<close>

fun verhoeff_product :: "nat \<Rightarrow> nat list \<Rightarrow> nat" where
  "verhoeff_product i [] = 0"
| "verhoeff_product i (d # ds) = vmul (vperm i d) (verhoeff_product (Suc i) ds)"

lemma verhoeff_product_less [simp]: "\<forall>d\<in>set ds. d < 10 \<Longrightarrow> verhoeff_product i ds < 10"
  by (induction ds arbitrary: i) simp_all

lemma digit_less: "is_digit c \<Longrightarrow> of_char c - 48 < (10::nat)"
  by (auto simp: is_digit_def)

lemma checksum_loop:
  assumes "\<forall>c\<in>set digits. is_digit c" "acc < 10" "i \<le> length digits"
  shows "fold_res (\<lambda>i checksum.
          case checksum of None \<Rightarrow> Inl TypeError
          | Some c \<Rightarrow> Inr (map_option (\<lambda>d. vmul c (vperm i d)) (parse_digit (digits ! (length digits - i)))))
        [Suc i ..< length digits + 1] (Some acc) =
     Inr (Some (vmul acc (verhoeff_product (Suc i) (map (\<lambda>c. of_char c - 48) (drop i (rev digits))))))"
    (is "fold_res ?step _ _ = _")
  using assms(2,3)
proof (induction "length digits - i" arbitrary: i acc)
  case 0
  then show ?case by simp
next
  case (Suc k)
  then have i: "i < length digits" by simp
  define ch where "ch = digits ! (length digits - Suc i)"
  define d where "d = (of_char ch :: nat) - 48"
  have "is_digit ch" using assms(1) i by (simp add: ch_def)
  then have d: "parse_digit ch = Some d" "d < 10"
    by (simp_all add: parse_digit_def d_def digit_less)
  define ds where "ds = map (\<lambda>c. (of_char c :: nat) - 48) (drop (Suc i) (rev digits))"
  have dr: "map (\<lambda>c. of_char c - 48) (drop i (rev digits)) = d # ds"
    using i by (subst Cons_nth_drop_Suc [symmetric]) (simp_all add: rev_nth ch_def d_def ds_def)
  have ds: "verhoeff_product (Suc (Suc i)) ds < 10"
  proof (rule verhoeff_product_less, rule ballI)
    fix x assume "x \<in> set ds"
    then obtain c where c: "c \<in> set (drop (Suc i) (rev digits))" "x = of_char c - 48" by (auto simp: ds_def)
    then have "c \<in> set digits" using in_set_dropD by fastforce
    with assms(1) c(2) show "x < 10" by (simp add: digit_less)
  qed
  have up: "[Suc i..<length digits + 1] = Suc i # [Suc (Suc i)..<length digits + 1]"
    using i by (simp add: upt_conv_Cons)
  have ih: "fold_res ?step [Suc (Suc i)..<length digits + 1] (Some (vmul acc (vperm (Suc i) d))) =
      Inr (Some (vmul (vmul acc (vperm (Suc i) d)) (verhoeff_product (Suc (Suc i)) ds)))"
    unfolding ds_def by (rule Suc.hyps(1)) (use Suc.hyps(2) Suc.prems(1) i d(2) in simp_all)
  have "?step (Suc i) (Some acc) = Inr (Some (vmul acc (vperm (Suc i) d)))"
    by (simp only: option.case ch_def [symmetric] d(1) option.map)
  then show ?case
    unfolding up fold_res.simps dr verhoeff_product.simps
    using ih vmul_assoc [OF Suc.prems(1) vperm_less [OF d(2)] ds, of "Suc i"] by (simp only: and_then_simps)
qed

definition digit_values :: "string \<Rightarrow> nat list" where
  "digit_values s = map (\<lambda>c. of_char c - 48) (rev s)"

lemma digit_values_less: "list_all is_digit s \<Longrightarrow> \<forall>d\<in>set (digit_values s). d < 10"
  by (auto simp: digit_values_def list_all_iff digit_less)

lemma digit_values_append: "digit_values (a @ b) = digit_values b @ digit_values a"
  by (simp add: digit_values_def)

lemma digit_value_inject: "is_digit a \<Longrightarrow> is_digit b \<Longrightarrow> (of_char a - 48 :: nat) = of_char b - 48 \<longleftrightarrow> a = b"
  by (auto simp: is_digit_def)

lemma computeChecksum_digits:
  "list_all is_digit digits \<Longrightarrow> computeChecksum digits = Inr (Some (vinv (verhoeff_product 1 (digit_values digits))))"
  using checksum_loop [of digits 0 0] digit_values_less [of digits] verhoeff_product_less [of "digit_values digits" 1]
  by (simp add: computeChecksum_def list_all_iff digit_values_def)

lemma vperm_zero [simp]: "d < 10 \<Longrightarrow> verhoeff_permute ! 0 ! d = d"
proof -
  assume "d < 10"
  then have "d \<in> set [0, 1, 2, 3, 4, 5, 6, 7, 8, 9]" by auto
  then show ?thesis by (auto simp: verhoeff_permute_def)
qed

text \<open>A code with its check digit is accepted if and only if the product of all its digits is the unit.\<close>

lemma checksum_valid:
  assumes "list_all is_digit code" "code \<noteq> []"
  shows "computeChecksum (butlast code) = Inr (parse_digit (last code)) \<longleftrightarrow> verhoeff_product 0 (digit_values code) = 0"
    "\<exists>c. computeChecksum (butlast code) = Inr c"
proof -
  have b: "list_all is_digit (butlast code)" "is_digit (last code)"
    using assms by (auto simp: list_all_iff dest: in_set_butlastD)
  define d where "d = (of_char (last code) :: nat) - 48"
  define p where "p = verhoeff_product 1 (digit_values (butlast code))"
  have r: "d < 10" "p < 10"
    using b digit_values_less [OF b(1)] by (simp_all add: d_def p_def digit_less)
  have c: "computeChecksum (butlast code) = Inr (Some (vinv p))"
    using computeChecksum_digits [OF b(1)] by (simp add: p_def)
  then show "\<exists>c. computeChecksum (butlast code) = Inr c" by blast
  have "digit_values code = digit_values (butlast code @ [last code])" using assms(2) by simp
  then have "digit_values code = d # digit_values (butlast code)"
    unfolding digit_values_append by (simp add: digit_values_def d_def)
  then have v: "verhoeff_product 0 (digit_values code) = vmul d p" using r by (simp add: p_def)
  have "vinv p = d \<longleftrightarrow> vmul d p = 0"
    using r vmul_cancel(2) [of p d "vinv p"] by auto
  then show "computeChecksum (butlast code) = Inr (parse_digit (last code)) \<longleftrightarrow> verhoeff_product 0 (digit_values code) = 0"
    using b(2) by (simp add: c v parse_digit_def d_def)
qed

lemma verhoeff_product_append:
  "\<forall>d\<in>set (xs @ ys). d < 10 \<Longrightarrow>
   verhoeff_product i (xs @ ys) = vmul (verhoeff_product i xs) (verhoeff_product (i + length xs) ys)"
  by (induction xs arbitrary: i) (simp_all add: vmul_assoc)

lemma verhoeff_single:
  assumes "\<forall>d\<in>set (xs @ [a, b] @ ys). d < 10"
    and "verhoeff_product i (xs @ a # ys) = verhoeff_product i (xs @ b # ys)"
  shows "a = b"
  using assms by (auto simp: verhoeff_product_append vmul_cancel intro: vperm_inject)

lemma verhoeff_swap:
  assumes "\<forall>d\<in>set (xs @ [a, b] @ ys). d < 10"
    and "verhoeff_product i (xs @ a # b # ys) = verhoeff_product i (xs @ b # a # ys)"
  shows "a = b"
proof -
  let ?k = "i + length xs" and ?r = "verhoeff_product (Suc (Suc (i + length xs))) ys"
  have l: "a < 10" "b < 10" "?r < 10" using assms(1) by simp_all
  have "vmul (vperm ?k a) (vmul (vperm (Suc ?k) b) ?r) = vmul (vperm ?k b) (vmul (vperm (Suc ?k) a) ?r)"
    using assms by (simp add: verhoeff_product_append vmul_cancel)
  then have "vmul (vmul (vperm ?k a) (vperm (Suc ?k) b)) ?r = vmul (vmul (vperm ?k b) (vperm (Suc ?k) a)) ?r"
    using l by (simp add: vmul_assoc)
  then have "vmul (vperm ?k a) (vperm (Suc ?k) b) = vmul (vperm ?k b) (vperm (Suc ?k) a)"
    using l by (simp add: vmul_cancel)
  with l(1,2) show ?thesis by (rule vperm_anti)
qed

lemma manual_decode_valid:
  "manual_decode code = Inr d \<Longrightarrow>
   (length (filter is_digit code) = 11 \<or> length (filter is_digit code) = 21) \<and>
   verhoeff_product 0 (digit_values (filter is_digit code)) = 0"
proof -
  assume a: "manual_decode code = Inr d"
  let ?e = "filter is_digit code"
  have l: "length ?e = 11 \<or> length ?e = 21"
    using a by (auto simp: manual_decode_def Let_def split: if_splits)
  then have ne: "?e \<noteq> []" "list_all is_digit ?e" by (auto simp: list_all_iff)
  with a l have "computeChecksum (butlast ?e) = Inr (parse_digit (last ?e))"
    by (auto simp: manual_decode_def Let_def and_then_Inr_iff split: if_splits)
  with ne l show ?thesis using checksum_valid(1) [of ?e] by simp
qed

lemma manual_decode_invalid:
  "length (filter is_digit code) = 11 \<or> length (filter is_digit code) = 21 \<Longrightarrow>
   verhoeff_product 0 (digit_values (filter is_digit code)) \<noteq> 0 \<Longrightarrow> manual_decode code = Inl UnexpectedDataError"
proof -
  let ?e = "filter is_digit code"
  assume l: "length ?e = 11 \<or> length ?e = 21" and p: "verhoeff_product 0 (digit_values ?e) \<noteq> 0"
  then have ne: "?e \<noteq> []" "list_all is_digit ?e" by (auto simp: list_all_iff)
  obtain c where c: "computeChecksum (butlast ?e) = Inr c" using checksum_valid(2) [OF ne(2,1)] by blast
  with checksum_valid(1) [OF ne(2,1)] p have "c \<noteq> parse_digit (last ?e)" by auto
  with c l show ?thesis by (auto simp: manual_decode_def Let_def)
qed

text \<open>A digit mistyped or two neighbours swapped.\<close>

definition one_typo :: "string \<Rightarrow> string \<Rightarrow> bool" where
  "one_typo s t \<longleftrightarrow>
     (\<exists>p a b q. s = p @ [a] @ q \<and> t = p @ [b] @ q \<and> a \<noteq> b) \<or>
     (\<exists>p a b q. s = p @ [a, b] @ q \<and> t = p @ [b, a] @ q \<and> a \<noteq> b)"

lemma one_typo_length: "one_typo s t \<Longrightarrow> length t = length s"
  by (auto simp: one_typo_def)

lemma one_typo_detected:
  assumes d: "list_all is_digit s" "list_all is_digit t" and t: "one_typo s t"
    and z: "verhoeff_product 0 (digit_values s) = 0"
  shows "verhoeff_product 0 (digit_values t) \<noteq> 0"
proof
  assume "verhoeff_product 0 (digit_values t) = 0"
  with z have e: "verhoeff_product 0 (digit_values s) = verhoeff_product 0 (digit_values t)" by simp
  consider p a b q where "s = p @ [a] @ q" "t = p @ [b] @ q" "a \<noteq> b"
    | p a b q where "s = p @ [a, b] @ q" "t = p @ [b, a] @ q" "a \<noteq> b"
    using t by (auto simp: one_typo_def)
  then show False
  proof cases
    case (1 p a b q)
    have "\<forall>x\<in>set (digit_values q @ [of_char a - 48, of_char b - 48] @ digit_values p). x < 10"
      using d 1 by (auto simp: digit_less digit_values_less digit_values_def list_all_iff)
    from verhoeff_single [OF this, of 0] e 1 d digit_value_inject [of a b] show False
      by (simp add: digit_values_def)
  next
    case (2 p a b q)
    have "\<forall>x\<in>set (digit_values q @ [of_char b - 48, of_char a - 48] @ digit_values p). x < 10"
      using d 2 by (auto simp: digit_less digit_values_less digit_values_def list_all_iff)
    from verhoeff_swap [OF this, of 0] e 2 d digit_value_inject [of a b] show False
      by (simp add: digit_values_def)
  qed
qed

subsection \<open>The manual pairing code: proofs\<close>

lemma and_768: "(x::int) AND 768 = (x div 256 mod 4) * 256"
proof -
  have "x AND 768 = push_bit 8 (take_bit 2 (drop_bit 8 x))"
  proof (rule bit_eqI)
    fix j
    have "bit (768::int) j \<longleftrightarrow> bit (push_bit 8 (mask 2 :: int)) j" by (simp add: mask_eq_exp_minus_1)
    then show "bit (x AND 768) j \<longleftrightarrow> bit (push_bit 8 (take_bit 2 (drop_bit 8 x))) j"
      by (auto simp: bit_and_iff bit_push_bit_iff_int bit_take_bit_iff bit_drop_bit_eq bit_mask_iff)
  qed
  then show ?thesis by (simp add: push_bit_eq_mult take_bit_eq_mod drop_bit_eq_div)
qed

lemma manual_numbers:
  fixes ids :: bool
  assumes d: "0 \<le> disc" "disc \<le> 4095" and p: "0 \<le> pass" "pass < 134217728"
  defines "n1 \<equiv> js_or (js_shr disc 10) (if ids then js_shl 1 2 else 0)"
    and "n2 \<equiv> js_or (js_shl (js_and disc 0x300) 6) (js_and pass 0x3fff)"
    and "n3 \<equiv> js_shr pass 14"
  shows "n1 = disc div 1024 + (if ids then 4 else 0)"
    and "n2 = (disc div 256 mod 4) * 16384 + pass mod 16384" and "n3 = pass div 16384"
proof -
  have s: "js_shr disc 10 = disc div 1024" "0 \<le> disc div 1024" "disc div 1024 < 4"
    using d by (simp_all add: js_shr_def)
  have "js_shl 1 2 = 1 * 2 ^ 2" by (simp add: js_shl_def)
  then show "n1 = disc div 1024 + (if ids then 4 else 0)"
    unfolding n1_def s(1) using s js_or_add(2) [of 1 2 "disc div 1024"] by (simp add: js_or_def)
  define q where "q = disc div 256 mod 4"
  have q: "0 \<le> q" "q < 4" by (simp_all add: q_def)
  have a: "js_and disc 0x300 = q * 256" using d by (simp add: js_and_def and_768 q_def)
  have "js_shl (q * 256) 6 = q * 2 ^ 14" using q by (simp add: js_shl_def)
  moreover have "js_and pass 0x3fff = pass mod 16384" using p by (simp add: js_and_def int_and_masks)
  ultimately show "n2 = (disc div 256 mod 4) * 16384 + pass mod 16384"
    unfolding n2_def a q_def [symmetric] using q js_or_add(1) [of q 14 "pass mod 16384"] by simp
  show "n3 = pass div 16384" using p by (simp add: n3_def js_shr_def)
qed

lemma int_string_padded:
  assumes "0 \<le> n" "n < 10 ^ k" "0 < k"
  shows "length (pad_start k CHR ''0'' (int_string n)) = k" "list_all is_digit (pad_start k CHR ''0'' (int_string n))"
    "digits_value (pad_start k CHR ''0'' (int_string n)) 0 = nat n"
proof -
  have "nat n < 10 ^ k" using assms by (simp add: nat_less_iff)
  then have "length (dec_string (nat n)) \<le> k" using assms(3) by (intro length_dec_string)
  then show "length (pad_start k CHR ''0'' (int_string n)) = k"
    "digits_value (pad_start k CHR ''0'' (int_string n)) 0 = nat n"
    using assms(1) by (simp_all add: int_string_nonneg length_pad_start)
  have "is_digit CHR ''0''" by (simp add: is_digit_def)
  then show "list_all is_digit (pad_start k CHR ''0'' (int_string n))"
    using assms(1) dec_string_digits [of "nat n"]
    by (auto simp: int_string_nonneg pad_start_def list_all_iff)
qed

lemma int_string_one:
  assumes "0 \<le> n" "n < 10"
  shows "length (int_string n) = 1" "list_all is_digit (int_string n)" "digits_value (int_string n) 0 = nat n"
  using assms dec_string_digits [of "nat n"]
  by (simp_all add: int_string_nonneg list_all_iff) (simp add: dec_string.simps)

lemma checksum_text_digit: "d < 10 \<Longrightarrow> checksum_text (Some d) = [digit_char d]"
  by (simp add: checksum_text_def dec_string.simps)

lemma parse_digit_char: "d < 10 \<Longrightarrow> parse_digit (digit_char d) = Some d"
  by (simp add: parse_digit_def is_digit_digit_char of_char_digit_char)

lemma short_discriminator_bits:
  assumes "0 \<le> disc" "disc \<le> (4095::int)"
  shows "js_or (js_shl (js_and (disc div 1024 + (if ids then 4 else 0)) 3) 2)
      (js_and (js_shr ((disc div 256 mod 4) * 16384 + r mod 16384) 14) 3) = disc div 256"
proof -
  define h where "h = disc div 1024"
  define q where "q = disc div 256 mod 4"
  have h: "0 \<le> h" "h < 4" and q: "0 \<le> q" "q < 4" using assms by (simp_all add: h_def q_def)
  have r: "0 \<le> r mod 16384" "r mod 16384 < 16384" by simp_all
  have "disc div 256 = (disc div 256 div 4) * 4 + q" by (simp add: q_def)
  then have e: "disc div 256 = h * 4 + q" by (simp add: h_def zdiv_zmult2_eq [symmetric])
  have a: "js_and (h + (if ids then 4 else 0)) 3 = h" using h by (simp add: js_and_def int_and_masks)
  have "(q * 16384 + r mod 16384) div 16384 = q" using r by simp
  then have b: "js_shr (q * 16384 + r mod 16384) 14 = q"
    using q r by (simp add: js_shr_def)
  have c: "js_and q 3 = q" "js_shl h 2 = h * 2 ^ 2"
    using q h by (simp_all add: js_and_def int_and_masks js_shl_def)
  show ?thesis
    unfolding h_def [symmetric] q_def [symmetric] unfolding a b c e
    using js_or_add(1) [of h 2 q] h q by simp
qed

lemma passcode_bits:
  assumes "0 \<le> pass" "pass < (134217728::int)" "0 \<le> q" "q < 4"
  shows "js_or (js_and (q * 16384 + pass mod 16384) 0x3fff) (js_shl (pass div 16384) 14) = pass"
proof -
  define h where "h = pass div 16384"
  have h: "0 \<le> h" "h < 8192" using assms by (simp_all add: h_def pos_imp_zdiv_nonneg_iff)
  have r: "0 \<le> pass mod 16384" "pass mod 16384 < 16384" by simp_all
  have i: "to_int32 (q * 16384 + pass mod 16384) = q * 16384 + pass mod 16384"
    by (rule to_int32_id) (use r assms in linarith)+
  have a: "js_and (q * 16384 + pass mod 16384) 0x3fff = pass mod 16384"
    by (simp add: js_and_def i int_and_masks)
  have b: "js_shl h 14 = h * 2 ^ 14" using h by (simp add: js_shl_def)
  have "pass = h * 16384 + pass mod 16384" by (simp add: h_def)
  then show ?thesis
    unfolding h_def [symmetric] a b using js_or_add(2) [of h 14 "pass mod 16384"] h by simp
qed

lemma vendor_flag: "0 \<le> (n::int) \<Longrightarrow> n < 4 \<Longrightarrow> (js_and (n + (if ids then 4 else 0)) (js_shl 1 2) \<noteq> 0) = ids"
proof -
  assume "0 \<le> n" "n < 4"
  then have "n \<in> {0, 1, 2, 3}" by auto
  then show ?thesis
    by (auto simp: js_and_single_bit)
qed

definition manual_fits :: "int \<Rightarrow> int \<Rightarrow> (int \<times> int) option \<Rightarrow> bool" where
  "manual_fits disc pass ids \<longleftrightarrow> 0 \<le> disc \<and> disc \<le> 4095 \<and> 0 \<le> pass \<and> pass < 134217728 \<and>
     (case ids of None \<Rightarrow> True | Some (v, p) \<Rightarrow> 0 \<le> v \<and> v \<le> 0xfff4 \<and> 0 \<le> p \<and> p \<le> 0xffff)"

lemma parse_digits_parts:
  "length a = 1 \<Longrightarrow> length b = 5 \<Longrightarrow> length c = 4 \<Longrightarrow> parse_digits (a @ b @ c @ r) 0 1 = int (digits_value a 0)"
  "length a = 1 \<Longrightarrow> length b = 5 \<Longrightarrow> length c = 4 \<Longrightarrow> parse_digits (a @ b @ c @ r) 1 6 = int (digits_value b 0)"
  "length a = 1 \<Longrightarrow> length b = 5 \<Longrightarrow> length c = 4 \<Longrightarrow> parse_digits (a @ b @ c @ r) 6 10 = int (digits_value c 0)"
  "length a = 1 \<Longrightarrow> length b = 5 \<Longrightarrow> length c = 4 \<Longrightarrow> length e = 5 \<Longrightarrow> parse_digits (a @ b @ c @ e @ r) 10 15 = int (digits_value e 0)"
  "length a = 1 \<Longrightarrow> length b = 5 \<Longrightarrow> length c = 4 \<Longrightarrow> length e = 5 \<Longrightarrow> length f = 5 \<Longrightarrow>
    parse_digits (a @ b @ c @ e @ f @ r) 15 20 = int (digits_value f 0)"
  by (simp_all add: parse_digits_def)

lemma manual_decode_checked:
  assumes "list_all is_digit body" "length body = 10 \<or> length body = 20"
  shows "\<exists>d. computeChecksum body = Inr (Some d) \<and> is_digit (digit_char d) \<and>
     checksum_text (Some d) = [digit_char d] \<and>
     manual_decode (body @ [digit_char d]) =
       (let encoded = body @ [digit_char d]; first = parse_digits encoded 0 1;
            result = \<lparr>mdDiscriminator = None,
              mdShortDiscriminator = Some (js_or (js_shl (js_and first 3) 2) (js_and (js_shr (parse_digits encoded 1 6) 14) 3)),
              mdPasscode = js_or (js_and (parse_digits encoded 1 6) 0x3fff) (js_shl (parse_digits encoded 6 10) 14),
              mdVendorId = None, mdProductId = None\<rparr>
        in if js_and first (js_shl 1 2) \<noteq> 0 then
             and_then (VendorId (parse_digits encoded 10 15)) (\<lambda>vendorId.
               Inr (result\<lparr>mdVendorId := Some vendorId,
                 mdProductId := Some (if length body = 10 then NaN else Num (parse_digits encoded 15 20))\<rparr>))
           else Inr result)"
proof -
  obtain d where c: "computeChecksum body = Inr (Some d)" "d < 10"
    using computeChecksum_digits [OF assms(1)] digit_values_less [OF assms(1)] by simp
  have f: "filter is_digit (body @ [digit_char d]) = body @ [digit_char d]"
    using assms(1) c(2) by (simp add: list_all_iff is_digit_digit_char)
  have "length (body @ [digit_char d]) = 11 \<longleftrightarrow> length body = 10" by simp
  with c f assms(2) show ?thesis
    by (intro exI [of _ d]) (auto simp: manual_decode_def parse_digit_char is_digit_digit_char checksum_text_digit Let_def)
qed

definition manual_parts :: "int \<Rightarrow> int \<Rightarrow> (int \<times> int) option \<Rightarrow> string \<Rightarrow> string \<Rightarrow> string \<Rightarrow> string \<Rightarrow> bool" where
  "manual_parts disc pass ids a b c e \<longleftrightarrow>
     list_all is_digit (a @ b @ c @ e) \<and> length a = 1 \<and> length b = 5 \<and> length c = 4 \<and>
     int (digits_value a 0) = disc div 1024 + (if ids \<noteq> None then 4 else 0) \<and>
     int (digits_value b 0) = (disc div 256 mod 4) * 16384 + pass mod 16384 \<and>
     int (digits_value c 0) = pass div 16384 \<and>
     (case ids of None \<Rightarrow> e = [] | Some (v, p) \<Rightarrow> \<exists>x y. e = x @ y \<and> length x = 5 \<and> length y = 5 \<and>
       int (digits_value x 0) = v \<and> int (digits_value y 0) = p)"

lemma manual_body_parts:
  assumes fits: "manual_fits disc pass ids"
  shows "\<exists>a b c e. manual_body disc pass (map_option (\<lambda>i. (fst i, Num (snd i))) ids) = a @ b @ c @ e \<and>
     manual_parts disc pass ids a b c e"
proof -
  have r: "0 \<le> disc" "disc \<le> 4095" "0 \<le> pass" "pass < 134217728" using fits by (simp_all add: manual_fits_def)
  define n1 where "n1 = disc div 1024 + (if ids \<noteq> None then 4 else 0)"
  define n2 where "n2 = (disc div 256 mod 4) * 16384 + pass mod 16384"
  define n3 where "n3 = pass div 16384"
  have "0 \<le> disc div 1024" "disc div 1024 < 4" using r by simp_all
  then have n1: "0 \<le> n1" "n1 < 10" unfolding n1_def by (cases ids; simp; linarith)+
  have "0 \<le> disc div 256 mod 4" "disc div 256 mod 4 < 4" "0 \<le> pass mod 16384" "pass mod 16384 < 16384" by simp_all
  then have n2: "0 \<le> n2" "n2 < 10 ^ 5" by (simp_all add: n2_def)
  have n3: "0 \<le> n3" "n3 < 10 ^ 4" using r by (simp_all add: n3_def pos_imp_zdiv_nonneg_iff)
  define e where "e = (case ids of None \<Rightarrow> [] | Some (v, p) \<Rightarrow> pad5 (int_string v) @ pad5 (int_string p))"
  have e: "list_all is_digit e \<and> (case ids of None \<Rightarrow> e = [] | Some (v, p) \<Rightarrow> \<exists>x y. e = x @ y \<and> length x = 5 \<and> length y = 5 \<and>
       int (digits_value x 0) = v \<and> int (digits_value y 0) = p)"
  proof (cases ids)
    case (Some i)
    obtain v p where i: "i = (v, p)" by (cases i)
    with Some fits int_string_padded [of v 5] int_string_padded [of p 5] show ?thesis
      by (simp add: e_def manual_fits_def pad5_def)
        (rule exI [of _ "pad_start 5 CHR ''0'' (int_string v)"], rule exI [of _ "pad_start 5 CHR ''0'' (int_string p)"], simp)
  qed (simp add: e_def)
  have "manual_body disc pass (map_option (\<lambda>i. (fst i, Num (snd i))) ids) =
      int_string n1 @ pad5 (int_string n2) @ pad_start 4 CHR ''0'' (int_string n3) @ e"
    using manual_numbers(1) [OF r, of "ids \<noteq> None"] manual_numbers(2,3) [OF r]
    by (cases ids) (auto simp: manual_body_def e_def n1_def n2_def n3_def number_text_def split: prod.splits)
  moreover have "manual_parts disc pass ids (int_string n1) (pad5 (int_string n2))
      (pad_start 4 CHR ''0'' (int_string n3)) e"
    unfolding manual_parts_def n1_def [symmetric] n2_def [symmetric] n3_def [symmetric]
    using int_string_one [OF n1] int_string_padded [OF n2] int_string_padded [OF n3] e n1 n2 n3
    by (simp add: pad5_def)
  ultimately show ?thesis by blast
qed

definition manual_result :: "int \<Rightarrow> int \<Rightarrow> (int \<times> int) option \<Rightarrow> manual_data" where
  "manual_result disc pass ids = \<lparr>mdDiscriminator = None, mdShortDiscriminator = Some (disc div 256),
        mdPasscode = pass, mdVendorId = map_option fst ids, mdProductId = map_option (\<lambda>i. Num (snd i)) ids\<rparr>"

lemma manual_decode_parts:
  assumes fits: "manual_fits disc pass ids" and parts: "manual_parts disc pass ids a b c e"
  shows "\<exists>k. computeChecksum (a @ b @ c @ e) = Inr (Some k) \<and> checksum_text (Some k) = [digit_char k] \<and> is_digit (digit_char k) \<and>
    manual_decode (a @ b @ c @ e @ [digit_char k]) = Inr (manual_result disc pass ids)"
proof -
  have r: "0 \<le> disc" "disc \<le> 4095" "0 \<le> pass" "pass < 134217728" using fits by (simp_all add: manual_fits_def)
  have h: "0 \<le> disc div 1024" "disc div 1024 < 4" "0 \<le> disc div 256 mod 4" "disc div 256 mod 4 < 4"
    using r by simp_all
  have l: "length a = 1" "length b = 5" "length c = 4" using parts by (simp_all add: manual_parts_def)
  have len: "length (a @ b @ c @ e) = (if ids = None then 10 else 20)"
    using parts by (cases ids) (auto simp: manual_parts_def)
  have "list_all is_digit (a @ b @ c @ e)" using parts by (simp only: manual_parts_def)
  then obtain k where k: "computeChecksum (a @ b @ c @ e) = Inr (Some k)" "is_digit (digit_char k)"
      "checksum_text (Some k) = [digit_char k]"
    and dec: "manual_decode ((a @ b @ c @ e) @ [digit_char k]) =
       (let encoded = (a @ b @ c @ e) @ [digit_char k]; first = parse_digits encoded 0 1;
            result = \<lparr>mdDiscriminator = None,
              mdShortDiscriminator = Some (js_or (js_shl (js_and first 3) 2) (js_and (js_shr (parse_digits encoded 1 6) 14) 3)),
              mdPasscode = js_or (js_and (parse_digits encoded 1 6) 0x3fff) (js_shl (parse_digits encoded 6 10) 14),
              mdVendorId = None, mdProductId = None\<rparr>
        in if js_and first (js_shl 1 2) \<noteq> 0 then
             and_then (VendorId (parse_digits encoded 10 15)) (\<lambda>vendorId.
               Inr (result\<lparr>mdVendorId := Some vendorId,
                 mdProductId := Some (if length (a @ b @ c @ e) = 10 then NaN else Num (parse_digits encoded 15 20))\<rparr>))
           else Inr result)"
    using manual_decode_checked [of "a @ b @ c @ e"] len by (auto split: if_splits)
  have ap: "(a @ b @ c @ e) @ [digit_char k] = a @ b @ c @ e @ [digit_char k]" by simp
  have p: "parse_digits (a @ b @ c @ e @ [digit_char k]) 0 1 = disc div 1024 + (if ids \<noteq> None then 4 else 0)"
    "parse_digits (a @ b @ c @ e @ [digit_char k]) 1 6 = (disc div 256 mod 4) * 16384 + pass mod 16384"
    "parse_digits (a @ b @ c @ e @ [digit_char k]) 6 10 = pass div 16384"
    using parse_digits_parts(1-3) [OF l, of "e @ [digit_char k]"] parts by (simp_all only: manual_parts_def)
  have bits: "js_or (js_shl (js_and (disc div 1024 + (if ids \<noteq> None then 4 else 0)) 3) 2)
        (js_and (js_shr ((disc div 256 mod 4) * 16384 + pass mod 16384) 14) 3) = disc div 256"
    "js_or (js_and ((disc div 256 mod 4) * 16384 + pass mod 16384) 0x3fff) (js_shl (pass div 16384) 14) = pass"
    "js_and (disc div 1024 + (if ids \<noteq> None then 4 else 0)) (js_shl 1 2) \<noteq> 0 \<longleftrightarrow> ids \<noteq> None"
    by (rule short_discriminator_bits passcode_bits vendor_flag; use r h in simp)+
  have "manual_decode (a @ b @ c @ e @ [digit_char k]) = Inr (manual_result disc pass ids)"
  proof (cases ids)
    case None
    then show ?thesis using dec unfolding ap Let_def p bits by (simp add: manual_result_def)
  next
    case (Some i)
    obtain v q where i: "i = (v, q)" by (cases i)
    with Some fits have v: "0 \<le> v" "v \<le> 0xfff4" by (simp_all add: manual_fits_def)
    from parts Some i obtain x y where x: "e = x @ y" "length x = 5" "length y = 5"
      "int (digits_value x 0) = v" "int (digits_value y 0) = q" by (auto simp: manual_parts_def)
    have "parse_digits (a @ b @ c @ e @ [digit_char k]) 10 15 = v" "parse_digits (a @ b @ c @ e @ [digit_char k]) 15 20 = q"
      using parse_digits_parts(4,5) [OF l x(2), of "y @ [digit_char k]"] parse_digits_parts(5) [OF l x(2,3), of "[digit_char k]"] x
      by simp_all
    then show ?thesis
      using dec Some i v len unfolding ap Let_def p bits by (simp add: manual_result_def VendorId_def)
  qed
  with k show ?thesis by auto
qed

lemma manual_roundtrip_raw:
  assumes fits: "manual_fits disc pass ids"
  shows "\<exists>code. manual_encode \<lparr>mdDiscriminator = Some disc, mdShortDiscriminator = sd, mdPasscode = pass,
        mdVendorId = map_option fst ids, mdProductId = map_option (\<lambda>i. Num (snd i)) ids\<rparr> = Inr code \<and>
      list_all is_digit code \<and> length code = (if ids = None then 11 else 21) \<and>
      manual_decode code = Inr (manual_result disc pass ids)"
proof -
  obtain a b c e where body: "manual_body disc pass (map_option (\<lambda>i. (fst i, Num (snd i))) ids) = a @ b @ c @ e"
    and parts: "manual_parts disc pass ids a b c e"
    using manual_body_parts [OF fits] by blast
  obtain k where k: "computeChecksum (a @ b @ c @ e) = Inr (Some k)" "checksum_text (Some k) = [digit_char k]"
    "is_digit (digit_char k)" "manual_decode (a @ b @ c @ e @ [digit_char k]) = Inr (manual_result disc pass ids)"
    using manual_decode_parts [OF fits parts] by blast
  have "manual_encode \<lparr>mdDiscriminator = Some disc, mdShortDiscriminator = sd, mdPasscode = pass,
        mdVendorId = map_option fst ids, mdProductId = map_option (\<lambda>i. Num (snd i)) ids\<rparr> = Inr (a @ b @ c @ e @ [digit_char k])"
    using body k fits by (cases ids) (auto simp: manual_encode_def manual_fits_def Let_def)
  with k parts show ?thesis
    by (intro exI [of _ "a @ b @ c @ e @ [digit_char k]"]) (auto simp: manual_parts_def split: option.splits)
qed

subsection \<open>The QR code payload: proofs\<close>

lemma qr_schema_good: "good_schema QrCodeDataSchema" "byteArrayLength QrCodeDataSchema = 11"
  by (simp_all add: good_schema_def QrCodeDataSchema_def BitField_def BitFieldEnum_def byteArrayLength_def)

definition qr_good :: "qr_data \<Rightarrow> bool" where
  "qr_good d \<longleftrightarrow> good_values QrCodeDataSchema (qrFields d) \<and> dom (qrFields d) = fst ` set QrCodeDataSchema \<and>
     (case qrTlvData d of None \<Rightarrow> True | Some t \<Rightarrow> t \<noteq> [] \<and> length t mod 3 \<noteq> 1)"

lemma map_of_the:
  "dom m = fst ` set sch \<Longrightarrow> map_of (map (\<lambda>(name, r). (name, the (m name))) sch) = m"
proof (rule ext)
  fix x assume d: "dom m = fst ` set sch"
  have "map_of (map (\<lambda>(name, r). (name, the (m name))) sch) x = (if x \<in> fst ` set sch then Some (the (m x)) else None)"
    by (induction sch) auto
  moreover have "x \<in> fst ` set sch \<longleftrightarrow> m x \<noteq> None" using d by (simp add: domIff flip: d)
  ultimately show "map_of (map (\<lambda>(name, r). (name, the (m name))) sch) x = m x" by auto
qed

lemma qr_decode_payload_encoded:
  assumes "qr_good d"
  shows "qr_decode_payload (base38_encode (qr_payload d)) = Inr d"
proof -
  have g: "good_values QrCodeDataSchema (qrFields d)" and dm: "dom (qrFields d) = fst ` set QrCodeDataSchema"
    using assms by (simp_all add: qr_good_def)
  define b where "b = bytearray_encode QrCodeDataSchema (qrFields d)"
  have l: "length b = 11"
    using length_bytearray_encode [OF qr_schema_good(1) g] by (simp add: b_def qr_schema_good)
  have dec: "bytearray_decode QrCodeDataSchema b = Inr (map (\<lambda>(name, r). (name, the (qrFields d name))) QrCodeDataSchema)"
    unfolding b_def bytearray_decode_def
    using bytearray_field_back [OF qr_schema_good(1) g] length_bytearray_encode [OF qr_schema_good(1) g] by auto
  have p: "qr_payload d = b @ (case qrTlvData d of None \<Rightarrow> [] | Some t \<Rightarrow> t)" by (simp add: qr_payload_def b_def)
  have "length (qr_payload d) mod 3 \<noteq> 0"
    using assms l by (auto simp: p qr_good_def split: option.splits) presburger+
  then have "base38_decode (base38_encode (qr_payload d)) = Inr (qr_payload d)"
    by (simp add: base38_decode_encode)
  then show ?thesis
    using assms l dec map_of_the [OF dm]
    by (auto simp: qr_decode_payload_def p qr_good_def split: option.splits)
qed

subsection \<open>Properties\<close>

text \<open>Base 38: decoding what was encoded returns the bytes, unless their number is a multiple of
  three: then the decoder rejects the text, although it is a valid encoding.\<close>

theorem base38_roundtrip:
  "base38_decode (base38_encode bytes) = (if length bytes mod 3 = 0 then Inl UnexpectedDataError else Inr bytes)"
  by (rule base38_decode_encode)

text \<open>C22: Round trip of manual pairing codes: a device's data encodes to 11 or 21 digits, and decoding them
  returns the upper four bits of the discriminator, the passcode and both identifiers.\<close>

theorem manual_code_roundtrip:
  assumes "manual_fits disc pass ids"
  shows "\<exists>code. manual_encode \<lparr>mdDiscriminator = Some disc, mdShortDiscriminator = sd, mdPasscode = pass,
        mdVendorId = map_option fst ids, mdProductId = map_option (\<lambda>i. Num (snd i)) ids\<rparr> = Inr code \<and>
      list_all is_digit code \<and> length code = (if ids = None then 11 else 21) \<and>
      manual_decode code = Inr (manual_result disc pass ids)"
  by (rule manual_roundtrip_raw [OF assms])

lemma manual_code_roundtrip_witness:
  "\<exists>code. manual_encode \<lparr>mdDiscriminator = Some 3840, mdShortDiscriminator = None, mdPasscode = 20202021,
        mdVendorId = Some 0xfff1, mdProductId = Some (Num 0x8000)\<rparr> = Inr code \<and>
      list_all is_digit code \<and> length code = 21 \<and>
      manual_decode code = Inr (manual_result 3840 20202021 (Some (0xfff1, 0x8000)))"
  using manual_code_roundtrip [of 3840 20202021 "Some (0xfff1, 0x8000)" None] by (simp add: manual_fits_def)

text \<open>C13: The check digit: when an accepted pairing code has one digit mistyped, or two neighbouring
  different digits swapped, the code is rejected.\<close>

theorem manual_code_detects_typos:
  assumes "manual_decode code = Inr d" "one_typo (filter is_digit code) (filter is_digit code')"
  shows "manual_decode code' = Inl UnexpectedDataError"
  using one_typo_detected [OF _ _ assms(2)] manual_decode_valid [OF assms(1)]
  by (intro manual_decode_invalid) (auto simp: one_typo_length [OF assms(2)] list_all_iff)

lemma sample_checksum: "computeChecksum ''3497011233'' = Inr (Some 2)"
  by code_simp

lemma sample_accepted: "\<exists>d. manual_decode ''3497-011-2332'' = Inr d"
  by (simp add: manual_decode_def Let_def is_digit_def parse_digit_def sample_checksum parse_digits_def js_ops)

lemma manual_code_detects_typos_witness:
  "(\<exists>d. manual_decode ''3497-011-2332'' = Inr d) \<and> manual_decode ''3497-011-2323'' = Inl UnexpectedDataError"
proof -
  obtain d where d: "manual_decode ''3497-011-2332'' = Inr d" using sample_accepted by blast
  have "''34970112332'' = ''349701123'' @ [CHR ''3'', CHR ''2''] @ []"
    "''34970112323'' = ''349701123'' @ [CHR ''2'', CHR ''3''] @ []" "CHR ''3'' \<noteq> CHR ''2''" by simp_all
  then have "one_typo ''34970112332'' ''34970112323''" unfolding one_typo_def by blast
  then have "one_typo (filter is_digit ''3497-011-2332'') (filter is_digit ''3497-011-2323'')"
    by (simp add: is_digit_def)
  with manual_code_detects_typos [OF d] d show ?thesis by blast
qed

text \<open>C26: Round trip of QR codes: a payload list whose fields fit and whose TLV data does not have a length of
  one more than a multiple of three is returned by decoding the text it was encoded to.\<close>

theorem qr_code_roundtrip:
  assumes "ds \<noteq> []" "\<forall>d\<in>set ds. qr_good d"
  shows "\<exists>code. qr_encode ds = Inr code \<and> qr_decode code = Inr ds"
proof -
  let ?texts = "map (\<lambda>d. base38_encode (qr_payload d)) ds"
  have "\<forall>x\<in>set ?texts. CHR ''*'' \<notin> set x" using base38_encode_alphabet alphabet_facts(3) by fastforce
  then have s: "js_split CHR ''*'' (js_join ''*'' ?texts) = ?texts" using assms(1) by (intro js_split_join) simp_all
  have "map_res qr_decode_payload ?texts = Inr ds"
    using assms(2) by (induction ds) (simp_all add: qr_decode_payload_encoded)
  with s assms(1) show ?thesis by (simp add: qr_encode_def qr_decode_def)
qed

definition sample_qr :: qr_data where
  "sample_qr = \<lparr>qrFields = [''version'' \<mapsto> NumBits 0, ''vendorId'' \<mapsto> NumBits 0xfff1, ''productId'' \<mapsto> NumBits 0x8000,
     ''flowType'' \<mapsto> NumBits 0, ''discoveryCapabilities'' \<mapsto> NumBits 4, ''discriminator'' \<mapsto> NumBits 3840,
     ''passcode'' \<mapsto> NumBits 20202021], qrTlvData = Some [21, 24]\<rparr>"

lemma qr_code_roundtrip_witness: "\<exists>code. qr_encode [sample_qr] = Inr code \<and> qr_decode code = Inr [sample_qr]"
proof (rule qr_code_roundtrip)
  show "\<forall>d\<in>set [sample_qr]. qr_good d"
    by (auto simp: sample_qr_def qr_good_def good_values_def good_value_def QrCodeDataSchema_def BitField_def BitFieldEnum_def
        split: if_splits)
qed simp

end
