(* ===== verification/JsEncoding.thy ===== *)
theory JsEncoding
  imports BytesIO
begin

text \<open>
  The conversions of the language between strings and UTF-8 (\<open>TextEncoder\<close>, \<open>TextDecoder\<close>) and
  between the two IEEE 754 formats (\<open>getFloat32\<close>, \<open>setFloat32\<close>), as \<open>DataReader\<close>, \<open>DataWriter\<close> and
  \<open>Bytes.fromString\<close> use them.  A string is its UTF-16 code units; a number that is not an integer
  is its 64-bit pattern.
\<close>

subsection \<open>UTF-16 and UTF-8\<close>

type_synonym js_string = "16 word list"

definition high_surrogate :: "nat \<Rightarrow> bool" where "high_surrogate u \<longleftrightarrow> 0xD800 \<le> u \<and> u \<le> 0xDBFF"
definition low_surrogate :: "nat \<Rightarrow> bool" where "low_surrogate u \<longleftrightarrow> 0xDC00 \<le> u \<and> u \<le> 0xDFFF"

text \<open>A surrogate without its partner becomes U+FFFD.\<close>

fun code_points :: "js_string \<Rightarrow> nat list" where
  "code_points [] = []"
| "code_points [u] = [if high_surrogate (unat u) \<or> low_surrogate (unat u) then 0xFFFD else unat u]"
| "code_points (u # v # us) =
     (if high_surrogate (unat u) \<and> low_surrogate (unat v)
      then (0x10000 + (unat u - 0xD800) * 0x400 + (unat v - 0xDC00)) # code_points us
      else (if high_surrogate (unat u) \<or> low_surrogate (unat u) then 0xFFFD else unat u) # code_points (v # us))"

definition utf16 :: "nat \<Rightarrow> js_string" where
  "utf16 c = (if c < 0x10000 then [of_nat c]
     else [of_nat (0xD800 + (c - 0x10000) div 0x400), of_nat (0xDC00 + (c - 0x10000) mod 0x400)])"

definition utf8 :: "nat \<Rightarrow> byte list" where
  "utf8 c =
     (if c < 0x80 then [of_nat c]
      else if c < 0x800 then [of_nat (0xC0 + c div 64), of_nat (0x80 + c mod 64)]
      else if c < 0x10000 then
        [of_nat (0xE0 + c div 4096), of_nat (0x80 + c div 64 mod 64), of_nat (0x80 + c mod 64)]
      else
        [of_nat (0xF0 + c div 262144), of_nat (0x80 + c div 4096 mod 64), of_nat (0x80 + c div 64 mod 64),
         of_nat (0x80 + c mod 64)])"

definition text_encode :: "js_string \<Rightarrow> byte list" where
  "text_encode s = concat (map utf8 (code_points s))"

text \<open>
  The UTF-8 decoder of the Encoding Standard: the bytes still needed, the code point so far and the
  range of the next byte.  A byte outside the range ends the sequence with U+FFFD and is read again.
\<close>

function utf8_decode :: "nat \<Rightarrow> nat \<Rightarrow> nat \<Rightarrow> nat \<Rightarrow> byte list \<Rightarrow> nat list" where
  "utf8_decode needed cp lower upper [] = (if needed = 0 then [] else [0xFFFD])"
| "utf8_decode needed cp lower upper (w # bs) =
     (let b = unat w
      in if needed = 0 then
           (if b \<le> 0x7F then b # utf8_decode 0 0 0x80 0xBF bs
            else if 0xC2 \<le> b \<and> b \<le> 0xDF then utf8_decode 1 (b - 0xC0) 0x80 0xBF bs
            else if 0xE0 \<le> b \<and> b \<le> 0xEF then
              utf8_decode 2 (b - 0xE0) (if b = 0xE0 then 0xA0 else 0x80) (if b = 0xED then 0x9F else 0xBF) bs
            else if 0xF0 \<le> b \<and> b \<le> 0xF4 then
              utf8_decode 3 (b - 0xF0) (if b = 0xF0 then 0x90 else 0x80) (if b = 0xF4 then 0x8F else 0xBF) bs
            else 0xFFFD # utf8_decode 0 0 0x80 0xBF bs)
         else if b < lower \<or> upper < b then 0xFFFD # utf8_decode 0 0 0x80 0xBF (w # bs)
         else if needed = 1 then (cp * 64 + (b - 0x80)) # utf8_decode 0 0 0x80 0xBF bs
         else utf8_decode (needed - 1) (cp * 64 + (b - 0x80)) 0x80 0xBF bs)"
  by pat_completeness auto
termination
  by (relation "measure (\<lambda>(needed, _, _, _, bs). 2 * length bs + (if needed = 0 then 0 else 1))") auto

text \<open>A leading byte order mark is dropped.\<close>

definition text_decode :: "byte list \<Rightarrow> js_string" where
  "text_decode bs =
     (let bs = (if take 3 bs = [0xEF, 0xBB, 0xBF] then drop 3 bs else bs)
      in concat (map utf16 (utf8_decode 0 0 0x80 0xBF bs)))"

subsection \<open>IEEE 754\<close>

text \<open>A pattern as sign, exponent field and fraction field.\<close>

definition double_parts :: "64 word \<Rightarrow> bool \<times> int \<times> int" where
  "double_parts w = (let n = uint w in (n div 2 ^ 63 = 1, n div 2 ^ 52 mod 2048, n mod 2 ^ 52))"

definition single_parts :: "32 word \<Rightarrow> bool \<times> int \<times> int" where
  "single_parts w = (let n = uint w in (n div 2 ^ 31 = 1, n div 2 ^ 23 mod 256, n mod 2 ^ 23))"

definition double_pattern :: "bool \<Rightarrow> int \<Rightarrow> int \<Rightarrow> 64 word" where
  "double_pattern s e m = word_of_int ((if s then 2 ^ 63 else 0) + e * 2 ^ 52 + m)"

text \<open>\<open>getFloat32\<close>: the single as a double.\<close>

definition widen :: "32 word \<Rightarrow> 64 word" where
  "widen w =
     (case single_parts w of (s, e, m) \<Rightarrow>
        if e = 255 then double_pattern s 2047 (m * 2 ^ 29)
        else if e = 0 then
          (if m = 0 then double_pattern s 0 0
           else let k = bit_width m - 1
                in double_pattern s (int k + 874) ((m - 2 ^ k) * 2 ^ (52 - k)))
        else double_pattern s (e + 896) (m * 2 ^ 29))"

text \<open>
  \<open>setFloat32\<close>: rounded to the nearest single, ties to even.  A finite double is \<open>f * 2 ^ (x - 1075)\<close>;
  the quantum of the single next to it is \<open>2 ^ q\<close>, and the pattern of \<open>g * 2 ^ q\<close> is
  \<open>(q + 149) * 2 ^ 23 + g\<close>, also where rounding reaches the next exponent.
\<close>

definition narrow :: "64 word \<Rightarrow> 32 word" where
  "narrow d =
     (case double_parts d of (s, e, m) \<Rightarrow>
        word_of_int ((if s then 2 ^ 31 else 0) +
          (if e = 2047 then 255 * 2 ^ 23 + (if m = 0 then 0 else max (2 ^ 22) (m div 2 ^ 29))
           else
             let x = max e 1;
                 f = (if e = 0 then m else 2 ^ 52 + m);
                 q = max (x - 1046) (- 149);
                 g = round_half_even f (2 ^ nat (q - (x - 1075)))
             in min ((q + 149) * 2 ^ 23 + g) (255 * 2 ^ 23))))"

text \<open>The pattern of an integer that a number holds exactly.\<close>

definition double_of_int :: "int \<Rightarrow> 64 word" where
  "double_of_int n =
     (if n = 0 then 0
      else let k = bit_width \<bar>n\<bar> - 1;
               f = (if k \<le> 52 then \<bar>n\<bar> * 2 ^ (52 - k) else \<bar>n\<bar> div 2 ^ (k - 52))
           in double_pattern (n < 0) (int k + 1023) (f - 2 ^ 52))"

text \<open>Truncation of a double, and its comparison with an integer; \<open>NaN\<close> compares with nothing.\<close>

definition double_finite :: "64 word \<Rightarrow> bool" where
  "double_finite d \<longleftrightarrow> fst (snd (double_parts d)) \<noteq> 2047"

definition double_nan :: "64 word \<Rightarrow> bool" where
  "double_nan d \<longleftrightarrow> \<not> double_finite d \<and> snd (snd (double_parts d)) \<noteq> 0"

definition double_scaled :: "64 word \<Rightarrow> int \<times> int" where
  "double_scaled d =
     (case double_parts d of (s, e, m) \<Rightarrow>
        ((if s then - 1 else 1) * (if e = 0 then m else 2 ^ 52 + m), max e 1 - 1075))"

definition double_trunc :: "64 word \<Rightarrow> int" where
  "double_trunc d =
     (if \<not> double_finite d then 0
      else case double_scaled d of (f, x) \<Rightarrow>
        if 0 \<le> x then f * 2 ^ nat x else sgn f * (\<bar>f\<bar> div 2 ^ nat (- x)))"

definition double_less_int :: "64 word \<Rightarrow> int \<Rightarrow> bool" where
  "double_less_int d n =
     (if double_nan d then False
      else if \<not> double_finite d then fst (double_parts d)
      else case double_scaled d of (f, x) \<Rightarrow>
        if 0 \<le> x then f * 2 ^ nat x < n else f < n * 2 ^ nat (- x))"

definition int_less_double :: "int \<Rightarrow> 64 word \<Rightarrow> bool" where
  "int_less_double n d =
     (if double_nan d then False
      else if \<not> double_finite d then \<not> fst (double_parts d)
      else case double_scaled d of (f, x) \<Rightarrow>
        if 0 \<le> x then n < f * 2 ^ nat x else n * 2 ^ nat (- x) < f)"

subsection \<open>The reads and writes that use them\<close>

definition readUtf8String :: "int \<Rightarrow> data_reader \<Rightarrow> js_string \<times> data_reader" where
  "readUtf8String len r = (case readByteArray len r of (bs, r') \<Rightarrow> (text_decode bs, r'))"

definition readFloat :: "data_reader \<Rightarrow> (64 word \<times> data_reader) res" where
  "readFloat r = and_then (read_uint 4 r) (\<lambda>(v, r'). Inr (widen (word_of_int v), r'))"

definition readDouble :: "data_reader \<Rightarrow> (64 word \<times> data_reader) res" where
  "readDouble r = and_then (read_uint 8 r) (\<lambda>(v, r'). Inr (word_of_int v, r'))"

definition writeFloat :: "64 word \<Rightarrow> data_writer \<Rightarrow> data_writer" where
  "writeFloat d = write_int 4 (uint (narrow d))"

definition writeDouble :: "64 word \<Rightarrow> data_writer \<Rightarrow> data_writer" where
  "writeDouble d = write_int 8 (uint d)"

subsection \<open>UTF-8: proofs\<close>

definition scalar :: "nat \<Rightarrow> bool" where
  "scalar c \<longleftrightarrow> c < 0x110000 \<and> \<not> (0xD800 \<le> c \<and> c \<le> 0xDFFF)"

lemma unat_byte [simp]: "n < 256 \<Longrightarrow> unat (of_nat n :: byte) = n"
  by (simp add: unat_of_nat)

lemma unat_unit [simp]: "n < 65536 \<Longrightarrow> unat (of_nat n :: 16 word) = n"
  by (simp add: unat_of_nat)

lemma base64_parts:
  "(c::nat) = (c div 64) * 64 + c mod 64"
  "c div 64 = (c div 4096) * 64 + c div 64 mod 64"
  "c div 4096 = (c div 262144) * 64 + c div 4096 mod 64"
proof -
  have e: "c div 4096 = c div 64 div 64" "c div 262144 = c div 4096 div 64"
    using div_mult2_eq [of c 64 64] div_mult2_eq [of c 4096 64] by simp_all
  show "c = (c div 64) * 64 + c mod 64" by (simp add: div_mult_mod_eq)
  show "c div 64 = (c div 4096) * 64 + c div 64 mod 64" unfolding e(1) by (simp add: div_mult_mod_eq)
  show "c div 4096 = (c div 262144) * 64 + c div 4096 mod 64" unfolding e(2) by (simp add: div_mult_mod_eq)
qed

lemma utf8_two:
  assumes "0x80 \<le> c" "c < 0x800"
  shows "utf8_decode 0 0 0x80 0xBF (utf8 c @ bs) = c # utf8_decode 0 0 0x80 0xBF bs"
proof -
  define a d where "a = c div 64" and "d = c mod 64"
  have r: "2 \<le> a" "a < 32" "d < 64" using assms by (simp_all add: a_def d_def less_eq_div_iff_mult_less_eq)
  have c: "c = a * 64 + d" using base64_parts(1) [of c] by (simp add: a_def d_def)
  have "utf8 c = [of_nat (0xC0 + a), of_nat (0x80 + d)]" using assms by (simp add: utf8_def a_def d_def)
  then show ?thesis using r by (simp add: c Let_def del: of_nat_add)
qed

lemma utf8_three:
  assumes "0x800 \<le> c" "c < 0x10000" "\<not> (0xD800 \<le> c \<and> c \<le> 0xDFFF)"
  shows "utf8_decode 0 0 0x80 0xBF (utf8 c @ bs) = c # utf8_decode 0 0 0x80 0xBF bs"
proof -
  define a b d where "a = c div 4096" and "b = c div 64 mod 64" and "d = c mod 64"
  have r: "a < 16" "b < 64" "d < 64" using assms by (simp_all add: a_def b_def d_def)
  have c: "c = (a * 64 + b) * 64 + d"
    using base64_parts(1,2) [of c] by (simp add: a_def b_def d_def)
  have lo: "a = 0 \<Longrightarrow> 32 \<le> b" "a = 13 \<Longrightarrow> b < 32" using assms(1,3) r c by auto
  have "utf8 c = [of_nat (0xE0 + a), of_nat (0x80 + b), of_nat (0x80 + d)]"
    using assms by (simp add: utf8_def a_def b_def d_def)
  then show ?thesis using r lo by (simp add: c Let_def del: of_nat_add) (auto simp: algebra_simps)
qed

lemma utf8_four:
  assumes "0x10000 \<le> c" "c < 0x110000"
  shows "utf8_decode 0 0 0x80 0xBF (utf8 c @ bs) = c # utf8_decode 0 0 0x80 0xBF bs"
proof -
  define a b d e where "a = c div 262144" and "b = c div 4096 mod 64" and "d = c div 64 mod 64" and "e = c mod 64"
  have r: "a < 5" "b < 64" "d < 64" "e < 64" using assms by (simp_all add: a_def b_def d_def e_def)
  have c: "c = ((a * 64 + b) * 64 + d) * 64 + e"
    using base64_parts [of c] by (simp add: a_def b_def d_def e_def)
  have lo: "a = 0 \<Longrightarrow> 16 \<le> b" "a = 4 \<Longrightarrow> b < 16" using assms r c by auto
  have "utf8 c = [of_nat (0xF0 + a), of_nat (0x80 + b), of_nat (0x80 + d), of_nat (0x80 + e)]"
    using assms by (simp add: utf8_def a_def b_def d_def e_def)
  then show ?thesis using r lo by (simp add: c Let_def del: of_nat_add) (auto simp: algebra_simps)
qed

lemma utf8_decode_utf8: "scalar c \<Longrightarrow> utf8_decode 0 0 0x80 0xBF (utf8 c @ bs) = c # utf8_decode 0 0 0x80 0xBF bs"
proof -
  assume s: "scalar c"
  consider "c < 0x80" | "0x80 \<le> c" "c < 0x800" | "0x800 \<le> c" "c < 0x10000" | "0x10000 \<le> c" by linarith
  then show ?thesis
  proof cases
    case 1
    then show ?thesis by (simp add: utf8_def)
  qed (use s utf8_two utf8_three utf8_four in \<open>simp_all add: scalar_def\<close>)
qed

lemma utf8_decode_all:
  "\<forall>c\<in>set cs. scalar c \<Longrightarrow> utf8_decode 0 0 0x80 0xBF (concat (map utf8 cs)) = cs"
  by (induction cs) (simp_all add: utf8_decode_utf8)

text \<open>A string is well formed when every surrogate has its partner.\<close>

fun paired :: "js_string \<Rightarrow> bool" where
  "paired [] \<longleftrightarrow> True"
| "paired [u] \<longleftrightarrow> \<not> (high_surrogate (unat u) \<or> low_surrogate (unat u))"
| "paired (u # v # us) \<longleftrightarrow>
     (if high_surrogate (unat u) \<and> low_surrogate (unat v) then paired us
      else \<not> (high_surrogate (unat u) \<or> low_surrogate (unat u)) \<and> paired (v # us))"

lemma unit_bound: "unat (u :: 16 word) < 65536"
  using unsigned_less [of u] by simp

lemma unit_scalar: "\<not> (high_surrogate (unat u) \<or> low_surrogate (unat u)) \<Longrightarrow> scalar (unat (u :: 16 word))"
  using unit_bound [of u] by (auto simp: high_surrogate_def low_surrogate_def scalar_def)

lemma surrogate_pair:
  assumes "high_surrogate (unat u)" "low_surrogate (unat v)"
  defines "c \<equiv> 0x10000 + (unat u - 0xD800) * 0x400 + (unat v - 0xDC00)"
  shows "scalar c" "utf16 c = [u, v]"
proof -
  define a b where "a = unat u - 0xD800" and "b = unat v - 0xDC00"
  have r: "a < 1024" "b < 1024" "unat u = 0xD800 + a" "unat v = 0xDC00 + b"
    using assms(1,2) unfolding a_def b_def high_surrogate_def low_surrogate_def by arith+
  have c: "c = 0x10000 + (a * 1024 + b)" by (simp add: c_def a_def b_def)
  show "scalar c" using r by (simp add: c scalar_def)
  have "(of_nat (0xD800 + a) :: 16 word) = u" "(of_nat (0xDC00 + b) :: 16 word) = v"
    unfolding r(3,4) [symmetric] by simp_all
  then show "utf16 c = [u, v]" using r(1,2) by (simp add: c utf16_def del: of_nat_add)
qed

lemma code_points_paired:
  "paired s \<Longrightarrow> (\<forall>c\<in>set (code_points s). scalar c) \<and> concat (map utf16 (code_points s)) = s"
proof (induction s rule: code_points.induct)
  case (2 u)
  then show ?case using unit_scalar [of u] unit_bound [of u] by (auto simp: utf16_def)
next
  case (3 u v us)
  show ?case
  proof (cases "high_surrogate (unat u) \<and> low_surrogate (unat v)")
    case True
    with 3 show ?thesis using surrogate_pair [of u v] by simp
  next
    case False
    with 3 show ?thesis using unit_scalar [of u] unit_bound [of u] by (auto simp: utf16_def)
  qed
qed simp

lemma text_decode_encode:
  assumes "paired s" "take 1 s \<noteq> [0xFEFF]"
  shows "text_decode (text_encode s) = s"
proof -
  note cs = code_points_paired [OF assms(1)]
  have all: "utf8_decode 0 0 0x80 0xBF (text_encode s) = code_points s"
    unfolding text_encode_def using cs by (intro utf8_decode_all) blast
  have "take 3 (text_encode s) \<noteq> [0xEF, 0xBB, 0xBF]"
  proof
    assume "take 3 (text_encode s) = [0xEF, 0xBB, 0xBF]"
    then obtain bs where "text_encode s = 0xEF # 0xBB # 0xBF # bs"
      by (metis append_Cons append_Nil append_take_drop_id)
    with all have "code_points s = 0xFEFF # utf8_decode 0 0 0x80 0xBF bs" by simp
    with cs have "s = 0xFEFF # concat (map utf16 (utf8_decode 0 0 0x80 0xBF bs))" by (simp add: utf16_def)
    with assms(2) show False by simp
  qed
  with all cs show ?thesis by (simp add: text_decode_def)
qed

subsection \<open>Singles and doubles: proofs\<close>

lemma bit_width_bounds: "0 < n \<Longrightarrow> 2 ^ (bit_width n - 1) \<le> n \<and> n < 2 ^ bit_width n \<and> 0 < bit_width n"
proof (induction n rule: bit_width.induct)
  case (1 n)
  show ?case
  proof (cases "n = 1")
    case True
    then show ?thesis by (simp add: bit_width.simps)
  next
    case False
    with "1.prems" have n: "1 < n" "0 < n div 2" by simp_all
    have ih: "2 ^ (bit_width (n div 2) - 1) \<le> n div 2" "n div 2 < 2 ^ bit_width (n div 2)" "0 < bit_width (n div 2)"
      using "1.IH" n by simp_all
    have w: "bit_width n = Suc (bit_width (n div 2))" using n by (simp add: bit_width.simps [of n])
    have e: "(2::int) ^ bit_width (n div 2) = 2 * 2 ^ (bit_width (n div 2) - 1)"
      using ih(3) by (simp add: power_eq_if)
    have "2 * (n div 2) \<le> n" "n < 2 * (n div 2) + 2" by simp_all
    with ih e w show ?thesis by simp
  qed
qed

lemma round_half_even_exact: "0 < d \<Longrightarrow> round_half_even (a * d) d = a"
  by (simp add: round_half_even_def)

definition single_nan :: "32 word \<Rightarrow> bool" where
  "single_nan w \<longleftrightarrow> (case single_parts w of (s, e, m) \<Rightarrow> e = 255 \<and> m \<noteq> 0)"

lemma double_parts_pattern:
  assumes "0 \<le> e" "e < 2048" "0 \<le> m" "m < 2 ^ 52"
  shows "double_parts (double_pattern s e m) = (s, e, m)"
proof -
  define n where "n = (if s then 2 ^ 63 else 0) + e * 2 ^ 52 + m"
  have "0 \<le> n" "n < 2 ^ 64" using assms by (auto simp: n_def)
  then have u: "uint (double_pattern s e m) = n"
    unfolding double_pattern_def n_def [symmetric] uint_word_of_int by simp
  have e: "n = m + ((if s then 2048 else 0) + e) * 2 ^ 52" by (simp add: n_def algebra_simps)
  have m: "n mod 2 ^ 52 = m" unfolding e mod_mult_self1 using assms by simp
  have "n div 2 ^ 52 = ((if s then 2048 else 0) + e) + m div 2 ^ 52" unfolding e by (rule div_mult_self1) simp
  then have d: "n div 2 ^ 52 = (if s then 2048 else 0) + e" using assms by simp
  have "n div 2 ^ 63 = n div 2 ^ 52 div 2048" by (simp add: zdiv_zmult2_eq [symmetric])
  moreover have "(2048 + e) div 2048 = 1" using assms div_add_self1 [of 2048 e] by simp
  ultimately have "n div 2 ^ 63 = (if s then 1 else 0)" unfolding d using assms by (cases s) simp_all
  with m d have "n div 2 ^ 52 = (if s then 2048 else 0) + e" "n mod 2 ^ 52 = m" "n div 2 ^ 63 = (if s then 1 else 0)"
    by simp_all
  then show ?thesis using assms by (simp add: double_parts_def u)
qed

lemma single_parts_pattern:
  "single_parts w = (s, e, m) \<Longrightarrow>
   w = word_of_int ((if s then 2 ^ 31 else 0) + e * 2 ^ 23 + m) \<and> 0 \<le> e \<and> e < 256 \<and> 0 \<le> m \<and> m < 2 ^ 23"
proof -
  assume a: "single_parts w = (s, e, m)"
  define n where "n = uint w"
  have r: "0 \<le> n" "n < 2 ^ 32" using uint_lt2p [of w] by (simp_all add: n_def)
  have p: "s = (n div 2 ^ 31 = 1)" "e = n div 2 ^ 23 mod 256" "m = n mod 2 ^ 23"
    using a by (auto simp: single_parts_def n_def Let_def)
  have "n = (n div 2 ^ 23) * 2 ^ 23 + m" unfolding p(3) by (rule div_mult_mod_eq [symmetric])
  moreover have "n div 2 ^ 31 = n div 2 ^ 23 div 256" by (simp add: zdiv_zmult2_eq [symmetric])
  then have "n div 2 ^ 23 = (n div 2 ^ 31) * 256 + e" unfolding p(2) by (simp add: div_mult_mod_eq)
  moreover have "n div 2 ^ 31 = 0 \<or> n div 2 ^ 31 = 1" using r by auto
  ultimately have "n = (if s then 2 ^ 31 else 0) + e * 2 ^ 23 + m" using p(1) by auto
  moreover have "w = word_of_int n" by (simp add: n_def)
  moreover have "0 \<le> e" "e < 256" "0 \<le> m" "m < 2 ^ 23" by (simp_all add: p)
  ultimately show ?thesis by simp
qed

lemma narrow_pattern:
  assumes "0 \<le> e" "e < 2047" "0 \<le> m" "m < 2 ^ 52"
    and g: "(if e = 0 then m else 2 ^ 52 + m) = g * 2 ^ nat (max (max e 1 - 1046) (- 149) - (max e 1 - 1075))"
    and b: "(max (max e 1 - 1046) (- 149) + 149) * 2 ^ 23 + g < 255 * 2 ^ 23"
  shows "narrow (double_pattern s e m) =
     word_of_int ((if s then 2 ^ 31 else 0) + ((max (max e 1 - 1046) (- 149) + 149) * 2 ^ 23 + g))"
proof -
  have "double_parts (double_pattern s e m) = (s, e, m)" using assms(1-4) by (intro double_parts_pattern) simp_all
  moreover have "round_half_even (if e = 0 then m else 2 ^ 52 + m)
      (2 ^ nat (max (max e 1 - 1046) (- 149) - (max e 1 - 1075))) = g"
    unfolding g by (rule round_half_even_exact) simp
  ultimately show ?thesis using b assms(2) unfolding narrow_def Let_def by (simp only: prod.case min_absorb1 less_imp_le if_False less_irrefl) auto
qed

lemma narrow_widen:
  assumes "\<not> single_nan w"
  shows "narrow (widen w) = w"
proof -
  obtain s e m where w: "single_parts w = (s, e, m)" by (cases "single_parts w")
  note p = single_parts_pattern [OF w]
  have r: "0 \<le> e" "e < 256" "0 \<le> m" "m < 2 ^ 23" using p by blast+
  consider "e = 255" "m = 0" | "e = 0" "m = 0" | "e = 0" "0 < m" | "0 < e" "e < 255"
    using p assms w by (fastforce simp: single_nan_def)
  then show ?thesis
  proof cases
    case 1
    have "double_parts (double_pattern s 2047 0) = (s, 2047, 0)" by (rule double_parts_pattern) simp_all
    then have n: "narrow (double_pattern s 2047 0) = word_of_int ((if s then 2 ^ 31 else 0) + 255 * 2 ^ 23)"
      by (simp add: narrow_def)
    have "widen w = double_pattern s 2047 0" using 1 by (simp add: widen_def w)
    then show ?thesis unfolding n using p 1 n by simp
  next
    case 2
    then have "widen w = double_pattern s 0 0" by (simp add: widen_def w)
    then show ?thesis using p 2 narrow_pattern [of 0 0 0 s] by simp
  next
    case 3
    define k where "k = bit_width m - 1"
    have "bit_width m = Suc k" using bit_width_bounds [OF 3(2)] by (simp add: k_def)
    then have k: "2 ^ k \<le> m" "m < 2 * 2 ^ k" using bit_width_bounds [OF 3(2)] by simp_all
    have "(2::int) ^ k < 2 ^ 23" using k(1) r(4) by (rule le_less_trans)
    then have k23: "k < 23" by (rule power_less_imp_less_exp [rotated]) simp
    have "k + (52 - k) = 52" using k23 by simp
    then have e52: "(2::int) ^ k * 2 ^ (52 - k) = 2 ^ 52" by (simp only: power_add [symmetric])
    have mant: "0 \<le> (m - 2 ^ k) * 2 ^ (52 - k)" "(m - 2 ^ k) * 2 ^ (52 - k) < 2 ^ 52"
    proof -
      show "0 \<le> (m - 2 ^ k) * 2 ^ (52 - k)" using k by simp
      have "(m - 2 ^ k) * 2 ^ (52 - k) < 2 ^ k * 2 ^ (52 - k)" using k by (intro mult_strict_right_mono) simp_all
      then show "(m - 2 ^ k) * 2 ^ (52 - k) < 2 ^ 52" unfolding e52 .
    qed
    have q: "max (max (int k + 874) 1 - 1046) (- 149) = - 149" using k23 by simp
    have f: "2 ^ 52 + (m - 2 ^ k) * 2 ^ (52 - k) = m * 2 ^ (52 - k)"
      unfolding left_diff_distrib e52 by simp
    have n: "nat (- 149 - (max (int k + 874) 1 - 1075)) = 52 - k" using k23 by simp
    have "narrow (double_pattern s (int k + 874) ((m - 2 ^ k) * 2 ^ (52 - k))) =
        word_of_int ((if s then 2 ^ 31 else 0) + ((max (max (int k + 874) 1 - 1046) (- 149) + 149) * 2 ^ 23 + m))"
    proof (rule narrow_pattern)
      show "(if int k + 874 = 0 then (m - 2 ^ k) * 2 ^ (52 - k) else 2 ^ 52 + (m - 2 ^ k) * 2 ^ (52 - k)) =
          m * 2 ^ nat (max (max (int k + 874) 1 - 1046) (- 149) - (max (int k + 874) 1 - 1075))"
        unfolding q n using f by simp
      show "(max (max (int k + 874) 1 - 1046) (- 149) + 149) * 2 ^ 23 + m < 255 * 2 ^ 23"
        unfolding q using r by simp
    qed (use k23 mant in simp_all)
    then have "narrow (double_pattern s (int k + 874) ((m - 2 ^ k) * 2 ^ (52 - k))) =
        word_of_int ((if s then 2 ^ 31 else 0) + m)" unfolding q by simp
    moreover have "widen w = double_pattern s (int k + 874) ((m - 2 ^ k) * 2 ^ (52 - k))"
      using 3 by (simp add: widen_def w Let_def k_def)
    ultimately show ?thesis using p 3 by simp
  next
    case 4
    have q: "max (max (e + 896) 1 - 1046) (- 149) = e - 150" using 4 by simp
    have n: "nat (e - 150 - (max (e + 896) 1 - 1075)) = 29" using 4 by simp
    have "narrow (double_pattern s (e + 896) (m * 2 ^ 29)) =
        word_of_int ((if s then 2 ^ 31 else 0) +
          ((max (max (e + 896) 1 - 1046) (- 149) + 149) * 2 ^ 23 + (2 ^ 23 + m)))"
    proof (rule narrow_pattern)
      show "(if e + 896 = 0 then m * 2 ^ 29 else 2 ^ 52 + m * 2 ^ 29) =
          (2 ^ 23 + m) * 2 ^ nat (max (max (e + 896) 1 - 1046) (- 149) - (max (e + 896) 1 - 1075))"
        unfolding q n using 4 by simp
      show "(max (max (e + 896) 1 - 1046) (- 149) + 149) * 2 ^ 23 + (2 ^ 23 + m) < 255 * 2 ^ 23"
        unfolding q using r 4 by simp
    qed (use r 4 in simp_all)
    then have "narrow (double_pattern s (e + 896) (m * 2 ^ 29)) =
        word_of_int ((if s then 2 ^ 31 else 0) + ((e - 150 + 149) * 2 ^ 23 + (2 ^ 23 + m)))" unfolding q .
    moreover have "widen w = double_pattern s (e + 896) (m * 2 ^ 29)" using 4 by (simp add: widen_def w)
    ultimately show ?thesis using p by (simp add: algebra_simps)
  qed
qed

subsection \<open>The reads on what the writes produced\<close>

lemma readUtf8String_encoded [codec_simps]:
  "l = int (length bs) \<Longrightarrow> readUtf8String l (rd pre (bs @ rest)) = (text_decode bs, rd (pre @ bs) rest)"
  by (simp add: readUtf8String_def readByteArray_rd)

lemma readDouble_written [codec_simps]:
  "readDouble (rd pre (le_bytes 8 (uint d) @ rest)) = Inr (d, rd (pre @ le_bytes 8 (uint d)) rest)"
proof -
  have "uint d < 256 ^ 8" using uint_lt2p [of d] by simp
  then show ?thesis by (simp add: readDouble_def read_uint_le_bytes)
qed

lemma readFloat_written [codec_simps]:
  "readFloat (rd pre (le_bytes 4 (uint w) @ rest)) = Inr (widen w, rd (pre @ le_bytes 4 (uint w)) rest)" for w :: "32 word"
proof -
  have "uint w < 256 ^ 4" using uint_lt2p [of w] by simp
  then show ?thesis by (simp add: readFloat_def read_uint_le_bytes)
qed

end
