(* ===== verification/TlvCodec.thy ===== *)
theory TlvCodec
  imports JsEncoding Bitmap
begin

text \<open>
  TLV elements as bytes, packages/types/src/tlv/TlvCodec.ts: control byte, tags, and primitive values
  with the length encoded in the type.  Values that the static types of the code exclude (a string
  where a number is expected) are refused with \<open>TypeError\<close>.
\<close>

subsection \<open>Types, lengths, tags and values\<close>

datatype tlv_length = OneByte | TwoBytes | FourBytes | EightBytes

definition length_code :: "tlv_length \<Rightarrow> int" where
  "length_code l = (case l of OneByte \<Rightarrow> 0 | TwoBytes \<Rightarrow> 1 | FourBytes \<Rightarrow> 2 | EightBytes \<Rightarrow> 3)"

definition length_of_code :: "int \<Rightarrow> tlv_length" where
  "length_of_code n = (if n = 0 then OneByte else if n = 1 then TwoBytes else if n = 2 then FourBytes else EightBytes)"

text \<open>\<open>OtherType\<close> carries the codes above \<open>EndOfContainer\<close>, which no element has.\<close>

datatype tlv_type_length =
    SignedInt tlv_length
  | UnsignedInt tlv_length
  | Boolean bool
  | Float tlv_length
  | Utf8String tlv_length
  | ByteString tlv_length
  | NullType
  | Structure
  | Array
  | List
  | EndOfContainer
  | OtherType int

definition type_code :: "tlv_type_length \<Rightarrow> int" where
  "type_code t =
     (case t of SignedInt _ \<Rightarrow> 0 | UnsignedInt _ \<Rightarrow> 0x04 | Boolean _ \<Rightarrow> 0x08 | Float _ \<Rightarrow> 0x0a
      | Utf8String _ \<Rightarrow> 0x0c | ByteString _ \<Rightarrow> 0x10 | NullType \<Rightarrow> 0x14 | Structure \<Rightarrow> 0x15 | Array \<Rightarrow> 0x16
      | List \<Rightarrow> 0x17 | EndOfContainer \<Rightarrow> 0x18 | OtherType n \<Rightarrow> n)"

record tlv_tag =
  tagProfile :: "int option"
  tagId :: "int option"

text \<open>The primitive values of the language; \<open>JFloat\<close> is a number that is not known to be an integer.\<close>

datatype tlv_prim =
    PUndefined
  | PNull
  | PBool bool
  | PNumber int
  | PBigInt int
  | PFloat "64 word"
  | PString js_string
  | PBytes "byte list"

definition ControlByteSchema :: bit_schema where
  "ControlByteSchema = [(''typeLength'', BitField 0 5), (''tagControl'', BitFieldEnum 5 3)]"

definition MATTER_COMMON_PROFILE :: int where "MATTER_COMMON_PROFILE = 0"

text \<open>Comparison of a number or bigint with an integer constant.\<close>

definition num_le :: "tlv_prim \<Rightarrow> int \<Rightarrow> bool" where
  "num_le v n =
     (case v of PNumber m \<Rightarrow> m \<le> n | PBigInt m \<Rightarrow> m \<le> n
      | PFloat d \<Rightarrow> \<not> double_nan d \<and> \<not> int_less_double n d | _ \<Rightarrow> False)"

definition num_ge :: "tlv_prim \<Rightarrow> int \<Rightarrow> bool" where
  "num_ge v n =
     (case v of PNumber m \<Rightarrow> n \<le> m | PBigInt m \<Rightarrow> n \<le> m
      | PFloat d \<Rightarrow> \<not> double_nan d \<and> \<not> double_less_int d n | _ \<Rightarrow> False)"

definition num_less :: "tlv_prim \<Rightarrow> int \<Rightarrow> bool" where
  "num_less v n =
     (case v of PNumber m \<Rightarrow> m < n | PBigInt m \<Rightarrow> m < n | PFloat d \<Rightarrow> double_less_int d n | _ \<Rightarrow> False)"

definition num_greater :: "tlv_prim \<Rightarrow> int \<Rightarrow> bool" where
  "num_greater v n =
     (case v of PNumber m \<Rightarrow> n < m | PBigInt m \<Rightarrow> n < m | PFloat d \<Rightarrow> int_less_double n d | _ \<Rightarrow> False)"

definition getUIntTlvLength :: "tlv_prim \<Rightarrow> tlv_length" where
  "getUIntTlvLength v =
     (if num_le v UINT8_MAX then OneByte
      else if num_le v UINT16_MAX then TwoBytes
      else if num_le v UINT32_MAX then FourBytes
      else EightBytes)"

definition getIntTlvLength :: "tlv_prim \<Rightarrow> tlv_length" where
  "getIntTlvLength v =
     (if num_greater v 0 then
        (if num_le v INT8_MAX then OneByte
         else if num_le v INT16_MAX then TwoBytes
         else if num_le v INT32_MAX then FourBytes
         else EightBytes)
      else
        (if num_ge v INT8_MIN then OneByte
         else if num_ge v INT16_MIN then TwoBytes
         else if num_ge v INT32_MIN then FourBytes
         else EightBytes))"

subsection \<open>Reading\<close>

definition control_field :: "string \<Rightarrow> int \<Rightarrow> int" where
  "control_field name ctrl = number_bits (map_of (bitmap_decode ControlByteSchema ctrl) name)"

definition readTag :: "int \<Rightarrow> data_reader \<Rightarrow> (tlv_tag option \<times> data_reader) res" where
  "readTag tagControl r =
     (if tagControl = 0 then Inr (None, r)
      else if tagControl = 1 then
        and_then (readUInt8 r) (\<lambda>(i, r). Inr (Some \<lparr>tagProfile = None, tagId = Some i\<rparr>, r))
      else if tagControl = 2 then
        and_then (readUInt16 r) (\<lambda>(i, r). Inr (Some \<lparr>tagProfile = Some MATTER_COMMON_PROFILE, tagId = Some i\<rparr>, r))
      else if tagControl = 3 then
        and_then (readUInt32 r) (\<lambda>(i, r). Inr (Some \<lparr>tagProfile = Some MATTER_COMMON_PROFILE, tagId = Some i\<rparr>, r))
      else if tagControl = 4 \<or> tagControl = 5 then Inl NotImplementedError
      else if tagControl = 6 then
        and_then (readUInt32 r) (\<lambda>(p, r). and_then (readUInt16 r) (\<lambda>(i, r).
          Inr (Some \<lparr>tagProfile = Some p, tagId = Some i\<rparr>, r)))
      else Inl NotImplementedError)"

definition parseTypeLength :: "int \<Rightarrow> tlv_type_length" where
  "parseTypeLength typeLength =
     (let len = length_of_code (js_and typeLength 0x03);
          ty = js_and typeLength 0xfc
      in if ty = 0x0c then Utf8String len
         else if ty = 0x10 then ByteString len
         else if ty = 0x00 then SignedInt len
         else if ty = 0x04 then UnsignedInt len
         else if ty = 0x08 then
           (case len of OneByte \<Rightarrow> Boolean False | TwoBytes \<Rightarrow> Boolean True
            | FourBytes \<Rightarrow> Float FourBytes | EightBytes \<Rightarrow> Float EightBytes)
         else if typeLength = 0x14 then NullType
         else if typeLength = 0x15 then Structure
         else if typeLength = 0x16 then Array
         else if typeLength = 0x17 then List
         else if typeLength = 0x18 then EndOfContainer
         else OtherType typeLength)"

definition codec_readTagType :: "data_reader \<Rightarrow> (tlv_tag option \<times> tlv_type_length \<times> data_reader) res" where
  "codec_readTagType r =
     and_then (readUInt8 r) (\<lambda>(ctrl, r).
     and_then (readTag (control_field ''tagControl'' ctrl) r) (\<lambda>(tag, r).
       Inr (tag, parseTypeLength (control_field ''typeLength'' ctrl), r)))"

definition read_length :: "tlv_length \<Rightarrow> data_reader \<Rightarrow> (int \<times> data_reader) res" where
  "read_length l r =
     (case l of OneByte \<Rightarrow> readUInt8 r | TwoBytes \<Rightarrow> readUInt16 r | FourBytes \<Rightarrow> readUInt32 r
      | EightBytes \<Rightarrow> and_then (readUInt64 r) (\<lambda>(n, r). Inr (toNumber n, r)))"

definition codec_readPrimitive :: "tlv_type_length \<Rightarrow> data_reader \<Rightarrow> (tlv_prim \<times> data_reader) res" where
  "codec_readPrimitive ty r =
     (case ty of
        SignedInt len \<Rightarrow>
          (case len of
             OneByte \<Rightarrow> and_then (readInt8 r) (\<lambda>(n, r). Inr (PNumber n, r))
           | TwoBytes \<Rightarrow> and_then (readInt16 r) (\<lambda>(n, r). Inr (PNumber n, r))
           | FourBytes \<Rightarrow> and_then (readInt32 r) (\<lambda>(n, r). Inr (PNumber n, r))
           | EightBytes \<Rightarrow> and_then (readInt64 r) (\<lambda>(n, r). Inr (PBigInt n, r)))
      | UnsignedInt len \<Rightarrow>
          (case len of
             OneByte \<Rightarrow> and_then (readUInt8 r) (\<lambda>(n, r). Inr (PNumber n, r))
           | TwoBytes \<Rightarrow> and_then (readUInt16 r) (\<lambda>(n, r). Inr (PNumber n, r))
           | FourBytes \<Rightarrow> and_then (readUInt32 r) (\<lambda>(n, r). Inr (PNumber n, r))
           | EightBytes \<Rightarrow> and_then (readUInt64 r) (\<lambda>(n, r). Inr (PBigInt n, r)))
      | Float len \<Rightarrow>
          (case len of
             FourBytes \<Rightarrow> and_then (readFloat r) (\<lambda>(d, r). Inr (PFloat d, r))
           | EightBytes \<Rightarrow> and_then (readDouble r) (\<lambda>(d, r). Inr (PFloat d, r))
           | _ \<Rightarrow> Inl UnexpectedDataError)
      | Utf8String len \<Rightarrow>
          and_then (read_length len r) (\<lambda>(n, r). case readUtf8String n r of (s, r) \<Rightarrow> Inr (PString s, r))
      | ByteString len \<Rightarrow>
          and_then (read_length len r) (\<lambda>(n, r). case readByteArray n r of (bs, r) \<Rightarrow> Inr (PBytes bs, r))
      | Boolean b \<Rightarrow> Inr (PBool b, r)
      | NullType \<Rightarrow> Inr (PNull, r)
      | _ \<Rightarrow> Inl UnexpectedDataError)"

subsection \<open>Writing\<close>

definition control_byte :: "int \<Rightarrow> int \<Rightarrow> int" where
  "control_byte tagControl typeLength =
     bitmap_encode ControlByteSchema [''tagControl'' \<mapsto> NumBits tagControl, ''typeLength'' \<mapsto> NumBits typeLength]"

definition written_code :: "tlv_type_length \<Rightarrow> int" where
  "written_code ty =
     (case ty of
        Utf8String l \<Rightarrow> js_or (type_code ty) (length_code l)
      | ByteString l \<Rightarrow> js_or (type_code ty) (length_code l)
      | SignedInt l \<Rightarrow> js_or (type_code ty) (length_code l)
      | UnsignedInt l \<Rightarrow> js_or (type_code ty) (length_code l)
      | Float l \<Rightarrow> js_or (type_code ty) (length_code l)
      | Boolean b \<Rightarrow> type_code ty + (if b then 1 else 0)
      | _ \<Rightarrow> type_code ty)"

definition tag_fields :: "tlv_tag option \<Rightarrow> int option \<times> int option" where
  "tag_fields tag = (case tag of None \<Rightarrow> (None, None) | Some t \<Rightarrow> (tagProfile t, tagId t))"

definition codec_writeTag :: "tlv_type_length \<Rightarrow> tlv_tag option \<Rightarrow> data_writer \<Rightarrow> data_writer res" where
  "codec_writeTag ty tag w =
     (let code = written_code ty
      in case tag_fields tag of
           (None, None) \<Rightarrow> Inr (writeUInt8 (control_byte 0 code) w)
         | (None, Some i) \<Rightarrow> Inr (writeUInt8 i (writeUInt8 (control_byte 1 code) w))
         | (Some p, None) \<Rightarrow> Inl UnexpectedDataError
         | (Some p, Some i) \<Rightarrow>
             if p = MATTER_COMMON_PROFILE then
               (if js_and i 0xffff0000 = 0
                then Inr (writeUInt16 i (writeUInt8 (control_byte 2 code) w))
                else Inr (writeUInt32 i (writeUInt8 (control_byte 3 code) w)))
             else
               (if js_and i 0xffff0000 = 0
                then Inr (writeUInt16 i (writeUInt32 p (writeUInt8 (control_byte 6 code) w)))
                else Inr (writeUInt32 i (writeUInt32 p (writeUInt8 (control_byte 7 code) w)))))"

definition getTagByteLength :: "tlv_tag option \<Rightarrow> int res" where
  "getTagByteLength tag =
     (case tag_fields tag of
        (None, None) \<Rightarrow> Inr 1
      | (None, Some i) \<Rightarrow> Inr 2
      | (Some p, None) \<Rightarrow> Inl UnexpectedDataError
      | (Some p, Some i) \<Rightarrow>
          if p = MATTER_COMMON_PROFILE then Inr (if js_and i 0xffff0000 = 0 then 3 else 5)
          else Inr (if js_and i 0xffff0000 = 0 then 7 else 9))"

text \<open>The numeric argument of a \<open>DataView\<close> setter: a double is truncated.\<close>

definition prim_int :: "tlv_prim \<Rightarrow> int res" where
  "prim_int v = (case v of PNumber n \<Rightarrow> Inr n | PBigInt n \<Rightarrow> Inr n | PFloat d \<Rightarrow> Inr (double_trunc d) | _ \<Rightarrow> Inl TypeError)"

text \<open>\<open>BigInt(number)\<close> throws for a number that is not an integer.\<close>

definition prim_bigint :: "tlv_prim \<Rightarrow> int res" where
  "prim_bigint v =
     (case v of
        PNumber n \<Rightarrow> Inr n
      | PBigInt n \<Rightarrow> Inr n
      | PFloat d \<Rightarrow>
          if double_finite d \<and> \<not> double_less_int d (double_trunc d) \<and> \<not> int_less_double (double_trunc d) d
          then Inr (double_trunc d) else Inl RangeError
      | _ \<Rightarrow> Inl TypeError)"

definition prim_double :: "tlv_prim \<Rightarrow> (64 word) res" where
  "prim_double v = (case v of PNumber n \<Rightarrow> Inr (double_of_int (toNumber n)) | PFloat d \<Rightarrow> Inr d | _ \<Rightarrow> Inl TypeError)"

definition writeUInt :: "tlv_length \<Rightarrow> tlv_prim \<Rightarrow> data_writer \<Rightarrow> data_writer res" where
  "writeUInt len v w =
     (case len of
        OneByte \<Rightarrow> and_then (prim_int v) (\<lambda>n. Inr (writeInt8 n w))
      | TwoBytes \<Rightarrow> and_then (prim_int v) (\<lambda>n. Inr (writeInt16 n w))
      | FourBytes \<Rightarrow> and_then (prim_int v) (\<lambda>n. Inr (writeInt32 n w))
      | EightBytes \<Rightarrow> and_then (prim_bigint v) (\<lambda>n. Inr (writeInt64 n w)))"

definition codec_writePrimitive :: "tlv_type_length \<Rightarrow> tlv_prim \<Rightarrow> data_writer \<Rightarrow> data_writer res" where
  "codec_writePrimitive ty v w =
     (case ty of
        SignedInt len \<Rightarrow> writeUInt len v w
      | UnsignedInt len \<Rightarrow>
          (case len of
             OneByte \<Rightarrow> and_then (prim_int v) (\<lambda>n. Inr (writeUInt8 n w))
           | TwoBytes \<Rightarrow> and_then (prim_int v) (\<lambda>n. Inr (writeUInt16 n w))
           | FourBytes \<Rightarrow> and_then (prim_int v) (\<lambda>n. Inr (writeUInt32 n w))
           | EightBytes \<Rightarrow> and_then (prim_bigint v) (\<lambda>n. Inr (writeUInt64 n w)))
      | Float len \<Rightarrow>
          (case len of
             FourBytes \<Rightarrow> and_then (prim_double v) (\<lambda>d. Inr (writeFloat d w))
           | EightBytes \<Rightarrow> and_then (prim_double v) (\<lambda>d. Inr (writeDouble d w))
           | _ \<Rightarrow> Inl UnexpectedDataError)
      | Utf8String len \<Rightarrow>
          (case v of
             PString s \<Rightarrow>
               (let data = text_encode s
                in and_then (writeUInt len (PNumber (int (length data))) w) (\<lambda>w. Inr (writeByteArray data w)))
           | _ \<Rightarrow> Inl TypeError)
      | ByteString len \<Rightarrow>
          (case v of
             PBytes bs \<Rightarrow> and_then (writeUInt len (PNumber (int (length bs))) w) (\<lambda>w. Inr (writeByteArray bs w))
           | _ \<Rightarrow> Inl TypeError)
      | Boolean _ \<Rightarrow> Inr w
      | _ \<Rightarrow> Inl UnexpectedDataError)"

definition getUIntByteLength :: "tlv_length \<Rightarrow> int" where
  "getUIntByteLength len = (case len of OneByte \<Rightarrow> 1 | TwoBytes \<Rightarrow> 2 | FourBytes \<Rightarrow> 4 | EightBytes \<Rightarrow> 8)"

definition getPrimitiveByteLength :: "tlv_type_length \<Rightarrow> tlv_prim \<Rightarrow> int res" where
  "getPrimitiveByteLength ty v =
     (case ty of
        SignedInt len \<Rightarrow> Inr (getUIntByteLength len)
      | UnsignedInt len \<Rightarrow> Inr (getUIntByteLength len)
      | Float len \<Rightarrow> Inr (getUIntByteLength len)
      | Utf8String len \<Rightarrow>
          (case v of PString s \<Rightarrow> Inr (getUIntByteLength len + int (length (text_encode s))) | _ \<Rightarrow> Inl TypeError)
      | ByteString len \<Rightarrow>
          (case v of PBytes bs \<Rightarrow> Inr (getUIntByteLength len + int (length bs)) | _ \<Rightarrow> Inl TypeError)
      | Boolean _ \<Rightarrow> Inr 0
      | _ \<Rightarrow> Inl UnexpectedDataError)"

subsection \<open>Elements and their bytes\<close>

record tlv_element =
  elTag :: "tlv_tag option"
  elType :: tlv_type_length
  elValue :: tlv_prim

text \<open>The types whose value follows the tag.\<close>

definition carries_value :: "tlv_type_length \<Rightarrow> bool" where
  "carries_value ty =
     (case ty of SignedInt _ \<Rightarrow> True | UnsignedInt _ \<Rightarrow> True | Float _ \<Rightarrow> True | Utf8String _ \<Rightarrow> True
      | ByteString _ \<Rightarrow> True | _ \<Rightarrow> False)"

definition width :: "tlv_length \<Rightarrow> nat" where
  "width l = (case l of OneByte \<Rightarrow> 1 | TwoBytes \<Rightarrow> 2 | FourBytes \<Rightarrow> 4 | EightBytes \<Rightarrow> 8)"

definition ok_tag :: "tlv_tag option \<Rightarrow> bool" where
  "ok_tag tag \<longleftrightarrow>
     (case tag of None \<Rightarrow> True
      | Some t \<Rightarrow>
          (case (tagProfile t, tagId t) of
             (None, Some i) \<Rightarrow> 0 \<le> i \<and> i < 256
           | (Some p, Some i) \<Rightarrow> 0 \<le> p \<and> p < 4294967296 \<and> 0 \<le> i \<and> (if p = 0 then i < 4294967296 else i < 65536)
           | _ \<Rightarrow> False))"

definition ok_type :: "tlv_type_length \<Rightarrow> bool" where
  "ok_type ty \<longleftrightarrow> (case ty of Float l \<Rightarrow> l = FourBytes \<or> l = EightBytes | OtherType _ \<Rightarrow> False | _ \<Rightarrow> True)"

definition ok_value :: "tlv_type_length \<Rightarrow> tlv_prim \<Rightarrow> bool" where
  "ok_value ty v \<longleftrightarrow>
     (case ty of
        SignedInt l \<Rightarrow>
          (case v of PNumber n \<Rightarrow> l \<noteq> EightBytes \<and> - (2 ^ (8 * width l - 1)) \<le> n \<and> n < 2 ^ (8 * width l - 1)
           | PBigInt n \<Rightarrow> l = EightBytes \<and> - (2 ^ 63) \<le> n \<and> n < 2 ^ 63 | _ \<Rightarrow> False)
      | UnsignedInt l \<Rightarrow>
          (case v of PNumber n \<Rightarrow> l \<noteq> EightBytes \<and> 0 \<le> n \<and> n < 256 ^ width l
           | PBigInt n \<Rightarrow> l = EightBytes \<and> 0 \<le> n \<and> n < 2 ^ 64 | _ \<Rightarrow> False)
      | Float l \<Rightarrow> (case v of PFloat d \<Rightarrow> l = EightBytes \<or> widen (narrow d) = d | _ \<Rightarrow> False)
      | Utf8String l \<Rightarrow>
          (case v of PString s \<Rightarrow> paired s \<and> take 1 s \<noteq> [0xFEFF] \<and>
             int (length (text_encode s)) < (if l = EightBytes then 2 ^ 53 else 256 ^ width l) | _ \<Rightarrow> False)
      | ByteString l \<Rightarrow>
          (case v of PBytes bs \<Rightarrow> int (length bs) < (if l = EightBytes then 2 ^ 53 else 256 ^ width l) | _ \<Rightarrow> False)
      | _ \<Rightarrow> True)"

definition ok_element :: "tlv_element \<Rightarrow> bool" where
  "ok_element e \<longleftrightarrow> ok_tag (elTag e) \<and> ok_type (elType e) \<and> ok_value (elType e) (elValue e)"

definition tag_bytes :: "tlv_type_length \<Rightarrow> tlv_tag option \<Rightarrow> byte list" where
  "tag_bytes ty tag =
     (case tag_fields tag of
        (None, Some i) \<Rightarrow> le_bytes 1 (32 + written_code ty) @ le_bytes 1 i
      | (Some p, Some i) \<Rightarrow>
          if p = 0 then
            (if i < 65536 then le_bytes 1 (64 + written_code ty) @ le_bytes 2 i
             else le_bytes 1 (96 + written_code ty) @ le_bytes 4 i)
          else le_bytes 1 (192 + written_code ty) @ le_bytes 4 p @ le_bytes 2 i
      | _ \<Rightarrow> le_bytes 1 (written_code ty))"

definition value_bytes :: "tlv_type_length \<Rightarrow> tlv_prim \<Rightarrow> byte list" where
  "value_bytes ty v =
     (case (ty, v) of
        (SignedInt l, PNumber n) \<Rightarrow> le_bytes (width l) n
      | (SignedInt l, PBigInt n) \<Rightarrow> le_bytes (width l) n
      | (UnsignedInt l, PNumber n) \<Rightarrow> le_bytes (width l) n
      | (UnsignedInt l, PBigInt n) \<Rightarrow> le_bytes (width l) n
      | (Float l, PFloat d) \<Rightarrow> if l = FourBytes then le_bytes 4 (uint (narrow d)) else le_bytes 8 (uint d)
      | (Utf8String l, PString s) \<Rightarrow> le_bytes (width l) (int (length (text_encode s))) @ text_encode s
      | (ByteString l, PBytes bs) \<Rightarrow> le_bytes (width l) (int (length bs)) @ bs
      | _ \<Rightarrow> [])"

definition element_bytes :: "tlv_element \<Rightarrow> byte list" where
  "element_bytes e = tag_bytes (elType e) (elTag e) @ value_bytes (elType e) (elValue e)"

subsection \<open>Writing and reading an element\<close>

lemma control_byte_eq: "0 \<le> t \<Longrightarrow> t < 8 \<Longrightarrow> 0 \<le> c \<Longrightarrow> c < 32 \<Longrightarrow> control_byte t c = t * 32 + c"
proof -
  assume r: "0 \<le> t" "t < 8" "0 \<le> c" "c < 32"
  have "js_shl t 5 = t * 2 ^ 5" "js_shl c 0 = c" "js_or 0 c = c"
    using r by (simp_all add: js_shl_def js_or_def)
  then show ?thesis
    using r js_or_add(2) [of t 5 c]
    by (simp add: control_byte_def bitmap_encode_def ControlByteSchema_def BitField_def BitFieldEnum_def number_bits_def)
qed

lemma control_field_eq:
  "0 \<le> n \<Longrightarrow> n < 256 \<Longrightarrow> control_field ''tagControl'' n = n div 32 \<and> control_field ''typeLength'' n = n mod 32"
proof -
  assume r: "0 \<le> n" "n < 256"
  have a: "n AND 31 = n mod 32" by (rule int_and_masks(5))
  have "n AND 224 = n div 32 * 32"
  proof -
    have "n AND 224 = push_bit 5 (take_bit 3 (drop_bit 5 n))"
    proof (rule bit_eqI)
      fix j
      have "bit (224::int) j \<longleftrightarrow> bit (push_bit 5 (mask 3 :: int)) j" by (simp add: mask_eq_exp_minus_1)
      then show "bit (n AND 224) j \<longleftrightarrow> bit (push_bit 5 (take_bit 3 (drop_bit 5 n))) j"
        by (auto simp: bit_and_iff bit_push_bit_iff_int bit_take_bit_iff bit_drop_bit_eq bit_mask_iff)
    qed
    moreover have "0 \<le> n div 32" "n div 32 < 8" using r by simp_all
    ultimately show ?thesis by (simp add: push_bit_eq_mult take_bit_eq_mod drop_bit_eq_div)
  qed
  with a r show ?thesis
    by (simp add: control_field_def bitmap_decode_def ControlByteSchema_def BitField_def BitFieldEnum_def
        number_bits_def number_mask_def js_shl_def js_and_def js_shr_def)
qed

text \<open>The types an element can have, one by one.\<close>

definition element_types :: "tlv_type_length list" where
  "element_types =
     (let ls = [OneByte, TwoBytes, FourBytes, EightBytes]
      in map SignedInt ls @ map UnsignedInt ls @ map Utf8String ls @ map ByteString ls @
         [Boolean False, Boolean True, Float FourBytes, Float EightBytes, NullType, Structure, Array, List, EndOfContainer])"

lemma ok_type_element_types: "ok_type ty \<Longrightarrow> ty \<in> set element_types"
proof -
  have l: "l = OneByte \<or> l = TwoBytes \<or> l = FourBytes \<or> l = EightBytes" for l by (cases l) simp_all
  assume "ok_type ty"
  then show ?thesis
    using l by (cases ty) (auto simp: ok_type_def element_types_def Let_def)
qed

lemma element_type_codes:
  "\<forall>ty\<in>set element_types. parseTypeLength (written_code ty) = ty \<and> 0 \<le> written_code ty \<and> written_code ty < 32"
  by code_simp

lemma written_code_range: "ok_type ty \<Longrightarrow> 0 \<le> written_code ty \<and> written_code ty < 32"
  using element_type_codes ok_type_element_types by blast

lemma parse_written: "ok_type ty \<Longrightarrow> parseTypeLength (written_code ty) = ty"
  using element_type_codes ok_type_element_types by blast

lemma high_bits:
  assumes "0 \<le> i" "i < 4294967296"
  shows "js_and i 0xffff0000 = 0 \<longleftrightarrow> i < 65536"
proof -
  have m: "bit (- 65536 :: int) j \<longleftrightarrow> 16 \<le> j" for j
  proof -
    have e: "(- 65536 :: int) = NOT (mask 16)" by (simp add: mask_eq_exp_minus_1 not_int_def)
    show ?thesis unfolding e bit_not_int_iff bit_mask_iff by auto
  qed
  have "js_and i 0xffff0000 = to_int32 i AND - 65536" by (simp add: js_and_def to_int32_def)
  also have "\<dots> = push_bit 16 (drop_bit 16 (to_int32 i))"
    by (rule bit_eqI) (auto simp: bit_and_iff m bit_push_bit_iff_int bit_drop_bit_eq)
  also have "\<dots> = (to_int32 i div 65536) * 65536" by (simp add: push_bit_eq_mult drop_bit_eq_div)
  finally have "js_and i 0xffff0000 = 0 \<longleftrightarrow> to_int32 i div 65536 = 0" by simp
  also have "\<dots> \<longleftrightarrow> 0 \<le> to_int32 i \<and> to_int32 i < 65536" by (auto simp: zdiv_eq_0_iff)
  also have "\<dots> \<longleftrightarrow> i < 65536"
  proof (cases "i < 2147483648")
    case False
    have "(i + 2147483648) mod 4294967296 = (i - 2147483648) mod 4294967296"
      using minus_mod_self2 [of "i + 2147483648" 4294967296] by simp
    then have "to_int32 i = i - 4294967296" using False assms by (simp add: to_int32_def)
    with False assms show ?thesis by simp
  qed (use assms in simp)
  finally show ?thesis .
qed

text \<open>The shapes a tag can have.\<close>

lemma ok_tag_cases:
  assumes "ok_tag tag"
  obtains (anonymous) "tag = None"
    | (context_tag) i where "tag = Some \<lparr>tagProfile = None, tagId = Some i\<rparr>" "0 \<le> i" "i < 256"
    | (common) i where "tag = Some \<lparr>tagProfile = Some 0, tagId = Some i\<rparr>" "0 \<le> i" "i < 4294967296"
    | (full) p i where "tag = Some \<lparr>tagProfile = Some p, tagId = Some i\<rparr>" "0 < p" "p < 4294967296" "0 \<le> i" "i < 65536"
proof (cases tag)
  case None
  then show ?thesis by (rule anonymous)
next
  case (Some t)
  obtain pr ti where t: "t = \<lparr>tagProfile = pr, tagId = ti\<rparr>" by (cases t)
  then show ?thesis
    using assms Some context_tag common full
    by (auto simp: ok_tag_def split: option.splits if_splits)
qed

lemma writeTag_written:
  assumes "wf_writer w" "ok_tag tag" "ok_type ty"
  shows "\<exists>w'. codec_writeTag ty tag w = Inr w' \<and> wf_writer w' \<and> written w' = written w @ tag_bytes ty tag"
  using assms(2) written_code_range [OF assms(3)]
  by (cases rule: ok_tag_cases)
    (simp_all add: codec_writeTag_def Let_def tag_fields_def tag_bytes_def control_byte_eq high_bits
      MATTER_COMMON_PROFILE_def write_defs writer_simps assms(1))

lemma control_read:
  "0 \<le> k \<Longrightarrow> k < 8 \<Longrightarrow> ok_type ty \<Longrightarrow>
   codec_readTagType (rd pre (le_bytes 1 (32 * k + written_code ty) @ rest)) =
   and_then (readTag k (rd (pre @ le_bytes 1 (32 * k + written_code ty)) rest)) (\<lambda>(tag, r). Inr (tag, ty, r))"
proof -
  assume a: "0 \<le> k" "k < 8" "ok_type ty"
  note c = written_code_range [OF a(3)]
  have e: "(32 * k + written_code ty) mod 256 = 32 * k + written_code ty"
    "(32 * k + written_code ty) div 32 = k" "(32 * k + written_code ty) mod 32 = written_code ty"
    "0 \<le> 32 * k + written_code ty" "32 * k + written_code ty < 256"
    using a c by simp_all
  show ?thesis
    using control_field_eq [OF e(4,5)] e(1-3)
    by (simp add: codec_readTagType_def readUInt8_def read_uint_le_bytes parse_written a(3))
qed

lemma readTagType_read:
  assumes "ok_tag tag" "ok_type ty"
  shows "codec_readTagType (rd pre (tag_bytes ty tag @ rest)) = Inr (tag, ty, rd (pre @ tag_bytes ty tag) rest)"
  using assms(1) control_read [OF _ _ assms(2), of 0] control_read [OF _ _ assms(2), of 1] control_read [OF _ _ assms(2), of 2]
    control_read [OF _ _ assms(2), of 3] control_read [OF _ _ assms(2), of 6]
  by (cases rule: ok_tag_cases)
    (auto simp: tag_bytes_def tag_fields_def readTag_def read_defs read_uint_le_bytes MATTER_COMMON_PROFILE_def)

lemma length_prefix:
  assumes "wf_writer w" "int n < (if l = EightBytes then 2 ^ 53 else 256 ^ width l)"
  shows "\<exists>w'. writeUInt l (PNumber (int n)) w = Inr w' \<and> wf_writer w' \<and> written w' = written w @ le_bytes (width l) (int n)"
  using assms by (cases l) (simp_all add: writeUInt_def prim_int_def prim_bigint_def width_def write_defs writer_simps)

lemma length_prefix_read:
  assumes "int n < (if l = EightBytes then 2 ^ 53 else 256 ^ width l)"
  shows "read_length l (rd pre (le_bytes (width l) (int n) @ rest)) = Inr (int n, rd (pre @ le_bytes (width l) (int n)) rest)"
  using assms by (cases l) (simp_all add: read_length_def width_def read_defs read_uint_le_bytes)

lemma writePrimitive_written:
  assumes "wf_writer w" "carries_value ty" "ok_type ty" "ok_value ty v"
  shows "\<exists>w'. codec_writePrimitive ty v w = Inr w' \<and> wf_writer w' \<and> written w' = written w @ value_bytes ty v"
proof (cases ty)
  case (SignedInt l)
  with assms show ?thesis
    by (cases l; cases v) (auto simp: codec_writePrimitive_def writeUInt_def ok_value_def width_def value_bytes_def
        prim_int_def prim_bigint_def write_defs writer_simps)
next
  case (UnsignedInt l)
  with assms show ?thesis
    by (cases l; cases v) (auto simp: codec_writePrimitive_def ok_value_def width_def value_bytes_def
        prim_int_def prim_bigint_def write_defs writer_simps)
next
  case (Float l)
  with assms show ?thesis
    by (cases l; cases v) (auto simp: codec_writePrimitive_def ok_value_def ok_type_def value_bytes_def
        prim_double_def writeFloat_def writeDouble_def writer_simps)
next
  case (Utf8String l)
  with assms obtain s where s: "v = PString s" "int (length (text_encode s)) < (if l = EightBytes then 2 ^ 53 else 256 ^ width l)"
    by (cases v) (auto simp: ok_value_def)
  from length_prefix [OF assms(1) s(2)] Utf8String s(1) show ?thesis
    by (auto simp: codec_writePrimitive_def value_bytes_def Let_def writer_simps)
next
  case (ByteString l)
  with assms obtain s where s: "v = PBytes s" "int (length s) < (if l = EightBytes then 2 ^ 53 else 256 ^ width l)"
    by (cases v) (auto simp: ok_value_def)
  from length_prefix [OF assms(1) s(2)] ByteString s(1) show ?thesis
    by (auto simp: codec_writePrimitive_def value_bytes_def Let_def writer_simps)
qed (use assms(2) in \<open>simp_all add: carries_value_def\<close>)

lemma readPrimitive_read:
  assumes "carries_value ty" "ok_type ty" "ok_value ty v"
  shows "codec_readPrimitive ty (rd pre (value_bytes ty v @ rest)) = Inr (v, rd (pre @ value_bytes ty v) rest)"
proof (cases ty)
  case (SignedInt l)
  with assms show ?thesis
    by (cases l; cases v) (auto simp: codec_readPrimitive_def ok_value_def width_def value_bytes_def
        readInt8_def readInt16_def readInt32_def readInt64_def read_int_le_bytes)
next
  case (UnsignedInt l)
  with assms show ?thesis
    by (cases l; cases v) (auto simp: codec_readPrimitive_def ok_value_def width_def value_bytes_def
        read_defs read_uint_le_bytes)
next
  case (Float l)
  with assms show ?thesis
    by (cases l; cases v) (auto simp: codec_readPrimitive_def ok_value_def ok_type_def value_bytes_def
        readFloat_written readDouble_written)
next
  case (Utf8String l)
  with assms obtain s where s: "v = PString s" "int (length (text_encode s)) < (if l = EightBytes then 2 ^ 53 else 256 ^ width l)"
    "paired s" "take 1 s \<noteq> [0xFEFF]"
    by (cases v) (auto simp: ok_value_def)
  with Utf8String length_prefix_read [OF s(2), of pre "text_encode s @ rest"] show ?thesis
    by (simp add: codec_readPrimitive_def value_bytes_def readUtf8String_encoded text_decode_encode)
next
  case (ByteString l)
  with assms obtain s where s: "v = PBytes s" "int (length s) < (if l = EightBytes then 2 ^ 53 else 256 ^ width l)"
    by (cases v) (auto simp: ok_value_def)
  with ByteString length_prefix_read [OF s(2), of pre "s @ rest"] show ?thesis
    by (simp add: codec_readPrimitive_def value_bytes_def readByteArray_rd)
qed (use assms(1) in \<open>simp_all add: carries_value_def\<close>)

end
