(* ===== verification/TlvSchema.thy ===== *)
theory TlvSchema
  imports TlvCodec JsText
begin

text \<open>
  The TLV schemas, packages/types/src/tlv: TlvSchema.ts (writers and readers), TlvNumber.ts,
  TlvString.ts, TlvBoolean.ts, TlvVoid.ts, TlvNoArguments.ts, TlvNullable.ts, TlvArray.ts,
  TlvObject.ts, TlvWrapper.ts and TlvAny.ts.  The class hierarchy is one datatype with a constructor
  for each class; a method is one function by cases on it.
\<close>

subsection \<open>Values\<close>

text \<open>A stream of TLV elements is an array of elements; only \<open>AnySchema\<close> meets it as a value.\<close>

datatype js_value =
    Prim tlv_prim
  | JArray "js_value list"
  | JObject "(string \<times> js_value) list"
  | JStream "tlv_element list"

abbreviation Undef :: js_value where "Undef \<equiv> Prim PUndefined"
abbreviation Null :: js_value where "Null \<equiv> Prim PNull"

text \<open>\<open>value[name]\<close>: reading a property of \<open>undefined\<close> or \<open>null\<close> throws.\<close>

definition get_property :: "string \<Rightarrow> js_value \<Rightarrow> js_value res" where
  "get_property name v =
     (case v of
        Prim PUndefined \<Rightarrow> Inl TypeError
      | Prim PNull \<Rightarrow> Inl TypeError
      | JObject ps \<Rightarrow> Inr (case map_of ps name of None \<Rightarrow> Undef | Some x \<Rightarrow> x)
      | _ \<Rightarrow> Inr Undef)"

definition object_keys :: "js_value \<Rightarrow> string list res" where
  "object_keys v =
     (case v of
        Prim PUndefined \<Rightarrow> Inl TypeError
      | Prim PNull \<Rightarrow> Inl TypeError
      | JObject ps \<Rightarrow> Inr (obj_keys ps)
      | _ \<Rightarrow> Inr [])"

subsection \<open>Writers and readers\<close>

datatype tlv_writer = ByteArrayWriter data_writer | ArrayWriter "tlv_element list"

definition writeTag :: "tlv_type_length \<Rightarrow> tlv_tag option \<Rightarrow> tlv_writer \<Rightarrow> tlv_writer res" where
  "writeTag ty tag w =
     (case w of
        ByteArrayWriter dw \<Rightarrow> and_then (codec_writeTag ty tag dw) (\<lambda>dw. Inr (ByteArrayWriter dw))
      | ArrayWriter es \<Rightarrow> Inr (ArrayWriter (es @ [\<lparr>elTag = tag, elType = ty, elValue = PUndefined\<rparr>])))"

definition writePrimitive :: "tlv_type_length \<Rightarrow> tlv_prim \<Rightarrow> tlv_writer \<Rightarrow> tlv_writer res" where
  "writePrimitive ty v w =
     (case w of
        ByteArrayWriter dw \<Rightarrow> and_then (codec_writePrimitive ty v dw) (\<lambda>dw. Inr (ByteArrayWriter dw))
      | ArrayWriter es \<Rightarrow>
          if es = [] then Inl TypeError
          else Inr (ArrayWriter (butlast es @ [last es\<lparr>elValue := v\<rparr>])))"

datatype tlv_reader = ByteArrayReader data_reader | ArrayReader "tlv_element list" int

text \<open>Past its last element the array reader yields \<open>undefined\<close>, which the callers destructure.\<close>

definition array_element :: "tlv_element list \<Rightarrow> int \<Rightarrow> tlv_element option" where
  "array_element es i = (if 0 \<le> i \<and> i < int (length es) then Some (es ! nat i) else None)"

definition readTagType :: "tlv_reader \<Rightarrow> (tlv_tag option \<times> tlv_type_length \<times> tlv_reader) res" where
  "readTagType r =
     (case r of
        ByteArrayReader dr \<Rightarrow> and_then (codec_readTagType dr) (\<lambda>(tag, ty, dr). Inr (tag, ty, ByteArrayReader dr))
      | ArrayReader es i \<Rightarrow>
          (case array_element es (i + 1) of
             None \<Rightarrow> Inl TypeError
           | Some e \<Rightarrow> Inr (elTag e, elType e, ArrayReader es (i + 1))))"

definition readPrimitive :: "tlv_type_length \<Rightarrow> tlv_reader \<Rightarrow> (tlv_prim \<times> tlv_reader) res" where
  "readPrimitive ty r =
     (case r of
        ByteArrayReader dr \<Rightarrow> and_then (codec_readPrimitive ty dr) (\<lambda>(v, dr). Inr (v, ByteArrayReader dr))
      | ArrayReader es i \<Rightarrow>
          (case array_element es i of None \<Rightarrow> Inl TypeError | Some e \<Rightarrow> Inr (elValue e, r)))"

subsection \<open>Schemas\<close>

datatype numeric_type = UnsignedNumber | SignedNumber | FloatNumber

datatype length_provider = IntLength | UIntLength | ConstLength tlv_length

text \<open>
  \<open>NumericSchema True\<close> is \<open>TlvNumberSchema\<close>; the flag of \<open>StringSchema\<close> tells text from bytes, the
  first flag of \<open>ObjectSchema\<close> a structure from a list.  The functions of a wrapper may throw.
\<close>

datatype tlv_schema =
    NumericSchema bool numeric_type length_provider "int option" "int option"
  | StringSchema bool int int
  | BooleanSchema
  | VoidSchema
  | NoArgumentsSchema
  | AnySchema
  | NullableSchema tlv_schema
  | ArraySchema tlv_schema int int
  | ObjectSchema "tlv_field list" bool bool
  | TlvWrapper tlv_schema "js_value \<Rightarrow> js_value res" "js_value \<Rightarrow> js_value res"
and tlv_field =
    TlvFieldDef (fieldName: string) (fieldId: int) (fieldSchema: tlv_schema) (isOptional: bool) (isRepeated: bool)
      (fallback: "js_value option") (minLength: "int option") (maxLength: "int option")

definition TlvFloat :: tlv_schema where
  "TlvFloat = NumericSchema True FloatNumber (ConstLength FourBytes)
     (Some (- 340282346638528859811704183484516925440)) (Some 340282346638528859811704183484516925440)"

definition TlvDouble :: tlv_schema where
  "TlvDouble = NumericSchema True FloatNumber (ConstLength EightBytes) None None"

definition TlvInt8 :: tlv_schema where
  "TlvInt8 = NumericSchema True SignedNumber IntLength (Some INT8_MIN) (Some INT8_MAX)"
definition TlvInt16 :: tlv_schema where
  "TlvInt16 = NumericSchema True SignedNumber IntLength (Some INT16_MIN) (Some INT16_MAX)"
definition TlvInt32 :: tlv_schema where
  "TlvInt32 = NumericSchema True SignedNumber IntLength (Some INT32_MIN) (Some INT32_MAX)"
definition TlvInt64 :: tlv_schema where
  "TlvInt64 = NumericSchema False SignedNumber IntLength (Some INT64_MIN) (Some INT64_MAX)"
definition TlvUInt8 :: tlv_schema where
  "TlvUInt8 = NumericSchema True UnsignedNumber UIntLength (Some 0) (Some UINT8_MAX)"
definition TlvUInt16 :: tlv_schema where
  "TlvUInt16 = NumericSchema True UnsignedNumber UIntLength (Some 0) (Some UINT16_MAX)"
definition TlvUInt24 :: tlv_schema where
  "TlvUInt24 = NumericSchema True UnsignedNumber UIntLength (Some 0) (Some UINT24_MAX)"
definition TlvUInt32 :: tlv_schema where
  "TlvUInt32 = NumericSchema True UnsignedNumber UIntLength (Some 0) (Some UINT32_MAX)"
definition TlvUInt64 :: tlv_schema where
  "TlvUInt64 = NumericSchema False UnsignedNumber UIntLength (Some 0) (Some UINT64_MAX)"

text \<open>\<open>bound\<close> of the numeric and of the string schemas.\<close>

definition bound_numeric :: "int option \<Rightarrow> int option \<Rightarrow> tlv_schema \<Rightarrow> tlv_schema" where
  "bound_numeric mn mx S =
     (case S of NumericSchema b t p mn0 mx0 \<Rightarrow> NumericSchema b t p (maxValue mn mn0) (minValue mx mx0) | _ \<Rightarrow> S)"

definition TlvPercent :: tlv_schema where "TlvPercent = bound_numeric None (Some 100) TlvUInt8"
definition TlvPercent100ths :: tlv_schema where "TlvPercent100ths = bound_numeric None (Some 10000) TlvUInt16"

definition new_StringSchema :: "bool \<Rightarrow> int \<Rightarrow> int \<Rightarrow> tlv_schema res" where
  "new_StringSchema utf mn mx = (if mn < 0 then Inl InternalError else Inr (StringSchema utf mn mx))"

definition bound_string :: "int option \<Rightarrow> int option \<Rightarrow> int option \<Rightarrow> tlv_schema \<Rightarrow> tlv_schema res" where
  "bound_string mn mx len S =
     (case S of
        StringSchema utf mn0 mx0 \<Rightarrow>
          new_StringSchema utf
            (case len of Some l \<Rightarrow> l | None \<Rightarrow> the (maxValue (Some mn0) mn))
            (case len of Some l \<Rightarrow> l | None \<Rightarrow> the (minValue (Some mx0) mx))
      | _ \<Rightarrow> Inr S)"

definition TlvByteString :: tlv_schema where "TlvByteString = StringSchema False 0 1024"
definition TlvString :: tlv_schema where "TlvString = StringSchema True 0 1024"

definition TlvArray :: "tlv_schema \<Rightarrow> int option \<Rightarrow> int option \<Rightarrow> int option \<Rightarrow> tlv_schema" where
  "TlvArray S mn mx len =
     ArraySchema S
       (case len of Some l \<Rightarrow> l | None \<Rightarrow> (case mn of Some m \<Rightarrow> m | None \<Rightarrow> 0))
       (case len of Some l \<Rightarrow> l | None \<Rightarrow> (case mx of Some m \<Rightarrow> m | None \<Rightarrow> 65535))"

definition TlvField :: "string \<Rightarrow> int \<Rightarrow> tlv_schema \<Rightarrow> js_value option \<Rightarrow> tlv_field" where
  "TlvField name i S fb = TlvFieldDef name i S False False fb None None"

definition TlvOptionalField :: "string \<Rightarrow> int \<Rightarrow> tlv_schema \<Rightarrow> tlv_field" where
  "TlvOptionalField name i S = TlvFieldDef name i S True False None None None"

definition TlvRepeatedField :: "string \<Rightarrow> int \<Rightarrow> tlv_schema \<Rightarrow> int option \<Rightarrow> int option \<Rightarrow> int option \<Rightarrow> tlv_field" where
  "TlvRepeatedField name i S mn mx len =
     TlvFieldDef name i S False True None (case len of Some l \<Rightarrow> Some l | None \<Rightarrow> mn) (case len of Some l \<Rightarrow> Some l | None \<Rightarrow> mx)"

definition TlvOptionalRepeatedField :: "string \<Rightarrow> int \<Rightarrow> tlv_schema \<Rightarrow> int option \<Rightarrow> tlv_field" where
  "TlvOptionalRepeatedField name i S mx = TlvFieldDef name i S True True None (Some 0) mx"

definition FabricIndex_id :: int where "FabricIndex_id = 254"

definition new_ObjectSchema :: "tlv_field list \<Rightarrow> bool \<Rightarrow> bool \<Rightarrow> tlv_schema res" where
  "new_ObjectSchema fds structure allow =
     (if structure \<and> (\<exists>f\<in>set fds. isRepeated f) then Inl PlainError else Inr (ObjectSchema fds structure allow))"

definition isFabricScoped :: "tlv_field list \<Rightarrow> bool" where
  "isFabricScoped fds \<longleftrightarrow> (\<exists>f\<in>set fds. fieldId f = FabricIndex_id)"

subsection \<open>Encoding\<close>

record encoding_options =
  forWriteInteraction :: bool
  allowMissingFields :: bool

definition no_options :: encoding_options where
  "no_options = \<lparr>forWriteInteraction = False, allowMissingFields = False\<rparr>"

definition context_tag :: "int \<Rightarrow> tlv_tag option" where
  "context_tag i = Some \<lparr>tagProfile = None, tagId = Some i\<rparr>"

definition provided_length :: "length_provider \<Rightarrow> tlv_prim \<Rightarrow> tlv_length" where
  "provided_length p v = (case p of IntLength \<Rightarrow> getIntTlvLength v | UIntLength \<Rightarrow> getUIntTlvLength v | ConstLength l \<Rightarrow> l)"

definition numeric_type_length :: "numeric_type \<Rightarrow> tlv_length \<Rightarrow> tlv_type_length" where
  "numeric_type_length t l = (case t of UnsignedNumber \<Rightarrow> UnsignedInt l | SignedNumber \<Rightarrow> SignedInt l | FloatNumber \<Rightarrow> Float l)"

text \<open>The elements of an array value; anything else has no \<open>forEach\<close>.\<close>

definition array_items :: "js_value \<Rightarrow> js_value list res" where
  "array_items v = (case v of JArray xs \<Rightarrow> Inr xs | _ \<Rightarrow> Inl TypeError)"

text \<open>AnySchema: the tag given replaces that of the first element.\<close>

fun any_encode :: "tlv_element list \<Rightarrow> tlv_tag option \<Rightarrow> tlv_writer \<Rightarrow> tlv_writer res" where
  "any_encode [] tagAssigned w = Inr w"
| "any_encode (e # es) tagAssigned w =
     (let tag = (if tagAssigned \<noteq> None then tagAssigned else elTag e)
      in and_then
           (case elType e of
              OtherType _ \<Rightarrow> Inr w
            | ty \<Rightarrow>
                if carries_value ty then and_then (writeTag ty tag w) (writePrimitive ty (elValue e))
                else writeTag ty tag w)
           (any_encode es None))"

text \<open>
  One entry of an object, given what the schema of its field writes.  The name may be one the schema
  does not define, as \<open>encodeList\<close> goes through the names of the value.
\<close>

definition encode_entry ::
  "(string \<times> bool \<times> bool \<times> int \<times> (js_value \<Rightarrow> tlv_writer \<Rightarrow> tlv_writer res)) list \<Rightarrow>
   encoding_options \<Rightarrow> js_value \<Rightarrow> string \<Rightarrow> tlv_writer \<Rightarrow> tlv_writer res" where
  "encode_entry entries opts v name w =
     (case map_of entries name of
        None \<Rightarrow> Inl TypeError
      | Some (optional, repeated, i, enc) \<Rightarrow>
          if forWriteInteraction opts \<and> allowMissingFields opts then Inl InternalError
          else and_then (get_property name v) (\<lambda>fieldValue.
            if fieldValue = Undef then
              (if \<not> optional \<and> \<not> allowMissingFields opts then
                 (if forWriteInteraction opts \<and> i = FabricIndex_id then Inr w
                  else Inl ValidationMandatoryFieldMissingError)
               else Inr w)
            else if repeated then
              (case fieldValue of
                 JArray xs \<Rightarrow> fold_res enc xs w
               | _ \<Rightarrow> Inl ValidationDatatypeMismatchError)
            else enc fieldValue w))"

definition encode_structure where
  "encode_structure entries opts v w = fold_res (encode_entry entries opts v) (map fst entries) w"

definition encode_list where
  "encode_list entries opts v w =
     and_then (object_keys v) (\<lambda>keys.
     and_then (fold_res (encode_entry entries opts v) keys w)
       (fold_res (encode_entry entries opts v) (filter (\<lambda>name. name \<notin> set keys) (map fst entries))))"

lemma field_schema_size: "f \<in> set fds \<Longrightarrow> size (fieldSchema f) < Suc (size_list size fds)"
proof -
  assume "f \<in> set fds"
  then have "size f \<le> size_list size fds" by (rule size_list_estimation') simp
  moreover have "size (fieldSchema f) < size f" by (cases f) simp
  ultimately show ?thesis by simp
qed

function encodeTlvInternal ::
  "tlv_schema \<Rightarrow> js_value \<Rightarrow> tlv_tag option \<Rightarrow> encoding_options \<Rightarrow> tlv_writer \<Rightarrow> tlv_writer res" where
  "encodeTlvInternal (NumericSchema num t p mn mx) = (\<lambda>v tag opts w.
     (case v of
        Prim x \<Rightarrow>
          (let ty = numeric_type_length t (provided_length p x)
           in and_then (writeTag ty tag w) (writePrimitive ty x))
      | _ \<Rightarrow> Inl TypeError))"
| "encodeTlvInternal (StringSchema utf mn mx) = (\<lambda>v tag opts w.
     (case v of
        Prim (PString s) \<Rightarrow>
          (let l = getUIntTlvLength (PNumber (int (length s))); ty = (if utf then Utf8String l else ByteString l)
           in and_then (writeTag ty tag w) (writePrimitive ty (PString s)))
      | Prim (PBytes bs) \<Rightarrow>
          (let l = getUIntTlvLength (PNumber (int (length bs))); ty = (if utf then Utf8String l else ByteString l)
           in and_then (writeTag ty tag w) (writePrimitive ty (PBytes bs)))
      | _ \<Rightarrow> Inl TypeError))"
| "encodeTlvInternal BooleanSchema = (\<lambda>v tag opts w.
     (case v of Prim (PBool b) \<Rightarrow> writeTag (Boolean b) tag w | _ \<Rightarrow> Inl TypeError))"
| "encodeTlvInternal VoidSchema = (\<lambda>v tag opts w. Inr w)"
| "encodeTlvInternal NoArgumentsSchema = (\<lambda>v tag opts w.
     if v \<noteq> Undef then Inl UnexpectedDataError
     else and_then (writeTag Structure tag w) (writeTag EndOfContainer None))"
| "encodeTlvInternal AnySchema = (\<lambda>v tag opts w.
     (case v of JStream es \<Rightarrow> any_encode es tag w | JArray [] \<Rightarrow> Inr w | _ \<Rightarrow> Inl TypeError))"
| "encodeTlvInternal (NullableSchema S) = (\<lambda>v tag opts w.
     if v = Null then writeTag NullType tag w else encodeTlvInternal S v tag opts w)"
| "encodeTlvInternal (ArraySchema S mn mx) = (\<lambda>v tag opts w.
     and_then (writeTag Array tag w) (\<lambda>w.
     and_then (array_items v) (\<lambda>items.
     and_then (fold_res (\<lambda>x. encodeTlvInternal S x None opts) items w) (writeTag EndOfContainer None))))"
| "encodeTlvInternal (ObjectSchema fds structure allow) = (\<lambda>v tag opts w.
     and_then (writeTag (if structure then Structure else List) tag w) (\<lambda>w.
     (let entries = map (\<lambda>f. (fieldName f, isOptional f, isRepeated f, fieldId f,
              (\<lambda>x. encodeTlvInternal (fieldSchema f) x (context_tag (fieldId f)) opts))) fds
      in and_then (if structure then encode_structure entries opts v w else encode_list entries opts v w)
           (writeTag EndOfContainer None))))"
| "encodeTlvInternal (TlvWrapper S wrap unwrap) = (\<lambda>v tag opts w.
     and_then (wrap v) (\<lambda>x. encodeTlvInternal S x tag opts w))"
  by pat_completeness auto
termination by (relation "measure size") (simp_all add: field_schema_size)

subsection \<open>Decoding\<close>

text \<open>What is left to read: the measure of every decoding loop.\<close>

definition left :: "tlv_reader \<Rightarrow> nat" where
  "left r =
     (case r of ByteArrayReader dr \<Rightarrow> nat (int (length (buffer dr)) - offset dr)
      | ArrayReader es i \<Rightarrow> nat (int (length es) - (i + 1)))"

lemma read_uint_left:
  "0 < n \<Longrightarrow> read_uint n r = Inr (v, r') \<Longrightarrow> left (ByteArrayReader r') < left (ByteArrayReader r)"
  by (auto simp: read_uint_def getOffsetAndAdvance_def Let_def data_view_get_def left_def and_then_Inr_iff split: if_splits)

lemma readByteArray_left: "0 \<le> n \<Longrightarrow> readByteArray n r = (bs, r') \<Longrightarrow> left (ByteArrayReader r') \<le> left (ByteArrayReader r)"
  by (auto simp: readByteArray_def getOffsetAndAdvance_def Let_def left_def split: if_splits)

lemma readTag_left:
  "readTag k r = Inr (tag, r') \<Longrightarrow> left (ByteArrayReader r') \<le> left (ByteArrayReader r)"
  by (auto simp: readTag_def read_defs and_then_Inr_iff split: if_splits
      dest!: read_uint_left [rotated])

lemma readTagType_left [simp]: "readTagType r = Inr (tag, ty, r') \<Longrightarrow> left r' < left r"
proof (cases r)
  case (ByteArrayReader dr)
  assume "readTagType r = Inr (tag, ty, r')"
  with ByteArrayReader show ?thesis
    by (auto simp: readTagType_def codec_readTagType_def and_then_Inr_iff readUInt8_def
        dest!: read_uint_left [rotated] readTag_left)
next
  case (ArrayReader es i)
  assume "readTagType r = Inr (tag, ty, r')"
  with ArrayReader show ?thesis
    by (auto simp: readTagType_def array_element_def left_def split: if_splits)
qed

definition element_of :: "tlv_tag option \<Rightarrow> tlv_type_length \<Rightarrow> tlv_prim \<Rightarrow> tlv_element" where
  "element_of tag ty v = \<lparr>elTag = tag, elType = ty, elValue = v\<rparr>"

text \<open>
  AnySchema.  Every round of a loop takes at least one element from the reader; the test \<open>left r2 < left r\<close>
  says so in the definition, which makes it total, and \<open>any_loop_step\<close> shows that it always succeeds.
\<close>

function any_value :: "tlv_reader \<Rightarrow> tlv_type_length \<Rightarrow> tlv_element list \<Rightarrow> tlv_tag option \<Rightarrow>
     (tlv_element list \<times> tlv_reader) res"
  and any_loop :: "tlv_reader \<Rightarrow> tlv_element list \<Rightarrow> (tlv_element list \<times> tlv_reader) res" where
  "any_value r ty stream tag =
     (case ty of
        NullType \<Rightarrow> Inr (stream @ [element_of tag ty PNull], r)
      | Array \<Rightarrow> any_loop r (stream @ [element_of tag ty PUndefined])
      | Structure \<Rightarrow> any_loop r (stream @ [element_of tag ty PUndefined])
      | List \<Rightarrow> any_loop r (stream @ [element_of tag ty PUndefined])
      | EndOfContainer \<Rightarrow> Inr (stream @ [element_of tag ty PUndefined], r)
      | OtherType _ \<Rightarrow> Inr (stream, r)
      | _ \<Rightarrow> and_then (readPrimitive ty r) (\<lambda>(v, r). Inr (stream @ [element_of tag ty v], r)))"
| "any_loop r stream =
     (case readTagType r of
        Inl e \<Rightarrow> Inl e
      | Inr (tag, ty, r1) \<Rightarrow>
          (case any_value r1 ty stream tag of
             Inl e \<Rightarrow> Inl e
           | Inr (stream2, r2) \<Rightarrow>
               if ty = EndOfContainer then Inr (stream2, r2)
               else if left r2 < left r then any_loop r2 stream2
               else Inl RangeError))"
  by pat_completeness auto
termination
  by (relation "measure (case_sum (\<lambda>(r, _). 2 * left r + 1) (\<lambda>(r, _). 2 * left r))")
    (auto dest!: readTagType_left)

declare any_value.simps [simp del] any_loop.simps [simp del]

text \<open>The loops of ArraySchema and ObjectSchema, given the decoders of their elements.\<close>

type_synonym tlv_decoder = "tlv_reader \<Rightarrow> tlv_type_length \<Rightarrow> (js_value \<times> tlv_reader) res"

function array_loop :: "tlv_decoder \<Rightarrow> tlv_reader \<Rightarrow> js_value list \<Rightarrow> (js_value list \<times> tlv_reader) res" where
  "array_loop decode r result =
     (case readTagType r of
        Inl e \<Rightarrow> Inl e
      | Inr (tag, ty, r1) \<Rightarrow>
          if tag \<noteq> None then Inl UnexpectedDataError
          else if ty = EndOfContainer then Inr (result, r1)
          else (case decode r1 ty of
                  Inl e \<Rightarrow> Inl e
                | Inr (x, r2) \<Rightarrow>
                    if left r2 < left r then array_loop decode r2 (result @ [x]) else Inl RangeError))"
  by pat_completeness auto
termination by (relation "measure (\<lambda>(_, r, _). left r)") auto

declare array_loop.simps [simp del]

definition append_repeated :: "string \<Rightarrow> js_value \<Rightarrow> js_value js_object \<Rightarrow> js_value js_object" where
  "append_repeated name x result =
     (case map_of result name of
        Some (JArray xs) \<Rightarrow> obj_set name (JArray (xs @ [x])) result
      | _ \<Rightarrow> obj_set name (JArray [x]) result)"

function object_loop :: "(int \<Rightarrow> (string \<times> bool \<times> tlv_decoder) option) \<Rightarrow> bool \<Rightarrow> tlv_reader \<Rightarrow>
     js_value js_object \<Rightarrow> (js_value js_object \<times> tlv_reader) res" where
  "object_loop fieldsById allow r result =
     (case readTagType r of
        Inl e \<Rightarrow> Inl e
      | Inr (tag, ty, r1) \<Rightarrow>
          if ty = EndOfContainer then Inr (result, r1)
          else if fst (tag_fields tag) \<noteq> None \<and> \<not> allow then Inl UnexpectedDataError
          else case snd (tag_fields tag) of
            None \<Rightarrow> Inl UnexpectedDataError
          | Some i \<Rightarrow>
              (case fieldsById i of
                 None \<Rightarrow>
                   (case any_value r1 ty [] None of
                      Inl e \<Rightarrow> Inl e
                    | Inr (_, r2) \<Rightarrow>
                        if left r2 < left r then object_loop fieldsById allow r2 result else Inl RangeError)
               | Some (name, repeated, decode) \<Rightarrow>
                   (case decode r1 ty of
                      Inl e \<Rightarrow> Inl e
                    | Inr (x, r2) \<Rightarrow>
                        if left r2 < left r then
                          object_loop fieldsById allow r2
                            (if repeated then append_repeated name x result else obj_set name x result)
                        else Inl RangeError)))"
  by pat_completeness auto
termination by (relation "measure (\<lambda>(_, _, r, _). left r)") auto

declare object_loop.simps [simp del]

text \<open>Missing mandatory fields with a fallback are filled in.\<close>

definition apply_fallbacks :: "tlv_field list \<Rightarrow> js_value js_object \<Rightarrow> js_value js_object" where
  "apply_fallbacks fds result =
     fold (\<lambda>f result.
        if isOptional f \<or> map_of result (fieldName f) \<notin> {None, Some Undef} then result
        else case fallback f of None \<Rightarrow> result
          | Some x \<Rightarrow> obj_set (fieldName f) (if isRepeated f then JArray [x] else x) result) fds result"

definition type_matches :: "numeric_type \<Rightarrow> tlv_type_length \<Rightarrow> bool" where
  "type_matches t ty =
     (case ty of SignedInt _ \<Rightarrow> t = SignedNumber | UnsignedInt _ \<Rightarrow> t = UnsignedNumber | Float _ \<Rightarrow> t = FloatNumber
      | _ \<Rightarrow> False)"

definition number_of_bigint :: "tlv_prim \<Rightarrow> tlv_prim" where
  "number_of_bigint v = (case v of PBigInt n \<Rightarrow> PNumber (toNumber n) | _ \<Rightarrow> v)"

text \<open>The empty values that a nullable schema takes for \<open>null\<close>.\<close>

definition empty_means_null :: "tlv_schema \<Rightarrow> js_value \<Rightarrow> bool" where
  "empty_means_null S v =
     (case S of
        ArraySchema _ mn _ \<Rightarrow> v = JArray [] \<and> 0 < mn
      | StringSchema utf mn _ \<Rightarrow> (v = Prim (PString []) \<or> v = Prim (PBytes [])) \<and> (\<not> utf \<or> 0 < mn)
      | _ \<Rightarrow> False)"

function decodeValue :: "tlv_schema \<Rightarrow> tlv_decoder" where
  "decodeValue (NumericSchema num t p mn mx) = (\<lambda>r ty.
     if \<not> type_matches t ty then Inl UnexpectedDataError
     else and_then (readPrimitive ty r) (\<lambda>(v, r). Inr (Prim (if num then number_of_bigint v else v), r)))"
| "decodeValue (StringSchema utf mn mx) = (\<lambda>r ty.
     if (case ty of Utf8String _ \<Rightarrow> utf | ByteString _ \<Rightarrow> \<not> utf | _ \<Rightarrow> False)
     then and_then (readPrimitive ty r) (\<lambda>(v, r). Inr (Prim v, r))
     else Inl UnexpectedDataError)"
| "decodeValue BooleanSchema = (\<lambda>r ty. (case ty of Boolean b \<Rightarrow> Inr (Prim (PBool b), r) | _ \<Rightarrow> Inl UnexpectedDataError))"
| "decodeValue VoidSchema = (\<lambda>r ty. Inl InternalError)"
| "decodeValue NoArgumentsSchema = (\<lambda>r ty. Inl InternalError)"
| "decodeValue AnySchema = (\<lambda>r ty. and_then (any_value r ty [] None) (\<lambda>(es, r). Inr (JStream es, r)))"
| "decodeValue (NullableSchema S) = (\<lambda>r ty.
     if ty = NullType then Inr (Null, r)
     else and_then (decodeValue S r ty) (\<lambda>(v, r). Inr (if empty_means_null S v then Null else v, r)))"
| "decodeValue (ArraySchema S mn mx) = (\<lambda>r ty.
     if ty \<noteq> Array then Inl UnexpectedDataError
     else and_then (array_loop (decodeValue S) r []) (\<lambda>(xs, r). Inr (JArray xs, r)))"
| "decodeValue (ObjectSchema fds structure allow) = (\<lambda>r ty.
     if ty \<noteq> (if structure then Structure else List) then Inl UnexpectedDataError
     else
       (let decoders = map (\<lambda>f. (fieldId f, fieldName f, isRepeated f, decodeValue (fieldSchema f))) (rev fds)
        in and_then (object_loop (map_of decoders) allow r [])
             (\<lambda>(result, r). Inr (JObject (apply_fallbacks fds result), r))))"
| "decodeValue (TlvWrapper S wrap unwrap) = (\<lambda>r ty.
     and_then (decodeValue S r ty) (\<lambda>(v, r). and_then (unwrap v) (\<lambda>x. Inr (x, r))))"
  by pat_completeness auto
termination by (relation "measure size") (simp_all add: field_schema_size)

definition decodeTlvInternal :: "tlv_schema \<Rightarrow> tlv_reader \<Rightarrow> (js_value \<times> tlv_tag option) res" where
  "decodeTlvInternal S r =
     and_then (readTagType r) (\<lambda>(tag, ty, r). and_then (decodeValue S r ty) (\<lambda>(v, r). Inr (v, tag)))"

subsection \<open>Validation\<close>

definition within_bounds :: "int option \<Rightarrow> int option \<Rightarrow> tlv_prim \<Rightarrow> unit res" where
  "within_bounds mn mx v =
     (if (case mn of None \<Rightarrow> False | Some m \<Rightarrow> num_less v m) \<or> (case mx of None \<Rightarrow> False | Some m \<Rightarrow> num_greater v m)
      then Inl ValidationOutOfBoundsError else Inr ())"

definition validate_length :: "int \<Rightarrow> int \<Rightarrow> int \<Rightarrow> unit res" where
  "validate_length mn mx len = (if mx < len \<or> len < mn then Inl ValidationOutOfBoundsError else Inr ())"

definition validate_all :: "(js_value \<Rightarrow> unit res) \<Rightarrow> js_value list \<Rightarrow> unit res" where
  "validate_all check xs = fold_res (\<lambda>x _. check x) xs ()"

function validate :: "tlv_schema \<Rightarrow> js_value \<Rightarrow> unit res" where
  "validate (NumericSchema num t p mn mx) = (\<lambda>v.
     (case v of
        Prim (PNumber n) \<Rightarrow> within_bounds mn mx (PNumber n)
      | Prim (PFloat d) \<Rightarrow> within_bounds mn mx (PFloat d)
      | Prim (PBigInt n) \<Rightarrow> if num then Inl ValidationDatatypeMismatchError else within_bounds mn mx (PBigInt n)
      | _ \<Rightarrow> Inl ValidationDatatypeMismatchError))"
| "validate (StringSchema utf mn mx) = (\<lambda>v.
     (case v of
        Prim (PString s) \<Rightarrow> if utf then validate_length mn mx (int (length s)) else Inl ValidationDatatypeMismatchError
      | Prim (PBytes bs) \<Rightarrow> if utf then Inl ValidationDatatypeMismatchError else validate_length mn mx (int (length bs))
      | _ \<Rightarrow> Inl ValidationDatatypeMismatchError))"
| "validate BooleanSchema = (\<lambda>v. (case v of Prim (PBool _) \<Rightarrow> Inr () | _ \<Rightarrow> Inl ValidationDatatypeMismatchError))"
| "validate VoidSchema = (\<lambda>v. if v = Undef then Inr () else Inl ValidationDatatypeMismatchError)"
| "validate NoArgumentsSchema = (\<lambda>v. if v = Undef then Inr () else Inl ValidationDatatypeMismatchError)"
| "validate AnySchema = (\<lambda>v.
     (case v of JStream _ \<Rightarrow> Inr () | JArray [] \<Rightarrow> Inr ()
      | JArray (x # _) \<Rightarrow> Inl (if x = Undef \<or> x = Null then TypeError else ValidationDatatypeMismatchError)
      | _ \<Rightarrow> Inl ValidationDatatypeMismatchError))"
| "validate (NullableSchema S) = (\<lambda>v. if v = Null then Inr () else validate S v)"
| "validate (ArraySchema S mn mx) = (\<lambda>v.
     (case v of
        JArray xs \<Rightarrow> and_then (validate_length mn mx (int (length xs))) (\<lambda>_. validate_all (\<lambda>x. validate S x) xs)
      | _ \<Rightarrow> Inl ValidationDatatypeMismatchError))"
| "validate (ObjectSchema fds structure allow) = (\<lambda>v.
     fold_res (\<lambda>(name, optional, repeated, mn, mx, check) _.
         and_then (get_property name v) (\<lambda>data.
           if data = Undef then (if optional then Inr () else Inl ValidationMandatoryFieldMissingError)
           else if repeated then
             (case data of
                JArray xs \<Rightarrow>
                  and_then (validate_length (case mn of None \<Rightarrow> 2 | Some m \<Rightarrow> m) (case mx of None \<Rightarrow> 65535 | Some m \<Rightarrow> m)
                      (int (length xs)))
                    (\<lambda>_. validate_all check xs)
              | _ \<Rightarrow> Inl ValidationDatatypeMismatchError)
           else check data))
       (map (\<lambda>f. (fieldName f, isOptional f, isRepeated f, minLength f, maxLength f, (\<lambda>x. validate (fieldSchema f) x))) fds) ())"
| "validate (TlvWrapper S wrap unwrap) = (\<lambda>v. and_then (wrap v) (\<lambda>x. validate S x))"
  by pat_completeness auto
termination by (relation "measure size") (simp_all add: field_schema_size)

subsection \<open>The four entry points of a schema\<close>

definition encodeInternal :: "tlv_schema \<Rightarrow> js_value \<Rightarrow> byte list res" where
  "encodeInternal S v =
     and_then (encodeTlvInternal S v None no_options (ByteArrayWriter (new_DataWriter True))) (\<lambda>w.
       case w of ByteArrayWriter dw \<Rightarrow> writer_bytes dw | ArrayWriter _ \<Rightarrow> Inl InternalError)"

definition encode :: "tlv_schema \<Rightarrow> js_value \<Rightarrow> byte list res" where
  "encode S v = and_then (validate S v) (\<lambda>_. encodeInternal S v)"

definition decodeInternal :: "tlv_schema \<Rightarrow> byte list \<Rightarrow> js_value res" where
  "decodeInternal S encoded =
     and_then (decodeTlvInternal S (ByteArrayReader (new_DataReader encoded True))) (\<lambda>(v, _). Inr v)"

definition decode :: "tlv_schema \<Rightarrow> byte list \<Rightarrow> bool \<Rightarrow> js_value res" where
  "decode S encoded valid =
     and_then (decodeInternal S encoded) (\<lambda>v. if valid then and_then (validate S v) (\<lambda>_. Inr v) else Inr v)"

definition encodeTlv :: "tlv_schema \<Rightarrow> js_value \<Rightarrow> encoding_options \<Rightarrow> tlv_element list res" where
  "encodeTlv S v opts =
     and_then (encodeTlvInternal S v None opts (ArrayWriter [])) (\<lambda>w.
       case w of ArrayWriter es \<Rightarrow> Inr es | ByteArrayWriter _ \<Rightarrow> Inl InternalError)"

definition decodeTlv :: "tlv_schema \<Rightarrow> tlv_element list \<Rightarrow> js_value res" where
  "decodeTlv S encoded =
     (case S of
        VoidSchema \<Rightarrow> Inr Undef
      | NoArgumentsSchema \<Rightarrow> Inr Undef
      | _ \<Rightarrow> and_then (decodeTlvInternal S (ArrayReader encoded (- 1))) (\<lambda>(v, _). Inr v))"

text \<open>ObjectSchemaWithMaxSize.\<close>

definition encode_with_max_size :: "int \<Rightarrow> tlv_schema \<Rightarrow> js_value \<Rightarrow> byte list res" where
  "encode_with_max_size maxSize S v =
     and_then (encode S v) (\<lambda>encoded. if maxSize < int (length encoded) then Inl ImplementationError else Inr encoded)"

subsection \<open>Fields injected and removed\<close>

definition set_property :: "string \<Rightarrow> js_value \<Rightarrow> js_value \<Rightarrow> js_value res" where
  "set_property name x v = (case v of JObject ps \<Rightarrow> Inr (JObject (obj_set name x ps)) | _ \<Rightarrow> Inl TypeError)"

definition delete_property :: "string \<Rightarrow> js_value \<Rightarrow> js_value res" where
  "delete_property name v = (case v of JObject ps \<Rightarrow> Inr (JObject (obj_delete name ps)) | _ \<Rightarrow> Inl TypeError)"

function injectField :: "tlv_schema \<Rightarrow> int \<Rightarrow> js_value \<Rightarrow> (js_value \<Rightarrow> bool) \<Rightarrow> js_value \<Rightarrow> js_value res" where
  "injectField (ArraySchema S mn mx) = (\<lambda>i x check v.
     (case v of JArray xs \<Rightarrow> and_then (map_res (\<lambda>item. injectField S i x check item) xs) (\<lambda>ys. Inr (JArray ys))
      | _ \<Rightarrow> Inr v))"
| "injectField (NullableSchema S) = (\<lambda>i x check v. if v = Null then Inr v else injectField S i x check v)"
| "injectField (ObjectSchema fds structure allow) = (\<lambda>i x check v.
     fold_res (\<lambda>(k, fid, valid, inject) v.
         and_then (get_property k v) (\<lambda>current.
           if fid = i then
             (if check current then and_then (valid x) (\<lambda>_. set_property k x v) else Inr v)
           else and_then (inject i x check current) (\<lambda>y. set_property k y v)))
       (map (\<lambda>f. (fieldName f, fieldId f, validate (fieldSchema f), injectField (fieldSchema f))) fds) v)"
| "injectField (NumericSchema num t p mn mx) = (\<lambda>i x check v. Inr v)"
| "injectField (StringSchema utf mn mx) = (\<lambda>i x check v. Inr v)"
| "injectField BooleanSchema = (\<lambda>i x check v. Inr v)"
| "injectField VoidSchema = (\<lambda>i x check v. Inr v)"
| "injectField NoArgumentsSchema = (\<lambda>i x check v. Inr v)"
| "injectField AnySchema = (\<lambda>i x check v. Inr v)"
| "injectField (TlvWrapper S wrap unwrap) = (\<lambda>i x check v. Inr v)"
  by pat_completeness auto
termination by (relation "measure size") (simp_all add: field_schema_size)

function removeField :: "tlv_schema \<Rightarrow> int \<Rightarrow> (js_value \<Rightarrow> bool) \<Rightarrow> js_value \<Rightarrow> js_value res" where
  "removeField (ArraySchema S mn mx) = (\<lambda>i check v.
     (case v of JArray xs \<Rightarrow> and_then (map_res (\<lambda>item. removeField S i check item) xs) (\<lambda>ys. Inr (JArray ys))
      | _ \<Rightarrow> Inr v))"
| "removeField (NullableSchema S) = (\<lambda>i check v. if v = Null then Inr v else removeField S i check v)"
| "removeField (ObjectSchema fds structure allow) = (\<lambda>i check v.
     fold_res (\<lambda>(k, fid, remove) v.
         and_then (get_property k v) (\<lambda>current.
           if fid = i then
             (if current \<noteq> Undef \<and> check current then delete_property k v else Inr v)
           else and_then (remove i check current) (\<lambda>y. set_property k y v)))
       (map (\<lambda>f. (fieldName f, fieldId f, removeField (fieldSchema f))) fds) v)"
| "removeField (NumericSchema num t p mn mx) = (\<lambda>i check v. Inr v)"
| "removeField (StringSchema utf mn mx) = (\<lambda>i check v. Inr v)"
| "removeField BooleanSchema = (\<lambda>i check v. Inr v)"
| "removeField VoidSchema = (\<lambda>i check v. Inr v)"
| "removeField NoArgumentsSchema = (\<lambda>i check v. Inr v)"
| "removeField AnySchema = (\<lambda>i check v. Inr v)"
| "removeField (TlvWrapper S wrap unwrap) = (\<lambda>i check v. Inr v)"
  by pat_completeness auto
termination by (relation "measure size") (simp_all add: field_schema_size)

subsection \<open>Arrays in chunks\<close>

datatype list_index = WholeArray | AppendItem | ItemAt nat

definition set_item :: "nat \<Rightarrow> js_value \<Rightarrow> js_value list \<Rightarrow> js_value list" where
  "set_item i x xs = (if i < length xs then xs[i := x] else xs @ replicate (i - length xs) Undef @ [x])"

definition decode_chunk :: "tlv_schema \<Rightarrow> int \<Rightarrow> int \<Rightarrow> list_index \<times> tlv_element list \<Rightarrow> js_value list \<Rightarrow> js_value list res" where
  "decode_chunk S mn mx chunk current =
     (case chunk of (listIndex, element) \<Rightarrow>
        (case listIndex of
           WholeArray \<Rightarrow> and_then (decodeTlv (ArraySchema S mn mx) element) array_items
         | AppendItem \<Rightarrow> and_then (decodeTlv S element) (\<lambda>x. Inr (current @ [x]))
         | ItemAt i \<Rightarrow>
             if element = [] then Inl TypeError
             else if elType (hd element) = NullType then Inr (take i current @ drop (i + 1) current)
             else and_then (decodeTlv S element) (\<lambda>x. Inr (set_item i x current))))"

definition decodeFromChunkedArray ::
  "tlv_schema \<Rightarrow> int \<Rightarrow> int \<Rightarrow> (list_index \<times> tlv_element list) list \<Rightarrow> js_value list option \<Rightarrow> js_value list res" where
  "decodeFromChunkedArray S mn mx parts currentValue =
     (case currentValue of
        None \<Rightarrow>
          if parts = [] then Inl TypeError
          else if fst (hd parts) \<noteq> WholeArray then Inl UnexpectedDataError
          else fold_res (decode_chunk S mn mx) parts []
      | Some current \<Rightarrow> fold_res (decode_chunk S mn mx) parts current)"

definition encodeAsChunkedArray ::
  "tlv_schema \<Rightarrow> int \<Rightarrow> int \<Rightarrow> js_value list \<Rightarrow> encoding_options \<Rightarrow> (list_index \<times> tlv_element list) list res" where
  "encodeAsChunkedArray S mn mx xs opts =
     and_then (encodeTlv (ArraySchema S mn mx) (JArray []) opts) (\<lambda>first.
     and_then (map_res (\<lambda>x. encodeTlv S x opts) xs) (\<lambda>elements.
       Inr ((WholeArray, first) # map (\<lambda>e. (AppendItem, e)) elements)))"

subsection \<open>AnySchema\<close>

definition getEncodedByteLength :: "tlv_element list \<Rightarrow> int res" where
  "getEncodedByteLength stream =
     fold_res (\<lambda>e byteLength.
         case elType e of
           OtherType _ \<Rightarrow> Inr byteLength
         | ty \<Rightarrow>
             and_then (getTagByteLength (elTag e)) (\<lambda>n.
               if carries_value ty
               then and_then (getPrimitiveByteLength ty (elValue e)) (\<lambda>m. Inr (byteLength + n + m))
               else Inr (byteLength + n)))
       stream 0"

text \<open>Streams turned into plain values; \<open>result[tag.id]\<close> is a property named by the number.\<close>

function generic_element :: "tlv_reader \<Rightarrow> tlv_tag option \<Rightarrow> tlv_type_length \<Rightarrow> bool \<Rightarrow> (js_value \<times> tlv_reader) res"
  and generic_array :: "tlv_reader \<Rightarrow> bool \<Rightarrow> js_value list \<Rightarrow> (js_value \<times> tlv_reader) res"
  and generic_structure :: "tlv_reader \<Rightarrow> js_value js_object \<Rightarrow> (js_value \<times> tlv_reader) res" where
  "generic_element r tag ty allowTag =
     (case ty of
        Array \<Rightarrow> generic_array r False []
      | List \<Rightarrow> generic_array r True []
      | Structure \<Rightarrow> generic_structure r []
      | EndOfContainer \<Rightarrow> Inl UnexpectedDataError
      | OtherType _ \<Rightarrow> Inl UnexpectedDataError
      | _ \<Rightarrow>
          if tag \<noteq> None \<and> \<not> allowTag then Inl UnexpectedDataError
          else and_then (readPrimitive ty r) (\<lambda>(v, r). Inr (Prim v, r)))"
| "generic_array r allowTag result =
     (case readTagType r of
        Inl e \<Rightarrow> Inl e
      | Inr (tag, ty, r1) \<Rightarrow>
          if ty = EndOfContainer then Inr (JArray result, r1)
          else if tag \<noteq> None \<and> \<not> allowTag then Inl UnexpectedDataError
          else (case generic_element r1 tag ty allowTag of
                  Inl e \<Rightarrow> Inl e
                | Inr (x, r2) \<Rightarrow>
                    if left r2 < left r then generic_array r2 allowTag (result @ [x]) else Inl RangeError))"
| "generic_structure r result =
     (case readTagType r of
        Inl e \<Rightarrow> Inl e
      | Inr (tag, ty, r1) \<Rightarrow>
          if ty = EndOfContainer then Inr (JObject result, r1)
          else case snd (tag_fields tag) of
            None \<Rightarrow> Inl UnexpectedDataError
          | Some i \<Rightarrow>
              (case generic_element r1 tag ty True of
                 Inl e \<Rightarrow> Inl e
               | Inr (x, r2) \<Rightarrow>
                   if left r2 < left r then generic_structure r2 (obj_set (int_string i) x result) else Inl RangeError))"
  by pat_completeness auto
termination
  by (relation "measure (case_sum (\<lambda>(r, _). 2 * left r + 1)
        (case_sum (\<lambda>(r, _). 2 * left r) (\<lambda>(r, _). 2 * left r)))")
    (auto dest!: readTagType_left)

declare generic_element.simps [simp del] generic_array.simps [simp del] generic_structure.simps [simp del]

definition decodeAnyTlvStream :: "tlv_element list \<Rightarrow> js_value res" where
  "decodeAnyTlvStream encoded =
     (if encoded = [] then Inr Undef
      else
        and_then (readTagType (ArrayReader encoded (- 1))) (\<lambda>(tag, ty, r).
        and_then (generic_element r tag ty False) (\<lambda>(result, r).
          case readTagType r of Inr _ \<Rightarrow> Inl UnexpectedDataError | Inl _ \<Rightarrow> Inr result)))"

end
