(* ===== verification/TlvRoundTrip.thy ===== *)
theory TlvRoundTrip
  imports TlvSchema
begin

text \<open>
  What the TLV schemas guarantee: decoding returns what was encoded, through bytes and through
  element streams alike.  The elements a value consists of are its specification; encoding writes
  exactly these to either writer, and the locale \<open>tlv_medium\<close> states what decoding needs of a reader
  that delivers them.  It is interpreted for the bytes and for the element array.
\<close>

subsection \<open>The loops always go on\<close>

lemma read_uint_nonneg: "read_uint n r = Inr (v, r') \<Longrightarrow> 0 \<le> v"
  using read_uint_range by blast

lemma toNumber_nonneg: "0 \<le> v \<Longrightarrow> 0 \<le> toNumber v"
  by (auto simp: toNumber_def Let_def round_half_even_def sgn_if pos_imp_zdiv_nonneg_iff
      intro!: mult_nonneg_nonneg add_nonneg_nonneg)

lemma read_left:
  "read_uint n r = Inr (v, r') \<Longrightarrow> left (ByteArrayReader r') \<le> left (ByteArrayReader r)"
  "read_int n r = Inr (w, r') \<Longrightarrow> left (ByteArrayReader r') \<le> left (ByteArrayReader r)"
proof -
  show u: "read_uint n r = Inr (v, r') \<Longrightarrow> left (ByteArrayReader r') \<le> left (ByteArrayReader r)" for v r'
    by (auto simp: read_uint_def getOffsetAndAdvance_def Let_def data_view_get_def left_def and_then_Inr_iff split: if_splits)
  show "read_int n r = Inr (w, r') \<Longrightarrow> left (ByteArrayReader r') \<le> left (ByteArrayReader r)"
    by (auto simp: read_int_def and_then_Inr_iff dest: u)
qed

lemma read_length_left:
  "read_length l r = Inr (n, r') \<Longrightarrow> 0 \<le> n \<and> left (ByteArrayReader r') \<le> left (ByteArrayReader r)"
  by (cases l) (auto simp: read_length_def read_defs and_then_Inr_iff dest: read_left(1) read_uint_nonneg intro: toNumber_nonneg)

lemma codec_readPrimitive_left:
  "codec_readPrimitive ty r = Inr (v, r') \<Longrightarrow> left (ByteArrayReader r') \<le> left (ByteArrayReader r)"
proof -
  assume a: "codec_readPrimitive ty r = Inr (v, r')"
  have bytes: "left (ByteArrayReader (snd (readByteArray n r1))) \<le> left (ByteArrayReader r)"
    if "read_length l r = Inr (n, r1)" for l n r1
    using read_length_left [OF that] readByteArray_left [of n r1 "fst (readByteArray n r1)" "snd (readByteArray n r1)"]
    by simp
  show ?thesis
    using a
    by (auto simp: codec_readPrimitive_def and_then_Inr_iff readInt8_def readInt16_def readInt32_def readInt64_def
        read_defs readFloat_def readDouble_def readUtf8String_def case_prod_unfold
        split: tlv_type_length.splits tlv_length.splits dest: read_left bytes)
qed

lemma readPrimitive_left: "readPrimitive ty r = Inr (v, r') \<Longrightarrow> left r' \<le> left r"
  by (cases r) (auto simp: readPrimitive_def and_then_Inr_iff dest: codec_readPrimitive_left split: option.splits)

lemma any_left:
  "any_value r ty stream tag = Inr (s, r') \<Longrightarrow> left r' \<le> left r"
  "any_loop r stream = Inr (s, r') \<Longrightarrow> left r' \<le> left r"
proof (induction r ty stream tag and r stream arbitrary: s r' and s r' rule: any_value_any_loop.induct)
  case (1 r ty stream tag)
  then show ?case
    by (subst (asm) any_value.simps) (auto simp: and_then_Inr_iff split: tlv_type_length.splits dest: readPrimitive_left)
next
  case (2 r stream)
  obtain tag ty r1 s2 r2 where t: "readTagType r = Inr (tag, ty, r1)" and v: "any_value r1 ty stream tag = Inr (s2, r2)"
    using "2.prems" by (subst (asm) any_loop.simps) (auto split: sum.splits prod.splits)
  have r1: "left r1 < left r" using t by (rule readTagType_left)
  show ?case
  proof (cases "ty = EndOfContainer")
    case True
    then have "r' = r2" using "2.prems" t v by (subst (asm) any_loop.simps) simp
    moreover have "left r2 \<le> left r1" using "2.IH"(1) t v by blast
    ultimately show ?thesis using r1 by simp
  next
    case False
    then have l: "left r2 < left r" "any_loop r2 s2 = Inr (s, r')"
      using "2.prems" t v by (subst (asm) any_loop.simps, simp split: if_splits)+
    then have "left r' \<le> left r2" using "2.IH"(2) t v False by blast
    with l(1) show ?thesis by simp
  qed
qed

text \<open>One round of the loops, read off a successful run.\<close>

lemma array_loopE:
  assumes "array_loop dec r result = Inr (xs, r')"
  obtains (finished) r1 where "readTagType r = Inr (None, EndOfContainer, r1)" "xs = result" "r' = r1"
    | (item) ty r1 x r2 where "readTagType r = Inr (None, ty, r1)" "ty \<noteq> EndOfContainer" "dec r1 ty = Inr (x, r2)"
        "left r2 < left r" "array_loop dec r2 (result @ [x]) = Inr (xs, r')"
proof -
  obtain tag ty r1 where t: "readTagType r = Inr (tag, ty, r1)" "tag = None"
    using assms by (subst (asm) array_loop.simps) (auto split: sum.splits prod.splits if_splits)
  show ?thesis
  proof (cases "ty = EndOfContainer")
    case True
    with t assms show ?thesis by (subst (asm) array_loop.simps) (auto intro: finished)
  next
    case False
    with t assms obtain x r2 where d: "dec r1 ty = Inr (x, r2)"
      by (subst (asm) array_loop.simps) (auto split: sum.splits prod.splits)
    with t False assms have "left r2 < left r" "array_loop dec r2 (result @ [x]) = Inr (xs, r')"
      by (subst (asm) array_loop.simps, simp split: if_splits)+
    with t False d show ?thesis by (auto intro: item)
  qed
qed

lemma array_loop_left: "array_loop dec r result = Inr (xs, r') \<Longrightarrow> left r' < left r"
proof (induction "left r" arbitrary: r result rule: less_induct)
  case less
  from less.prems show ?case
  proof (cases rule: array_loopE)
    case finished
    with readTagType_left show ?thesis by blast
  next
    case (item ty r1 x r2)
    with less.hyps [of r2] show ?thesis by (auto dest: order.strict_trans)
  qed
qed

lemma object_loopE:
  assumes "object_loop fs allow r result = Inr (ps, r')"
  obtains (finished) tag r1 where "readTagType r = Inr (tag, EndOfContainer, r1)" "ps = result" "r' = r1"
    | (unknown) tag ty r1 i es r2 where "readTagType r = Inr (tag, ty, r1)" "ty \<noteq> EndOfContainer"
        "snd (tag_fields tag) = Some i" "fs i = None" "any_value r1 ty [] None = Inr (es, r2)" "left r2 < left r"
        "object_loop fs allow r2 result = Inr (ps, r')"
    | (field) tag ty r1 i name rep dec x r2 where "readTagType r = Inr (tag, ty, r1)" "ty \<noteq> EndOfContainer"
        "snd (tag_fields tag) = Some i" "fs i = Some (name, rep, dec)" "dec r1 ty = Inr (x, r2)" "left r2 < left r"
        "object_loop fs allow r2 (if rep then append_repeated name x result else obj_set name x result) = Inr (ps, r')"
proof -
  obtain tag ty r1 where t: "readTagType r = Inr (tag, ty, r1)"
    using assms by (subst (asm) object_loop.simps) (auto split: sum.splits prod.splits)
  show ?thesis
  proof (cases "ty = EndOfContainer")
    case True
    with t assms show ?thesis by (subst (asm) object_loop.simps) (auto intro: finished)
  next
    case False
    with t assms obtain i where i: "snd (tag_fields tag) = Some i" "fst (tag_fields tag) = None \<or> allow"
      by (subst (asm) object_loop.simps) (auto split: option.splits if_splits)
    show ?thesis
    proof (cases "fs i")
      case None
      with t False i assms obtain es r2 where "any_value r1 ty [] None = Inr (es, r2)" "left r2 < left r"
        "object_loop fs allow r2 result = Inr (ps, r')"
        by (subst (asm) object_loop.simps) (auto split: sum.splits prod.splits if_splits)
      with t False i None show ?thesis by (auto intro: unknown)
    next
      case (Some f)
      obtain name rep dec where f: "f = (name, rep, dec)" by (cases f)
      with Some t False i assms obtain x r2 where "dec r1 ty = Inr (x, r2)" "left r2 < left r"
        "object_loop fs allow r2 (if rep then append_repeated name x result else obj_set name x result) = Inr (ps, r')"
        by (subst (asm) object_loop.simps) (auto split: sum.splits prod.splits if_splits)
      with t False i Some f show ?thesis by (auto intro: field)
    qed
  qed
qed

lemma object_loop_left: "object_loop fs allow r result = Inr (ps, r') \<Longrightarrow> left r' < left r"
proof (induction "left r" arbitrary: r result rule: less_induct)
  case less
  from less.prems show ?case
  proof (cases rule: object_loopE)
    case finished
    with readTagType_left show ?thesis by blast
  next
    case (unknown tag ty r1 i es r2)
    with less.hyps [of r2] show ?thesis by (auto dest: order.strict_trans)
  next
    case (field tag ty r1 i name rep dec x r2)
    with less.hyps [of r2] show ?thesis by (auto dest: order.strict_trans)
  qed
qed

lemma tlv_schema_induct [case_names Numeric String Boolean Void NoArguments Any Nullable Array Object Wrapper]:
  assumes "\<And>num t p mn mx. P (NumericSchema num t p mn mx)"
    and "\<And>utf mn mx. P (StringSchema utf mn mx)"
    and "P BooleanSchema" "P VoidSchema" "P NoArgumentsSchema" "P AnySchema"
    and "\<And>S. P S \<Longrightarrow> P (NullableSchema S)"
    and "\<And>S mn mx. P S \<Longrightarrow> P (ArraySchema S mn mx)"
    and "\<And>fds st allow. (\<And>f. f \<in> set fds \<Longrightarrow> P (fieldSchema f)) \<Longrightarrow> P (ObjectSchema fds st allow)"
    and "\<And>S wrap unwrap. P S \<Longrightarrow> P (TlvWrapper S wrap unwrap)"
  shows "P S"
proof (induction S rule: measure_induct_rule [where f = size])
  case (less S)
  then show ?case
    by (cases S) (auto intro!: assms field_schema_size)
qed

lemma decodeValue_left: "decodeValue S r ty = Inr (v, r') \<Longrightarrow> left r' \<le> left r"
proof (induction S arbitrary: v r r' ty rule: tlv_schema_induct)
  case (Array S mn mx)
  then show ?case by (auto simp: and_then_Inr_iff split: if_splits dest!: array_loop_left)
next
  case (Object fds st allow)
  then show ?case by (auto simp: and_then_Inr_iff Let_def split: if_splits dest!: object_loop_left)
qed (auto simp: and_then_Inr_iff split: if_splits tlv_type_length.splits dest: readPrimitive_left any_left)

text \<open>The test in each loop that the reader has advanced never fails: a round is what the code says.\<close>

lemma any_loop_step:
  "any_loop r stream =
     (case readTagType r of
        Inl e \<Rightarrow> Inl e
      | Inr (tag, ty, r1) \<Rightarrow>
          (case any_value r1 ty stream tag of
             Inl e \<Rightarrow> Inl e
           | Inr (stream2, r2) \<Rightarrow> if ty = EndOfContainer then Inr (stream2, r2) else any_loop r2 stream2))"
  by (subst any_loop.simps)
    (auto split: sum.splits prod.splits dest!: readTagType_left any_left(1))

lemma array_loop_step:
  "array_loop (decodeValue S) r result =
     (case readTagType r of
        Inl e \<Rightarrow> Inl e
      | Inr (tag, ty, r1) \<Rightarrow>
          if tag \<noteq> None then Inl UnexpectedDataError
          else if ty = EndOfContainer then Inr (result, r1)
          else (case decodeValue S r1 ty of
                  Inl e \<Rightarrow> Inl e
                | Inr (x, r2) \<Rightarrow> array_loop (decodeValue S) r2 (result @ [x])))"
  by (subst array_loop.simps)
    (auto split: sum.splits prod.splits dest!: readTagType_left decodeValue_left)

definition field_decoders :: "tlv_field list \<Rightarrow> int \<Rightarrow> (string \<times> bool \<times> tlv_decoder) option" where
  "field_decoders fds = map_of (map (\<lambda>f. (fieldId f, fieldName f, isRepeated f, decodeValue (fieldSchema f))) (rev fds))"

lemma field_decoders_left:
  "field_decoders fds i = Some (name, rep, dec) \<Longrightarrow> dec r1 ty = Inr (x, r2) \<Longrightarrow> left r2 \<le> left r1"
  by (auto simp: field_decoders_def dest!: map_of_SomeD decodeValue_left)

lemma object_loop_step:
  "object_loop (field_decoders fds) allow r result =
     (case readTagType r of
        Inl e \<Rightarrow> Inl e
      | Inr (tag, ty, r1) \<Rightarrow>
          if ty = EndOfContainer then Inr (result, r1)
          else if fst (tag_fields tag) \<noteq> None \<and> \<not> allow then Inl UnexpectedDataError
          else case snd (tag_fields tag) of
            None \<Rightarrow> Inl UnexpectedDataError
          | Some i \<Rightarrow>
              (case field_decoders fds i of
                 None \<Rightarrow>
                   (case any_value r1 ty [] None of
                      Inl e \<Rightarrow> Inl e
                    | Inr (_, r2) \<Rightarrow> object_loop (field_decoders fds) allow r2 result)
               | Some (name, repeated, dec) \<Rightarrow>
                   (case dec r1 ty of
                      Inl e \<Rightarrow> Inl e
                    | Inr (x, r2) \<Rightarrow>
                        object_loop (field_decoders fds) allow r2
                          (if repeated then append_repeated name x result else obj_set name x result))))"
  by (subst object_loop.simps)
    (auto split: sum.splits prod.splits option.splits dest!: readTagType_left any_left(1) field_decoders_left)

subsection \<open>The elements of a value\<close>

definition entry_elements :: "(string \<times> bool \<times> int \<times> (js_value \<Rightarrow> tlv_tag option \<Rightarrow> tlv_element list)) list \<Rightarrow>
    string \<times> js_value \<Rightarrow> tlv_element list" where
  "entry_elements entries = (\<lambda>(name, x).
     (case map_of entries name of
        None \<Rightarrow> []
      | Some (repeated, i, els) \<Rightarrow>
          if repeated then (case x of JArray ys \<Rightarrow> concat (map (\<lambda>y. els y (context_tag i)) ys) | _ \<Rightarrow> [])
          else els x (context_tag i)))"

function elements :: "tlv_schema \<Rightarrow> js_value \<Rightarrow> tlv_tag option \<Rightarrow> tlv_element list" where
  "elements (NumericSchema num t p mn mx) = (\<lambda>v tag.
     (case v of Prim x \<Rightarrow> [element_of tag (numeric_type_length t (provided_length p x)) x] | _ \<Rightarrow> []))"
| "elements (StringSchema utf mn mx) = (\<lambda>v tag.
     (case v of
        Prim (PString s) \<Rightarrow> [element_of tag (Utf8String (getUIntTlvLength (PNumber (int (length s))))) (PString s)]
      | Prim (PBytes bs) \<Rightarrow> [element_of tag (ByteString (getUIntTlvLength (PNumber (int (length bs))))) (PBytes bs)]
      | _ \<Rightarrow> []))"
| "elements BooleanSchema = (\<lambda>v tag. (case v of Prim (PBool b) \<Rightarrow> [element_of tag (Boolean b) PUndefined] | _ \<Rightarrow> []))"
| "elements VoidSchema = (\<lambda>v tag. [])"
| "elements NoArgumentsSchema = (\<lambda>v tag. [])"
| "elements AnySchema = (\<lambda>v tag. [])"
| "elements (NullableSchema S) = (\<lambda>v tag. if v = Null then [element_of tag NullType PUndefined] else elements S v tag)"
| "elements (ArraySchema S mn mx) = (\<lambda>v tag.
     (case v of
        JArray xs \<Rightarrow>
          element_of tag Array PUndefined # concat (map (\<lambda>x. elements S x None) xs) @ [element_of None EndOfContainer PUndefined]
      | _ \<Rightarrow> []))"
| "elements (ObjectSchema fds structure allow) = (\<lambda>v tag.
     (case v of
        JObject ps \<Rightarrow>
          element_of tag (if structure then Structure else List) PUndefined #
          concat (map (entry_elements (map (\<lambda>f. (fieldName f, isRepeated f, fieldId f, elements (fieldSchema f))) fds)) ps) @
          [element_of None EndOfContainer PUndefined]
      | _ \<Rightarrow> []))"
| "elements (TlvWrapper S wrap unwrap) = (\<lambda>v tag. (case wrap v of Inr x \<Rightarrow> elements S x tag | Inl _ \<Rightarrow> []))"
  by pat_completeness auto
termination by (relation "measure size") (simp_all add: field_schema_size)

text \<open>The first element carries the type a decoder of the value is called with.\<close>

definition first_type :: "tlv_schema \<Rightarrow> js_value \<Rightarrow> tlv_type_length" where
  "first_type S v = (case elements S v None of [] \<Rightarrow> EndOfContainer | e # _ \<Rightarrow> elType e)"

text \<open>
  Schemas whose field names and ids are unambiguous, and the values that a schema takes: they pass
  the validation, fit the bytes of their type, and are in the form in which the decoder returns them
  (a big integer only where the value needs eight bytes, the properties of a structure in the order
  of its fields, no property that is \<open>undefined\<close>).
\<close>

function sound_schema :: "tlv_schema \<Rightarrow> bool" where
  "sound_schema (NullableSchema S) \<longleftrightarrow> sound_schema S"
| "sound_schema (ArraySchema S mn mx) \<longleftrightarrow> sound_schema S"
| "sound_schema (TlvWrapper S wrap unwrap) \<longleftrightarrow> sound_schema S"
| "sound_schema (ObjectSchema fds structure allow) \<longleftrightarrow>
     distinct (map fieldName fds) \<and> distinct (map fieldId fds) \<and> list_all (\<lambda>f. 0 \<le> fieldId f \<and> fieldId f < 256) fds \<and>
     (structure \<longrightarrow> list_all (\<lambda>f. \<not> isRepeated f) fds) \<and> list_all (\<lambda>f. sound_schema (fieldSchema f)) fds"
| "sound_schema (NumericSchema num t p mn mx) \<longleftrightarrow> True"
| "sound_schema (StringSchema utf mn mx) \<longleftrightarrow> True"
| "sound_schema BooleanSchema \<longleftrightarrow> True"
| "sound_schema VoidSchema \<longleftrightarrow> True"
| "sound_schema NoArgumentsSchema \<longleftrightarrow> True"
| "sound_schema AnySchema \<longleftrightarrow> True"
  by pat_completeness auto
termination by (relation "measure size") (simp_all add: field_schema_size)

definition numeric_fits :: "bool \<Rightarrow> numeric_type \<Rightarrow> length_provider \<Rightarrow> tlv_prim \<Rightarrow> bool" where
  "numeric_fits num t p x \<longleftrightarrow>
     (let ty = numeric_type_length t (provided_length p x)
      in ok_type ty \<and> ok_value ty x \<and> (num \<longrightarrow> number_of_bigint x = x))"

function fits :: "tlv_schema \<Rightarrow> js_value \<Rightarrow> bool" where
  "fits (NumericSchema num t p mn mx) = (\<lambda>v.
     (case v of Prim x \<Rightarrow> validate (NumericSchema num t p mn mx) v = Inr () \<and> numeric_fits num t p x | _ \<Rightarrow> False))"
| "fits (StringSchema utf mn mx) = (\<lambda>v.
     validate (StringSchema utf mn mx) v = Inr () \<and>
     (case v of
        Prim (PString s) \<Rightarrow> ok_value (Utf8String (getUIntTlvLength (PNumber (int (length s))))) (PString s)
      | Prim (PBytes bs) \<Rightarrow> ok_value (ByteString (getUIntTlvLength (PNumber (int (length bs))))) (PBytes bs)
      | _ \<Rightarrow> False))"
| "fits BooleanSchema = (\<lambda>v. (case v of Prim (PBool b) \<Rightarrow> True | _ \<Rightarrow> False))"
| "fits VoidSchema = (\<lambda>v. False)"
| "fits NoArgumentsSchema = (\<lambda>v. False)"
| "fits AnySchema = (\<lambda>v. False)"
| "fits (NullableSchema S) = (\<lambda>v. v = Null \<or> fits S v \<and> \<not> empty_means_null S v \<and> first_type S v \<noteq> NullType)"
| "fits (ArraySchema S mn mx) = (\<lambda>v.
     (case v of JArray xs \<Rightarrow> validate_length mn mx (int (length xs)) = Inr () \<and> list_all (\<lambda>x. fits S x) xs | _ \<Rightarrow> False))"
| "fits (ObjectSchema fds structure allow) = (\<lambda>v.
     (case v of
        JObject ps \<Rightarrow>
          distinct (map fst ps) \<and> set (map fst ps) \<subseteq> set (map fieldName fds) \<and>
          (if structure then map fst ps = filter (\<lambda>n. n \<in> set (map fst ps)) (map fieldName fds) else obj_keys ps = map fst ps) \<and>
          list_all (\<lambda>(name, optional, repeated, mn, mx, ok).
              case map_of ps name of
                None \<Rightarrow> optional
              | Some x \<Rightarrow>
                  if repeated then
                    (case x of JArray ys \<Rightarrow> ys \<noteq> [] \<and>
                       validate_length (case mn of None \<Rightarrow> 2 | Some m \<Rightarrow> m) (case mx of None \<Rightarrow> 65535 | Some m \<Rightarrow> m) (int (length ys)) = Inr () \<and>
                       list_all ok ys | _ \<Rightarrow> False)
                  else x \<noteq> Undef \<and> ok x)
            (map (\<lambda>f. (fieldName f, isOptional f, isRepeated f, minLength f, maxLength f, (\<lambda>x. fits (fieldSchema f) x))) fds)
      | _ \<Rightarrow> False))"
| "fits (TlvWrapper S wrap unwrap) = (\<lambda>v. (case wrap v of Inl _ \<Rightarrow> False | Inr x \<Rightarrow> fits S x \<and> unwrap x = Inr v))"
  by pat_completeness auto
termination by (relation "measure size") (simp_all add: field_schema_size)

subsection \<open>Encoding writes the elements\<close>

definition write_element :: "tlv_element \<Rightarrow> tlv_writer \<Rightarrow> tlv_writer res" where
  "write_element e w =
     and_then (writeTag (elType e) (elTag e) w)
       (\<lambda>w. if carries_value (elType e) then writePrimitive (elType e) (elValue e) w else Inr w)"

lemma element_of_sel [simp]: "elTag (element_of t ty v) = t" "elType (element_of t ty v) = ty" "elValue (element_of t ty v) = v"
  by (simp_all add: element_of_def)

lemma fold_res_concat:
  "(\<And>x w. x \<in> set xs \<Longrightarrow> f x w = fold_res g (h x) w) \<Longrightarrow> fold_res f xs w = fold_res g (concat (map h xs)) w"
  by (induction xs arbitrary: w) (auto simp: fold_res_append and_then_def split: sum.splits)

lemma map_of_fields:
  "distinct (map fieldName fds) \<Longrightarrow> f \<in> set fds \<Longrightarrow> map_of (map (\<lambda>f. (fieldName f, g f)) fds) (fieldName f) = Some (g f)"
proof (induction fds)
  case (Cons a fds)
  then show ?case by (cases "a = f") (auto simp: image_iff)
qed simp

text \<open>What it means for an object that it fits.\<close>

definition entry_fits :: "tlv_field \<Rightarrow> js_value \<Rightarrow> bool" where
  "entry_fits f x \<longleftrightarrow>
     (if isRepeated f then
        (\<exists>ys. x = JArray ys \<and> ys \<noteq> [] \<and>
           validate_length (case minLength f of None \<Rightarrow> 2 | Some m \<Rightarrow> m) (case maxLength f of None \<Rightarrow> 65535 | Some m \<Rightarrow> m)
             (int (length ys)) = Inr () \<and> (\<forall>y\<in>set ys. fits (fieldSchema f) y))
      else x \<noteq> Undef \<and> fits (fieldSchema f) x)"

lemma entry_fits_case:
  "(if isRepeated f then
      (case x of JArray ys \<Rightarrow> ys \<noteq> [] \<and>
         validate_length (case minLength f of None \<Rightarrow> 2 | Some m \<Rightarrow> m) (case maxLength f of None \<Rightarrow> 65535 | Some m \<Rightarrow> m)
           (int (length ys)) = Inr () \<and> list_all (\<lambda>x. fits (fieldSchema f) x) ys | _ \<Rightarrow> False)
    else x \<noteq> Undef \<and> fits (fieldSchema f) x) = entry_fits f x"
  by (cases x) (auto simp: entry_fits_def list_all_iff)

lemma fits_object:
  assumes "sound_schema (ObjectSchema fds st allow)" "fits (ObjectSchema fds st allow) v"
  obtains ps where "v = JObject ps" "distinct (map fst ps)"
    "\<And>name x. (name, x) \<in> set ps \<Longrightarrow> \<exists>f\<in>set fds. fieldName f = name \<and> entry_fits f x"
    "\<And>f. f \<in> set fds \<Longrightarrow> isOptional f \<or> (\<exists>x. map_of ps (fieldName f) = Some x)"
    "if st then map fst ps = filter (\<lambda>n. n \<in> set (map fst ps)) (map fieldName fds) else obj_keys ps = map fst ps"
proof -
  obtain ps where ps: "v = JObject ps" using assms(2) by (cases v) auto
  note u = assms(2) [unfolded ps fits.simps js_value.case list.pred_map o_def prod.case entry_fits_case]
  note d = conjunct1 [OF u] conjunct1 [OF conjunct2 [OF u]] conjunct1 [OF conjunct2 [OF conjunct2 [OF u]]]
  have fs: "f \<in> set fds \<Longrightarrow> (case map_of ps (fieldName f) of None \<Rightarrow> isOptional f | Some x \<Rightarrow> entry_fits f x)" for f
    using conjunct2 [OF conjunct2 [OF conjunct2 [OF u]]] unfolding list_all_iff by (rule bspec)
  show ?thesis
  proof (rule that [OF ps d(1) _ _ d(3)])
    fix name x assume m: "(name, x) \<in> set ps"
    with d(2) obtain f where f: "f \<in> set fds" "fieldName f = name" by force
    have "map_of ps name = Some x" using d(1) m by simp
    with fs [OF f(1)] f show "\<exists>f\<in>set fds. fieldName f = name \<and> entry_fits f x" by auto
  next
    fix f assume "f \<in> set fds"
    from fs [OF this] show "isOptional f \<or> (\<exists>x. map_of ps (fieldName f) = Some x)" by (auto split: option.splits)
  qed
qed

lemma fits_not_undefined: "fits S v \<Longrightarrow> sound_schema S \<Longrightarrow> entry_fits f x \<Longrightarrow> x \<noteq> Undef"
  by (auto simp: entry_fits_def split: if_splits)

lemma encode_entry_elements:
  assumes sound: "sound_schema (ObjectSchema fds st allow)" and f: "f \<in> set fds"
    and opts: "\<not> (forWriteInteraction opts \<and> allowMissingFields opts)"
    and x: "map_of ps (fieldName f) = None \<and> isOptional f \<or> (\<exists>x. map_of ps (fieldName f) = Some x \<and> entry_fits f x)"
    and ih: "\<And>x tag w. fits (fieldSchema f) x \<Longrightarrow>
       encodeTlvInternal (fieldSchema f) x tag opts w = fold_res write_element (elements (fieldSchema f) x tag) w"
  shows "encode_entry (map (\<lambda>f. (fieldName f, isOptional f, isRepeated f, fieldId f,
              (\<lambda>x. encodeTlvInternal (fieldSchema f) x (context_tag (fieldId f)) opts))) fds) opts (JObject ps) (fieldName f) w =
    fold_res write_element
      (case map_of ps (fieldName f) of None \<Rightarrow> []
       | Some x \<Rightarrow> entry_elements (map (\<lambda>f. (fieldName f, isRepeated f, fieldId f, elements (fieldSchema f))) fds) (fieldName f, x)) w"
proof -
  have d: "distinct (map fieldName fds)" using sound by simp
  note m = map_of_fields [OF d f]
  from x show ?thesis
  proof (elim disjE exE conjE)
    assume "map_of ps (fieldName f) = None" "isOptional f"
    with opts show ?thesis by (auto simp: encode_entry_def m get_property_def)
  next
    fix x assume p: "map_of ps (fieldName f) = Some x" and e: "entry_fits f x"
    then have nu: "x \<noteq> Undef" by (auto simp: entry_fits_def split: if_splits)
    show ?thesis
    proof (cases "isRepeated f")
      case True
      with e obtain ys where ys: "x = JArray ys" "\<forall>y\<in>set ys. fits (fieldSchema f) y" by (auto simp: entry_fits_def)
      have "fold_res (\<lambda>y. encodeTlvInternal (fieldSchema f) y (context_tag (fieldId f)) opts) ys w =
          fold_res write_element (concat (map (\<lambda>y. elements (fieldSchema f) y (context_tag (fieldId f))) ys)) w"
        using ys(2) ih by (intro fold_res_concat) blast
      with True p ys opts show ?thesis by (auto simp: encode_entry_def m get_property_def entry_elements_def)
    next
      case False
      with e have "fits (fieldSchema f) x" by (simp add: entry_fits_def)
      with False p nu opts ih show ?thesis by (auto simp: encode_entry_def m get_property_def entry_elements_def)
    qed
  qed
qed

lemma and_then_return [simp]: "and_then m Inr = m"
  by (cases m) auto

lemma fold_res_nil [simp]: "fold_res f [] = Inr"
  by (rule ext) simp

lemma fold_res_append_fun: "fold_res f (xs @ ys) = (\<lambda>w. and_then (fold_res f xs w) (fold_res f ys))"
  by (rule ext) (rule fold_res_append)

lemma fold_res_single [simp]: "fold_res f [x] = f x"
  by (rule ext) simp

lemma write_element_simps:
  "carries_value ty \<Longrightarrow> write_element (element_of tag ty v) w = and_then (writeTag ty tag w) (writePrimitive ty v)"
  "\<not> carries_value ty \<Longrightarrow> write_element (element_of tag ty v) w = writeTag ty tag w"
  by (simp_all add: write_element_def)

lemma carries_numeric [simp]: "carries_value (numeric_type_length t l)"
  by (cases t) (simp_all add: numeric_type_length_def carries_value_def)

lemma carries_simps [simp]:
  "carries_value (Utf8String l)" "carries_value (ByteString l)" "\<not> carries_value (Boolean b)" "\<not> carries_value NullType"
  "\<not> carries_value Structure" "\<not> carries_value Array" "\<not> carries_value List" "\<not> carries_value EndOfContainer"
  by (simp_all add: carries_value_def)

lemma concat_entries:
  assumes "distinct (map fst ps)"
  shows "concat (map (\<lambda>n. case map_of ps n of None \<Rightarrow> [] | Some x \<Rightarrow> h (n, x)) (map fst ps)) = concat (map h ps)"
proof -
  have "map (\<lambda>n. case map_of ps n of None \<Rightarrow> [] | Some x \<Rightarrow> h (n, x)) (map fst ps) = map h ps"
    using assms by (simp add: map_of_eq_Some_iff [THEN iffD2] cong: map_cong)
      (auto split: option.splits dest: eq_key_imp_eq_value)
  then show ?thesis by (simp only:)
qed

lemma concat_present:
  "concat (map (\<lambda>n. case map_of ps n of None \<Rightarrow> [] | Some x \<Rightarrow> h (n, x)) ns) =
   concat (map (\<lambda>n. case map_of ps n of None \<Rightarrow> [] | Some x \<Rightarrow> h (n, x)) (filter (\<lambda>n. n \<in> set (map fst ps)) ns))"
  by (induction ns) (force simp: map_of_eq_None_iff split: option.splits dest: map_of_SomeD)+

lemma encode_object_elements:
  assumes sound: "sound_schema (ObjectSchema fds st allow)" and fit: "fits (ObjectSchema fds st allow) v"
    and opts: "\<not> (forWriteInteraction opts \<and> allowMissingFields opts)"
    and ih: "\<And>f x tag w. f \<in> set fds \<Longrightarrow> fits (fieldSchema f) x \<Longrightarrow>
       encodeTlvInternal (fieldSchema f) x tag opts w = fold_res write_element (elements (fieldSchema f) x tag) w"
  shows "encodeTlvInternal (ObjectSchema fds st allow) v tag opts w =
    fold_res write_element (elements (ObjectSchema fds st allow) v tag) w"
proof -
  define entries where "entries = map (\<lambda>f. (fieldName f, isOptional f, isRepeated f, fieldId f,
              (\<lambda>x. encodeTlvInternal (fieldSchema f) x (context_tag (fieldId f)) opts))) fds"
  define els where "els = entry_elements (map (\<lambda>f. (fieldName f, isRepeated f, fieldId f, elements (fieldSchema f))) fds)"
  obtain ps where ps: "v = JObject ps" "distinct (map fst ps)"
    and pf: "\<And>name x. (name, x) \<in> set ps \<Longrightarrow> \<exists>f\<in>set fds. fieldName f = name \<and> entry_fits f x"
    and opt: "\<And>f. f \<in> set fds \<Longrightarrow> isOptional f \<or> (\<exists>x. map_of ps (fieldName f) = Some x)"
    and ord: "if st then map fst ps = filter (\<lambda>n. n \<in> set (map fst ps)) (map fieldName fds) else obj_keys ps = map fst ps"
    using fits_object [OF sound fit] by metis
  define h where "h = (\<lambda>n. case map_of ps n of None \<Rightarrow> [] | Some x \<Rightarrow> els (n, x))"
  have dn: "distinct (map fieldName fds)" using sound by simp
  have one: "encode_entry entries opts (JObject ps) n w = fold_res write_element (h n) w"
    if n: "n \<in> set (map fieldName fds)" for n w
  proof -
    from n obtain f where f: "f \<in> set fds" "n = fieldName f" by auto
    have "map_of ps (fieldName f) = None \<and> isOptional f \<or> (\<exists>x. map_of ps (fieldName f) = Some x \<and> entry_fits f x)"
    proof (cases "map_of ps (fieldName f)")
      case None
      with opt [OF f(1)] show ?thesis by simp
    next
      case (Some x)
      then obtain g where g: "g \<in> set fds" "fieldName g = fieldName f" "entry_fits g x" using pf map_of_SomeD by metis
      then have "g = f" using dn f(1) by (auto simp: distinct_map dest: inj_onD)
      with g Some show ?thesis by simp
    qed
    then show ?thesis
      unfolding f(2) h_def els_def entries_def by (rule encode_entry_elements [OF sound f(1) opts _ ih [OF f(1)]])
  qed
  have names: "map fst entries = map fieldName fds" by (simp add: entries_def)
  have all: "fold_res (encode_entry entries opts (JObject ps)) ns w = fold_res write_element (concat (map h ns)) w"
    if "set ns \<subseteq> set (map fieldName fds)" for ns w
    using that one by (intro fold_res_concat) blast
  have cp: "concat (map h (map fst ps)) = concat (map els ps)"
    unfolding h_def using ps(2) by (rule concat_entries)
  have "(if st then encode_structure entries opts (JObject ps) w else encode_list entries opts (JObject ps) w) =
      fold_res write_element (concat (map els ps)) w" for w
  proof (cases st)
    case True
    then have k: "map fst ps = filter (\<lambda>n. n \<in> set (map fst ps)) (map fieldName fds)" using ord by (simp only: if_True)
    have "concat (map h (map fieldName fds)) = concat (map h (filter (\<lambda>n. n \<in> set (map fst ps)) (map fieldName fds)))"
      unfolding h_def by (rule concat_present)
    also have "\<dots> = concat (map els ps)" unfolding k [symmetric] by (rule cp)
    finally have "concat (map h (map fieldName fds)) = concat (map els ps)" .
    with True show ?thesis using all [of "map fieldName fds"] by (simp add: encode_structure_def names)
  next
    case False
    then have k: "obj_keys ps = map fst ps" using ord by simp
    have sub: "set (map fst ps) \<subseteq> set (map fieldName fds)" using pf by force
    have rest: "concat (map h (filter (\<lambda>n. n \<notin> set (map fst ps)) (map fieldName fds))) = []"
      by (force simp: h_def split: option.splits dest: map_of_SomeD)
    have "fold_res (encode_entry entries opts (JObject ps)) (filter (\<lambda>n. n \<notin> set (map fst ps)) (map fieldName fds)) w' = Inr w'" for w'
    proof -
      have "set (filter (\<lambda>n. n \<notin> set (map fst ps)) (map fieldName fds)) \<subseteq> set (map fieldName fds)" by auto
      from all [OF this, of w', unfolded rest] show ?thesis by (simp only: fold_res.simps)
    qed
    then have "encode_list entries opts (JObject ps) w = fold_res (encode_entry entries opts (JObject ps)) (map fst ps) w"
      unfolding encode_list_def names object_keys_def js_value.case k and_then_simps
      by (cases "fold_res (encode_entry entries opts (JObject ps)) (map fst ps) w") auto
    with False all [OF sub] cp show ?thesis by simp
  qed
  then show ?thesis
    unfolding ps(1) encodeTlvInternal.simps Let_def entries_def [symmetric] elements.simps js_value.case els_def [symmetric]
    by (simp add: fold_res_append write_element_simps cong: and_then_cong)
qed

lemma encode_elements:
  "sound_schema S \<Longrightarrow> fits S v \<Longrightarrow> \<not> (forWriteInteraction opts \<and> allowMissingFields opts) \<Longrightarrow>
   encodeTlvInternal S v tag opts w = fold_res write_element (elements S v tag) w"
proof (induction S arbitrary: v tag w rule: tlv_schema_induct)
  case (Numeric num t p mn mx)
  then show ?case by (cases v) (auto simp: write_element_simps Let_def)
next
  case (String utf mn mx)
  then show ?case
    by (auto simp: write_element_simps Let_def split: js_value.splits tlv_prim.splits if_splits)
next
  case Boolean
  then show ?case by (auto simp: write_element_simps split: js_value.splits tlv_prim.splits)
next
  case (Nullable S)
  then show ?case by (auto simp: write_element_simps)
next
  case (Array S mn mx)
  then obtain xs where xs: "v = JArray xs" "\<forall>x\<in>set xs. fits S x" by (cases v) (auto simp: list_all_iff)
  have "fold_res (\<lambda>x. encodeTlvInternal S x None opts) xs w = fold_res write_element (concat (map (\<lambda>x. elements S x None) xs)) w" for w
    using Array xs(2) by (intro fold_res_concat) simp
  with xs(1) show ?case by (simp add: array_items_def fold_res_append_fun write_element_simps)
next
  case (Object fds st allow)
  have "list_all (\<lambda>f. sound_schema (fieldSchema f)) fds" using Object.prems(1) by simp
  then show ?case
    using Object.prems Object.IH by (intro encode_object_elements) (auto simp: list_all_iff)
next
  case (Wrapper S wrap unwrap)
  then show ?case by (cases "wrap v") auto
qed auto

subsection \<open>The elements are well formed\<close>

definition tidy :: "tlv_element \<Rightarrow> bool" where
  "tidy e \<longleftrightarrow> ok_element e \<and> (\<not> carries_value (elType e) \<longrightarrow> elValue e = PUndefined)"

lemma tidy_markers [simp]:
  "tidy (element_of tag (Boolean b) PUndefined) \<longleftrightarrow> ok_tag tag" "tidy (element_of tag NullType PUndefined) \<longleftrightarrow> ok_tag tag"
  "tidy (element_of tag Structure PUndefined) \<longleftrightarrow> ok_tag tag" "tidy (element_of tag Array PUndefined) \<longleftrightarrow> ok_tag tag"
  "tidy (element_of tag List PUndefined) \<longleftrightarrow> ok_tag tag" "tidy (element_of tag EndOfContainer PUndefined) \<longleftrightarrow> ok_tag tag"
  by (simp_all add: tidy_def ok_element_def ok_type_def ok_value_def)

lemma ok_context_tag: "0 \<le> i \<Longrightarrow> i < 256 \<Longrightarrow> ok_tag (context_tag i)"
  by (simp add: ok_tag_def context_tag_def)

lemma ok_no_tag [simp]: "ok_tag None"
  by (simp add: ok_tag_def)

lemma elements_tidy:
  "sound_schema S \<Longrightarrow> fits S v \<Longrightarrow> ok_tag tag \<Longrightarrow> list_all tidy (elements S v tag)"
proof (induction S arbitrary: v tag rule: tlv_schema_induct)
  case (Numeric num t p mn mx)
  then show ?case by (cases v) (auto simp: tidy_def ok_element_def numeric_fits_def Let_def)
next
  case (String utf mn mx)
  then show ?case
    by (auto simp: tidy_def ok_element_def ok_type_def split: js_value.splits tlv_prim.splits)
next
  case (Array S mn mx)
  then show ?case
    using Array.IH [OF _ _ ok_no_tag] by (cases v) (fastforce simp: list_all_iff)+
next
  case (Object fds st allow)
  obtain ps where ps: "v = JObject ps"
    and pf: "\<And>name x. (name, x) \<in> set ps \<Longrightarrow> \<exists>f\<in>set fds. fieldName f = name \<and> entry_fits f x"
    using fits_object [OF Object.prems(1,2)] by metis
  have s: "distinct (map fieldName fds)" "\<And>f. f \<in> set fds \<Longrightarrow> sound_schema (fieldSchema f) \<and> 0 \<le> fieldId f \<and> fieldId f < 256"
    using Object.prems(1) by (auto simp: list_all_iff)
  have "list_all tidy (entry_elements (map (\<lambda>f. (fieldName f, isRepeated f, fieldId f, elements (fieldSchema f))) fds) p)"
    if p: "p \<in> set ps" for p
  proof -
    obtain name x where nx: "p = (name, x)" by (cases p)
    with p pf obtain f where f: "f \<in> set fds" "fieldName f = name" "entry_fits f x" by blast
    have t: "fits (fieldSchema f) y \<Longrightarrow> list_all tidy (elements (fieldSchema f) y (context_tag (fieldId f)))" for y
      using s(2) [OF f(1)] by (intro Object.IH [OF f(1)] ok_context_tag) simp_all
    show ?thesis
      unfolding nx f(2) [symmetric] entry_elements_def prod.case map_of_fields [OF s(1) f(1)] option.case
      using f(3) t by (cases "isRepeated f") (fastforce simp: entry_fits_def list_all_iff)+
  qed
  with ps Object.prems(3) show ?case
    by (auto simp: list_all_iff)
next
  case (Wrapper S wrap unwrap)
  then show ?case by (cases "wrap v") auto
qed (auto split: js_value.splits tlv_prim.splits)

lemma elements_start:
  "fits S v \<Longrightarrow> \<exists>ty. ty \<noteq> EndOfContainer \<and> (\<forall>tag. \<exists>e es. elements S v tag = e # es \<and> elTag e = tag \<and> elType e = ty)"
proof (induction S arbitrary: v rule: tlv_schema_induct)
  case (Nullable S)
  then show ?case by (cases "v = Null") auto
next
  case (Wrapper S wrap unwrap)
  then show ?case by (cases "wrap v") auto
qed (auto simp: numeric_type_length_def split: js_value.splits tlv_prim.splits numeric_type.splits)

lemma elements_head:
  assumes "fits S v"
  shows "\<exists>e es. elements S v tag = e # es \<and> elTag e = tag \<and> elType e = first_type S v \<and> first_type S v \<noteq> EndOfContainer"
proof -
  obtain ty where ty: "ty \<noteq> EndOfContainer" "\<And>tag. \<exists>e es. elements S v tag = e # es \<and> elTag e = tag \<and> elType e = ty"
    using elements_start [OF assms] by blast
  have "first_type S v = ty" using ty(2) [of None] by (auto simp: first_type_def)
  with ty(1) ty(2) [of tag] show ?thesis by simp
qed

subsection \<open>The two writers\<close>

lemma write_element_bytes:
  assumes "tidy e" "wf_writer w"
  shows "\<exists>w'. write_element e (ByteArrayWriter w) = Inr (ByteArrayWriter w') \<and> wf_writer w' \<and>
    written w' = written w @ element_bytes e"
proof -
  have e: "ok_tag (elTag e)" "ok_type (elType e)" "ok_value (elType e) (elValue e)"
    using assms(1) by (simp_all add: tidy_def ok_element_def)
  obtain w1 where w1: "codec_writeTag (elType e) (elTag e) w = Inr w1" "wf_writer w1"
    "written w1 = written w @ tag_bytes (elType e) (elTag e)"
    using writeTag_written [OF assms(2) e(1,2)] by blast
  show ?thesis
  proof (cases "carries_value (elType e)")
    case True
    from writePrimitive_written [OF w1(2) True e(2,3)] w1 True show ?thesis
      by (auto simp: write_element_def writeTag_def writePrimitive_def element_bytes_def)
  next
    case False
    then have "value_bytes (elType e) (elValue e) = []"
      by (auto simp: value_bytes_def carries_value_def split: tlv_type_length.splits tlv_prim.splits)
    with w1 False show ?thesis by (simp add: write_element_def writeTag_def element_bytes_def)
  qed
qed

lemma write_elements_bytes:
  "list_all tidy es \<Longrightarrow> wf_writer w \<Longrightarrow>
   \<exists>w'. fold_res write_element es (ByteArrayWriter w) = Inr (ByteArrayWriter w') \<and> wf_writer w' \<and>
     written w' = written w @ concat (map element_bytes es)"
proof (induction es arbitrary: w)
  case (Cons e es)
  from Cons.prems have t: "tidy e" "list_all tidy es" by simp_all
  obtain w1 where w1: "write_element e (ByteArrayWriter w) = Inr (ByteArrayWriter w1)" "wf_writer w1"
    "written w1 = written w @ element_bytes e"
    using write_element_bytes [OF t(1) Cons.prems(2)] by blast
  from Cons.IH [OF t(2) w1(2)] w1 show ?case by auto
qed simp

lemma write_element_array: "tidy e \<Longrightarrow> write_element e (ArrayWriter es) = Inr (ArrayWriter (es @ [e]))"
  by (cases e) (auto simp: write_element_def writeTag_def writePrimitive_def tidy_def)

lemma write_elements_array: "list_all tidy es \<Longrightarrow> fold_res write_element es (ArrayWriter acc) = Inr (ArrayWriter (acc @ es))"
  by (induction es arbitrary: acc) (simp_all add: write_element_array)

lemma encodeInternal_elements:
  assumes "sound_schema S" "fits S v"
  shows "encodeInternal S v = Inr (concat (map element_bytes (elements S v None)))"
proof -
  have "encodeTlvInternal S v None no_options (ByteArrayWriter (new_DataWriter True)) =
      fold_res write_element (elements S v None) (ByteArrayWriter (new_DataWriter True))"
    using assms by (intro encode_elements) (simp_all add: no_options_def)
  moreover obtain w' where "fold_res write_element (elements S v None) (ByteArrayWriter (new_DataWriter True)) = Inr (ByteArrayWriter w')"
    "wf_writer w'" "written w' = concat (map element_bytes (elements S v None))"
    using write_elements_bytes [OF elements_tidy [OF assms ok_no_tag] new_DataWriter_wf(1)] by (auto simp: writer_simps)
  ultimately show ?thesis by (simp add: encodeInternal_def writer_simps)
qed

lemma encodeTlv_elements:
  assumes "sound_schema S" "fits S v" "\<not> (forWriteInteraction opts \<and> allowMissingFields opts)"
  shows "encodeTlv S v opts = Inr (elements S v None)"
proof -
  have "encodeTlvInternal S v None opts (ArrayWriter []) = Inr (ArrayWriter (elements S v None))"
    unfolding encode_elements [OF assms] using write_elements_array [OF elements_tidy [OF assms(1,2) ok_no_tag], of "[]"] by simp
  then show ?thesis by (simp add: encodeTlv_def)
qed

lemma validate_all_Inr: "(\<And>x. x \<in> set xs \<Longrightarrow> check x = Inr ()) \<Longrightarrow> validate_all check xs = Inr ()"
  unfolding validate_all_def by (induction xs) auto

lemma fold_res_unit: "(\<And>x. x \<in> set xs \<Longrightarrow> f x () = Inr ()) \<Longrightarrow> fold_res f xs () = Inr ()"
  by (induction xs) auto

lemma fits_validate: "sound_schema S \<Longrightarrow> fits S v \<Longrightarrow> validate S v = Inr ()"
proof (induction S arbitrary: v rule: tlv_schema_induct)
  case (Numeric num t p mn mx)
  then show ?case by (simp split: js_value.splits)
next
  case (Array S mn mx)
  then obtain xs where xs: "v = JArray xs" "validate_length mn mx (int (length xs)) = Inr ()" "\<forall>x\<in>set xs. fits S x"
    by (cases v) (auto simp: list_all_iff)
  have "validate_all (\<lambda>x. validate S x) xs = Inr ()" using xs(3) Array by (intro validate_all_Inr) simp
  with xs show ?case by simp
next
  case (Object fds st allow)
  obtain ps where ps: "v = JObject ps" "distinct (map fst ps)"
    and pf: "\<And>name x. (name, x) \<in> set ps \<Longrightarrow> \<exists>f\<in>set fds. fieldName f = name \<and> entry_fits f x"
    and opt: "\<And>f. f \<in> set fds \<Longrightarrow> isOptional f \<or> (\<exists>x. map_of ps (fieldName f) = Some x)"
    using fits_object [OF Object.prems] by metis
  have d: "distinct (map fieldName fds)" and s: "\<And>f. f \<in> set fds \<Longrightarrow> sound_schema (fieldSchema f)"
    using Object.prems(1) by (auto simp: list_all_iff)
  have one: "and_then (get_property (fieldName f) (JObject ps)) (\<lambda>data.
           if data = Undef then (if isOptional f then Inr () else Inl ValidationMandatoryFieldMissingError)
           else if isRepeated f then
             (case data of
                JArray xs \<Rightarrow>
                  and_then (validate_length (case minLength f of None \<Rightarrow> 2 | Some m \<Rightarrow> m)
                      (case maxLength f of None \<Rightarrow> 65535 | Some m \<Rightarrow> m) (int (length xs)))
                    (\<lambda>_. validate_all (\<lambda>x. validate (fieldSchema f) x) xs)
              | _ \<Rightarrow> Inl ValidationDatatypeMismatchError)
           else validate (fieldSchema f) data) = Inr ()" if f: "f \<in> set fds" for f
    proof (cases "map_of ps (fieldName f)")
      case None
      with opt [OF f] show ?thesis by (simp add: get_property_def)
    next
      case (Some x)
      then obtain g where "g \<in> set fds" "fieldName g = fieldName f" "entry_fits g x" using pf map_of_SomeD by metis
      with d f have e: "entry_fits f x" by (auto simp: distinct_map dest: inj_onD)
      with Some Object.IH [OF f s [OF f]] show ?thesis
        by (auto simp: get_property_def entry_fits_def intro!: validate_all_Inr split: if_splits)
    qed
  show ?case
    unfolding ps(1) validate.simps by (rule fold_res_unit) (auto simp only: set_map image_iff prod.case one)
next
  case (Wrapper S wrap unwrap)
  then show ?case by (cases "wrap v") auto
qed (auto split: js_value.splits tlv_prim.splits)

subsection \<open>Decoding reads the elements back\<close>

lemma obj_set_new: "name \<notin> fst ` set acc \<Longrightarrow> obj_set name x acc = acc @ [(name, x)]"
  by (induction acc) auto

lemma obj_set_last: "name \<notin> fst ` set acc \<Longrightarrow> obj_set name x (acc @ [(name, y)]) = acc @ [(name, x)]"
  by (induction acc) auto

lemma map_of_last: "name \<notin> fst ` set acc \<Longrightarrow> map_of (acc @ [(name, y)]) name = Some y"
  by (induction acc) auto

lemma append_repeated_simps:
  "name \<notin> fst ` set acc \<Longrightarrow> append_repeated name x acc = acc @ [(name, JArray [x])]"
  "name \<notin> fst ` set acc \<Longrightarrow> append_repeated name x (acc @ [(name, JArray zs)]) = acc @ [(name, JArray (zs @ [x]))]"
  by (simp_all add: append_repeated_def obj_set_new obj_set_last map_of_last map_of_eq_None_iff [THEN iffD2] del: map_of_append)

lemma field_decoders_lookup:
  "distinct (map fieldId fds) \<Longrightarrow> f \<in> set fds \<Longrightarrow>
   field_decoders fds (fieldId f) = Some (fieldName f, isRepeated f, decodeValue (fieldSchema f))"
proof -
  assume d: "distinct (map fieldId fds)" and f: "f \<in> set fds"
  have "distinct (map fst (map (\<lambda>f. (fieldId f, fieldName f, isRepeated f, decodeValue (fieldSchema f))) (rev fds)))"
    using d by (simp add: rev_map [symmetric] comp_def)
  then show ?thesis
    unfolding field_decoders_def using f by (intro map_of_is_SomeI) auto
qed

lemma tag_fields_context [simp]: "tag_fields (context_tag i) = (None, Some i)"
  by (simp add: tag_fields_def context_tag_def)

lemma apply_fallbacks_complete:
  "(\<And>f. f \<in> set fds \<Longrightarrow> isOptional f \<or> (\<exists>x. map_of ps (fieldName f) = Some x \<and> x \<noteq> Undef)) \<Longrightarrow> apply_fallbacks fds ps = ps"
proof (induction fds)
  case (Cons f fds)
  from Cons.prems [of f] have "isOptional f \<or> map_of ps (fieldName f) \<notin> {None, Some Undef}" by auto
  with Cons show ?case by (simp add: apply_fallbacks_def)
qed (simp add: apply_fallbacks_def)

locale tlv_medium =
  fixes delivers :: "tlv_element list \<Rightarrow> tlv_reader \<Rightarrow> bool"
  assumes deliver: "delivers (e # es) r \<Longrightarrow> tidy e \<Longrightarrow>
    \<exists>r1. readTagType r = Inr (elTag e, elType e, r1) \<and>
      (if carries_value (elType e) then \<exists>r2. readPrimitive (elType e) r1 = Inr (elValue e, r2) \<and> delivers es r2
       else delivers es r1)"
begin

lemma deliver_value:
  "delivers (element_of tag ty v # es) r \<Longrightarrow> tidy (element_of tag ty v) \<Longrightarrow> carries_value ty \<Longrightarrow>
   \<exists>r1 r2. readTagType r = Inr (tag, ty, r1) \<and> readPrimitive ty r1 = Inr (v, r2) \<and> delivers es r2"
  using deliver [of "element_of tag ty v" es r] by auto

lemma deliver_marker:
  "delivers (element_of tag ty PUndefined # es) r \<Longrightarrow> tidy (element_of tag ty PUndefined) \<Longrightarrow> \<not> carries_value ty \<Longrightarrow>
   \<exists>r1. readTagType r = Inr (tag, ty, r1) \<and> delivers es r1"
  using deliver [of "element_of tag ty PUndefined" es r] by auto

definition reads_back :: "tlv_schema \<Rightarrow> js_value \<Rightarrow> bool" where
  "reads_back S v \<longleftrightarrow>
     (\<forall>tag rest r. ok_tag tag \<longrightarrow> delivers (elements S v tag @ rest) r \<longrightarrow>
        (\<exists>r1 r2. readTagType r = Inr (tag, first_type S v, r1) \<and> decodeValue S r1 (first_type S v) = Inr (v, r2) \<and>
           delivers rest r2))"

lemma reads_backD:
  "reads_back S v \<Longrightarrow> ok_tag tag \<Longrightarrow> delivers (elements S v tag @ rest) r \<Longrightarrow>
   \<exists>r1 r2. readTagType r = Inr (tag, first_type S v, r1) \<and> decodeValue S r1 (first_type S v) = Inr (v, r2) \<and> delivers rest r2"
  by (simp add: reads_back_def)

lemma array_reads_back:
  assumes "\<forall>x\<in>set xs. reads_back S x \<and> fits S x"
    and "delivers (concat (map (\<lambda>x. elements S x None) xs) @ element_of None EndOfContainer PUndefined # rest) r"
  shows "\<exists>r'. array_loop (decodeValue S) r acc = Inr (acc @ xs, r') \<and> delivers rest r'"
  using assms
proof (induction xs arbitrary: r acc)
  case Nil
  then show ?case using deliver_marker [of None EndOfContainer rest r] by (auto simp: array_loop_step)
next
  case (Cons x xs)
  have "delivers (elements S x None @ (concat (map (\<lambda>x. elements S x None) xs) @ element_of None EndOfContainer PUndefined # rest)) r"
    using Cons.prems(2) by simp
  from reads_backD [OF _ ok_no_tag this] Cons.prems(1) obtain r1 r2 where
    r: "readTagType r = Inr (None, first_type S x, r1)" "decodeValue S r1 (first_type S x) = Inr (x, r2)"
    "delivers (concat (map (\<lambda>x. elements S x None) xs) @ element_of None EndOfContainer PUndefined # rest) r2" by auto
  have "first_type S x \<noteq> EndOfContainer" using elements_head Cons.prems(1) by auto
  then have "array_loop (decodeValue S) r acc = array_loop (decodeValue S) r2 (acc @ [x])"
    using r by (subst array_loop_step) simp
  with Cons.IH [OF _ r(3), of "acc @ [x]"] Cons.prems(1) show ?case by auto
qed

lemma field_step:
  assumes f: "f \<in> set fds" "distinct (map fieldId fds)" "0 \<le> fieldId f" "fieldId f < 256"
    and x: "reads_back (fieldSchema f) x" "fits (fieldSchema f) x"
    and d: "delivers (elements (fieldSchema f) x (context_tag (fieldId f)) @ rest) r"
  shows "\<exists>r2. delivers rest r2 \<and>
    object_loop (field_decoders fds) allow r acc =
    object_loop (field_decoders fds) allow r2
      (if isRepeated f then append_repeated (fieldName f) x acc else obj_set (fieldName f) x acc)"
proof -
  obtain r1 r2 where r: "readTagType r = Inr (context_tag (fieldId f), first_type (fieldSchema f) x, r1)"
    "decodeValue (fieldSchema f) r1 (first_type (fieldSchema f) x) = Inr (x, r2)" "delivers rest r2"
    using reads_backD [OF x(1) ok_context_tag [OF f(3,4)] d] by blast
  have "first_type (fieldSchema f) x \<noteq> EndOfContainer" using elements_head [OF x(2)] by blast
  with r field_decoders_lookup [OF f(2,1)] show ?thesis
    by (intro exI [of _ r2], subst object_loop_step) simp
qed

lemma repeated_steps:
  assumes f: "f \<in> set fds" "distinct (map fieldId fds)" "0 \<le> fieldId f" "fieldId f < 256" "isRepeated f"
    and n: "fieldName f \<notin> fst ` set acc"
    and ys: "\<forall>y\<in>set ys. reads_back (fieldSchema f) y \<and> fits (fieldSchema f) y"
    and d: "delivers (concat (map (\<lambda>y. elements (fieldSchema f) y (context_tag (fieldId f))) ys) @ rest) r"
  shows "\<exists>r2. delivers rest r2 \<and>
    object_loop (field_decoders fds) allow r (acc @ [(fieldName f, JArray zs)]) =
    object_loop (field_decoders fds) allow r2 (acc @ [(fieldName f, JArray (zs @ ys))])"
  using ys d
proof (induction ys arbitrary: r zs)
  case (Cons y ys)
  have "delivers (elements (fieldSchema f) y (context_tag (fieldId f)) @
      (concat (map (\<lambda>y. elements (fieldSchema f) y (context_tag (fieldId f))) ys) @ rest)) r"
    using Cons.prems(2) by simp
  from field_step [OF f(1-4) _ _ this, of allow "acc @ [(fieldName f, JArray zs)]"] Cons.prems(1) f(5) n
  obtain r2 where r2: "delivers (concat (map (\<lambda>y. elements (fieldSchema f) y (context_tag (fieldId f))) ys) @ rest) r2"
    "object_loop (field_decoders fds) allow r (acc @ [(fieldName f, JArray zs)]) =
     object_loop (field_decoders fds) allow r2 (acc @ [(fieldName f, JArray (zs @ [y]))])"
    by (auto simp: append_repeated_simps)
  with Cons.IH [OF _ r2(1), of "zs @ [y]"] Cons.prems(1) show ?case by auto
qed auto

lemma object_reads_back:
  assumes fds: "distinct (map fieldName fds)" "distinct (map fieldId fds)" "\<forall>f\<in>set fds. 0 \<le> fieldId f \<and> fieldId f < 256"
    and ih: "\<And>f x. f \<in> set fds \<Longrightarrow> fits (fieldSchema f) x \<Longrightarrow> reads_back (fieldSchema f) x"
    and ps: "\<And>name x. (name, x) \<in> set ps \<Longrightarrow> \<exists>f\<in>set fds. fieldName f = name \<and> entry_fits f x"
    and dist: "distinct (map fst (acc @ ps))"
    and d: "delivers (concat (map (entry_elements (map (\<lambda>f. (fieldName f, isRepeated f, fieldId f, elements (fieldSchema f))) fds)) ps) @
        element_of None EndOfContainer PUndefined # rest) r"
  shows "\<exists>r'. object_loop (field_decoders fds) allow r acc = Inr (acc @ ps, r') \<and> delivers rest r'"
  using ps dist d
proof (induction ps arbitrary: r acc)
  case Nil
  then show ?case using deliver_marker [of None EndOfContainer rest r] by (auto simp: object_loop_step)
next
  case (Cons p ps)
  obtain name x where p: "p = (name, x)" by (cases p)
  obtain f where f: "f \<in> set fds" "fieldName f = name" "entry_fits f x" using Cons.prems(1) [of name x] p by auto
  have id: "0 \<le> fieldId f" "fieldId f < 256" using fds(3) f(1) by auto
  have n: "fieldName f \<notin> fst ` set acc" using Cons.prems(2) by (simp add: p f(2))
  let ?els = "entry_elements (map (\<lambda>f. (fieldName f, isRepeated f, fieldId f, elements (fieldSchema f))) fds)"
  let ?rest = "concat (map ?els ps) @ element_of None EndOfContainer PUndefined # rest"
  have e: "?els p = (if isRepeated f then (case x of JArray ys \<Rightarrow> concat (map (\<lambda>y. elements (fieldSchema f) y (context_tag (fieldId f))) ys) | _ \<Rightarrow> [])
      else elements (fieldSchema f) x (context_tag (fieldId f)))"
    by (simp add: p f(2) [symmetric] entry_elements_def map_of_fields [OF fds(1) f(1)])
  have d: "delivers (?els p @ ?rest) r" using Cons.prems(3) by simp
  have "\<exists>r2. delivers ?rest r2 \<and>
      object_loop (field_decoders fds) allow r acc = object_loop (field_decoders fds) allow r2 (acc @ [p])"
  proof (cases "isRepeated f")
    case False
    then have x: "fits (fieldSchema f) x" using f(3) by (simp add: entry_fits_def)
    have "delivers (elements (fieldSchema f) x (context_tag (fieldId f)) @ ?rest) r" using d e False by simp
    from field_step [OF f(1) fds(2) id ih [OF f(1) x] x this, of allow acc] False n show ?thesis
      by (auto simp: obj_set_new p f(2))
  next
    case True
    with f(3) obtain y ys where ys: "x = JArray (y # ys)" "\<forall>z\<in>set (y # ys). fits (fieldSchema f) z"
      unfolding entry_fits_def by (auto simp: neq_Nil_conv)
    then have rb: "\<forall>z\<in>set (y # ys). reads_back (fieldSchema f) z \<and> fits (fieldSchema f) z" using ih [OF f(1)] by blast
    have "delivers (elements (fieldSchema f) y (context_tag (fieldId f)) @
        (concat (map (\<lambda>y. elements (fieldSchema f) y (context_tag (fieldId f))) ys) @ ?rest)) r"
      using d e True ys(1) by simp
    from field_step [OF f(1) fds(2) id _ _ this, of allow acc] rb True n obtain r1 where
      r1: "delivers (concat (map (\<lambda>y. elements (fieldSchema f) y (context_tag (fieldId f))) ys) @ ?rest) r1"
      "object_loop (field_decoders fds) allow r acc = object_loop (field_decoders fds) allow r1 (acc @ [(fieldName f, JArray [y])])"
      by (auto simp: append_repeated_simps)
    from repeated_steps [OF f(1) fds(2) id True n _ r1(1), of allow "[y]"] rb r1(2) ys(1) show ?thesis
      by (auto simp: p f(2))
  qed
  then obtain r2 where r2: "delivers ?rest r2"
    "object_loop (field_decoders fds) allow r acc = object_loop (field_decoders fds) allow r2 (acc @ [p])" by blast
  have "distinct (map fst ((acc @ [p]) @ ps))" using Cons.prems(2) by simp
  from Cons.IH [OF _ this r2(1)] Cons.prems(1) r2(2) show ?case by auto
qed

text \<open>What the medium delivers of a value is decoded to the value, for every schema.\<close>

lemma all_read_back: "sound_schema S \<Longrightarrow> fits S v \<Longrightarrow> reads_back S v"
proof (induction S arbitrary: v rule: tlv_schema_induct)
  case (Numeric num t p mn mx)
  then obtain x where x: "v = Prim x" "numeric_fits num t p x" by (cases v) auto
  define ty where "ty = numeric_type_length t (provided_length p x)"
  have f: "first_type (NumericSchema num t p mn mx) v = ty" "type_matches t ty" "carries_value ty"
    by (auto simp: first_type_def x(1) ty_def type_matches_def numeric_type_length_def carries_value_def split: numeric_type.splits)
  have t: "ok_tag tag \<Longrightarrow> tidy (element_of tag ty x)" for tag
    using x(2) f(3) by (simp add: tidy_def ok_element_def numeric_fits_def ty_def Let_def)
  show ?case
    unfolding reads_back_def
  proof (intro allI impI)
    fix tag rest r assume a: "ok_tag tag" "delivers (elements (NumericSchema num t p mn mx) v tag @ rest) r"
    then have "delivers (element_of tag ty x # rest) r" by (simp add: x(1) ty_def)
    from deliver_value [OF this t [OF a(1)] f(3)] x f show "\<exists>r1 r2.
        readTagType r = Inr (tag, first_type (NumericSchema num t p mn mx) v, r1) \<and>
        decodeValue (NumericSchema num t p mn mx) r1 (first_type (NumericSchema num t p mn mx) v) = Inr (v, r2) \<and> delivers rest r2"
      by (auto simp: numeric_fits_def Let_def)
  qed
next
  case (String utf mn mx)
  then obtain x ty where x: "v = Prim x" "\<And>tag. elements (StringSchema utf mn mx) v tag = [element_of tag ty x]"
    and ty: "(case ty of Utf8String _ \<Rightarrow> utf | ByteString _ \<Rightarrow> \<not> utf | _ \<Rightarrow> False)" "carries_value ty"
    by (auto split: js_value.splits tlv_prim.splits if_splits)
  have f: "first_type (StringSchema utf mn mx) v = ty"
    by (simp only: first_type_def x(2) list.case element_of_sel)
  show ?case
    unfolding reads_back_def f
  proof (intro allI impI)
    fix tag rest r assume a: "ok_tag tag" "delivers (elements (StringSchema utf mn mx) v tag @ rest) r"
    have "tidy (element_of tag ty x)" using elements_tidy [OF String a(1)] unfolding x(2) by simp
    with a(2) [unfolded x(2)] deliver_value [of tag ty x rest r] ty x(1) show "\<exists>r1 r2.
        readTagType r = Inr (tag, ty, r1) \<and> decodeValue (StringSchema utf mn mx) r1 ty = Inr (v, r2) \<and> delivers rest r2"
      by auto
  qed
next
  case Boolean
  then obtain b where b: "v = Prim (PBool b)" by (auto split: js_value.splits tlv_prim.splits)
  then show ?case
    using deliver_marker [of _ "Boolean b"] by (fastforce simp: reads_back_def first_type_def)
next
  case (Nullable S)
  show ?case
  proof (cases "v = Null")
    case True
    then show ?thesis using deliver_marker [of _ NullType] by (fastforce simp: reads_back_def first_type_def)
  next
    case False
    with Nullable.prems have v: "fits S v" "\<not> empty_means_null S v" "first_type S v \<noteq> NullType" "sound_schema S" by auto
    have "first_type (NullableSchema S) v = first_type S v" using False by (simp add: first_type_def)
    with False v Nullable.IH [OF v(4,1)] show ?thesis by (fastforce simp: reads_back_def)
  qed
next
  case (Array S mn mx)
  then obtain xs where xs: "v = JArray xs" "\<forall>x\<in>set xs. reads_back S x \<and> fits S x" by (cases v) (auto simp: list_all_iff)
  have f: "first_type (ArraySchema S mn mx) v = Array" by (simp add: first_type_def xs(1))
  show ?case
    unfolding reads_back_def f
  proof (intro allI impI)
    fix tag rest r assume a: "ok_tag tag" "delivers (elements (ArraySchema S mn mx) v tag @ rest) r"
    let ?items = "concat (map (\<lambda>x. elements S x None) xs) @ element_of None EndOfContainer PUndefined # rest"
    have "delivers (element_of tag Array PUndefined # ?items) r" using a(2) by (simp add: xs(1))
    from deliver_marker [OF this] a(1) obtain r1 where r1: "readTagType r = Inr (tag, Array, r1)" "delivers ?items r1" by auto
    from array_reads_back [OF xs(2) r1(2), of "[]"] r1(1) xs(1) show "\<exists>r1 r2. readTagType r = Inr (tag, Array, r1) \<and>
        decodeValue (ArraySchema S mn mx) r1 Array = Inr (v, r2) \<and> delivers rest r2" by auto
  qed
next
  case (Object fds st allow)
  obtain ps where ps: "v = JObject ps" "distinct (map fst ps)"
    and pf: "\<And>name x. (name, x) \<in> set ps \<Longrightarrow> \<exists>f\<in>set fds. fieldName f = name \<and> entry_fits f x"
    and opt: "\<And>f. f \<in> set fds \<Longrightarrow> isOptional f \<or> (\<exists>x. map_of ps (fieldName f) = Some x)"
    using fits_object [OF Object.prems] by metis
  have s: "distinct (map fieldName fds)" "distinct (map fieldId fds)" "\<forall>f\<in>set fds. 0 \<le> fieldId f \<and> fieldId f < 256"
    and ss: "\<And>f. f \<in> set fds \<Longrightarrow> sound_schema (fieldSchema f)"
    using Object.prems(1) by (auto simp: list_all_iff)
  have ih: "f \<in> set fds \<Longrightarrow> fits (fieldSchema f) x \<Longrightarrow> reads_back (fieldSchema f) x" for f x
    using Object.IH ss by blast
  have fb: "apply_fallbacks fds ps = ps"
    by (rule apply_fallbacks_complete) (metis opt pf map_of_SomeD entry_fits_def js_value.distinct(1))
  let ?ty = "if st then Structure else List"
  have f: "first_type (ObjectSchema fds st allow) v = ?ty" by (simp add: first_type_def ps(1))
  show ?case
    unfolding reads_back_def f
  proof (intro allI impI)
    fix tag rest r assume a: "ok_tag tag" "delivers (elements (ObjectSchema fds st allow) v tag @ rest) r"
    let ?els = "concat (map (entry_elements (map (\<lambda>f. (fieldName f, isRepeated f, fieldId f, elements (fieldSchema f))) fds)) ps) @
        element_of None EndOfContainer PUndefined # rest"
    have "delivers (element_of tag ?ty PUndefined # ?els) r" using a(2) by (simp add: ps(1))
    moreover have "tidy (element_of tag ?ty PUndefined)" "\<not> carries_value ?ty" using a(1) by (cases st; simp)+
    ultimately obtain r1 where r1: "readTagType r = Inr (tag, ?ty, r1)" "delivers ?els r1"
      using deliver_marker by blast
    obtain r2 where "object_loop (field_decoders fds) allow r1 [] = Inr (ps, r2)" "delivers rest r2"
      using object_reads_back [OF s ih pf _ r1(2), of "[]" allow] ps(2) by auto
    then have "decodeValue (ObjectSchema fds st allow) r1 ?ty = Inr (v, r2)" "delivers rest r2"
      by (simp_all add: field_decoders_def [symmetric] fb ps(1))
    with r1(1) show "\<exists>r1 r2. readTagType r = Inr (tag, ?ty, r1) \<and>
        decodeValue (ObjectSchema fds st allow) r1 ?ty = Inr (v, r2) \<and> delivers rest r2" by blast
  qed
next
  case (Wrapper S wrap unwrap)
  then obtain x where x: "wrap v = Inr x" "fits S x" "unwrap x = Inr v" by (auto split: sum.splits)
  have "first_type (TlvWrapper S wrap unwrap) v = first_type S x" by (simp add: first_type_def x(1))
  with Wrapper.IH [OF _ x(2)] Wrapper.prems(1) x show ?case by (fastforce simp: reads_back_def)
qed simp_all

end

subsection \<open>Bytes and element arrays\<close>

definition delivers_bytes :: "tlv_element list \<Rightarrow> tlv_reader \<Rightarrow> bool" where
  "delivers_bytes es r \<longleftrightarrow> (\<exists>pre. r = ByteArrayReader (rd pre (concat (map element_bytes es))))"

definition delivers_array :: "tlv_element list \<Rightarrow> tlv_reader \<Rightarrow> bool" where
  "delivers_array es r \<longleftrightarrow> (\<exists>done. r = ArrayReader (done @ es) (int (length done) - 1))"

lemma no_value_bytes: "\<not> carries_value ty \<Longrightarrow> value_bytes ty v = []"
  by (auto simp: value_bytes_def carries_value_def split: tlv_type_length.splits tlv_prim.splits)

interpretation bytes_medium: tlv_medium delivers_bytes
proof
  fix e es r
  assume "delivers_bytes (e # es) r" and t: "tidy e"
  then obtain pre where r: "r = ByteArrayReader (rd pre (element_bytes e @ concat (map element_bytes es)))"
    by (auto simp: delivers_bytes_def)
  have ok: "ok_tag (elTag e)" "ok_type (elType e)" "ok_value (elType e) (elValue e)"
    using t by (simp_all add: tidy_def ok_element_def)
  let ?t = "tag_bytes (elType e) (elTag e)" and ?v = "value_bytes (elType e) (elValue e)"
  have tag: "readTagType r = Inr (elTag e, elType e, ByteArrayReader (rd (pre @ ?t) (?v @ concat (map element_bytes es))))"
    using readTagType_read [OF ok(1,2), of pre "?v @ concat (map element_bytes es)"]
    by (simp add: readTagType_def r element_bytes_def)
  show "\<exists>r1. readTagType r = Inr (elTag e, elType e, r1) \<and>
      (if carries_value (elType e) then \<exists>r2. readPrimitive (elType e) r1 = Inr (elValue e, r2) \<and> delivers_bytes es r2
       else delivers_bytes es r1)"
    using tag readPrimitive_read [OF _ ok(2,3), of "pre @ ?t" "concat (map element_bytes es)"] no_value_bytes [of "elType e" "elValue e"]
    by (auto simp: readPrimitive_def delivers_bytes_def)
qed

interpretation array_medium: tlv_medium delivers_array
proof
  fix e es r
  assume "delivers_array (e # es) r" and t: "tidy e"
  then obtain pre where r: "r = ArrayReader (pre @ e # es) (int (length pre) - 1)" by (auto simp: delivers_array_def)
  have e: "array_element (pre @ e # es) (int (length pre)) = Some e" by (simp add: array_element_def)
  have "delivers_array es (ArrayReader (pre @ e # es) (int (length pre)))"
    unfolding delivers_array_def by (rule exI [of _ "pre @ [e]"]) simp
  then show "\<exists>r1. readTagType r = Inr (elTag e, elType e, r1) \<and>
      (if carries_value (elType e) then \<exists>r2. readPrimitive (elType e) r1 = Inr (elValue e, r2) \<and> delivers_array es r2
       else delivers_array es r1)"
    using e by (simp add: r readTagType_def readPrimitive_def)
qed

lemma decode_bytes_elements:
  assumes "sound_schema S" "fits S v"
  shows "decodeInternal S (concat (map element_bytes (elements S v None))) = Inr v"
proof -
  have "delivers_bytes (elements S v None @ []) (ByteArrayReader (rd [] (concat (map element_bytes (elements S v None)))))"
    unfolding delivers_bytes_def by auto
  from bytes_medium.reads_backD [OF bytes_medium.all_read_back [OF assms] ok_no_tag this]
  show ?thesis by (auto simp: decodeInternal_def decodeTlvInternal_def new_DataReader_rd)
qed

lemma decodeTlv_elements:
  assumes "sound_schema S" "fits S v"
  shows "decodeTlv S (elements S v None) = Inr v"
proof -
  have "delivers_array (elements S v None @ []) (ArrayReader (elements S v None) (- 1))"
    unfolding delivers_array_def by (rule exI [of _ "[]"]) simp
  from array_medium.reads_backD [OF array_medium.all_read_back [OF assms] ok_no_tag this]
  have "decodeTlvInternal S (ArrayReader (elements S v None) (- 1)) = Inr (v, None)"
    by (auto simp: decodeTlvInternal_def)
  moreover have "decodeTlv S es = and_then (decodeTlvInternal S (ArrayReader es (- 1))) (\<lambda>(v, _). Inr v)" for es
    using assms(2) unfolding decodeTlv_def by (cases S) (simp_all only: tlv_schema.case fits.simps)
  ultimately show ?thesis by simp
qed

text \<open>The length that AnySchema computes is the length of the bytes.\<close>

lemma length_written: "writeUInt l v w = Inr w' \<Longrightarrow> wf_writer w \<Longrightarrow>
    wf_writer w' \<and> length (written w') = length (written w) + width l"
  by (auto simp: writeUInt_def width_def and_then_Inr_iff write_defs writer_simps split: tlv_length.splits)

lemma getTagByteLength_bytes: "ok_tag tag \<Longrightarrow> getTagByteLength tag = Inr (int (length (tag_bytes ty tag)))"
  by (cases rule: ok_tag_cases)
    (auto simp: getTagByteLength_def tag_bytes_def tag_fields_def high_bits MATTER_COMMON_PROFILE_def)

lemma getPrimitiveByteLength_bytes:
  "carries_value ty \<Longrightarrow> ok_type ty \<Longrightarrow> ok_value ty v \<Longrightarrow> getPrimitiveByteLength ty v = Inr (int (length (value_bytes ty v)))"
  by (auto simp: getPrimitiveByteLength_def value_bytes_def carries_value_def ok_type_def ok_value_def getUIntByteLength_def
      width_def split: tlv_type_length.splits tlv_prim.splits tlv_length.splits)

lemma getEncodedByteLength_bytes:
  assumes "list_all tidy es"
  shows "getEncodedByteLength es = Inr (int (length (concat (map element_bytes es))))"
proof -
  have "fold_res (\<lambda>e byteLength.
         case elType e of
           OtherType _ \<Rightarrow> Inr byteLength
         | ty \<Rightarrow>
             and_then (getTagByteLength (elTag e)) (\<lambda>n.
               if carries_value ty
               then and_then (getPrimitiveByteLength ty (elValue e)) (\<lambda>m. Inr (byteLength + n + m))
               else Inr (byteLength + n))) es k = Inr (k + int (length (concat (map element_bytes es))))" for k
    using assms
  proof (induction es arbitrary: k)
    case (Cons e es)
    have ok: "ok_tag (elTag e)" "ok_type (elType e)" "ok_value (elType e) (elValue e)"
      using Cons.prems by (simp_all add: tidy_def ok_element_def)
    note l = getTagByteLength_bytes [OF ok(1), of "elType e"] getPrimitiveByteLength_bytes [OF _ ok(2,3)]
      no_value_bytes [of "elType e" "elValue e"]
    show ?case
      using Cons l ok(2) by (cases "elType e") (auto simp: element_bytes_def carries_value_def ok_type_def)
  qed simp
  from this [of 0] show ?thesis by (simp add: getEncodedByteLength_def)
qed

subsection \<open>What the decoder can return\<close>

function has_type :: "tlv_schema \<Rightarrow> js_value \<Rightarrow> bool" where
  "has_type (NumericSchema num t p mn mx) = (\<lambda>v.
     (case v of Prim (PNumber _) \<Rightarrow> t \<noteq> FloatNumber | Prim (PBigInt _) \<Rightarrow> t \<noteq> FloatNumber \<and> \<not> num
      | Prim (PFloat _) \<Rightarrow> t = FloatNumber | _ \<Rightarrow> False))"
| "has_type (StringSchema utf mn mx) = (\<lambda>v. (case v of Prim (PString _) \<Rightarrow> utf | Prim (PBytes _) \<Rightarrow> \<not> utf | _ \<Rightarrow> False))"
| "has_type BooleanSchema = (\<lambda>v. (case v of Prim (PBool _) \<Rightarrow> True | _ \<Rightarrow> False))"
| "has_type VoidSchema = (\<lambda>v. v = Undef)"
| "has_type NoArgumentsSchema = (\<lambda>v. v = Undef)"
| "has_type AnySchema = (\<lambda>v. (case v of JStream _ \<Rightarrow> True | _ \<Rightarrow> False))"
| "has_type (NullableSchema S) = (\<lambda>v. v = Null \<or> has_type S v)"
| "has_type (ArraySchema S mn mx) = (\<lambda>v. (case v of JArray xs \<Rightarrow> list_all (\<lambda>x. has_type S x) xs | _ \<Rightarrow> False))"
| "has_type (ObjectSchema fds structure allow) = (\<lambda>v.
     (case v of
        JObject ps \<Rightarrow>
          set (map fst ps) \<subseteq> set (map fieldName fds) \<and>
          list_all (\<lambda>(name, repeated, ok).
              case map_of ps name of None \<Rightarrow> True
              | Some x \<Rightarrow> if repeated then (case x of JArray ys \<Rightarrow> list_all ok ys | _ \<Rightarrow> False) else ok x)
            (map (\<lambda>f. (fieldName f, isRepeated f, (\<lambda>x. has_type (fieldSchema f) x))) fds)
      | _ \<Rightarrow> False))"
| "has_type (TlvWrapper S wrap unwrap) = (\<lambda>v. True)"
  by pat_completeness auto
termination by (relation "measure size") (simp_all add: field_schema_size)

text \<open>Fallback values are of the type of their field.\<close>

function typed_fallbacks :: "tlv_schema \<Rightarrow> bool" where
  "typed_fallbacks (NullableSchema S) \<longleftrightarrow> typed_fallbacks S"
| "typed_fallbacks (ArraySchema S mn mx) \<longleftrightarrow> typed_fallbacks S"
| "typed_fallbacks (TlvWrapper S wrap unwrap) \<longleftrightarrow> typed_fallbacks S"
| "typed_fallbacks (ObjectSchema fds structure allow) \<longleftrightarrow>
     list_all (\<lambda>f. (case fallback f of None \<Rightarrow> True | Some x \<Rightarrow> has_type (fieldSchema f) x) \<and> typed_fallbacks (fieldSchema f)) fds"
| "typed_fallbacks (NumericSchema num t p mn mx) \<longleftrightarrow> True"
| "typed_fallbacks (StringSchema utf mn mx) \<longleftrightarrow> True"
| "typed_fallbacks BooleanSchema \<longleftrightarrow> True"
| "typed_fallbacks VoidSchema \<longleftrightarrow> True"
| "typed_fallbacks NoArgumentsSchema \<longleftrightarrow> True"
| "typed_fallbacks AnySchema \<longleftrightarrow> True"
  by pat_completeness auto
termination by (relation "measure size") (simp_all add: field_schema_size)

definition from_bytes :: "tlv_reader \<Rightarrow> bool" where
  "from_bytes r \<longleftrightarrow> (case r of ByteArrayReader _ \<Rightarrow> True | ArrayReader _ _ \<Rightarrow> False)"

lemma read_from_bytes:
  "readTagType r = Inr (tag, ty, r1) \<Longrightarrow> from_bytes r1 = from_bytes r"
  "readPrimitive ty r = Inr (v, r1) \<Longrightarrow> from_bytes r1 = from_bytes r"
  by (cases r; auto simp: readTagType_def readPrimitive_def from_bytes_def and_then_Inr_iff split: option.splits)+

lemma any_from_bytes:
  "any_value r ty stream tag = Inr (s, r') \<Longrightarrow> from_bytes r' = from_bytes r"
  "any_loop r stream = Inr (s, r') \<Longrightarrow> from_bytes r' = from_bytes r"
proof (induction r ty stream tag and r stream arbitrary: s r' and s r' rule: any_value_any_loop.induct)
  case (1 r ty stream tag)
  then show ?case
    by (subst (asm) any_value.simps) (auto simp: and_then_Inr_iff split: tlv_type_length.splits dest: read_from_bytes)
next
  case (2 r stream)
  obtain tag ty r1 s2 r2 where t: "readTagType r = Inr (tag, ty, r1)" and v: "any_value r1 ty stream tag = Inr (s2, r2)"
    using "2.prems" by (subst (asm) any_loop_step) (auto split: sum.splits prod.splits)
  have b: "from_bytes r2 = from_bytes r" using "2.IH"(1) t v read_from_bytes(1) by metis
  show ?case
  proof (cases "ty = EndOfContainer")
    case True
    then show ?thesis using "2.prems" t v b by (subst (asm) any_loop_step) simp
  next
    case False
    then have l: "left r2 < left r" "any_loop r2 s2 = Inr (s, r')"
      using "2.prems" t v by (subst (asm) any_loop.simps, simp split: if_splits)+
    then show ?thesis using "2.IH"(2) t v False b by metis
  qed
qed

lemma readPrimitive_type:
  "readPrimitive ty r = Inr (v, r') \<Longrightarrow> from_bytes r \<Longrightarrow> from_bytes r' \<and>
   (case ty of SignedInt _ \<Rightarrow> (\<exists>n. v = PNumber n \<or> v = PBigInt n) | UnsignedInt _ \<Rightarrow> (\<exists>n. v = PNumber n \<or> v = PBigInt n)
    | Float _ \<Rightarrow> (\<exists>d. v = PFloat d) | Utf8String _ \<Rightarrow> (\<exists>s. v = PString s) | ByteString _ \<Rightarrow> (\<exists>bs. v = PBytes bs) | _ \<Rightarrow> True)"
  by (cases r)
    (auto simp: readPrimitive_def codec_readPrimitive_def from_bytes_def and_then_Inr_iff case_prod_unfold
      split: tlv_type_length.splits tlv_length.splits)

lemma array_loop_type:
  assumes "\<And>r ty x r'. dec r ty = Inr (x, r') \<Longrightarrow> from_bytes r \<Longrightarrow> P x \<and> from_bytes r'"
  shows "array_loop dec r acc = Inr (xs, r') \<Longrightarrow> from_bytes r \<Longrightarrow> (\<forall>x\<in>set acc. P x) \<Longrightarrow> (\<forall>x\<in>set xs. P x) \<and> from_bytes r'"
proof (induction "left r" arbitrary: r acc rule: less_induct)
  case less
  from less.prems(1) show ?case
  proof (cases rule: array_loopE)
    case finished
    with less.prems read_from_bytes(1) show ?thesis by auto
  next
    case (item ty r1 x r2)
    then have "P x \<and> from_bytes r2" using assms less.prems(2) read_from_bytes(1) by metis
    with less.hyps [OF item(4,5)] less.prems(3) show ?thesis by auto
  qed
qed

definition typed_entries :: "tlv_field list \<Rightarrow> js_value js_object \<Rightarrow> bool" where
  "typed_entries fds ps \<longleftrightarrow>
     set (map fst ps) \<subseteq> set (map fieldName fds) \<and>
     (\<forall>f\<in>set fds. case map_of ps (fieldName f) of None \<Rightarrow> True
        | Some x \<Rightarrow> if isRepeated f then (case x of JArray ys \<Rightarrow> \<forall>y\<in>set ys. has_type (fieldSchema f) y | _ \<Rightarrow> False)
                    else has_type (fieldSchema f) x)"

lemma fst_obj_set: "fst ` set (obj_set name x ps) = insert name (fst ` set ps)"
  by (induction ps) auto

lemma typed_entries_set:
  assumes "distinct (map fieldName fds)" "f \<in> set fds" "typed_entries fds ps"
    and "if isRepeated f then (case x of JArray ys \<Rightarrow> \<forall>y\<in>set ys. has_type (fieldSchema f) y | _ \<Rightarrow> False)
         else has_type (fieldSchema f) x"
  shows "typed_entries fds (obj_set (fieldName f) x ps)"
proof -
  have "f' = f" if "f' \<in> set fds" "fieldName f' = fieldName f" for f'
    using that assms(1,2) by (auto simp: distinct_map dest: inj_onD)
  note eq = this
  have "case map_of (obj_set (fieldName f) x ps) (fieldName g) of None \<Rightarrow> True
        | Some x \<Rightarrow> if isRepeated g then (case x of JArray ys \<Rightarrow> \<forall>y\<in>set ys. has_type (fieldSchema g) y | _ \<Rightarrow> False)
                    else has_type (fieldSchema g) x" if g: "g \<in> set fds" for g
  proof (cases "fieldName g = fieldName f")
    case True
    then have gf: "g = f" using eq g by blast
    show ?thesis unfolding gf using assms(4) by simp
  next
    case False
    with assms(3) g show ?thesis by (simp add: typed_entries_def)
  qed
  with assms(2,3) show ?thesis by (auto simp: typed_entries_def fst_obj_set)
qed

lemma typed_entries_append:
  assumes "distinct (map fieldName fds)" "f \<in> set fds" "typed_entries fds ps" "isRepeated f" "has_type (fieldSchema f) x"
  shows "typed_entries fds (append_repeated (fieldName f) x ps)"
proof -
  from assms(2,3,4) have "case map_of ps (fieldName f) of None \<Rightarrow> True
      | Some x \<Rightarrow> (case x of JArray ys \<Rightarrow> \<forall>y\<in>set ys. has_type (fieldSchema f) y | _ \<Rightarrow> False)"
    by (auto simp: typed_entries_def split: option.splits)
  with assms show ?thesis
    unfolding append_repeated_def
    by (auto split: option.splits js_value.splits intro!: typed_entries_set)
qed

lemma object_loop_type:
  assumes d: "distinct (map fieldName fds)"
    and dec: "\<And>f r ty x r'. f \<in> set fds \<Longrightarrow> decodeValue (fieldSchema f) r ty = Inr (x, r') \<Longrightarrow> from_bytes r \<Longrightarrow>
        has_type (fieldSchema f) x \<and> from_bytes r'"
  shows "object_loop (field_decoders fds) allow r acc = Inr (ps, r') \<Longrightarrow> from_bytes r \<Longrightarrow> typed_entries fds acc \<Longrightarrow>
     typed_entries fds ps \<and> from_bytes r'"
proof (induction "left r" arbitrary: r acc rule: less_induct)
  case less
  from less.prems(1) show ?case
  proof (cases rule: object_loopE)
    case finished
    with less.prems read_from_bytes(1) show ?thesis by auto
  next
    case (unknown tag ty r1 i es r2)
    then have "from_bytes r2" using less.prems(2) read_from_bytes(1) any_from_bytes(1) by metis
    with less.hyps [OF unknown(6,7)] less.prems(3) show ?thesis by blast
  next
    case (field tag ty r1 i name rep dec x r2)
    obtain f where f: "f \<in> set fds" "name = fieldName f" "rep = isRepeated f" "dec = decodeValue (fieldSchema f)"
      using field(4) by (auto simp: field_decoders_def dest!: map_of_SomeD)
    have x: "has_type (fieldSchema f) x \<and> from_bytes r2"
      using assms(2) [OF f(1)] field(1,5) f(4) less.prems(2) read_from_bytes(1) by metis
    then have "typed_entries fds (if rep then append_repeated name x acc else obj_set name x acc)"
      using typed_entries_append [OF d f(1) less.prems(3)] typed_entries_set [OF d f(1) less.prems(3), of x] f(2,3) by auto
    with less.hyps [OF field(6,7)] x show ?thesis by blast
  qed
qed

lemma apply_fallbacks_type:
  assumes d: "distinct (map fieldName fds)"
    and fb: "\<forall>f\<in>set fds. (case fallback f of None \<Rightarrow> True | Some x \<Rightarrow> has_type (fieldSchema f) x)"
    and t: "typed_entries fds ps"
  shows "typed_entries fds (apply_fallbacks fds ps)"
proof -
  have "set fs \<subseteq> set fds \<Longrightarrow> typed_entries fds ps \<Longrightarrow> typed_entries fds (apply_fallbacks fs ps)" for fs ps
  proof (induction fs arbitrary: ps)
    case (Cons f fs)
    then have "typed_entries fds (if isOptional f \<or> map_of ps (fieldName f) \<notin> {None, Some Undef} then ps
        else case fallback f of None \<Rightarrow> ps
          | Some x \<Rightarrow> obj_set (fieldName f) (if isRepeated f then JArray [x] else x) ps)"
      using fb by (auto split: option.splits intro!: typed_entries_set [OF d])
    with Cons show ?case by (simp add: apply_fallbacks_def)
  qed (simp add: apply_fallbacks_def)
  with t show ?thesis by blast
qed

lemma decodeValue_type:
  "sound_schema S \<Longrightarrow> typed_fallbacks S \<Longrightarrow> decodeValue S r ty = Inr (v, r') \<Longrightarrow> from_bytes r \<Longrightarrow>
   has_type S v \<and> from_bytes r'"
proof (induction S arbitrary: v r r' ty rule: tlv_schema_induct)
  case (Numeric num t p mn mx)
  then show ?case
    by (auto simp: and_then_Inr_iff type_matches_def number_of_bigint_def split: if_splits tlv_type_length.splits
        dest!: readPrimitive_type)
next
  case (String utf mn mx)
  then show ?case
    by (auto simp: and_then_Inr_iff split: if_splits tlv_type_length.splits
        dest!: readPrimitive_type)
next
  case (Array S mn mx)
  from Array.prems(3) obtain xs where xs: "v = JArray xs" "array_loop (decodeValue S) r [] = Inr (xs, r')"
    by (auto simp: and_then_Inr_iff split: if_splits)
  have "(\<forall>x\<in>set xs. has_type S x) \<and> from_bytes r'"
    by (rule array_loop_type [OF _ xs(2) Array.prems(4)]) (use Array.IH Array.prems in auto)
  with xs(1) show ?case by (simp add: list_all_iff)
next
  case (Object fds st allow)
  have d: "distinct (map fieldName fds)" and fb: "\<forall>f\<in>set fds. (case fallback f of None \<Rightarrow> True | Some x \<Rightarrow> has_type (fieldSchema f) x)"
    and s: "\<And>f. f \<in> set fds \<Longrightarrow> sound_schema (fieldSchema f) \<and> typed_fallbacks (fieldSchema f)"
    using Object.prems(1,2) by (auto simp: list_all_iff)
  from Object.prems(3) obtain ps where ps: "v = JObject (apply_fallbacks fds ps)"
    "object_loop (field_decoders fds) allow r [] = Inr (ps, r')"
    by (auto simp: and_then_Inr_iff field_decoders_def split: if_splits)
  have "typed_entries fds []" by (simp add: typed_entries_def)
  with object_loop_type [OF d _ ps(2) Object.prems(4)] Object.IH s
  have "typed_entries fds ps \<and> from_bytes r'" by blast
  then have "typed_entries fds (apply_fallbacks fds ps) \<and> from_bytes r'" using apply_fallbacks_type [OF d fb] by blast
  then show ?case
    unfolding ps(1) has_type.simps js_value.case list.pred_map o_def prod.case unfolding typed_entries_def list_all_iff by blast
qed (auto simp: and_then_Inr_iff split: if_splits tlv_type_length.splits dest: any_from_bytes)

end
