(* ===== verification/TlvProperties.thy ===== *)
theory TlvProperties
  imports TlvRoundTrip
begin

text \<open>
  The properties of the TLV schemas: round trips through bytes, streams and chunks, the equivalence of
  the two writers, the type of what the decoder returns, its termination, and where values are lost.
\<close>

subsection \<open>Streams\<close>

lemma any_encode_elements: "list_all tidy es \<Longrightarrow> any_encode es None w = fold_res write_element es w"
proof (induction es arbitrary: w)
  case (Cons e es)
  have "ok_type (elType e)" using Cons.prems by (simp add: tidy_def ok_element_def)
  then have "(case elType e of
              OtherType _ \<Rightarrow> Inr w
            | ty \<Rightarrow>
                if carries_value ty then and_then (writeTag ty (elTag e) w) (writePrimitive ty (elValue e))
                else writeTag ty (elTag e) w) = write_element e w"
    by (auto simp: write_element_def ok_type_def split: tlv_type_length.splits)
  with Cons show ?case by (auto simp: and_then_def split: sum.splits)
qed simp

lemma any_encode_bytes:
  assumes "list_all tidy es"
  shows "encodeInternal AnySchema (JStream es) = Inr (concat (map element_bytes es))"
proof -
  obtain w' where "fold_res write_element es (ByteArrayWriter (new_DataWriter True)) = Inr (ByteArrayWriter w')"
    "wf_writer w'" "written w' = concat (map element_bytes es)"
    using write_elements_bytes [OF assms new_DataWriter_wf(1)] by (auto simp: writer_simps)
  then show ?thesis by (simp add: encodeInternal_def any_encode_elements [OF assms] writer_simps)
qed

subsection \<open>Sample\<close>

definition sample_fields :: "tlv_field list" where
  "sample_fields =
     [TlvField ''a'' 0 TlvUInt16 None, TlvOptionalField ''b'' 1 TlvString,
      TlvField ''c'' 2 (TlvArray (NullableSchema BooleanSchema) None None None) None]"

definition sample_value :: js_value where
  "sample_value = JObject [(''a'', Prim (PNumber 513)), (''b'', Prim (PString [104, 105])),
     (''c'', JArray [Prim (PBool True), Null])]"

lemma sample_fits: "sound_schema (ObjectSchema sample_fields True False)" "fits (ObjectSchema sample_fields True False) sample_value"
  "typed_fallbacks (ObjectSchema sample_fields True False)"
proof -
  have t: "text_encode [104, 105] = [104, 105]" by (simp add: text_encode_def high_surrogate_def low_surrogate_def utf8_def)
  show "sound_schema (ObjectSchema sample_fields True False)" "typed_fallbacks (ObjectSchema sample_fields True False)"
    by (simp_all add: sample_fields_def TlvField_def TlvOptionalField_def TlvUInt16_def TlvString_def TlvArray_def)
  show "fits (ObjectSchema sample_fields True False) sample_value"
    by (simp add: sample_fields_def TlvField_def TlvOptionalField_def TlvUInt16_def TlvString_def TlvArray_def sample_value_def
        numeric_fits_def provided_length_def getUIntTlvLength_def num_le_def int_limit_defs numeric_type_length_def ok_type_def
        ok_value_def width_def within_bounds_def num_less_def num_greater_def validate_length_def number_of_bigint_def t
        high_surrogate_def low_surrogate_def empty_means_null_def first_type_def)
qed

subsection \<open>Properties\<close>

text \<open>C5: Round trip of TLV: for every schema with unambiguous fields and every value that fits it, encoding
  succeeds and decoding the bytes, with or without validation, returns the value.\<close>

theorem tlv_roundtrip:
  assumes "sound_schema S" "fits S v"
  shows "\<exists>bytes. encode S v = Inr bytes \<and> decode S bytes valid = Inr v"
  using encodeInternal_elements [OF assms] decode_bytes_elements [OF assms] fits_validate [OF assms]
  by (simp add: encode_def decode_def)

lemma tlv_roundtrip_witness:
  "\<exists>bytes. encode (ObjectSchema sample_fields True False) sample_value = Inr bytes \<and>
     decode (ObjectSchema sample_fields True False) bytes True = Inr sample_value"
  by (rule tlv_roundtrip [OF sample_fits(1,2)])

text \<open>C8: The two writers are equivalent: the stream of elements decodes to the value, writing the stream as
  bytes gives the bytes of the direct encoding, and the length computed for the stream is their number.\<close>

theorem tlv_stream_equivalence:
  assumes "sound_schema S" "fits S v" "\<not> (forWriteInteraction opts \<and> allowMissingFields opts)"
  shows "\<exists>es bytes. encodeTlv S v opts = Inr es \<and> decodeTlv S es = Inr v \<and> encodeInternal S v = Inr bytes \<and>
    encodeInternal AnySchema (JStream es) = Inr bytes \<and> getEncodedByteLength es = Inr (int (length bytes))"
  using encodeTlv_elements [OF assms] decodeTlv_elements [OF assms(1,2)] encodeInternal_elements [OF assms(1,2)]
    any_encode_bytes [OF elements_tidy [OF assms(1,2) ok_no_tag]]
    getEncodedByteLength_bytes [OF elements_tidy [OF assms(1,2) ok_no_tag]]
  by simp

lemma tlv_stream_equivalence_witness:
  "\<exists>es bytes. encodeTlv (ObjectSchema sample_fields True False) sample_value no_options = Inr es \<and>
    decodeTlv (ObjectSchema sample_fields True False) es = Inr sample_value \<and>
    encodeInternal (ObjectSchema sample_fields True False) sample_value = Inr bytes \<and>
    encodeInternal AnySchema (JStream es) = Inr bytes \<and> getEncodedByteLength es = Inr (int (length bytes))"
  using tlv_stream_equivalence [OF sample_fits(1,2), of no_options] by (simp add: no_options_def)

text \<open>C19: Type safety of the decoder: whatever the bytes, a value that the decoder returns has the type of its
  schema (nullable, array, structure with exactly the fields defined), provided fallback values do.\<close>

theorem tlv_decode_type:
  assumes "sound_schema S" "typed_fallbacks S" "decode S bytes valid = Inr v"
  shows "has_type S v"
proof -
  from assms(3) have "decodeInternal S bytes = Inr v"
    by (auto simp: decode_def and_then_Inr_iff split: if_splits)
  then obtain tag ty r1 r2 where r: "readTagType (ByteArrayReader (new_DataReader bytes True)) = Inr (tag, ty, r1)"
    "decodeValue S r1 ty = Inr (v, r2)"
    by (auto simp: decodeInternal_def decodeTlvInternal_def and_then_Inr_iff)
  have "from_bytes r1" using read_from_bytes(1) [OF r(1)] by (simp add: from_bytes_def)
  with decodeValue_type [OF assms(1,2) r(2)] show ?thesis by blast
qed

lemma tlv_decode_type_witness:
  "decode TlvUInt16 [0x05, 0x01, 0x02] True = Inr (Prim (PNumber 513)) \<and> has_type TlvUInt16 (Prim (PNumber 513))"
proof -
  have d: "decode TlvUInt16 [0x05, 0x01, 0x02] True = Inr (Prim (PNumber 513))" by code_simp
  have "has_type TlvUInt16 (Prim (PNumber 513))"
    by (rule tlv_decode_type [OF _ _ d]) (simp_all add: TlvUInt16_def)
  with d show ?thesis by blast
qed


text \<open>Round trip of arrays sent in chunks: the receiver puts the list together again.\<close>

theorem tlv_chunked_roundtrip:
  assumes "sound_schema S" "\<forall>x\<in>set xs. fits S x" "\<not> (forWriteInteraction opts \<and> allowMissingFields opts)"
  shows "\<exists>parts. encodeAsChunkedArray S mn mx xs opts = Inr parts \<and> decodeFromChunkedArray S mn mx parts None = Inr xs"
proof -
  have e: "encodeTlv (ArraySchema S mn mx) (JArray []) opts = encodeTlv (ArraySchema S 0 0) (JArray []) opts"
    by (simp add: encodeTlv_def)
  have d: "decodeTlv (ArraySchema S mn mx) es = decodeTlv (ArraySchema S 0 0) es" for es
    by (simp add: decodeTlv_def decodeTlvInternal_def)
  have f: "sound_schema (ArraySchema S 0 0)" "fits (ArraySchema S 0 0) (JArray [])"
    using assms(1) by (simp_all add: validate_length_def)
  have items: "map_res (\<lambda>x. encodeTlv S x opts) xs = Inr (map (\<lambda>x. elements S x None) xs)"
    using assms by (intro map_res_Inr encodeTlv_elements) auto
  have "fold_res (decode_chunk S mn mx) (map (\<lambda>e. (AppendItem, e)) (map (\<lambda>x. elements S x None) xs)) acc = Inr (acc @ xs)" for acc
    using assms(2) decodeTlv_elements [OF assms(1)]
    by (induction xs arbitrary: acc) (simp_all add: decode_chunk_def)
  then show ?thesis
    using decodeTlv_elements [OF f] encodeTlv_elements [OF f assms(3)] items
    by (simp add: encodeAsChunkedArray_def decodeFromChunkedArray_def decode_chunk_def e d array_items_def)
qed

lemma tlv_chunked_roundtrip_witness:
  "\<exists>parts. encodeAsChunkedArray BooleanSchema 0 2 [Prim (PBool True), Prim (PBool False)] no_options = Inr parts \<and>
     decodeFromChunkedArray BooleanSchema 0 2 parts None = Inr [Prim (PBool True), Prim (PBool False)]"
  using tlv_chunked_roundtrip [of BooleanSchema "[Prim (PBool True), Prim (PBool False)]" no_options 0 2]
  by (simp add: no_options_def)

subsection \<open>Where values are lost\<close>

text \<open>The width of a text's length is taken from its UTF-16 units, the length written counts UTF-8 bytes:
  128 letters of two bytes each have the length 256 in one byte, which reads as 0.\<close>

lemma text_encode_e_acute: "text_encode (replicate n 0xE9) = concat (replicate n [0xC3, 0xA9])"
proof -
  have "code_points (replicate n 0xE9) = replicate n 0xE9"
  proof (induction n)
    case (Suc n)
    then show ?case by (cases n) (simp_all add: high_surrogate_def low_surrogate_def)
  qed simp
  then show ?thesis by (simp add: text_encode_def utf8_def)
qed

lemma tlv_text_length_wraps:
  "encode TlvString (Prim (PString (replicate 128 0xE9))) = Inr (0x0C # 0x00 # concat (replicate 128 [0xC3, 0xA9]))"
  "decode TlvString (0x0C # 0x00 # bs) True = Inr (Prim (PString []))"
proof -
  let ?s = "replicate 128 (0xE9 :: 16 word)"
  have l: "length (concat (replicate 128 [0xC3, 0xA9 :: byte])) = 256" by (simp add: length_concat sum_list_replicate)
  have c: "control_byte 0 0x0C = 0x0C" by (simp add: control_byte_eq)
  have t: "written_code (Utf8String OneByte) = 0x0C" by code_simp
  show "encode TlvString (Prim (PString ?s)) = Inr (0x0C # 0x00 # concat (replicate 128 [0xC3, 0xA9]))"
    using l by (simp add: encode_def TlvString_def validate_length_def encodeInternal_def getUIntTlvLength_def num_le_def
        int_limit_defs writeTag_def writePrimitive_def codec_writeTag_def tag_fields_def c t codec_writePrimitive_def
        text_encode_e_acute writeUInt_def prim_int_def writer_simps write_defs le_bytes.simps)
  have p: "parseTypeLength 0x0C = Utf8String OneByte" by code_simp
  show "decode TlvString (0x0C # 0x00 # bs) True = Inr (Prim (PString []))"
    by (simp add: decode_def decodeInternal_def decodeTlvInternal_def readTagType_def codec_readTagType_def readUInt8_def
        read_uint_def getOffsetAndAdvance_def data_view_get_def new_DataReader_def control_field_eq readTag_def p TlvString_def
        readPrimitive_def codec_readPrimitive_def read_length_def readUtf8String_def readByteArray_def subarray_def text_decode_def
        validate_length_def)
qed

text \<open>A byte string cut off before its announced length is accepted with what is left.\<close>

lemma tlv_truncated_bytes_accepted:
  "decode TlvByteString [0x10, 0x05, 0x01, 0x02] True = Inr (Prim (PBytes [0x01, 0x02]))"
  by code_simp

text \<open>Turning a stream into plain values loses every boolean: its value is in the type, not in the element.\<close>

lemma tlv_any_loses_booleans:
  "and_then (encodeTlv BooleanSchema (Prim (PBool b)) no_options) decodeAnyTlvStream = Inr Undef"
  by (cases b) code_simp+

text \<open>Injecting a field into an object that lacks an optional nested object throws.\<close>

lemma tlv_inject_into_absent:
  assumes "i \<noteq> 0"
  shows "injectField (ObjectSchema [TlvOptionalField ''inner'' 0 (ObjectSchema [TlvField ''x'' j S None] True False)] True False)
     i v check (JObject []) = Inl TypeError"
  using assms by (simp add: TlvOptionalField_def TlvField_def get_property_def and_then_def)

text \<open>The tag with a four-byte profile and a four-byte number can be written but not read.\<close>

lemma tlv_wide_tag_unreadable:
  "and_then (encode AnySchema (JStream [\<lparr>elTag = Some \<lparr>tagProfile = Some 1, tagId = Some 0x10000\<rparr>, elType = NullType, elValue = PNull\<rparr>]))
     (\<lambda>bytes. decode AnySchema bytes True) = Inl NotImplementedError"
  by code_simp

end
