(* ===== verification/SecureSession.thy ===== *)
theory SecureSession
  imports Packet Reception JsText "HOL-Library.AList" "HOL-Library.Sublist"
begin

text \<open>
  Secure sessions: packages/protocol/src/session/SecureSession.ts (keys, nonces, encryption of
  messages), the session table and the allocation of session ids in SessionManager.ts, and the front
  half of \<open>onMessage\<close> in packages/protocol/src/protocol/ExchangeManager.ts, which turns the bytes of a
  datagram into a message of a session.

  The cryptographic primitives are not part of the repository (Crypto.ts only forwards to the one of
  the platform): \<open>hkdf\<close>, \<open>encrypt\<close> and \<open>decrypt\<close> are arguments.
\<close>

subsection \<open>Sessions\<close>

type_synonym aead_encrypt = "byte list \<Rightarrow> byte list \<Rightarrow> byte list \<Rightarrow> byte list \<Rightarrow> byte list"
type_synonym aead_decrypt = "byte list \<Rightarrow> byte list \<Rightarrow> byte list \<Rightarrow> byte list \<Rightarrow> byte list res"
type_synonym key_derivation = "byte list \<Rightarrow> byte list \<Rightarrow> byte list \<Rightarrow> nat \<Rightarrow> byte list"

text \<open>What a session uses of its fabric.\<close>

record fabric =
  fabricIndex :: int
  fabricNodeId :: int

record secure_session =
  ssId :: int
  ssInitiator :: bool
  ssFabric :: "fabric option"
  ssPeerNodeId :: int
  ssPeerSessionId :: int
  decryptKey :: "byte list"
  encryptKey :: "byte list"
  attestationKey :: "byte list"
  caseAuthenticatedTags :: "int list"
  activeTimestamp :: int
  reception :: reception_state

definition UNSPECIFIED_NODE_ID :: int where "UNSPECIFIED_NODE_ID = 0"
definition CRYPTO_SYMMETRIC_KEY_LENGTH :: nat where "CRYPTO_SYMMETRIC_KEY_LENGTH = 16"
definition UNICAST_UNSECURE_SESSION_ID :: int where "UNICAST_UNSECURE_SESSION_ID = 0"

text \<open>\<open>Bytes.fromString\<close> of an ASCII string.\<close>

definition ascii_bytes :: "string \<Rightarrow> byte list" where
  "ascii_bytes s = map of_char s"

definition SESSION_KEYS_INFO :: "byte list" where "SESSION_KEYS_INFO = ascii_bytes ''SessionKeys''"
definition SESSION_RESUMPTION_KEYS_INFO :: "byte list" where
  "SESSION_RESUMPTION_KEYS_INFO = ascii_bytes ''SessionResumptionKeys''"

text \<open>The arguments of \<open>create\<close>; the time of creation becomes the active timestamp.\<close>

record session_args =
  argId :: int
  argFabric :: "fabric option"
  argPeerNodeId :: int
  argPeerSessionId :: int
  sharedSecret :: "byte list"
  salt :: "byte list"
  argInitiator :: bool
  argResumption :: bool
  argTags :: "int list option"

definition slice :: "nat \<Rightarrow> nat \<Rightarrow> 'a list \<Rightarrow> 'a list" where
  "slice a b xs = drop a (take b xs)"

definition create_session :: "key_derivation \<Rightarrow> int \<Rightarrow> session_args \<Rightarrow> secure_session" where
  "create_session hkdf now args =
     (let keys = hkdf (sharedSecret args) (salt args)
            (if argResumption args then SESSION_RESUMPTION_KEYS_INFO else SESSION_KEYS_INFO)
            (CRYPTO_SYMMETRIC_KEY_LENGTH * 3)
      in \<lparr>ssId = argId args, ssInitiator = argInitiator args, ssFabric = argFabric args,
          ssPeerNodeId = argPeerNodeId args, ssPeerSessionId = argPeerSessionId args,
          decryptKey = (if argInitiator args then slice 16 32 keys else slice 0 16 keys),
          encryptKey = (if argInitiator args then slice 0 16 keys else slice 16 32 keys),
          attestationKey = slice 32 48 keys,
          caseAuthenticatedTags = (case argTags args of None \<Rightarrow> [] | Some tags \<Rightarrow> tags),
          activeTimestamp = now, reception = new_MessageReceptionState None\<rparr>)"

definition isPase :: "secure_session \<Rightarrow> bool" where
  "isPase s \<longleftrightarrow> ssPeerNodeId s = UNSPECIFIED_NODE_ID"

definition session_nodeId :: "secure_session \<Rightarrow> int" where
  "session_nodeId s = (case ssFabric s of None \<Rightarrow> UNSPECIFIED_NODE_ID | Some f \<Rightarrow> fabricNodeId f)"

definition associatedFabric :: "secure_session \<Rightarrow> fabric res" where
  "associatedFabric s = (case ssFabric s of None \<Rightarrow> Inl (StatusResponseError 126) | Some f \<Rightarrow> Inr f)"

definition addAssociatedFabric :: "fabric \<Rightarrow> secure_session \<Rightarrow> secure_session res" where
  "addAssociatedFabric f s = (if ssFabric s \<noteq> None then Inl MatterFlowError else Inr (s\<lparr>ssFabric := Some f\<rparr>))"

definition peerIs :: "int \<times> int \<Rightarrow> secure_session \<Rightarrow> bool" where
  "peerIs address s \<longleftrightarrow>
     (case ssFabric s of None \<Rightarrow> 0 | Some f \<Rightarrow> fabricIndex f) = fst address \<and> ssPeerNodeId s = snd address"

definition generateNonce :: "int \<Rightarrow> int \<Rightarrow> int \<Rightarrow> byte list res" where
  "generateNonce flags mid nodeId =
     writer_bytes (writeUInt64 nodeId (writeUInt32 mid (writeUInt8 flags (new_DataWriter True))))"

text \<open>\<open>encode\<close> also stores the peer's session id in the header of the message it is given.\<close>

definition session_encode :: "aead_encrypt \<Rightarrow> secure_session \<Rightarrow> message \<Rightarrow> packet res" where
  "session_encode encrypt s m =
     (let m = m\<lparr>packetHeader := (packetHeader m)\<lparr>sessionId := ssPeerSessionId s\<rparr>\<rparr> in
      and_then (encodePayload m) (\<lambda>p.
      and_then (encodePacketHeader (packetHeader m)) (\<lambda>headerBytes.
      let flags = uint (headerBytes ! 3);
          sessionNodeId = (if isPase s then UNSPECIFIED_NODE_ID else session_nodeId s)
      in and_then (generateNonce flags (messageId (pktHeader p)) sessionNodeId) (\<lambda>nonce.
      Inr \<lparr>pktHeader = pktHeader p, messageExtension = None,
           applicationPayload = encrypt (encryptKey s) (applicationPayload p) nonce headerBytes\<rparr>))))"

definition session_decode :: "aead_decrypt \<Rightarrow> secure_session \<Rightarrow> decoded_packet \<Rightarrow> byte list \<Rightarrow> decoded_message res" where
  "session_decode decrypt s p aad =
     and_then (generateNonce (securityFlags (dpktHeader p)) (messageId (dpktHeader p)) (ssPeerNodeId s)) (\<lambda>nonce.
     and_then (decrypt (decryptKey s) (dapplicationPayload p) nonce aad) (\<lambda>plain.
     decodePayload \<lparr>dpktHeader = dpktHeader p, dmessageExtension = None, dapplicationPayload = plain\<rparr>))"

subsection \<open>The session table\<close>

text \<open>
  \<open>SessionManager\<close>: the secure sessions in order of creation, the unsecured ones by the node id of their
  initiator (of which only the reception state is kept here) and the next session id to try.  Ending a
  session removes it from the table; the messages its end sends and the resumption records are not
  part of this state.
\<close>

record session_manager =
  sessions :: "secure_session list"
  insecureSessions :: "(int \<times> reception_state) list"
  nextSessionId :: int

definition getSession :: "int \<Rightarrow> session_manager \<Rightarrow> secure_session option" where
  "getSession i sm = find (\<lambda>s. ssId s = i) (sessions sm)"

definition createSecureSession :: "key_derivation \<Rightarrow> int \<Rightarrow> session_args \<Rightarrow> session_manager \<Rightarrow> secure_session \<times> session_manager" where
  "createSecureSession hkdf now args sm =
     (let s = create_session hkdf now args in (s, sm\<lparr>sessions := sessions sm @ [s]\<rparr>))"

definition getSessionForNode :: "int \<times> int \<Rightarrow> session_manager \<Rightarrow> secure_session option" where
  "getSessionForNode address sm = find (peerIs address) (sessions sm)"

fun oldest :: "secure_session list \<Rightarrow> secure_session option \<Rightarrow> secure_session option" where
  "oldest [] best = best"
| "oldest (s # ss) best =
     oldest ss (case best of None \<Rightarrow> Some s | Some b \<Rightarrow> if activeTimestamp s < activeTimestamp b then Some s else best)"

definition findOldestInactiveSession :: "session_manager \<Rightarrow> secure_session res" where
  "findOldestInactiveSession sm = (case oldest (sessions sm) None of None \<Rightarrow> Inl MatterFlowError | Some s \<Rightarrow> Inr s)"

text \<open>The loop over the candidates; the first argument counts the rounds left.\<close>

fun try_session_ids :: "nat \<Rightarrow> session_manager \<Rightarrow> int option \<times> session_manager" where
  "try_session_ids 0 sm = (None, sm)"
| "try_session_ids (Suc n) sm =
     (let i = nextSessionId sm;
          next = js_and (i + 1) 0xffff;
          next = (if next = 0 then next + 1 else next);
          sm = sm\<lparr>nextSessionId := next\<rparr>
      in if getSession i sm = None then (Some i, sm) else try_session_ids n sm)"

definition getNextAvailableSessionId :: "session_manager \<Rightarrow> (int \<times> session_manager) res" where
  "getNextAvailableSessionId sm =
     (case try_session_ids 0xffff sm of
        (Some i, sm) \<Rightarrow> Inr (i, sm)
      | (None, sm) \<Rightarrow>
          and_then (findOldestInactiveSession sm) (\<lambda>s.
            let i = ssId s
            in Inr (i, sm\<lparr>sessions := remove1 s (sessions sm), nextSessionId := i + 1\<rparr>)))"

subsection \<open>From a datagram to a message\<close>

text \<open>
  The front half of \<open>onMessage\<close>: the session is looked up, its reception state takes the counter, and
  only then is the payload decrypted.  A counter accepted stays accepted when the decryption throws.
  Nothing comes out when the manager is closing and the packet is an unsecured one.
\<close>

datatype session_ref = Secure int | Insecure int

fun update_first :: "('a \<Rightarrow> bool) \<Rightarrow> ('a \<Rightarrow> 'a) \<Rightarrow> 'a list \<Rightarrow> 'a list" where
  "update_first P f [] = []"
| "update_first P f (x # xs) = (if P x then f x # xs else x # update_first P f xs)"

definition update_counter ::
  "(int option \<Rightarrow> int \<Rightarrow> int) \<Rightarrow> int \<Rightarrow> reception_state \<Rightarrow> (reception_state \<times> bool) res" where
  "update_counter calculateDiff mid rs =
     (case updateMessageCounter calculateDiff mid rs of
        Inr rs' \<Rightarrow> Inr (rs', False)
      | Inl e \<Rightarrow> if e = DuplicateMessageError then Inr (rs, True) else Inl e)"

definition receive_secure ::
  "aead_decrypt \<Rightarrow> byte list \<Rightarrow> decoded_packet \<Rightarrow> session_manager \<Rightarrow>
     session_manager \<times> (session_ref \<times> decoded_message \<times> bool) option res" where
  "receive_secure decrypt messageBytes p sm =
     (let i = sessionId (dpktHeader p) in
      case getSession i sm of
        None \<Rightarrow> (sm, Inl MatterFlowError)
      | Some s \<Rightarrow>
          (case update_counter calculateDiff_without_rollover (messageId (dpktHeader p)) (reception s) of
             Inl e \<Rightarrow> (sm, Inl e)
           | Inr (rs, isDuplicate) \<Rightarrow>
               let aad = take (length messageBytes - length (dapplicationPayload p)) messageBytes
               in (sm\<lparr>sessions := update_first (\<lambda>s. ssId s = i) (\<lambda>s. s\<lparr>reception := rs\<rparr>) (sessions sm)\<rparr>,
                   and_then (session_decode decrypt s p aad) (\<lambda>m. Inr (Some (Secure i, m, isDuplicate))))))"

definition receive_insecure ::
  "decoded_packet \<Rightarrow> session_manager \<Rightarrow> session_manager \<times> (session_ref \<times> decoded_message \<times> bool) option res" where
  "receive_insecure p sm =
     (let n = (case sourceNodeId (dpktHeader p) of None \<Rightarrow> UNSPECIFIED_NODE_ID | Some n \<Rightarrow> n);
          sm = (if map_of (insecureSessions sm) n = None
                then sm\<lparr>insecureSessions := insecureSessions sm @ [(n, new_MessageReceptionState None)]\<rparr> else sm)
      in case map_of (insecureSessions sm) n of
           None \<Rightarrow> (sm, Inl MatterFlowError)
         | Some rs \<Rightarrow>
             (case update_counter calculateDiff_unencrypted (messageId (dpktHeader p)) rs of
                Inl e \<Rightarrow> (sm, Inl e)
              | Inr (rs, isDuplicate) \<Rightarrow>
                  (sm\<lparr>insecureSessions := AList.update n rs (insecureSessions sm)\<rparr>,
                   and_then (decodePayload p) (\<lambda>m. Inr (Some (Insecure n, m, isDuplicate))))))"

definition receive_message ::
  "aead_decrypt \<Rightarrow> bool \<Rightarrow> byte list \<Rightarrow> session_manager \<Rightarrow>
     session_manager \<times> (session_ref \<times> decoded_message \<times> bool) option res" where
  "receive_message decrypt closing messageBytes sm =
     (case decodePacket messageBytes of
        Inl e \<Rightarrow> (sm, Inl e)
      | Inr p \<Rightarrow>
          if sessionType (dpktHeader p) = SessionType_Group then (sm, Inl NotImplementedError)
          else if sessionId (dpktHeader p) = UNICAST_UNSECURE_SESSION_ID then
            (if closing then (sm, Inr None) else receive_insecure p sm)
          else receive_secure decrypt messageBytes p sm)"

subsection \<open>Keys, nonces and the payload\<close>

lemma generateNonce_bytes:
  "0 \<le> flags \<Longrightarrow> flags < 256 \<Longrightarrow> 0 \<le> mid \<Longrightarrow> mid < 4294967296 \<Longrightarrow> generateNonce flags mid nodeId = Inr (le_bytes 1 flags @ le_bytes 4 mid @ le_bytes 8 nodeId)"
  by (simp add: generateNonce_def write_defs writer_simps)

text \<open>Within a session no nonce is used for two counters.\<close>

lemma generateNonce_inject:
  assumes "generateNonce flags mid nodeId = generateNonce flags' mid' nodeId"
    and "0 \<le> flags" "flags < 256" "0 \<le> flags'" "flags' < 256" and "0 \<le> mid" "mid < 4294967296" "0 \<le> mid'" "mid' < 4294967296"
  shows "mid = mid'"
proof -
  have "le_bytes 4 mid = le_bytes 4 mid'" using assms by (simp add: generateNonce_bytes)
  then have "mid mod 256 ^ 4 = mid' mod 256 ^ 4" by (metis le_val_le_bytes)
  with assms show ?thesis by simp
qed

text \<open>Two sessions that belong together: what one encrypts the other decrypts.\<close>

definition paired :: "secure_session \<Rightarrow> secure_session \<Rightarrow> bool" where
  "paired a b \<longleftrightarrow> encryptKey a = decryptKey b \<and> ssPeerSessionId a = ssId b \<and>
     ssPeerNodeId b = (if isPase a then UNSPECIFIED_NODE_ID else session_nodeId a)"

lemma created_sessions_paired:
  assumes "sharedSecret x = sharedSecret y" "salt x = salt y" "argResumption x = argResumption y"
    and "argInitiator x \<longleftrightarrow> \<not> argInitiator y" "argPeerSessionId x = argId y"
    and "argPeerNodeId y = (if argPeerNodeId x = UNSPECIFIED_NODE_ID then UNSPECIFIED_NODE_ID
      else case argFabric x of None \<Rightarrow> UNSPECIFIED_NODE_ID | Some f \<Rightarrow> fabricNodeId f)"
  shows "paired (create_session hkdf t x) (create_session hkdf t' y)"
  using assms by (auto simp: paired_def create_session_def Let_def isPase_def session_nodeId_def)

definition addressed_to :: "secure_session \<Rightarrow> message \<Rightarrow> message" where
  "addressed_to s m = m\<lparr>packetHeader := (packetHeader m)\<lparr>sessionId := ssId s\<rparr>\<rparr>"

definition encrypted_payload :: "aead_encrypt \<Rightarrow> secure_session \<Rightarrow> secure_session \<Rightarrow> message \<Rightarrow> byte list" where
  "encrypted_payload encrypt a b m =
     encrypt (encryptKey a) (payload_header_bytes (payloadHeader m) @ payload m)
       (le_bytes 1 (sessionType (packetHeader m)) @ le_bytes 4 (messageId (packetHeader m)) @ le_bytes 8 (ssPeerNodeId b))
       (packet_header_bytes (packetHeader (addressed_to b m)))"

definition sendable :: "secure_session \<Rightarrow> message \<Rightarrow> bool" where
  "sendable b m \<longleftrightarrow> valid_packet_header (packetHeader (addressed_to b m)) \<and> valid_payload_header (payloadHeader m) \<and>
     securityExtension m = None"

lemma packet_header_flags: "uint (packet_header_bytes h ! 3) = sessionType h mod 256"
proof -
  have "packet_header_bytes h ! 3 = le_bytes 1 (sessionType h) ! 0"
    by (simp add: packet_header_bytes_def nth_append numeral_eq_Suc)
  then show ?thesis by (simp add: uint_word_of_int le_bytes.simps)
qed

lemma session_encode_bytes:
  assumes "paired a b" "sendable b m"
  shows "and_then (session_encode encrypt a m) encodePacket =
    Inr (packet_header_bytes (packetHeader (addressed_to b m)) @ encrypted_payload encrypt a b m)"
proof -
  let ?m = "addressed_to b m"
  have h: "valid_packet_header (packetHeader ?m)" "valid_payload_header (payloadHeader m)" "securityExtension m = None"
    using assms(2) by (simp_all add: sendable_def)
  have e: "encodePacketHeader (packetHeader ?m) = Inr (packet_header_bytes (packetHeader ?m))"
    using h(1) by (intro encodePacketHeader_bytes) (auto simp: valid_packet_header_def packet_consts)
  have l: "encodePayloadHeader (payloadHeader m) = Inr (payload_header_bytes (payloadHeader m))"
    using h(2) by (intro encodePayloadHeader_bytes) (auto simp: valid_payload_header_def)
  have x: "\<not> hasSecuredExtension (payloadHeader m)" "\<not> hasMessageExtensions (packetHeader ?m)"
    "0 \<le> sessionType (packetHeader m)" "sessionType (packetHeader m) < 256"
    "0 \<le> messageId (packetHeader m)" "messageId (packetHeader m) < 4294967296"
    using h by (auto simp: valid_payload_header_def valid_packet_header_def addressed_to_def packet_consts)
  have i: "ssPeerSessionId a = ssId b" "ssPeerNodeId b = (if isPase a then UNSPECIFIED_NODE_ID else session_nodeId a)"
    using assms(1) by (simp_all add: paired_def)
  show ?thesis
    using e l x h(3) by (simp add: session_encode_def i addressed_to_def encodePayload_def encodePacket_def
        packet_header_flags generateNonce_bytes encrypted_payload_def)
qed

lemma session_decode_encrypted:
  assumes aead: "\<And>k d n a. decrypt k (encrypt k d n a) n a = Inr d"
    and "paired a b" "sendable b m"
  shows "session_decode decrypt (b\<lparr>reception := rs\<rparr>)
      \<lparr>dpktHeader = as_decoded (packetHeader (addressed_to b m)), dmessageExtension = None,
       dapplicationPayload = encrypted_payload encrypt a b m\<rparr>
      (packet_header_bytes (packetHeader (addressed_to b m))) =
    Inr (as_decoded_message (addressed_to b m))"
proof -
  have h: "valid_payload_header (payloadHeader m)" using assms(3) by (simp add: sendable_def)
  then have x: "\<not> hasSecuredExtension (payloadHeader m)" by (simp add: valid_payload_header_def)
  have r: "0 \<le> sessionType (packetHeader m)" "sessionType (packetHeader m) < 256"
    "0 \<le> messageId (packetHeader m)" "messageId (packetHeader m) < 4294967296"
    using assms(3) by (auto simp: sendable_def valid_packet_header_def addressed_to_def packet_consts)
  have k: "encryptKey a = decryptKey b" using assms(2) by (simp add: paired_def)
  show ?thesis
    using payload_header.dec_enc [OF h, of "[]" "payload m"] x r
    by (simp add: session_decode_def generateNonce_bytes encrypted_payload_def aead k addressed_to_def as_decoded_def
        packet_header.defs decoded_packet_header.defs decodePayload_def new_DataReader_rd codec_simps as_decoded_message_def)
qed

subsection \<open>Receiving\<close>

lemma getSession_id: "getSession i sm = Some s \<Longrightarrow> ssId s = i \<and> s \<in> set (sessions sm)"
  by (auto simp: getSession_def find_Some_iff)

lemma decode_secure_packet:
  assumes "valid_packet_header h" "sessionType h = SessionType_Unicast" "sessionId h \<noteq> UNICAST_UNSECURE_SESSION_ID"
  shows "receive_message decrypt closing (packet_header_bytes h @ app) sm =
    receive_secure decrypt (packet_header_bytes h @ app)
      \<lparr>dpktHeader = as_decoded h, dmessageExtension = None, dapplicationPayload = app\<rparr> sm"
  using assms by (simp add: receive_message_def decodePacket_bytes as_decoded_def packet_header.defs packet_consts)

lemma receive_secure_bytes:
  assumes "valid_packet_header h" "sessionType h = SessionType_Unicast" "sessionId h \<noteq> UNICAST_UNSECURE_SESSION_ID"
    and s: "getSession (sessionId h) sm = Some s"
    and u: "update_counter calculateDiff_without_rollover (messageId h) (reception s) = Inr (rs, isDuplicate)"
  shows "receive_message decrypt closing (packet_header_bytes h @ app) sm =
    (sm\<lparr>sessions := update_first (\<lambda>s. ssId s = sessionId h) (\<lambda>s. s\<lparr>reception := rs\<rparr>) (sessions sm)\<rparr>,
     and_then (session_decode decrypt s \<lparr>dpktHeader = as_decoded h, dmessageExtension = None, dapplicationPayload = app\<rparr>
       (packet_header_bytes h)) (\<lambda>m. Inr (Some (Secure (sessionId h), m, isDuplicate))))"
proof -
  have h: "sessionId (as_decoded h) = sessionId h" "messageId (as_decoded h) = messageId h"
    by (simp_all add: as_decoded_def packet_header.defs)
  show ?thesis
    unfolding decode_secure_packet [OF assms(1-3)] by (simp add: receive_secure_def h s u Let_def)
qed

lemma getSession_update_first:
  assumes "getSession i sm = Some s" "\<And>s. ssId (f s) = ssId s"
  shows "getSession j (sm\<lparr>sessions := update_first (\<lambda>s. ssId s = i) f (sessions sm)\<rparr>) =
    (if j = i then Some (f s) else getSession j sm)"
proof -
  have "find (\<lambda>s. ssId s = j) (update_first (\<lambda>s. ssId s = i) f ss) = (if j = i then Some (f s) else find (\<lambda>s. ssId s = j) ss)"
    if "find (\<lambda>s. ssId s = i) ss = Some s" for ss
    using that assms(2) by (induction ss) (auto split: if_splits)
  with assms(1) show ?thesis by (simp add: getSession_def)
qed

text \<open>The arguments of the two ends of a session: one secret and opposite roles, the ids of one the peer ids of the other.\<close>

definition counterparts :: "session_args \<Rightarrow> session_args \<Rightarrow> bool" where
  "counterparts x y \<longleftrightarrow>
     sharedSecret x = sharedSecret y \<and> salt x = salt y \<and> argResumption x = argResumption y \<and>
     (argInitiator x \<longleftrightarrow> \<not> argInitiator y) \<and> argPeerSessionId x = argId y \<and> argId y \<noteq> UNICAST_UNSECURE_SESSION_ID \<and>
     argPeerNodeId y = (if argPeerNodeId x = UNSPECIFIED_NODE_ID then UNSPECIFIED_NODE_ID
       else case argFabric x of None \<Rightarrow> UNSPECIFIED_NODE_ID | Some f \<Rightarrow> fabricNodeId f)"

text \<open>C9: A message sent over a secure session arrives: for two sessions created from the same secret with
  opposite roles, any correct encryption and any message with in-range fields, the datagram the sender
  builds is decrypted by the receiver to that message, as new if its counter is new to the receiver.\<close>

theorem secure_message_delivered:
  assumes aead: "\<And>k d n a. decrypt k (encrypt k d n a) n a = Inr d"
    and args: "counterparts x y" and b: "b = create_session hkdf t' y"
    and rcv: "getSession (argId y) sm = Some (b\<lparr>reception := rs\<rparr>)"
    and new: "updateMessageCounter calculateDiff_without_rollover (messageId (packetHeader m)) rs = Inr rs'"
    and m: "sendable b m" "sessionType (packetHeader m) = SessionType_Unicast"
  shows "\<exists>datagram. and_then (session_encode encrypt (create_session hkdf t x) m) encodePacket = Inr datagram \<and>
    snd (receive_message decrypt closing datagram sm) =
      Inr (Some (Secure (argId y), as_decoded_message (addressed_to b m), False))"
proof -
  have p: "paired (create_session hkdf t x) b"
    unfolding b using args by (intro created_sessions_paired) (auto simp: counterparts_def)
  have i: "ssId b = argId y" by (simp add: b create_session_def Let_def)
  let ?h = "packetHeader (addressed_to b m)"
  have h: "valid_packet_header ?h" "sessionType ?h = SessionType_Unicast" "sessionId ?h = argId y" "messageId ?h = messageId (packetHeader m)"
    using m by (simp_all add: sendable_def addressed_to_def i)
  have "sessionId ?h \<noteq> UNICAST_UNSECURE_SESSION_ID" using args h(3) by (simp add: counterparts_def)
  moreover have "update_counter calculateDiff_without_rollover (messageId ?h) (reception (b\<lparr>reception := rs\<rparr>)) = Inr (rs', False)"
    using new h(4) by (simp add: update_counter_def)
  moreover have "session_decode decrypt (b\<lparr>reception := rs\<rparr>)
      \<lparr>dpktHeader = as_decoded ?h, dmessageExtension = None,
       dapplicationPayload = encrypted_payload encrypt (create_session hkdf t x) b m\<rparr> (packet_header_bytes ?h) =
    Inr (as_decoded_message (addressed_to b m))"
    using aead p m(1) by (rule session_decode_encrypted)
  ultimately show ?thesis
    using receive_secure_bytes [OF h(1,2) _ rcv [folded h(3)], of rs' False decrypt closing "encrypted_payload encrypt (create_session hkdf t x) b m"]
      session_encode_bytes [OF p m(1), of encrypt]
    by (simp add: h(3))
qed

subsection \<open>Counters are consumed before messages are authenticated\<close>

text \<open>C36: A forged datagram, which the decryption refuses, still takes the message counter it names: the
  genuine message with that counter is afterwards delivered as a duplicate, if it is delivered at all.\<close>

theorem forged_datagram_consumes_counter:
  assumes h: "valid_packet_header h" "sessionType h = SessionType_Unicast" "sessionId h \<noteq> UNICAST_UNSECURE_SESSION_ID"
    and s: "getSession (sessionId h) sm = Some s" "\<And>M. maximumMessageCounter (reception s) = Some M \<Longrightarrow> 0 \<le> M \<and> M \<le> MAX_COUNTER_VALUE_32BIT"
    and new: "updateMessageCounter calculateDiff_without_rollover (messageId h) (reception s) = Inr rs"
    and forged: "\<And>n a. decrypt (decryptKey s) junk n a = Inl e"
  shows "snd (receive_message decrypt closing (packet_header_bytes h @ junk) sm) = Inl e \<and>
    (\<forall>result. snd (receive_message decrypt closing (packet_header_bytes h @ genuine)
        (fst (receive_message decrypt closing (packet_header_bytes h @ junk) sm))) = Inr (Some result) \<longrightarrow> snd (snd result))"
proof -
  have u: "update_counter calculateDiff_without_rollover (messageId h) (reception s) = Inr (rs, False)"
    using new by (simp add: update_counter_def)
  let ?sm = "sm\<lparr>sessions := update_first (\<lambda>s. ssId s = sessionId h) (\<lambda>s. s\<lparr>reception := rs\<rparr>) (sessions sm)\<rparr>"
  have "session_decode decrypt s \<lparr>dpktHeader = as_decoded h, dmessageExtension = None, dapplicationPayload = junk\<rparr> a = Inl e" for a
    using h(1) by (simp add: session_decode_def as_decoded_def packet_header.defs decoded_packet_header.defs generateNonce_bytes
        valid_packet_header_def packet_consts forged) (auto simp: generateNonce_bytes forged)
  then have j: "receive_message decrypt closing (packet_header_bytes h @ junk) sm = (?sm, Inl e)"
    using receive_secure_bytes [OF h s(1) u] by simp
  have "counter_range (messageId h)" using wo.update_in_range [OF new] by (simp add: counter_range_def)
  moreover have "\<And>M. maximumMessageCounter (reception s) = Some M \<Longrightarrow> counter_range M" using s(2) by (simp add: counter_range_def)
  ultimately have "updateMessageCounter calculateDiff_without_rollover (messageId h) rs = Inl DuplicateMessageError"
    using wo.accepted_known [OF _ _ new] wo.knows_refused [of rs "messageId h"] wo.update_in_range [OF new] by simp
  then have u2: "update_counter calculateDiff_without_rollover (messageId h) (reception (s\<lparr>reception := rs\<rparr>)) = Inr (rs, True)"
    by (simp add: update_counter_def)
  have s2: "getSession (sessionId h) ?sm = Some (s\<lparr>reception := rs\<rparr>)"
    by (subst getSession_update_first [OF s(1)]) simp_all
  show ?thesis
    using receive_secure_bytes [OF h s2 u2, of decrypt closing genuine] j by (auto simp: and_then_Inr_iff)
qed

subsection \<open>No message is delivered twice as new\<close>

text \<open>A run of datagrams, and what comes out of it as new: the session and the message counter.\<close>

fun deliveries :: "aead_decrypt \<Rightarrow> bool \<Rightarrow> byte list list \<Rightarrow> session_manager \<Rightarrow> (session_ref \<times> int) list" where
  "deliveries decrypt closing [] sm = []"
| "deliveries decrypt closing (d # ds) sm =
     (case receive_message decrypt closing d sm of
        (sm', Inr (Some (r, m, False))) \<Rightarrow> (r, messageId (dpacketHeader m)) # deliveries decrypt closing ds sm'
      | (sm', _) \<Rightarrow> deliveries decrypt closing ds sm')"

definition delivered_to :: "session_ref \<Rightarrow> (session_ref \<times> int) list \<Rightarrow> int list" where
  "delivered_to r ds = map snd (filter (\<lambda>d. fst d = r) ds)"

lemma session_decode_header: "session_decode decrypt s p aad = Inr m \<Longrightarrow> dpacketHeader m = dpktHeader p"
  by (auto simp: session_decode_def decodePayload_def and_then_Inr_iff Let_def split: prod.splits)

lemma update_counter_cases:
  "update_counter cd mid rs = Inr (rs', dup) \<Longrightarrow> (dup \<and> rs' = rs) \<or> (\<not> dup \<and> updateMessageCounter cd mid rs = Inr rs')"
  by (auto simp: update_counter_def split: sum.splits if_splits)

lemma receive_insecure_sessions:
  "receive_insecure p sm = (sm', out) \<Longrightarrow> getSession i sm' = getSession i sm \<and> out \<noteq> Inr (Some (Secure i, m, dup))"
  by (auto simp: receive_insecure_def Let_def getSession_def and_then_Inr_iff split: option.splits sum.splits if_splits prod.splits)

text \<open>One datagram, seen from one session.\<close>

lemma receive_message_step:
  assumes "receive_message decrypt closing d sm = (sm', out)" "getSession i sm = Some s"
  shows "\<exists>s'. getSession i sm' = Some s' \<and>
    (reception s' = reception s \<and> (\<forall>m. out \<noteq> Inr (Some (Secure i, m, False))) \<or>
     (\<exists>mid. updateMessageCounter calculateDiff_without_rollover mid (reception s) = Inr (reception s') \<and>
        (\<forall>m. out = Inr (Some (Secure i, m, False)) \<longrightarrow> messageId (dpacketHeader m) = mid)))"
proof -
  consider (same) "getSession i sm' = getSession i sm" "\<And>m. out \<noteq> Inr (Some (Secure i, m, False))"
    | (secure) p where "decodePacket d = Inr p" "receive_secure decrypt d p sm = (sm', out)"
    using assms(1) receive_insecure_sessions [of _ sm sm' out]
    by (auto simp: receive_message_def split: sum.splits if_splits)
  then show ?thesis
  proof cases
    case secure
    let ?j = "sessionId (dpktHeader p)" and ?mid = "messageId (dpktHeader p)"
    show ?thesis
    proof (cases "getSession ?j sm")
      case None
      with secure assms(2) show ?thesis by (auto simp: receive_secure_def Let_def)
    next
      case (Some t)
      show ?thesis
      proof (cases "update_counter calculateDiff_without_rollover ?mid (reception t)")
        case (Inl e)
        with Some secure assms(2) show ?thesis by (auto simp: receive_secure_def Let_def)
      next
        case (Inr u)
        obtain rs dup where u: "u = (rs, dup)" by (cases u)
        have out: "out = and_then (session_decode decrypt t p (take (length d - length (dapplicationPayload p)) d)) (\<lambda>m. Inr (Some (Secure ?j, m, dup)))"
          and sm': "sm' = sm\<lparr>sessions := update_first (\<lambda>s. ssId s = ?j) (\<lambda>s. s\<lparr>reception := rs\<rparr>) (sessions sm)\<rparr>"
          using secure(2) Some Inr u by (auto simp: receive_secure_def Let_def)
        have g: "getSession i sm' = (if i = ?j then Some (t\<lparr>reception := rs\<rparr>) else getSession i sm)"
          unfolding sm' using getSession_update_first [OF Some] by simp
        show ?thesis
        proof (cases "i = ?j")
          case False
          with g out assms(2) show ?thesis by (auto simp: and_then_Inr_iff)
        next
          case True
          with Some assms(2) have t: "t = s" by simp
          have "messageId (dpacketHeader m) = ?mid" if "out = Inr (Some (Secure i, m, False))" for m
            using that out session_decode_header by (auto simp: and_then_Inr_iff)
          moreover have "dup \<longrightarrow> (\<forall>m. out \<noteq> Inr (Some (Secure i, m, False)))"
            using out by (auto simp: and_then_Inr_iff)
          ultimately show ?thesis
            using g True update_counter_cases [OF Inr [unfolded u]] by (auto simp: t)
        qed
      qed
    qed
  qed (use assms(2) in auto)
qed

lemma receive_message_no_session:
  assumes "receive_message decrypt closing d sm = (sm', out)" "getSession i sm = None"
  shows "getSession i sm' = None \<and> out \<noteq> Inr (Some (Secure i, m, dup))"
proof -
  have "getSession i (sm\<lparr>sessions := update_first (\<lambda>s. ssId s = j) (\<lambda>s. s\<lparr>reception := rs\<rparr>) (sessions sm)\<rparr>) = None"
    if "getSession j sm = Some t" for j rs t
    using that assms(2) by (subst getSession_update_first) auto
  with assms receive_insecure_sessions [of _ sm sm' out i m dup] show ?thesis
    by (auto simp: receive_message_def receive_secure_def Let_def and_then_Inr_iff split: sum.splits if_splits option.splits prod.splits)
qed

lemma deliveries_Cons:
  assumes "receive_message decrypt closing d sm = (sm', out)"
  shows "delivered_to r (deliveries decrypt closing (d # ds) sm) =
    (case out of Inr (Some (r', m, False)) \<Rightarrow> if r' = r then [messageId (dpacketHeader m)] else [] | _ \<Rightarrow> []) @
    delivered_to r (deliveries decrypt closing ds sm')"
  using assms by (auto simp: delivered_to_def split: sum.splits option.splits bool.splits prod.splits)

declare deliveries.simps(2) [simp del]

lemma distinct_subseq: "subseq xs ys \<Longrightarrow> distinct ys \<Longrightarrow> distinct xs"
  by (auto simp: subseq_conv_nths intro: distinct_nthsI)

lemma deliveries_accepted:
  assumes "getSession i sm = Some s"
  shows "\<exists>ms. subseq (delivered_to (Secure i) (deliveries decrypt closing ds sm))
    (fst (receive_all calculateDiff_without_rollover ms (reception s)))"
  using assms
proof (induction ds arbitrary: sm s)
  case Nil
  then show ?case by (simp add: delivered_to_def)
next
  case (Cons d ds)
  obtain sm' out where r: "receive_message decrypt closing d sm = (sm', out)" by fastforce
  from receive_message_step [OF r Cons.prems] obtain s' where s': "getSession i sm' = Some s'"
    "reception s' = reception s \<and> (\<forall>m. out \<noteq> Inr (Some (Secure i, m, False))) \<or>
     (\<exists>mid. updateMessageCounter calculateDiff_without_rollover mid (reception s) = Inr (reception s') \<and>
        (\<forall>m. out = Inr (Some (Secure i, m, False)) \<longrightarrow> messageId (dpacketHeader m) = mid))"
    by blast
  from Cons.IH [OF s'(1)] obtain ms where ms:
    "subseq (delivered_to (Secure i) (deliveries decrypt closing ds sm')) (fst (receive_all calculateDiff_without_rollover ms (reception s')))"
    by blast
  from s'(2) show ?case
  proof (elim disjE exE conjE)
    fix mid
    assume mid: "updateMessageCounter calculateDiff_without_rollover mid (reception s) = Inr (reception s')"
      and out: "\<forall>m. out = Inr (Some (Secure i, m, False)) \<longrightarrow> messageId (dpacketHeader m) = mid"
    show ?thesis
      using ms mid out by (intro exI [of _ "mid # ms"])
        (auto simp: deliveries_Cons [OF r] split: sum.splits option.splits bool.splits prod.splits)
  next
    assume same: "reception s' = reception s" and none: "\<forall>m. out \<noteq> Inr (Some (Secure i, m, False))"
    then have "delivered_to (Secure i) (deliveries decrypt closing (d # ds) sm) = delivered_to (Secure i) (deliveries decrypt closing ds sm')"
      by (auto simp: deliveries_Cons [OF r] split: sum.splits option.splits bool.splits prod.splits)
    with ms same show ?thesis by auto
  qed
qed

text \<open>C2: End-to-end replay protection: whatever datagrams arrive in whatever order, repeated, forged or
  truncated, no message counter of a secure session is delivered twice as a new message.\<close>

theorem secure_session_no_replay:
  assumes "\<And>s. s \<in> set (sessions sm) \<Longrightarrow> reception s = new_MessageReceptionState None"
  shows "distinct (delivered_to (Secure i) (deliveries decrypt closing datagrams sm))"
proof (cases "getSession i sm")
  case None
  have "delivered_to (Secure i) (deliveries decrypt closing ds sm) = []" if "getSession i sm = None" for ds sm
    using that
  proof (induction ds arbitrary: sm)
    case (Cons d ds)
    obtain sm' out where r: "receive_message decrypt closing d sm = (sm', out)" by fastforce
    from receive_message_no_session [OF r Cons.prems] Cons.IH [of sm'] show ?case
      by (auto simp: deliveries_Cons [OF r] split: sum.splits option.splits bool.splits prod.splits)
  qed (simp add: delivered_to_def)
  with None show ?thesis by simp
next
  case (Some s)
  then have "reception s = new_MessageReceptionState None" using assms getSession_id [OF Some] by blast
  then have "distinct (fst (receive_all calculateDiff_without_rollover ms (reception s)))" for ms
    using wo_accepted_distinct [of "reception s"] by (simp add: new_MessageReceptionState_def)
  with deliveries_accepted [OF Some, of decrypt closing datagrams] show ?thesis
    by (meson distinct_subseq)
qed

subsection \<open>Session ids\<close>

definition next_id :: "int \<Rightarrow> int" where "next_id i = (if i = 65535 then 1 else i + 1)"

lemma next_id_code: "1 \<le> i \<Longrightarrow> i \<le> 65535 \<Longrightarrow>
  (if js_and (i + 1) 65535 = 0 then js_and (i + 1) 65535 + 1 else js_and (i + 1) 65535) = next_id i"
  by (cases "i = 65535") (auto simp: next_id_def js_and_def int_and_masks)

lemma next_id_power: "1 \<le> i \<Longrightarrow> i \<le> 65535 \<Longrightarrow> (next_id ^^ k) i = (i - 1 + int k) mod 65535 + 1"
proof (induction k)
  case (Suc k)
  have "(i - 1 + int (Suc k)) mod 65535 = ((i - 1 + int k) mod 65535 + 1) mod 65535"
    by (simp add: mod_simps algebra_simps)
  moreover have "0 \<le> (i - 1 + int k) mod 65535" "(i - 1 + int k) mod 65535 < 65535" by simp_all
  ultimately show ?case using Suc by (auto simp: next_id_def)
qed simp

lemma next_id_range: "1 \<le> i \<Longrightarrow> i \<le> 65535 \<Longrightarrow> 1 \<le> next_id i \<and> next_id i \<le> 65535"
  by (auto simp: next_id_def)

lemma getSession_nextSessionId [simp]: "getSession j (sm\<lparr>nextSessionId := k\<rparr>) = getSession j sm"
  by (simp add: getSession_def)

text \<open>The loop stops at the first free id in cyclic order.\<close>

lemma try_session_ids_free:
  assumes "1 \<le> nextSessionId sm" "nextSessionId sm \<le> 65535" "k < n"
    and "getSession ((next_id ^^ k) (nextSessionId sm)) sm = None"
  shows "\<exists>i next. try_session_ids n sm = (Some i, sm\<lparr>nextSessionId := next\<rparr>) \<and> getSession i sm = None \<and>
    1 \<le> i \<and> i \<le> 65535 \<and> 1 \<le> next \<and> next \<le> 65535"
  using assms
proof (induction n arbitrary: sm k)
  case (Suc n)
  let ?i = "nextSessionId sm" and ?sm = "sm\<lparr>nextSessionId := next_id (nextSessionId sm)\<rparr>"
  have n: "1 \<le> next_id ?i" "next_id ?i \<le> 65535" using Suc.prems next_id_range by simp_all
  have t: "try_session_ids (Suc n) sm = (if getSession ?i sm = None then (Some ?i, ?sm) else try_session_ids n ?sm)"
    using next_id_code [OF Suc.prems(1,2)] by (auto simp: Let_def)
  show ?case
  proof (cases "getSession ?i sm = None")
    case True
    with t n Suc.prems show ?thesis by auto
  next
    case False
    then obtain j where k: "k = Suc j" using Suc.prems(4) by (cases k) auto
    have "getSession ((next_id ^^ j) (nextSessionId ?sm)) ?sm = None"
      using Suc.prems(4) by (simp add: k funpow_Suc_right del: funpow.simps)
    with Suc.IH [of ?sm j] Suc.prems(3) n k have
      "\<exists>i next. try_session_ids n ?sm = (Some i, ?sm\<lparr>nextSessionId := next\<rparr>) \<and> getSession i ?sm = None \<and>
        1 \<le> i \<and> i \<le> 65535 \<and> 1 \<le> next \<and> next \<le> 65535"
      by simp
    with t False show ?thesis by auto
  qed
qed simp

text \<open>A new session gets an id of its own: as long as one of the ids 1 to 65535 is free, the allocation
  returns a free one in that range, ends no session, and stays in the range for the next time.\<close>

theorem session_id_free:
  assumes "1 \<le> nextSessionId sm" "nextSessionId sm \<le> 65535"
    and "1 \<le> j" "j \<le> 65535" "getSession j sm = None"
  shows "\<exists>i next. getNextAvailableSessionId sm = Inr (i, sm\<lparr>nextSessionId := next\<rparr>) \<and> getSession i sm = None \<and>
    1 \<le> i \<and> i \<le> 65535 \<and> 1 \<le> next \<and> next \<le> 65535"
proof -
  define k where "k = nat ((j - nextSessionId sm) mod 65535)"
  have "int k = (j - nextSessionId sm) mod 65535" by (simp add: k_def)
  then have "(nextSessionId sm - 1 + int k) mod 65535 = (j - 1) mod 65535" by (simp add: mod_simps)
  then have "(next_id ^^ k) (nextSessionId sm) = j" using assms by (simp add: next_id_power)
  moreover have "k < 65535" by (simp add: k_def nat_less_iff)
  ultimately show ?thesis
    using try_session_ids_free [OF assms(1,2), of k 65535] assms(5) by (auto simp: getNextAvailableSessionId_def)
qed

lemma session_id_free_witness:
  "\<exists>i next. getNextAvailableSessionId \<lparr>sessions = [], insecureSessions = [], nextSessionId = 65535\<rparr> =
      Inr (i, \<lparr>sessions = [], insecureSessions = [], nextSessionId = next\<rparr>) \<and> 1 \<le> i \<and> i \<le> 65535"
  using session_id_free [of "\<lparr>sessions = [], insecureSessions = [], nextSessionId = 65535\<rparr>" 7]
  by (auto simp: getSession_def)

text \<open>The random start value may be 0, the id of unsecured traffic, and is then given to a session.\<close>

lemma try_session_ids_first: "0 < n \<Longrightarrow> getSession (nextSessionId sm) sm = None \<Longrightarrow> fst (try_session_ids n sm) = Some (nextSessionId sm)"
  by (cases n) (simp_all add: Let_def)

lemma session_id_of_unsecured_traffic:
  "nextSessionId sm = UNICAST_UNSECURE_SESSION_ID \<Longrightarrow> sessions sm = [] \<Longrightarrow>
   \<exists>sm'. getNextAvailableSessionId sm = Inr (UNICAST_UNSECURE_SESSION_ID, sm')"
  using try_session_ids_first [of 65535 sm]
  by (cases "try_session_ids 65535 sm") (auto simp: getNextAvailableSessionId_def getSession_def)

text \<open>After the id 65535 was taken over from an old session, the next one does not fit 16 bits.\<close>

lemma session_id_overflow:
  assumes "try_session_ids 65535 sm = (None, sm1)" "findOldestInactiveSession sm1 = Inr s" "ssId s = 65535"
    and "getSession 65536 (sm1\<lparr>sessions := remove1 s (sessions sm1)\<rparr>) = None"
  shows "\<exists>sm2 sm3. getNextAvailableSessionId sm = Inr (65535, sm2) \<and> getNextAvailableSessionId sm2 = Inr (65536, sm3)"
proof -
  let ?sm2 = "sm1\<lparr>sessions := remove1 s (sessions sm1), nextSessionId := 65536\<rparr>"
  have "getNextAvailableSessionId sm = Inr (65535, ?sm2)" using assms by (simp add: getNextAvailableSessionId_def)
  moreover have "fst (try_session_ids 65535 ?sm2) = Some 65536"
    using assms(4) try_session_ids_first [of 65535 ?sm2] by (simp add: getSession_def)
  then have "\<exists>sm3. getNextAvailableSessionId ?sm2 = Inr (65536, sm3)"
    by (cases "try_session_ids 65535 ?sm2") (auto simp: getNextAvailableSessionId_def)
  ultimately show ?thesis by blast
qed

subsection \<open>Concrete sessions\<close>

definition sample_initiator :: session_args where
  "sample_initiator = \<lparr>argId = 5, argFabric = Some \<lparr>fabricIndex = 1, fabricNodeId = 100\<rparr>, argPeerNodeId = 200,
     argPeerSessionId = 7, sharedSecret = [1, 2], salt = [3], argInitiator = True, argResumption = False, argTags = None\<rparr>"

definition sample_responder :: session_args where
  "sample_responder = \<lparr>argId = 7, argFabric = Some \<lparr>fabricIndex = 1, fabricNodeId = 200\<rparr>, argPeerNodeId = 100,
     argPeerSessionId = 5, sharedSecret = [1, 2], salt = [3], argInitiator = False, argResumption = False, argTags = None\<rparr>"

definition sample_hkdf :: key_derivation where
  "sample_hkdf secret slt info n = map of_nat [0..<n]"

text \<open>A toy cipher that checks its key and nonce.\<close>

definition toy_encrypt :: aead_encrypt where "toy_encrypt k d n a = k @ n @ d"

definition toy_decrypt :: aead_decrypt where
  "toy_decrypt k c n a = (if starts_with (k @ n) c then Inr (drop (length (k @ n)) c) else Inl InternalError)"

lemma toy_decrypt_encrypt: "toy_decrypt k (toy_encrypt k d n a) n a = Inr d"
  using starts_with_append [of "k @ n" d] by (simp add: toy_decrypt_def toy_encrypt_def)

definition sample_manager :: session_manager where
  "sample_manager = \<lparr>sessions = [create_session sample_hkdf 0 sample_responder], insecureSessions = [], nextSessionId = 8\<rparr>"

lemma sample_sendable: "sendable (create_session sample_hkdf 0 sample_responder) sample_message"
  by (simp add: sendable_def addressed_to_def create_session_def sample_responder_def Let_def sample_message_def
      valid_packet_header_def valid_payload_header_def packet_consts)

lemma sample_session: "getSession 7 sample_manager = Some (create_session sample_hkdf 0 sample_responder)"
  by (simp add: getSession_def sample_manager_def create_session_def sample_responder_def Let_def)

lemma sample_reception: "reception (create_session sample_hkdf 0 sample_responder) = new_MessageReceptionState None"
  by (simp add: create_session_def Let_def)

lemma sample_counter: "updateMessageCounter calculateDiff_without_rollover 1000 (new_MessageReceptionState None) =
    Inr (initialize 1000 (new_MessageReceptionState None))"
  by (rule update_none) (simp_all add: new_MessageReceptionState_def reception_consts)

lemma secure_message_delivered_witness:
  "\<exists>datagram. and_then (session_encode toy_encrypt (create_session sample_hkdf 0 sample_initiator) sample_message) encodePacket = Inr datagram \<and>
    snd (receive_message toy_decrypt False datagram sample_manager) =
      Inr (Some (Secure 7, as_decoded_message (addressed_to (create_session sample_hkdf 0 sample_responder) sample_message), False))"
proof -
  have c: "counterparts sample_initiator sample_responder"
    by (simp add: counterparts_def sample_initiator_def sample_responder_def UNSPECIFIED_NODE_ID_def UNICAST_UNSECURE_SESSION_ID_def)
  have i: "argId sample_responder = 7" by (simp add: sample_responder_def)
  have m: "messageId (packetHeader sample_message) = 1000" "sessionType (packetHeader sample_message) = SessionType_Unicast"
    by (simp_all add: sample_message_def packet_consts)
  have s: "getSession 7 sample_manager = Some ((create_session sample_hkdf 0 sample_responder)\<lparr>reception := new_MessageReceptionState None\<rparr>)"
    using sample_session sample_reception by simp
  show ?thesis
    using secure_message_delivered [where decrypt = toy_decrypt and encrypt = toy_encrypt, OF toy_decrypt_encrypt c refl s [folded i] sample_counter [folded m(1)] sample_sendable m(2),
        of 0 False] by (simp add: i)
qed

lemma secure_session_no_replay_witness:
  "distinct (delivered_to (Secure 7) (deliveries toy_decrypt False [[], [0, 7, 0]] sample_manager))"
  by (rule secure_session_no_replay) (simp add: sample_manager_def sample_reception)

lemma forged_datagram_consumes_counter_witness:
  "snd (receive_message toy_decrypt False (packet_header_bytes (packetHeader sample_message) @ []) sample_manager) = Inl InternalError"
proof -
  let ?h = "packetHeader sample_message"
  have h: "valid_packet_header ?h" "sessionType ?h = SessionType_Unicast" "sessionId ?h \<noteq> UNICAST_UNSECURE_SESSION_ID" "sessionId ?h = 7" "messageId ?h = 1000"
    by (simp_all add: sample_message_def valid_packet_header_def packet_consts UNICAST_UNSECURE_SESSION_ID_def)
  have n: "updateMessageCounter calculateDiff_without_rollover (messageId ?h) (reception (create_session sample_hkdf 0 sample_responder)) =
      Inr (initialize 1000 (new_MessageReceptionState None))"
    using sample_counter by (simp add: sample_reception h(5))
  have "decryptKey (create_session sample_hkdf 0 sample_responder) \<noteq> []"
    by (simp add: create_session_def Let_def sample_responder_def sample_hkdf_def slice_def CRYPTO_SYMMETRIC_KEY_LENGTH_def)
  then have f: "toy_decrypt (decryptKey (create_session sample_hkdf 0 sample_responder)) [] n a = Inl InternalError" for n a
    by (simp add: toy_decrypt_def starts_with_def)
  show ?thesis
    using forged_datagram_consumes_counter [where decrypt = toy_decrypt and junk = "[]", OF h(1-3) sample_session [folded h(4)] _ n f, of False "[]"]
    by (simp add: sample_reception new_MessageReceptionState_def)
qed

end
