(* ===== verification/AccessControl.thy ===== *)
theory AccessControl
  imports SecureSession
begin

text \<open>
  Access control: packages/protocol/src/interaction/AccessControlManager.ts, with the node ids and
  CASE authenticated tags it compares (packages/types/src/datatype/NodeId.ts and
  CaseAuthenticatedTag.ts).  The check of extension entries, a function given to the manager, is an
  argument.
\<close>

subsection \<open>Hexadecimal text\<close>

text \<open>\<open>n.toString(16)\<close> and \<open>BigInt("0x...")\<close> or \<open>parseInt(s, 16)\<close> on hexadecimal digits.\<close>

definition hex_char :: "nat \<Rightarrow> char" where
  "hex_char d = (if d < 10 then char_of (48 + d) else char_of (87 + d))"

definition hex_digit :: "char \<Rightarrow> nat" where
  "hex_digit c =
     (let n = of_char c in if n < 58 then n - 48 else if n < 71 then n - 55 else n - 87)"

fun hex_nat :: "nat \<Rightarrow> string" where
  "hex_nat n = (if n < 16 then [hex_char n] else hex_nat (n div 16) @ [hex_char (n mod 16)])"

declare hex_nat.simps [simp del]

definition hex_string :: "int \<Rightarrow> string" where
  "hex_string n = (if n < 0 then ''-'' @ hex_nat (nat (- n)) else hex_nat (nat n))"

definition hex_value :: "string \<Rightarrow> int" where
  "hex_value s = foldl (\<lambda>n c. 16 * n + int (hex_digit c)) 0 s"

subsection \<open>CASE authenticated tags and node ids\<close>

definition CaseAuthenticatedTag :: "int \<Rightarrow> int res" where
  "CaseAuthenticatedTag i = (if js_and i 0xffff = 0 then Inl ValidationOutOfBoundsError else Inr i)"

definition getIdentifyValue :: "int \<Rightarrow> int" where "getIdentifyValue tag = js_ushr tag 16"
definition getVersion :: "int \<Rightarrow> int" where "getVersion tag = js_and tag 0xffff"

definition increaseVersion :: "int \<Rightarrow> int res" where
  "increaseVersion tag =
     (if getVersion tag = 0xffff then Inl ValidationOutOfBoundsError else CaseAuthenticatedTag (tag + 1))"

definition validateNocTagList :: "int list \<Rightarrow> unit res" where
  "validateNocTagList tags =
     (if length tags > 3 then Inl ValidationOutOfBoundsError
      else if card (set (map getIdentifyValue tags)) \<noteq> length tags then Inl ValidationOutOfBoundsError
      else Inr ())"

definition OPERATIONAL_NODE_MIN :: int where "OPERATIONAL_NODE_MIN = 1"
definition OPERATIONAL_NODE_MAX :: int where "OPERATIONAL_NODE_MAX = 0xFFFFFFEFFFFFFFFF"

definition isOperationalNodeId :: "int \<Rightarrow> bool" where
  "isOperationalNodeId nodeId \<longleftrightarrow> OPERATIONAL_NODE_MIN \<le> nodeId \<and> nodeId \<le> OPERATIONAL_NODE_MAX"

definition prefixed_id :: "string \<Rightarrow> nat \<Rightarrow> int \<Rightarrow> int \<Rightarrow> int res" where
  "prefixed_id start digits limit i =
     (if i < 0 \<or> limit < i then Inl UnexpectedDataError
      else Inr (hex_value (start @ pad_start digits CHR ''0'' (hex_string i))))"

definition fromGroupNodeId :: "int \<Rightarrow> int res" where
  "fromGroupNodeId = prefixed_id ''FFFFFFFFFFFF'' 4 0xffff"

definition fromTemporaryLocalNodeId :: "int \<Rightarrow> int res" where
  "fromTemporaryLocalNodeId = prefixed_id ''FFFFFFFE'' 8 0xffffffff"

definition fromCaseAuthenticatedTag :: "int \<Rightarrow> int res" where
  "fromCaseAuthenticatedTag = prefixed_id ''FFFFFFFD'' 8 0xffffffff"

definition getFromPakeKeyIdentifier :: "int \<Rightarrow> int res" where
  "getFromPakeKeyIdentifier = prefixed_id ''FFFFFFFB'' 8 0xffffffff"

definition isCaseAuthenticatedTag :: "int \<Rightarrow> bool" where
  "isCaseAuthenticatedTag nodeId \<longleftrightarrow>
     (let nodeIdHex = hex_string nodeId in starts_with ''fffffffd'' nodeIdHex \<and> length nodeIdHex = 16)"

definition extractAsCaseAuthenticatedTag :: "int \<Rightarrow> int res" where
  "extractAsCaseAuthenticatedTag nodeId =
     (if \<not> isCaseAuthenticatedTag nodeId then Inl UnexpectedDataError
      else CaseAuthenticatedTag (hex_value (drop 8 (hex_string nodeId))))"

subsection \<open>The access control list\<close>

datatype access_level = View | ProxyView | Operate | Manage | Administer

datatype auth_mode = NoAuth | Pase | Case | Group

record acl_target =
  tCluster :: "int option"
  tEndpoint :: "int option"
  tDeviceType :: "int option"

record acl_entry =
  aclFabricIndex :: int
  privilege :: access_level
  authMode :: auth_mode
  subjects :: "int list option"
  targets :: "acl_target list option"

record subject_descriptor =
  isCommissioning :: bool
  sdAuthMode :: auth_mode
  sdSubjects :: "int list"
  sdFabricIndex :: int

record acl_endpoint =
  endpointId :: int
  deviceTypes :: "int list"

type_synonym extension_check = "acl_entry list \<Rightarrow> acl_entry \<Rightarrow> subject_descriptor \<Rightarrow> acl_endpoint \<Rightarrow> int \<Rightarrow> bool"

record access_control_manager =
  aclList :: "acl_entry list"
  extensionEntryAccessCheck :: extension_check

definition NO_FABRIC :: int where "NO_FABRIC = 0"

definition ImplicitDefaultPaseAclEntry :: acl_entry where
  "ImplicitDefaultPaseAclEntry =
     \<lparr>aclFabricIndex = NO_FABRIC, privilege = Administer, authMode = Pase, subjects = Some [], targets = Some []\<rparr>"

definition new_AccessControlManager :: "acl_entry list \<Rightarrow> extension_check option \<Rightarrow> access_control_manager" where
  "new_AccessControlManager acl check =
     \<lparr>aclList = acl, extensionEntryAccessCheck = (case check of None \<Rightarrow> (\<lambda>_ _ _ _ _. True) | Some c \<Rightarrow> c)\<rparr>"

definition updateAccessControlList :: "acl_entry list \<Rightarrow> access_control_manager \<Rightarrow> access_control_manager" where
  "updateAccessControlList acl m = m\<lparr>aclList := acl\<rparr>"

definition getAccessControlEntriesForFabric :: "fabric \<Rightarrow> access_control_manager \<Rightarrow> acl_entry list" where
  "getAccessControlEntriesForFabric f m = filter (\<lambda>e. aclFabricIndex e = fabricIndex f) (aclList m)"

definition subjectMatches :: "int \<Rightarrow> int \<Rightarrow> bool res" where
  "subjectMatches aclSubject isdSubject =
     (if aclSubject = isdSubject then Inr True
      else if \<not> isCaseAuthenticatedTag aclSubject \<or> \<not> isCaseAuthenticatedTag isdSubject then Inr False
      else
        and_then (extractAsCaseAuthenticatedTag aclSubject) (\<lambda>aclSubjectCat.
        and_then (extractAsCaseAuthenticatedTag isdSubject) (\<lambda>isdSubjectCat.
          Inr (getIdentifyValue aclSubjectCat = getIdentifyValue isdSubjectCat \<and>
               getVersion isdSubjectCat \<ge> getVersion aclSubjectCat))))"

text \<open>A JavaScript set keeps the order of insertion.\<close>

definition set_add :: "'a \<Rightarrow> 'a list \<Rightarrow> 'a list" where
  "set_add x xs = (if x \<in> set xs then xs else xs @ [x])"

definition subsumed :: "access_level \<Rightarrow> access_level list" where
  "subsumed p =
     (case p of View \<Rightarrow> [] | ProxyView \<Rightarrow> [View] | Operate \<Rightarrow> [View] | Manage \<Rightarrow> [Operate, View]
      | Administer \<Rightarrow> [Manage, Operate, ProxyView, View])"

definition addGrantedPrivilege :: "access_level \<Rightarrow> access_level list \<Rightarrow> access_level list" where
  "addGrantedPrivilege p granted = fold set_add (p # subsumed p) granted"

definition getIsdFromMessage :: "secure_session \<Rightarrow> subject_descriptor res" where
  "getIsdFromMessage s =
     (if isPase s then
        Inr \<lparr>isCommissioning = True, sdAuthMode = Pase, sdSubjects = [0],
             sdFabricIndex = (case ssFabric s of None \<Rightarrow> NO_FABRIC | Some f \<Rightarrow> fabricIndex f)\<rparr>
      else
        and_then (map_res fromCaseAuthenticatedTag (caseAuthenticatedTags s)) (\<lambda>tags.
          case ssFabric s of
            None \<Rightarrow> Inl MatterFlowError
          | Some f \<Rightarrow>
              Inr \<lparr>isCommissioning = False, sdAuthMode = Case, sdSubjects = ssPeerNodeId s # tags,
                   sdFabricIndex = fabricIndex f\<rparr>))"

text \<open>The labelled loop over the subjects: the first pair that matches ends it.\<close>

fun any_res :: "('a \<Rightarrow> bool res) \<Rightarrow> 'a list \<Rightarrow> bool res" where
  "any_res f [] = Inr False"
| "any_res f (x # xs) = and_then (f x) (\<lambda>b. if b then Inr True else any_res f xs)"

definition subjects_match :: "acl_entry \<Rightarrow> subject_descriptor \<Rightarrow> bool res" where
  "subjects_match e isd =
     (case subjects e of
        Some (x # xs) \<Rightarrow> any_res (\<lambda>a. any_res (subjectMatches a) (sdSubjects isd)) (x # xs)
      | _ \<Rightarrow> if authMode e \<noteq> Case \<and> authMode e \<noteq> Group then Inl MatterFlowError else Inr True)"

definition target_matches :: "acl_endpoint \<Rightarrow> int \<Rightarrow> acl_target \<Rightarrow> bool res" where
  "target_matches ep clusterId t =
     (if tCluster t = None \<and> tEndpoint t = None \<and> tDeviceType t = None then Inl MatterFlowError
      else if tEndpoint t \<noteq> None \<and> tDeviceType t \<noteq> None then Inl MatterFlowError
      else if tCluster t \<noteq> None \<and> tCluster t \<noteq> Some clusterId then Inr False
      else if tEndpoint t \<noteq> None \<and> tEndpoint t \<noteq> Some (endpointId ep) then Inr False
      else Inr (case tDeviceType t of None \<Rightarrow> True | Some d \<Rightarrow> d \<in> set (deviceTypes ep)))"

definition targets_match :: "acl_entry \<Rightarrow> acl_endpoint \<Rightarrow> int \<Rightarrow> bool res" where
  "targets_match e ep clusterId =
     (case targets e of
        Some (t # ts) \<Rightarrow> any_res (target_matches ep clusterId) (t # ts)
      | _ \<Rightarrow> Inr True)"

text \<open>The body of the loop over the entries: whether the entry grants its privilege.\<close>

definition entry_grants ::
  "extension_check \<Rightarrow> acl_entry list \<Rightarrow> subject_descriptor \<Rightarrow> acl_endpoint \<Rightarrow> int \<Rightarrow> acl_entry \<Rightarrow> bool res" where
  "entry_grants check acl isd ep clusterId e =
     (if aclFabricIndex e = NO_FABRIC \<or> aclFabricIndex e \<noteq> sdFabricIndex isd then Inr False
      else if authMode e \<noteq> sdAuthMode isd then Inr False
      else
        and_then (subjects_match e isd) (\<lambda>matched.
          if \<not> matched then Inr False
          else and_then (targets_match e ep clusterId) (\<lambda>matched.
            if \<not> matched then Inr False else Inr (check acl e isd ep clusterId))))"

fun grant_loop ::
  "(acl_entry \<Rightarrow> bool res) \<Rightarrow> acl_entry list \<Rightarrow> access_level list \<Rightarrow> access_level list res" where
  "grant_loop grants [] granted = Inr granted"
| "grant_loop grants (e # es) granted =
     (if Administer \<in> set granted then Inr granted
      else and_then (grants e) (\<lambda>b.
        grant_loop grants es (if b then addGrantedPrivilege (privilege e) granted else granted)))"

definition getGrantedPrivileges ::
  "access_control_manager \<Rightarrow> secure_session \<Rightarrow> acl_endpoint \<Rightarrow> int \<Rightarrow> access_level list res" where
  "getGrantedPrivileges m s ep clusterId =
     and_then (getIsdFromMessage s) (\<lambda>isd.
       let acl = (case ssFabric s of Some f \<Rightarrow> getAccessControlEntriesForFabric f m | None \<Rightarrow> [ImplicitDefaultPaseAclEntry]);
           granted = (if sdAuthMode isd = Pase \<and> isCommissioning isd then addGrantedPrivilege Administer [] else [])
       in and_then (grant_loop (entry_grants (extensionEntryAccessCheck m) acl isd ep clusterId) acl granted) (\<lambda>granted.
            if sdAuthMode isd = Group \<and> Administer \<in> set granted then Inl MatterFlowError else Inr granted))"

text \<open>The message logged on a refusal reads the fabric of the session, which throws if it has none.\<close>

definition allowsPrivilege ::
  "access_control_manager \<Rightarrow> secure_session \<Rightarrow> acl_endpoint \<Rightarrow> int \<Rightarrow> access_level \<Rightarrow> bool res" where
  "allowsPrivilege m s ep clusterId p =
     and_then (getGrantedPrivileges m s ep clusterId) (\<lambda>granted.
       if p \<in> set granted then Inr True
       else and_then (associatedFabric s) (\<lambda>f. and_then (getIsdFromMessage s) (\<lambda>isd. Inr False)))"

subsection \<open>Hexadecimal text: proofs\<close>

lemma hex_digit_char: "d < 16 \<Longrightarrow> hex_digit (hex_char d) = d"
  by (simp add: hex_digit_def hex_char_def Let_def)

lemma hex_value_append [simp]: "hex_value (s @ t) = foldl (\<lambda>n c. 16 * n + int (hex_digit c)) (hex_value s) t"
  by (simp add: hex_value_def)

lemma hex_foldl: "foldl (\<lambda>n c. 16 * n + int (hex_digit c)) k s = k * 16 ^ length s + hex_value s"
proof (induction s arbitrary: k rule: rev_induct)
  case (snoc c s)
  show ?case by (simp add: snoc.IH)
qed (simp add: hex_value_def)

lemma hex_value_hex_nat [simp]: "hex_value (hex_nat n) = int n"
proof (induction n rule: hex_nat.induct)
  case (1 n)
  then show ?case
    by (subst hex_nat.simps) (auto simp: hex_value_def hex_digit_char zdiv_int zmod_int)
qed

lemma hex_value_zeros [simp]: "hex_value (replicate k CHR ''0'') = 0"
proof -
  have "hex_digit CHR ''0'' = 0" by code_simp
  then have "foldl (\<lambda>n c. 16 * n + int (hex_digit c)) 0 (replicate k CHR ''0'') = 0" by (induction k) simp_all
  then show ?thesis by (simp add: hex_value_def)
qed

lemma length_hex_nat: "0 < k \<Longrightarrow> length (hex_nat n) \<le> k \<longleftrightarrow> n < 16 ^ k"
proof (induction n arbitrary: k rule: hex_nat.induct)
  case (1 n)
  show ?case
  proof (cases "n < 16")
    case True
    moreover have "(16::nat) ^ 1 \<le> 16 ^ k" using "1.prems" by (intro power_increasing) simp_all
    ultimately show ?thesis using "1.prems" by (subst hex_nat.simps) simp
  next
    case False
    show ?thesis
    proof (cases "k = 1")
      case True
      have "hex_nat (n div 16) \<noteq> []" by (subst hex_nat.simps) simp
      with True False show ?thesis by (subst hex_nat.simps) simp
    next
      case k: False
      then obtain j where j: "k = Suc j" "0 < j" using "1.prems" by (cases k) auto
      have "n div 16 < 16 ^ j \<longleftrightarrow> n < 16 ^ k" by (simp add: j div_less_iff_less_mult mult.commute)
      with "1.IH" [OF False j(2)] False show ?thesis by (subst hex_nat.simps) (simp add: j)
    qed
  qed
qed

lemma hex_nat_split:
  assumes "16 ^ k \<le> n"
  shows "\<exists>t. hex_nat n = hex_nat (n div 16 ^ k) @ t \<and> length t = k \<and> hex_value t = int (n mod 16 ^ k)"
  using assms
proof (induction k arbitrary: n)
  case 0
  then show ?case by (simp add: hex_value_def)
next
  case (Suc k)
  have n: "16 \<le> n" using Suc.prems order_trans [of 16 "16 * 16 ^ k" n] by simp
  have "16 ^ k \<le> n div 16" using Suc.prems by (simp add: less_eq_div_iff_mult_less_eq mult.commute)
  from Suc.IH [OF this] obtain t where t: "hex_nat (n div 16) = hex_nat (n div 16 div 16 ^ k) @ t" "length t = k"
    "hex_value t = int (n div 16 mod 16 ^ k)" by blast
  have "hex_nat n = hex_nat (n div 16) @ [hex_char (n mod 16)]" using n by (subst hex_nat.simps) simp
  moreover have "int (n mod 16 ^ Suc k) = 16 * int (n div 16 mod 16 ^ k) + int (n mod 16)"
    using mod_mult2_eq [of n 16 "16 ^ k"] by simp
  ultimately show ?case
    using t by (intro exI [of _ "t @ [hex_char (n mod 16)]"]) (simp add: div_mult2_eq hex_digit_char)
qed

lemma hex_cat_prefix: "hex_nat 0xFFFFFFFD = ''fffffffd''"
proof -
  have "hex_char 15 = CHR ''f''" "hex_char 13 = CHR ''d''" by code_simp+
  then show ?thesis by (simp add: hex_nat.simps)
qed

lemma hex_nat_inject: "hex_nat m = hex_nat n \<longleftrightarrow> m = n"
  by (metis hex_value_hex_nat of_nat_eq_iff)

subsection \<open>Tags: proofs\<close>

definition cat_base :: int where "cat_base = 0xFFFFFFFD00000000"

lemma isCaseAuthenticatedTag_iff: "isCaseAuthenticatedTag n \<longleftrightarrow> cat_base \<le> n \<and> n < cat_base + 4294967296"
proof (cases "n < 0")
  case True
  then show ?thesis by (simp add: isCaseAuthenticatedTag_def Let_def hex_string_def starts_with_def cat_base_def)
next
  case False
  let ?n = "nat n"
  have e: "isCaseAuthenticatedTag n \<longleftrightarrow> starts_with ''fffffffd'' (hex_nat ?n) \<and> length (hex_nat ?n) = 16"
    using False by (simp add: isCaseAuthenticatedTag_def Let_def hex_string_def)
  have l: "length (hex_nat m) = k \<longleftrightarrow> 16 ^ (k - 1) \<le> m \<and> m < 16 ^ k" if "1 < k" for m k
    using length_hex_nat [of k m] length_hex_nat [of "k - 1" m] that by auto
  show ?thesis
  proof (cases "(16::nat) ^ 8 \<le> ?n")
    case big: True
    obtain t where t: "hex_nat ?n = hex_nat (?n div 16 ^ 8) @ t" "length t = 8"
      using hex_nat_split [OF big] by blast
    have "isCaseAuthenticatedTag n \<longleftrightarrow> hex_nat (?n div 16 ^ 8) = ''fffffffd''"
      unfolding e t(1) using t(2) by (auto simp: starts_with_def)
    also have "\<dots> \<longleftrightarrow> ?n div 16 ^ 8 = 0xFFFFFFFD" using hex_nat_inject hex_cat_prefix by metis
    also have "\<dots> \<longleftrightarrow> cat_base \<le> n \<and> n < cat_base + 4294967296"
    proof -
      have "int (?n div 16 ^ 8) = n div 4294967296" using False by (simp add: zdiv_int)
      then have "?n div 16 ^ 8 = 0xFFFFFFFD \<longleftrightarrow> n div 4294967296 = 0xFFFFFFFD" by linarith
      then show ?thesis by (auto simp: cat_base_def)
    qed
    finally show ?thesis .
  next
    case small: False
    then have "length (hex_nat ?n) \<le> 8" by (simp add: length_hex_nat)
    with e small False show ?thesis by (auto simp: cat_base_def nat_less_iff)
  qed
qed

lemma extract_tag:
  assumes "isCaseAuthenticatedTag n"
  shows "extractAsCaseAuthenticatedTag n = CaseAuthenticatedTag (n - cat_base)"
proof -
  have n: "cat_base \<le> n" "n < cat_base + 4294967296" using assms by (simp_all add: isCaseAuthenticatedTag_iff)
  let ?n = "nat n"
  have big: "(16::nat) ^ 8 \<le> ?n" using n by (simp add: cat_base_def le_nat_iff)
  obtain t where t: "hex_nat ?n = hex_nat (?n div 16 ^ 8) @ t" "length t = 8" "hex_value t = int (?n mod 16 ^ 8)"
    using hex_nat_split [OF big] by blast
  have "int (?n div 16 ^ 8) = n div 4294967296" using n by (simp add: zdiv_int cat_base_def)
  also have "\<dots> = 0xFFFFFFFD" using n by (simp add: cat_base_def)
  finally have "?n div 16 ^ 8 = 0xFFFFFFFD" by linarith
  then have "drop 8 (hex_string n) = t"
    using n t(1,2) by (simp add: hex_string_def cat_base_def hex_cat_prefix)
  moreover have "hex_value t = n - cat_base"
  proof -
    have "hex_value t = n mod 4294967296" using t(3) n by (simp add: zmod_int cat_base_def)
    also have "\<dots> = n - cat_base" using n by (simp add: cat_base_def minus_div_mult_eq_mod [symmetric])
    finally show ?thesis .
  qed
  ultimately show ?thesis using assms by (simp add: extractAsCaseAuthenticatedTag_def)
qed

lemma prefixed_id_value:
  assumes "0 \<le> i" "i \<le> limit" "limit < 16 ^ digits" "0 < digits"
  shows "prefixed_id start digits limit i = Inr (hex_value start * 16 ^ digits + i)"
proof -
  have "nat i < 16 ^ digits" using assms by (simp add: nat_less_iff)
  then have "length (hex_nat (nat i)) \<le> digits" using assms(4) by (simp add: length_hex_nat)
  then have "hex_value (start @ pad_start digits CHR ''0'' (hex_string i)) = hex_value start * 16 ^ digits + i"
    using assms(1) by (simp add: hex_string_def pad_start_def hex_foldl)
  with assms show ?thesis by (simp add: prefixed_id_def)
qed

lemma fromCaseAuthenticatedTag_value:
  "0 \<le> i \<Longrightarrow> i \<le> 0xffffffff \<Longrightarrow> fromCaseAuthenticatedTag i = Inr (cat_base + i)"
proof -
  have "hex_value ''FFFFFFFD'' = 0xFFFFFFFD" by (simp add: hex_value_def hex_digit_def)
  then show "0 \<le> i \<Longrightarrow> i \<le> 0xffffffff \<Longrightarrow> ?thesis"
    by (simp add: fromCaseAuthenticatedTag_def prefixed_id_value cat_base_def)
qed

text \<open>A tag comes back from the node id made of it.\<close>

lemma tag_roundtrip:
  "0 \<le> i \<Longrightarrow> i \<le> 0xffffffff \<Longrightarrow> and_then (fromCaseAuthenticatedTag i) extractAsCaseAuthenticatedTag = CaseAuthenticatedTag i"
  using extract_tag [of "cat_base + i"] by (simp add: fromCaseAuthenticatedTag_value isCaseAuthenticatedTag_iff)

subsection \<open>The specification of access control\<close>

text \<open>
  A subject is a node id or a set of nodes: a tag in the list stands for every node with the same
  identifier and at least its version.  A target selects by cluster and endpoint or device type.
\<close>

definition subject_covers :: "int \<Rightarrow> int \<Rightarrow> bool" where
  "subject_covers a s \<longleftrightarrow> a = s \<or>
     (\<exists>i va vs. 0 \<le> i \<and> i < 65536 \<and> 0 < va \<and> va \<le> vs \<and> vs < 65536 \<and>
        a = cat_base + 65536 * i + va \<and> s = cat_base + 65536 * i + vs)"

definition target_covers :: "acl_endpoint \<Rightarrow> int \<Rightarrow> acl_target \<Rightarrow> bool" where
  "target_covers ep clusterId t \<longleftrightarrow>
     (\<forall>c. tCluster t = Some c \<longrightarrow> c = clusterId) \<and> (\<forall>e. tEndpoint t = Some e \<longrightarrow> e = endpointId ep) \<and>
     (\<forall>d. tDeviceType t = Some d \<longrightarrow> d \<in> set (deviceTypes ep))"

definition wildcard :: "'a list option \<Rightarrow> bool" where "wildcard xs \<longleftrightarrow> xs = None \<or> xs = Some []"

definition entry_covers ::
  "extension_check \<Rightarrow> acl_entry list \<Rightarrow> subject_descriptor \<Rightarrow> acl_endpoint \<Rightarrow> int \<Rightarrow> acl_entry \<Rightarrow> bool" where
  "entry_covers check acl isd ep clusterId e \<longleftrightarrow>
     aclFabricIndex e \<noteq> NO_FABRIC \<and> aclFabricIndex e = sdFabricIndex isd \<and> authMode e = sdAuthMode isd \<and>
     (wildcard (subjects e) \<or> (\<exists>a\<in>set (the (subjects e)). \<exists>s\<in>set (sdSubjects isd). subject_covers a s)) \<and>
     (wildcard (targets e) \<or> (\<exists>t\<in>set (the (targets e)). target_covers ep clusterId t)) \<and>
     check acl e isd ep clusterId"

lemma js_and_low16: "js_and i 65535 = i mod 65536"
proof -
  have "js_and i 65535 = to_int32 i AND mask 16" by (simp add: js_and_def mask_eq_exp_minus_1)
  also have "\<dots> = take_bit 16 i"
    by (rule bit_eqI) (auto simp: bit_and_iff bit_mask_iff bit_take_bit_iff bit_to_int32)
  finally show ?thesis by (simp add: take_bit_eq_mod)
qed

lemma tag_fields: "0 \<le> i \<Longrightarrow> i < 4294967296 \<Longrightarrow> getIdentifyValue i = i div 65536 \<and> getVersion i = i mod 65536"
  by (simp add: getIdentifyValue_def getVersion_def js_ushr_def js_and_low16)

lemma tag_value: "CaseAuthenticatedTag i = Inr j \<longleftrightarrow> i mod 65536 \<noteq> 0 \<and> j = i"
  by (auto simp: CaseAuthenticatedTag_def js_and_low16)

lemma subjectMatches_covers:
  assumes "subjectMatches a s = Inr b"
  shows "b \<longleftrightarrow> subject_covers a s"
proof (cases "a = s \<or> \<not> isCaseAuthenticatedTag a \<or> \<not> isCaseAuthenticatedTag s")
  case True
  have "isCaseAuthenticatedTag a \<and> isCaseAuthenticatedTag s" if "subject_covers a s" "a \<noteq> s"
    using that by (auto simp: subject_covers_def isCaseAuthenticatedTag_iff)
  with True assms show ?thesis by (auto simp: subjectMatches_def subject_covers_def split: if_splits)
next
  case False
  let ?a = "a - cat_base" and ?s = "s - cat_base"
  have r: "0 \<le> ?a" "?a < 4294967296" "0 \<le> ?s" "?s < 4294967296"
    using False by (simp_all add: isCaseAuthenticatedTag_iff)
  have v: "?a mod 65536 \<noteq> 0" "?s mod 65536 \<noteq> 0"
    and b: "b \<longleftrightarrow> ?a div 65536 = ?s div 65536 \<and> ?a mod 65536 \<le> ?s mod 65536"
    using assms False by (auto simp: subjectMatches_def extract_tag and_then_Inr_iff tag_value tag_fields [OF r(1,2)] tag_fields [OF r(3,4)])
  have "subject_covers a s \<longleftrightarrow> ?a div 65536 = ?s div 65536 \<and> ?a mod 65536 \<le> ?s mod 65536"
  proof
    assume "subject_covers a s"
    then consider "a = s" | i va vs where "0 < va" "va \<le> vs" "vs < 65536" "a = cat_base + 65536 * i + va" "s = cat_base + 65536 * i + vs"
      unfolding subject_covers_def by blast
    then show "?a div 65536 = ?s div 65536 \<and> ?a mod 65536 \<le> ?s mod 65536"
    proof cases
      case (2 i va vs)
      have "?a div 65536 = i" "?a mod 65536 = va" "?s div 65536 = i" "?s mod 65536 = vs"
        using 2(1-3) by (simp_all add: 2(4,5))
      with 2 show ?thesis by simp
    qed simp
  next
    assume e: "?a div 65536 = ?s div 65536 \<and> ?a mod 65536 \<le> ?s mod 65536"
    have d: "x = cat_base + 65536 * ((x - cat_base) div 65536) + (x - cat_base) mod 65536" for x by simp
    have i: "0 \<le> ?a div 65536" "?a div 65536 < 65536" using r(1,2) by linarith+
    have "0 \<le> ?a mod 65536" by simp
    with v(1) have "0 < ?a mod 65536" by linarith
    moreover have "?s mod 65536 < 65536" by simp
    ultimately have m: "0 < ?a mod 65536" "?s mod 65536 < 65536" by simp_all
    show "subject_covers a s"
      unfolding subject_covers_def using i m e d [of a] d [of s, folded conjunct1 [OF e]] by blast
  qed
  with b show ?thesis by simp
qed

subsection \<open>The manager implements the specification\<close>

lemma any_res_iff:
  assumes "any_res f xs = Inr b" "\<And>x c. x \<in> set xs \<Longrightarrow> f x = Inr c \<Longrightarrow> c \<longleftrightarrow> P x"
  shows "b \<longleftrightarrow> (\<exists>x\<in>set xs. P x)"
  using assms by (induction xs) (auto simp: and_then_Inr_iff split: if_splits)

lemma subjects_match_iff:
  assumes "subjects_match e isd = Inr b"
  shows "b \<longleftrightarrow> wildcard (subjects e) \<or> (\<exists>a\<in>set (the (subjects e)). \<exists>s\<in>set (sdSubjects isd). subject_covers a s)"
proof (cases "wildcard (subjects e)")
  case True
  with assms show ?thesis by (auto simp: subjects_match_def wildcard_def split: if_splits)
next
  case False
  then obtain x xs where x: "subjects e = Some (x # xs)" by (auto simp: wildcard_def neq_Nil_conv)
  have a: "any_res (\<lambda>a. any_res (subjectMatches a) (sdSubjects isd)) (x # xs) = Inr b"
    using assms x by (simp add: subjects_match_def)
  have "b \<longleftrightarrow> (\<exists>a\<in>set (x # xs). \<exists>s\<in>set (sdSubjects isd). subject_covers a s)"
    by (rule any_res_iff [OF a]) (rule any_res_iff, assumption, rule subjectMatches_covers)
  with x False show ?thesis by simp
qed

lemma target_matches_covers: "target_matches ep clusterId t = Inr b \<Longrightarrow> b \<longleftrightarrow> target_covers ep clusterId t"
  by (auto simp: target_matches_def target_covers_def split: if_splits option.splits)

lemma targets_match_iff:
  assumes "targets_match e ep clusterId = Inr b"
  shows "b \<longleftrightarrow> wildcard (targets e) \<or> (\<exists>t\<in>set (the (targets e)). target_covers ep clusterId t)"
proof (cases "wildcard (targets e)")
  case True
  with assms show ?thesis by (auto simp: targets_match_def wildcard_def)
next
  case False
  then obtain t ts where t: "targets e = Some (t # ts)" by (auto simp: wildcard_def neq_Nil_conv)
  have a: "any_res (target_matches ep clusterId) (t # ts) = Inr b" using assms t by (simp add: targets_match_def)
  have "b \<longleftrightarrow> (\<exists>t\<in>set (t # ts). target_covers ep clusterId t)"
    by (rule any_res_iff [OF a]) (rule target_matches_covers)
  with t False show ?thesis by simp
qed

lemma entry_grants_iff:
  assumes "entry_grants check acl isd ep clusterId e = Inr b"
  shows "b \<longleftrightarrow> entry_covers check acl isd ep clusterId e"
proof (cases "aclFabricIndex e = NO_FABRIC \<or> aclFabricIndex e \<noteq> sdFabricIndex isd \<or> authMode e \<noteq> sdAuthMode isd")
  case True
  with assms show ?thesis by (auto simp: entry_grants_def entry_covers_def split: if_splits)
next
  case False
  with assms obtain m where m: "subjects_match e isd = Inr m"
    "(if \<not> m then Inr False else and_then (targets_match e ep clusterId) (\<lambda>matched.
       if \<not> matched then Inr False else Inr (check acl e isd ep clusterId))) = Inr b"
    by (auto simp: entry_grants_def and_then_Inr_iff)
  then show ?thesis
    using False subjects_match_iff [OF m(1)] targets_match_iff [of e ep clusterId]
    by (auto simp: entry_covers_def and_then_Inr_iff split: if_splits)
qed

lemma set_addGrantedPrivilege: "set (addGrantedPrivilege p granted) = set granted \<union> set (p # subsumed p)"
proof -
  have "set (fold set_add ps granted) = set granted \<union> set ps" for ps
    by (induction ps arbitrary: granted) (auto simp: set_add_def)
  then show ?thesis by (simp only: addGrantedPrivilege_def)
qed

lemma administer_all: "p \<in> set (Administer # subsumed Administer)"
  by (cases p) (simp_all add: subsumed_def)

text \<open>The privileges granted so far are closed: Administer comes with all others.\<close>

lemma grant_loop_iff:
  assumes "grant_loop grants es granted = Inr result" "\<And>e b. e \<in> set es \<Longrightarrow> grants e = Inr b \<Longrightarrow> b \<longleftrightarrow> P e"
    and "Administer \<in> set granted \<longrightarrow> (\<forall>p. p \<in> set granted)"
  shows "p \<in> set result \<longleftrightarrow> p \<in> set granted \<or> (\<exists>e\<in>set es. P e \<and> p \<in> set (privilege e # subsumed (privilege e)))"
  using assms
proof (induction es arbitrary: granted)
  case (Cons e es)
  show ?case
  proof (cases "Administer \<in> set granted")
    case True
    with Cons.prems show ?thesis by simp
  next
    case False
    with Cons.prems(1) obtain b where b: "grants e = Inr b"
      "grant_loop grants es (if b then addGrantedPrivilege (privilege e) granted else granted) = Inr result"
      by (auto simp: and_then_Inr_iff)
    have P: "b \<longleftrightarrow> P e" using Cons.prems(2) b(1) by simp
    let ?g = "if b then addGrantedPrivilege (privilege e) granted else granted"
    have g: "Administer \<in> set ?g \<longrightarrow> (\<forall>p. p \<in> set ?g)"
    proof (intro impI allI)
      fix q
      assume "Administer \<in> set ?g"
      with False have "b" "Administer \<in> set (privilege e # subsumed (privilege e))"
        by (auto simp: set_addGrantedPrivilege split: if_splits)
      moreover have "privilege e = Administer"
        by (rule ccontr) (use \<open>Administer \<in> set (privilege e # subsumed (privilege e))\<close> in \<open>simp add: subsumed_def split: access_level.splits\<close>)
      ultimately show "q \<in> set ?g" using administer_all [of q] by (auto simp: set_addGrantedPrivilege)
    qed
    show ?thesis using Cons.IH [OF b(2) _ g] Cons.prems(2) P by (auto simp: set_addGrantedPrivilege)
  qed
qed simp

text \<open>C6: The access control decision: whenever the manager decides, a privilege is allowed exactly if the session
  is a commissioning one or some entry of the list, for the session's own fabric and established with
  certificates, covers one of its subjects and the target and carries a privilege that includes it.\<close>

theorem access_granted_iff:
  assumes "allowsPrivilege m s ep clusterId p = Inr allowed"
  shows "allowed \<longleftrightarrow> isPase s \<or>
    (\<exists>f isd. ssFabric s = Some f \<and> getIsdFromMessage s = Inr isd \<and> sdFabricIndex isd = fabricIndex f \<and> sdAuthMode isd = Case \<and>
      (\<exists>e\<in>set (aclList m).
         entry_covers (extensionEntryAccessCheck m) (getAccessControlEntriesForFabric f m) isd ep clusterId e \<and>
         p \<in> set (privilege e # subsumed (privilege e))))"
proof -
  from assms obtain granted where g: "getGrantedPrivileges m s ep clusterId = Inr granted" "allowed \<longleftrightarrow> p \<in> set granted"
    by (auto simp: allowsPrivilege_def and_then_Inr_iff split: if_splits)
  from g(1) obtain isd where isd: "getIsdFromMessage s = Inr isd" by (auto simp: getGrantedPrivileges_def and_then_Inr_iff)
  show ?thesis
  proof (cases "isPase s")
    case True
    with isd have "sdAuthMode isd = Pase" "isCommissioning isd" by (auto simp: getIsdFromMessage_def)
    moreover have "Administer \<in> set (addGrantedPrivilege Administer [])" by (simp add: set_addGrantedPrivilege)
    ultimately have "granted = addGrantedPrivilege Administer []"
      using g(1) by (cases "case ssFabric s of Some f \<Rightarrow> getAccessControlEntriesForFabric f m | None \<Rightarrow> [ImplicitDefaultPaseAclEntry]")
        (auto simp: getGrantedPrivileges_def isd)
    then show ?thesis using g(2) True administer_all [of p] by (simp add: set_addGrantedPrivilege)
  next
    case False
    with isd obtain f where f: "ssFabric s = Some f" "sdAuthMode isd = Case" "sdFabricIndex isd = fabricIndex f" "\<not> isCommissioning isd"
      by (auto simp: getIsdFromMessage_def and_then_Inr_iff split: option.splits)
    let ?acl = "getAccessControlEntriesForFabric f m"
    have l: "grant_loop (entry_grants (extensionEntryAccessCheck m) ?acl isd ep clusterId) ?acl [] = Inr granted"
      using g(1) f by (auto simp: getGrantedPrivileges_def isd and_then_Inr_iff Let_def)
    have "p \<in> set granted \<longleftrightarrow> p \<in> set [] \<or> (\<exists>e\<in>set ?acl. entry_covers (extensionEntryAccessCheck m) ?acl isd ep clusterId e \<and>
        p \<in> set (privilege e # subsumed (privilege e)))"
      by (rule grant_loop_iff [OF l]) (rule entry_grants_iff, assumption, simp)
    also have "\<dots> \<longleftrightarrow> (\<exists>e\<in>set (aclList m). entry_covers (extensionEntryAccessCheck m) ?acl isd ep clusterId e \<and>
        p \<in> set (privilege e # subsumed (privilege e)))"
    proof -
      have "e \<in> set ?acl \<longleftrightarrow> e \<in> set (aclList m)" if "entry_covers (extensionEntryAccessCheck m) ?acl isd ep clusterId e" for e
        using that f(3) by (simp add: getAccessControlEntriesForFabric_def entry_covers_def)
      then show ?thesis by (simp only: list.set empty_iff simp_thms Bex_def) blast
    qed
    finally show ?thesis unfolding g(2) by (simp add: False f isd)
  qed
qed

definition sample_acl :: "acl_entry list" where
  "sample_acl =
     [\<lparr>aclFabricIndex = 2, privilege = Administer, authMode = Case, subjects = Some [100], targets = None\<rparr>,
      \<lparr>aclFabricIndex = 1, privilege = Operate, authMode = Case, subjects = Some [100],
       targets = Some [\<lparr>tCluster = Some 6, tEndpoint = Some 1, tDeviceType = None\<rparr>]\<rparr>]"

lemma access_granted_iff_witness:
  "allowsPrivilege (new_AccessControlManager sample_acl None) (create_session sample_hkdf 0 sample_responder)
     \<lparr>endpointId = 1, deviceTypes = []\<rparr> 6 View = Inr True \<and>
   (\<exists>f isd. ssFabric (create_session sample_hkdf 0 sample_responder) = Some f \<and>
      (\<exists>e\<in>set sample_acl. entry_covers (\<lambda>_ _ _ _ _. True) (getAccessControlEntriesForFabric f (new_AccessControlManager sample_acl None))
        isd \<lparr>endpointId = 1, deviceTypes = []\<rparr> 6 e \<and> View \<in> set (privilege e # subsumed (privilege e))))"
proof -
  let ?s = "create_session sample_hkdf 0 sample_responder"
  have a: "allowsPrivilege (new_AccessControlManager sample_acl None) ?s \<lparr>endpointId = 1, deviceTypes = []\<rparr> 6 View = Inr True"
    by (simp add: create_session_def sample_responder_def Let_def allowsPrivilege_def getGrantedPrivileges_def getIsdFromMessage_def
        isPase_def UNSPECIFIED_NODE_ID_def new_AccessControlManager_def sample_acl_def getAccessControlEntriesForFabric_def
        entry_grants_def NO_FABRIC_def subjects_match_def subjectMatches_def targets_match_def target_matches_def set_addGrantedPrivilege subsumed_def)
  have "\<not> isPase ?s" by (simp add: isPase_def create_session_def sample_responder_def Let_def UNSPECIFIED_NODE_ID_def)
  with a access_granted_iff [OF a] show ?thesis by (auto simp: new_AccessControlManager_def)
qed

text \<open>C39: A privilege is never allowed across fabrics: changing, adding or removing entries of other fabrics does not
  change any decision for a session.\<close>

theorem access_fabric_isolation:
  assumes "ssFabric s = Some f"
    and "filter (\<lambda>e. aclFabricIndex e = fabricIndex f) acl = filter (\<lambda>e. aclFabricIndex e = fabricIndex f) acl'"
  shows "allowsPrivilege (updateAccessControlList acl m) s ep clusterId p = allowsPrivilege (updateAccessControlList acl' m) s ep clusterId p"
  using assms by (simp add: allowsPrivilege_def getGrantedPrivileges_def getAccessControlEntriesForFabric_def updateAccessControlList_def)

lemma access_fabric_isolation_witness:
  "allowsPrivilege (updateAccessControlList sample_acl (new_AccessControlManager [] None)) (create_session sample_hkdf 0 sample_responder) \<lparr>endpointId = 1, deviceTypes = []\<rparr> 6 View =
   allowsPrivilege (updateAccessControlList (drop 1 sample_acl) (new_AccessControlManager [] None)) (create_session sample_hkdf 0 sample_responder) \<lparr>endpointId = 1, deviceTypes = []\<rparr> 6 View"
  by (rule access_fabric_isolation [where f = "\<lparr>fabricIndex = 1, fabricNodeId = 200\<rparr>"])
    (simp_all add: create_session_def sample_responder_def Let_def sample_acl_def)

text \<open>A session opened with the passcode is always taken for the commissioning channel, also after it has got a fabric.\<close>

lemma pase_always_administrator:
  assumes "isPase s"
  shows "allowsPrivilege m s ep clusterId p = Inr True"
proof -
  have a: "Administer \<in> set (addGrantedPrivilege Administer [])" by (simp add: set_addGrantedPrivilege)
  have "grant_loop g acl (addGrantedPrivilege Administer []) = Inr (addGrantedPrivilege Administer [])" for g acl
    using a by (cases acl) simp_all
  then show ?thesis
    using assms administer_all [of p] by (auto simp: allowsPrivilege_def getGrantedPrivileges_def getIsdFromMessage_def set_addGrantedPrivilege)
qed

text \<open>One subject with version 0 in the list makes every check of a session with tags throw.\<close>

lemma invalid_tag_blocks:
  assumes "0 \<le> i" "i < 65536" "0 \<le> t" "t < 4294967296"
  shows "subjectMatches (cat_base + 65536 * i) (cat_base + t) = (if t = 65536 * i then Inr True else Inl ValidationOutOfBoundsError)"
proof -
  have "isCaseAuthenticatedTag (cat_base + 65536 * i)" "isCaseAuthenticatedTag (cat_base + t)"
    using assms by (simp_all add: isCaseAuthenticatedTag_iff)
  then show ?thesis by (simp add: subjectMatches_def extract_tag CaseAuthenticatedTag_def js_and_low16)
qed

end
