(* ===== verification/DataReadQueue.thy ===== *)
theory DataReadQueue
  imports Prelude "HOL-Library.Sublist"
begin

text \<open>
  The queue between the messages that arrive and the code that waits for them:
  packages/general/src/util/DataReadQueue.ts.  A read that finds nothing waits as a promise with a
  timer; the promise is settled by a push, the timer or the closing of the queue.
\<close>

subsection \<open>The queue\<close>

text \<open>A pending read is there with its promise unsettled (\<open>Some True\<close>) or settled (\<open>Some False\<close>).\<close>

record 'a data_queue =
  queued :: "'a list"
  pendingRead :: "bool option"
  queueClosed :: bool

definition new_DataReadQueue :: "'a data_queue" where
  "new_DataReadQueue = \<lparr>queued = [], pendingRead = None, queueClosed = False\<rparr>"

datatype 'a queue_output = Returns 'a | Resolves 'a | Rejects js_error | Throws js_error

definition queue_read :: "'a data_queue \<Rightarrow> 'a data_queue \<times> 'a queue_output list" where
  "queue_read q =
     (if queueClosed q then (q, [Throws EndOfStreamError])
      else case queued q of
        x # xs \<Rightarrow> (q\<lparr>queued := xs\<rparr>, [Returns x])
      | [] \<Rightarrow>
          if pendingRead q \<noteq> None then (q, [Throws MatterFlowError]) else (q\<lparr>pendingRead := Some True\<rparr>, []))"

definition queue_push :: "'a \<Rightarrow> 'a data_queue \<Rightarrow> 'a data_queue \<times> 'a queue_output list" where
  "queue_push x q =
     (if queueClosed q then (q, [Throws EndOfStreamError])
      else case pendingRead q of
        Some unsettled \<Rightarrow> (q\<lparr>pendingRead := None\<rparr>, if unsettled then [Resolves x] else [])
      | None \<Rightarrow> (q\<lparr>queued := queued q @ [x]\<rparr>, []))"

definition queue_close :: "'a data_queue \<Rightarrow> 'a data_queue \<times> 'a queue_output list" where
  "queue_close q =
     (if queueClosed q then (q, [])
      else case pendingRead q of
        None \<Rightarrow> (q\<lparr>queueClosed := True\<rparr>, [])
      | Some unsettled \<Rightarrow>
          (q\<lparr>queueClosed := True, pendingRead := Some False\<rparr>, if unsettled then [Rejects EndOfStreamError] else []))"

text \<open>The timer of a pending read: it only rejects the promise.\<close>

definition queue_timeout :: "'a data_queue \<Rightarrow> 'a data_queue \<times> 'a queue_output list" where
  "queue_timeout q =
     (if pendingRead q = Some True then (q\<lparr>pendingRead := Some False\<rparr>, [Rejects NoResponseTimeoutError]) else (q, []))"

subsection \<open>Runs\<close>

datatype 'a queue_event = Read | Push 'a | Close | Timeout

fun queue_step :: "'a queue_event \<Rightarrow> 'a data_queue \<Rightarrow> 'a data_queue \<times> 'a queue_output list" where
  "queue_step Read = queue_read"
| "queue_step (Push x) = queue_push x"
| "queue_step Close = queue_close"
| "queue_step Timeout = queue_timeout"

text \<open>What the readers have got, and what was accepted.\<close>

fun handed_out :: "'a queue_output list \<Rightarrow> 'a list" where
  "handed_out [] = []"
| "handed_out (Returns x # os) = x # handed_out os"
| "handed_out (Resolves x # os) = x # handed_out os"
| "handed_out (_ # os) = handed_out os"

fun queue_run :: "'a queue_event list \<Rightarrow> 'a data_queue \<Rightarrow> 'a data_queue \<times> 'a list \<times> 'a list" where
  "queue_run [] q = (q, [], [])"
| "queue_run (e # es) q =
     (let (q', out) = queue_step e q;
          accepted = (case e of Push x \<Rightarrow> if queueClosed q then [] else [x] | _ \<Rightarrow> []);
          (q'', read, pushed) = queue_run es q'
      in (q'', handed_out out @ read, accepted @ pushed))"

lemmas queue_defs = queue_read_def queue_push_def queue_close_def queue_timeout_def

text \<open>A reader waits only when nothing is queued.\<close>

definition queue_ok :: "'a data_queue \<Rightarrow> bool" where
  "queue_ok q \<longleftrightarrow> (pendingRead q \<noteq> None \<longrightarrow> queued q = [])"

lemma queue_step_ok: "queue_ok q \<Longrightarrow> queue_ok (fst (queue_step e q))"
  by (cases e) (auto simp: queue_ok_def queue_defs split: list.splits option.splits)

lemma queue_step_order:
  assumes "queue_ok q" "queue_step e q = (q', out)"
  shows "subseq (handed_out out @ queued q') (queued q @ (case e of Push x \<Rightarrow> if queueClosed q then [] else [x] | _ \<Rightarrow> []))"
  using assms by (cases e) (auto simp: queue_ok_def queue_defs split: list.splits option.splits if_splits)

lemma queue_step_exact:
  assumes "queue_ok q" "queue_step e q = (q', out)" "e \<noteq> Timeout" "pendingRead q = Some False \<longrightarrow> queueClosed q"
  shows "handed_out out @ queued q' = queued q @ (case e of Push x \<Rightarrow> if queueClosed q then [] else [x] | _ \<Rightarrow> []) \<and>
    (pendingRead q' = Some False \<longrightarrow> queueClosed q')"
  using assms by (cases e) (auto simp: queue_ok_def queue_defs split: list.splits option.splits if_splits)

lemma queue_run_order:
  assumes "queue_ok q" "queue_run es q = (q', read, pushed)"
  shows "subseq (read @ queued q') (queued q @ pushed)"
  using assms
proof (induction es arbitrary: q read pushed)
  case (Cons e es)
  obtain q1 out where s: "queue_step e q = (q1, out)" by fastforce
  obtain read1 pushed1 where r: "queue_run es q1 = (q', read1, pushed1)" using Cons.prems(2) s by (auto simp: Let_def split: prod.splits)
  let ?a = "case e of Push x \<Rightarrow> if queueClosed q then [] else [x] | _ \<Rightarrow> []"
  have e: "read = handed_out out @ read1" "pushed = ?a @ pushed1" using Cons.prems(2) s r by (auto simp: Let_def)
  have "subseq (read1 @ queued q') (queued q1 @ pushed1)" using Cons.IH [OF _ r] queue_step_ok [OF Cons.prems(1), of e] s by simp
  then have "subseq (handed_out out @ read1 @ queued q') (handed_out out @ queued q1 @ pushed1)"
    by (rule list_emb_append_mono [OF subseq_order.order_refl])
  also have "subseq (handed_out out @ queued q1 @ pushed1) (queued q @ ?a @ pushed1)"
    using list_emb_append_mono [OF queue_step_order [OF Cons.prems(1) s] subseq_order.order_refl [of pushed1]] by simp
  finally show ?case by (simp add: e)
qed auto

lemma queue_run_exact:
  assumes "queue_ok q" "queue_run es q = (q', read, pushed)" "Timeout \<notin> set es" "pendingRead q = Some False \<longrightarrow> queueClosed q"
  shows "read @ queued q' = queued q @ pushed"
  using assms
proof (induction es arbitrary: q read pushed)
  case (Cons e es)
  obtain q1 out where s: "queue_step e q = (q1, out)" by fastforce
  obtain read1 pushed1 where r: "queue_run es q1 = (q', read1, pushed1)" using Cons.prems(2) s by (auto simp: Let_def split: prod.splits)
  have "read1 @ queued q' = queued q1 @ pushed1"
    using Cons.IH [OF _ r] queue_step_ok [OF Cons.prems(1), of e] queue_step_exact [OF Cons.prems(1) s] Cons.prems(3,4) s by auto
  with queue_step_exact [OF Cons.prems(1) s] Cons.prems s r show ?case by (auto simp: Let_def)
qed simp

text \<open>The queue hands out what was pushed in the order it was pushed, each item at most once, whatever the order of
  reads, pushes, timeouts and the closing; as long as no read times out, nothing is lost on the way.\<close>

theorem queue_fifo:
  assumes "queue_run es new_DataReadQueue = (q, read, pushed)"
  shows "subseq (read @ queued q) pushed \<and> (Timeout \<notin> set es \<longrightarrow> read @ queued q = pushed)"
  using assms queue_run_order [of new_DataReadQueue es q read pushed] queue_run_exact [of new_DataReadQueue es q read pushed]
  by (simp add: new_DataReadQueue_def queue_ok_def)

lemma queue_fifo_witness:
  "queue_run [Read, Push (1::int), Push 2, Read, Push 3] new_DataReadQueue =
     (\<lparr>queued = [3], pendingRead = None, queueClosed = False\<rparr>, [1, 2], [1, 2, 3]) \<and>
   [1, 2] @ [3] = [1, 2, 3::int]"
proof -
  have r: "queue_run [Read, Push (1::int), Push 2, Read, Push 3] new_DataReadQueue =
     (\<lparr>queued = [3], pendingRead = None, queueClosed = False\<rparr>, [1, 2], [1, 2, 3])"
    by (simp add: queue_defs new_DataReadQueue_def)
  with queue_fifo [OF r] show ?thesis by simp
qed

text \<open>After a timeout the promise stays pending: the next item goes to it and is lost, though a reader may have come
  back, who is refused.\<close>

lemma queue_loses_after_timeout:
  "queue_run [Read, Timeout, Push x, Read] new_DataReadQueue =
     (\<lparr>queued = [], pendingRead = Some True, queueClosed = False\<rparr>, [], [x])"
  "snd (queue_read (fst (queue_timeout (fst (queue_read new_DataReadQueue))))) = [Throws MatterFlowError]"
  by (simp_all add: queue_defs new_DataReadQueue_def)

end
