(* ===== verification/MessageExchange.thy ===== *)
theory MessageExchange
  imports Packet DataReadQueue Complex_Main
begin

text \<open>
  The Message Reliability Protocol: packages/protocol/src/protocol/MessageExchange.ts.  An exchange is
  a record; every method is a function on it that returns what it puts on the channel, hands to its
  callers or throws.  A method is split at its awaits: what is awaited is an entry of \<open>pending\<close>, and the
  rest of the method runs when that entry is completed, so that other events can come in between.

  Times are in milliseconds.  The length of a timer is kept where the code reads it; when a timer
  fires is up to the environment.  \<open>Math.random()\<close> and whether the peer is active are read from the
  environment too.  The back-off is computed exactly, where the code uses floating point.
\<close>

subsection \<open>Constants\<close>

definition MRP_MAX_TRANSMISSIONS :: int where "MRP_MAX_TRANSMISSIONS = 5"
definition MRP_BACKOFF_BASE :: rat where "MRP_BACKOFF_BASE = 16 / 10"
definition MRP_BACKOFF_JITTER :: rat where "MRP_BACKOFF_JITTER = 25 / 100"
definition MRP_BACKOFF_MARGIN :: rat where "MRP_BACKOFF_MARGIN = 11 / 10"
definition MRP_BACKOFF_THRESHOLD :: int where "MRP_BACKOFF_THRESHOLD = 1"
definition DEFAULT_EXPECTED_PROCESSING_TIME_MS :: int where "DEFAULT_EXPECTED_PROCESSING_TIME_MS = 2000"
definition PEER_RESPONSE_TIME_BUFFER_MS :: int where "PEER_RESPONSE_TIME_BUFFER_MS = 5000"
definition MATTER_MESSAGE_OVERHEAD :: int where "MATTER_MESSAGE_OVERHEAD = 26 + 12 + 16"
definition SECURE_CHANNEL_PROTOCOL_ID :: int where "SECURE_CHANNEL_PROTOCOL_ID = 0"
definition StandaloneAck :: int where "StandaloneAck = 0x10"

lemmas exchange_consts =
  MRP_MAX_TRANSMISSIONS_def MRP_BACKOFF_BASE_def MRP_BACKOFF_JITTER_def MRP_BACKOFF_MARGIN_def MRP_BACKOFF_THRESHOLD_def
  DEFAULT_EXPECTED_PROCESSING_TIME_MS_def PEER_RESPONSE_TIME_BUFFER_MS_def SECURE_CHANNEL_PROTOCOL_ID_def StandaloneAck_def

definition isStandaloneAck :: "int \<Rightarrow> int \<Rightarrow> bool" where
  "isStandaloneAck protocol msgType \<longleftrightarrow> protocol = SECURE_CHANNEL_PROTOCOL_ID \<and> msgType = StandaloneAck"

subsection \<open>The state of an exchange\<close>

text \<open>
  Timers for retransmission are objects of which the exchange remembers the latest; an earlier one may
  still be running.  They are kept in order of creation.
\<close>

record retransmission_timer =
  intervalMs :: int
  timerMessage :: message
  timerExpected :: "int option"
  running :: bool

record send_options =
  disableMrpLogic :: bool
  optExpectedProcessingTimeMs :: "int option"
  optRequiresAck :: "bool option"
  includeAcknowledgeMessageId :: "int option"

definition no_send_options :: send_options where
  "no_send_options = \<lparr>disableMrpLogic = False, optExpectedProcessingTimeMs = None, optRequiresAck = None,
     includeAcknowledgeMessageId = None\<rparr>"

text \<open>
  What the caller of a send does after it: nothing, the rest of \<open>close\<close>, the rest of \<open>destroy\<close>, or
  something outside of the exchange, which is told that the send has returned.
\<close>

datatype after_send = Nothing | ThenClose bool | ThenDestroy | ThenReturn

record send_job =
  jobType :: int
  jobPayload :: "byte list"
  jobRequiresAck :: "bool option"
  jobAcked :: "int option"
  jobDisableMrp :: bool
  jobExpected :: int
  jobAfter :: after_send

datatype pending =
    AwaitCounter send_job
  | AwaitChannel bool after_send
  | AwaitResend
  | AwaitResubmit message int "int option"

record exchange =
  isInitiator :: bool
  xPeerSessionId :: int
  xNodeId :: "int option"
  xPeerNodeId :: "int option"
  xExchangeId :: int
  xProtocolId :: int
  useMRP :: bool
  activeIntervalMs :: int
  idleIntervalMs :: int
  messagesQueue :: "message data_queue"
  receivedMessageToAck :: "message option"
  receivedMessageAckTimer :: bool
  sentMessageToAck :: "message option"
  sentMessageAckHandlers :: bool
  retransmissionTimers :: "retransmission_timer list"
  retransmissionTimer :: "nat option"
  retransmissionCounter :: int
  closeTimer :: "bool option"
  isClosing :: bool
  timedInteractionTimer :: "bool option"
  pendings :: "pending list"

record environment =
  peerActive :: bool
  jitter :: "int \<Rightarrow> rat"
  localActiveIntervalMs :: int

datatype exchange_output =
    Transmit message
  | AckResolved message
  | AckRejected js_error
  | Received message
  | ReadRejected js_error
  | ThrowsError js_error
  | ResubmissionStarted
  | SendReturned
  | Closed

text \<open>The parts of a session and channel that the constructor reads.\<close>

record exchange_context =
  ctxSessionId :: int
  ctxPeerSessionId :: int
  ctxNodeId :: "int option"
  ctxPeerNodeId :: "int option"
  ctxSupportsMRP :: bool
  ctxReliable :: bool
  ctxActiveIntervalMs :: int
  ctxIdleIntervalMs :: int

definition new_MessageExchange ::
  "exchange_context \<Rightarrow> bool \<Rightarrow> int \<Rightarrow> int option \<Rightarrow> int option \<Rightarrow> int \<Rightarrow> int \<Rightarrow> exchange" where
  "new_MessageExchange ctx initiator peerSession node peerNode i protocol =
     \<lparr>isInitiator = initiator, xPeerSessionId = peerSession, xNodeId = node, xPeerNodeId = peerNode, xExchangeId = i,
      xProtocolId = protocol, useMRP = (ctxSupportsMRP ctx \<and> \<not> ctxReliable ctx), activeIntervalMs = ctxActiveIntervalMs ctx,
      idleIntervalMs = ctxIdleIntervalMs ctx, messagesQueue = new_DataReadQueue, receivedMessageToAck = None,
      receivedMessageAckTimer = False, sentMessageToAck = None, sentMessageAckHandlers = False, retransmissionTimers = [],
      retransmissionTimer = None, retransmissionCounter = 0, closeTimer = None, isClosing = False,
      timedInteractionTimer = None, pendings = []\<rparr>"

definition fromInitialMessage :: "exchange_context \<Rightarrow> message \<Rightarrow> exchange" where
  "fromInitialMessage ctx m =
     new_MessageExchange ctx False (ctxSessionId ctx) (destNodeId (packetHeader m)) (sourceNodeId (packetHeader m))
       (exchangeId (payloadHeader m)) (protocolId (payloadHeader m))"

definition initiate :: "exchange_context \<Rightarrow> int \<Rightarrow> int \<Rightarrow> exchange" where
  "initiate ctx i protocol = new_MessageExchange ctx True (ctxPeerSessionId ctx) (ctxNodeId ctx) (ctxPeerNodeId ctx) i protocol"

subsection \<open>Back-off\<close>

definition backoff_time :: "int \<Rightarrow> rat \<Rightarrow> int \<Rightarrow> int" where
  "backoff_time baseInterval random retransmissionCount =
     \<lfloor>MRP_BACKOFF_MARGIN * of_int baseInterval *
        MRP_BACKOFF_BASE ^ nat (max 0 (retransmissionCount - MRP_BACKOFF_THRESHOLD)) * (1 + random * MRP_BACKOFF_JITTER)\<rfloor>"

definition getResubmissionBackOffTime :: "environment \<Rightarrow> exchange \<Rightarrow> int \<Rightarrow> int" where
  "getResubmissionBackOffTime env x count =
     backoff_time (if peerActive env then activeIntervalMs x else idleIntervalMs x) (jitter env count) count"

definition calculateMaximumPeerResponseTime :: "environment \<Rightarrow> int option \<Rightarrow> int" where
  "calculateMaximumPeerResponseTime env expected =
     fold (\<lambda>i t. t + backoff_time (localActiveIntervalMs env) 1 i) [0..MRP_MAX_TRANSMISSIONS - 1]
       (case expected of None \<Rightarrow> DEFAULT_EXPECTED_PROCESSING_TIME_MS | Some t \<Rightarrow> t)"

subsection \<open>Timers\<close>

definition set_running :: "bool \<Rightarrow> nat \<Rightarrow> exchange \<Rightarrow> exchange" where
  "set_running b n x =
     (if n < length (retransmissionTimers x)
      then x\<lparr>retransmissionTimers := (retransmissionTimers x)[n := (retransmissionTimers x ! n)\<lparr>running := b\<rparr>]\<rparr> else x)"

definition set_retransmission_timer :: "bool \<Rightarrow> exchange \<Rightarrow> exchange" where
  "set_retransmission_timer b x = (case retransmissionTimer x of None \<Rightarrow> x | Some n \<Rightarrow> set_running b n x)"

definition new_retransmission_timer :: "int \<Rightarrow> message \<Rightarrow> int option \<Rightarrow> bool \<Rightarrow> exchange \<Rightarrow> exchange" where
  "new_retransmission_timer interval m expected started x =
     x\<lparr>retransmissionTimer := Some (length (retransmissionTimers x)),
       retransmissionTimers := retransmissionTimers x @
         [\<lparr>intervalMs = interval, timerMessage = m, timerExpected = expected, running = started\<rparr>]\<rparr>"

definition current_interval :: "exchange \<Rightarrow> int" where
  "current_interval x = (case retransmissionTimer x of None \<Rightarrow> 0 | Some n \<Rightarrow> intervalMs (retransmissionTimers x ! n))"

subsection \<open>Closing\<close>

text \<open>\<open>#close\<close>.\<close>

definition queue_outputs :: "message queue_output list \<Rightarrow> exchange_output list" where
  "queue_outputs out =
     map (\<lambda>r. case r of Returns m \<Rightarrow> Received m | Resolves m \<Rightarrow> Received m | Rejects e \<Rightarrow> ReadRejected e | Throws e \<Rightarrow> ThrowsError e) out"

definition close_now :: "exchange \<Rightarrow> exchange \<times> exchange_output list" where
  "close_now x =
     (let x = set_retransmission_timer False (x\<lparr>isClosing := True\<rparr>);
          x = x\<lparr>closeTimer := map_option (\<lambda>_. False) (closeTimer x),
                timedInteractionTimer := map_option (\<lambda>_. False) (timedInteractionTimer x)\<rparr>;
          (q, out) = queue_close (messagesQueue x)
      in (x\<lparr>messagesQueue := q\<rparr>, queue_outputs out @ [Closed]))"

text \<open>The last statements of \<open>close\<close>: the exchange stays for as long as retransmissions may come.\<close>

definition start_close_timer :: "exchange \<Rightarrow> exchange" where
  "start_close_timer x = x\<lparr>closeTimer := Some True\<rparr>"

definition after :: "after_send \<Rightarrow> exchange \<Rightarrow> exchange \<times> exchange_output list" where
  "after a x =
     (case a of
        Nothing \<Rightarrow> (x, [])
      | ThenClose force \<Rightarrow> if force then close_now x else (start_close_timer x, [])
      | ThenDestroy \<Rightarrow> close_now x
      | ThenReturn \<Rightarrow> (x, [SendReturned]))"

subsection \<open>Sending\<close>

text \<open>\<open>send\<close> up to the await of the message counter.\<close>

definition send_begin :: "int \<Rightarrow> byte list \<Rightarrow> send_options \<Rightarrow> after_send \<Rightarrow> exchange \<Rightarrow> exchange \<times> exchange_output list" where
  "send_begin msgType bytes opts next x =
     (let reqAck = (if optRequiresAck opts = Some True \<and> \<not> useMRP x then Some False else optRequiresAck opts)
      in if \<not> useMRP x \<and> includeAcknowledgeMessageId opts \<noteq> None then (x, [ThrowsError InternalError])
         else if msgType = StandaloneAck \<and> \<not> useMRP x then after next x
         else if msgType = StandaloneAck \<and> reqAck = Some True then (x, [ThrowsError MatterFlowError])
         else if sentMessageToAck x \<noteq> None \<and> msgType \<noteq> StandaloneAck then (x, [ThrowsError MatterFlowError])
         else
           let job = \<lparr>jobType = msgType, jobPayload = bytes, jobRequiresAck = reqAck,
                 jobAcked = includeAcknowledgeMessageId opts, jobDisableMrp = disableMrpLogic opts,
                 jobExpected = (case optExpectedProcessingTimeMs opts of None \<Rightarrow> DEFAULT_EXPECTED_PROCESSING_TIME_MS | Some t \<Rightarrow> t),
                 jobAfter = next\<rparr>;
               (job, x) =
                 (if includeAcknowledgeMessageId opts = None \<and> useMRP x then
                    (case receivedMessageToAck x of
                       None \<Rightarrow> (job, x)
                     | Some m \<Rightarrow>
                         (job\<lparr>jobAcked := Some (messageId (packetHeader m))\<rparr>,
                          x\<lparr>receivedMessageAckTimer := False, receivedMessageToAck := None\<rparr>))
                  else (job, x))
           in (x\<lparr>pendings := pendings x @ [AwaitCounter job]\<rparr>, []))"

definition job_message :: "send_job \<Rightarrow> int \<Rightarrow> exchange \<Rightarrow> message" where
  "job_message job counter x =
     \<lparr>packetHeader =
        \<lparr>sessionId = xPeerSessionId x, sessionType = SessionType_Unicast, hasPrivacyEnhancements = False,
         isControlMessage = False, hasMessageExtensions = False, messageId = counter, sourceNodeId = xNodeId x,
         destNodeId = xPeerNodeId x, destGroupId = None\<rparr>,
      payloadHeader =
        \<lparr>exchangeId = xExchangeId x,
         protocolId = (if jobType job = StandaloneAck then SECURE_CHANNEL_PROTOCOL_ID else xProtocolId x),
         messageType = jobType job, isInitiatorMessage = isInitiator x,
         requiresAck = (case jobRequiresAck job of None \<Rightarrow> useMRP x \<and> jobType job \<noteq> StandaloneAck | Some b \<Rightarrow> b),
         ackedMessageId = jobAcked job, hasSecuredExtension = False\<rparr>,
      securityExtension = None, payload = jobPayload job\<rparr>"

text \<open>From the message counter to the await of the channel.\<close>

definition send_counter :: "environment \<Rightarrow> send_job \<Rightarrow> int \<Rightarrow> exchange \<Rightarrow> exchange \<times> exchange_output list" where
  "send_counter env job counter x =
     (let m = job_message job counter x;
          reliable = (useMRP x \<and> requiresAck (payloadHeader m) \<and> \<not> jobDisableMrp job);
          x = (if reliable then
                 (new_retransmission_timer (getResubmissionBackOffTime env x 0) m (Some (jobExpected job)) False
                    (x\<lparr>sentMessageToAck := Some m\<rparr>))\<lparr>sentMessageAckHandlers := True\<rparr>
               else x)
      in (x\<lparr>pendings := pendings x @ [AwaitChannel reliable (jobAfter job)]\<rparr>, [Transmit m]))"

text \<open>After the channel: the timer is started and the acknowledgement awaited, if there is one to come.\<close>

definition send_done :: "bool \<Rightarrow> after_send \<Rightarrow> exchange \<Rightarrow> exchange \<times> exchange_output list" where
  "send_done reliable next x =
     (if reliable then (set_retransmission_timer True (x\<lparr>retransmissionCounter := 0\<rparr>), []) else after next x)"

text \<open>What \<open>send\<close> does with the message that brought the acknowledgement.\<close>

definition send_result :: "bool \<Rightarrow> message \<Rightarrow> unit res" where
  "send_result expectAckOnly response =
     (if expectAckOnly \<and> \<not> isStandaloneAck (protocolId (payloadHeader response)) (messageType (payloadHeader response))
      then Inl UnexpectedMessageError else Inr ())"

definition sendStandaloneAckForMessage :: "message \<Rightarrow> after_send \<Rightarrow> exchange \<Rightarrow> exchange \<times> exchange_output list" where
  "sendStandaloneAckForMessage m next x =
     (if \<not> requiresAck (payloadHeader m) \<or> \<not> useMRP x then after next x
      else send_begin StandaloneAck [] (no_send_options\<lparr>includeAcknowledgeMessageId := Some (messageId (packetHeader m))\<rparr>) next x)"

subsection \<open>Receiving\<close>

text \<open>An acknowledgement that is required although the exchange does not use MRP is not.\<close>

definition without_ack :: "message \<Rightarrow> message" where
  "without_ack m = m\<lparr>payloadHeader := (payloadHeader m)\<lparr>requiresAck := False\<rparr>\<rparr>"

text \<open>The peer has confirmed the message that waits for it.\<close>

definition acknowledged :: "message \<Rightarrow> exchange \<Rightarrow> exchange \<times> exchange_output list" where
  "acknowledged m x =
     (let x = (set_retransmission_timer False x)\<lparr>retransmissionCounter := 0\<rparr>
      in (x\<lparr>sentMessageAckHandlers := False, sentMessageToAck := None\<rparr>,
          if sentMessageAckHandlers x then [AckResolved m] else []))"

text \<open>The end of \<open>onMessageReceived\<close>: the message is noted as one to acknowledge and handed to the reader.\<close>

definition deliver :: "message \<Rightarrow> exchange \<Rightarrow> exchange \<times> exchange_output list" where
  "deliver m x =
     (if requiresAck (payloadHeader m) \<and> receivedMessageToAck x \<noteq> None then
        sendStandaloneAckForMessage (the (receivedMessageToAck x)) Nothing (x\<lparr>receivedMessageAckTimer := False\<rparr>)
      else
        let x = (if requiresAck (payloadHeader m) then x\<lparr>receivedMessageToAck := Some m, receivedMessageAckTimer := True\<rparr> else x);
            (q, out) = queue_push m (messagesQueue x)
        in (x\<lparr>messagesQueue := q\<rparr>, queue_outputs out))"

definition handle_message :: "message \<Rightarrow> bool \<Rightarrow> exchange \<Rightarrow> exchange \<times> exchange_output list" where
  "handle_message m duplicate x =
     (let mid = messageId (packetHeader m);
          acked = ackedMessageId (payloadHeader m);
          standalone = isStandaloneAck (protocolId (payloadHeader m)) (messageType (payloadHeader m));
          sent = map_option (\<lambda>s. messageId (packetHeader s)) (sentMessageToAck x)
      in if protocolId (payloadHeader m) \<noteq> xProtocolId x \<and> \<not> standalone then (x, [ThrowsError MatterFlowError])
         else if duplicate then
           (if requiresAck (payloadHeader m) then sendStandaloneAckForMessage m Nothing x else (x, []))
         else if sentMessageToAck x \<noteq> None \<and> ackedMessageId (payloadHeader (the (sentMessageToAck x))) = Some mid then
           (x\<lparr>pendings := pendings x @ [AwaitResend]\<rparr>, [Transmit (the (sentMessageToAck x))])
         else if sent \<noteq> None \<and> acked = None then (x, [ThrowsError MatterFlowError])
         else if sent \<noteq> None \<and> acked \<noteq> sent \<and> \<not> standalone then (x, [ThrowsError MatterFlowError])
         else
           let (x, out) = (if sent \<noteq> None \<and> acked = sent then acknowledged m x else (x, []))
           in if standalone then
                (if sent \<noteq> None \<and> acked = sent \<and> closeTimer x \<noteq> None
                 then let (x, out') = close_now x in (x, out @ out') else (x, out))
              else let (x, out') = deliver m x in (x, out @ out'))"

definition onMessageReceived :: "message \<Rightarrow> bool \<Rightarrow> exchange \<Rightarrow> exchange \<times> exchange_output list" where
  "onMessageReceived m duplicate x =
     handle_message (if requiresAck (payloadHeader m) \<and> \<not> useMRP x then without_ack m else m) duplicate x"

text \<open>The timer for a standalone acknowledgement.\<close>

definition ack_timeout :: "exchange \<Rightarrow> exchange \<times> exchange_output list" where
  "ack_timeout x =
     (if \<not> receivedMessageAckTimer x then (x, [])
      else
        let x = x\<lparr>receivedMessageAckTimer := False\<rparr>
        in case receivedMessageToAck x of
             None \<Rightarrow> (x, [])
           | Some m \<Rightarrow> sendStandaloneAckForMessage m Nothing (x\<lparr>receivedMessageToAck := None\<rparr>))"

subsection \<open>Retransmission\<close>

text \<open>All retransmissions are done: the caller of \<open>send\<close> is told.\<close>

definition give_up :: "exchange \<Rightarrow> exchange \<times> exchange_output list" where
  "give_up x =
     (let failing = (sentMessageToAck x \<noteq> None \<and> sentMessageAckHandlers x);
          x = (if failing then x\<lparr>receivedMessageToAck := None, sentMessageAckHandlers := False\<rparr> else x);
          out = (if failing then [AckRejected RetransmissionLimitReachedError] else [])
      in if closeTimer x \<noteq> None then let (x, out') = close_now x in (x, out @ out') else (x, out))"

definition retransmitMessage :: "environment \<Rightarrow> message \<Rightarrow> int option \<Rightarrow> exchange \<Rightarrow> exchange \<times> exchange_output list" where
  "retransmitMessage env m expected x =
     (let x = x\<lparr>retransmissionCounter := retransmissionCounter x + 1\<rparr>
      in if retransmissionCounter x \<ge> MRP_MAX_TRANSMISSIONS then
           (case expected of
              None \<Rightarrow> give_up x
            | Some t \<Rightarrow>
                let finalWaitTime = calculateMaximumPeerResponseTime env (Some t) - current_interval x
                in if finalWaitTime > 0 then
                     (new_retransmission_timer finalWaitTime m None True
                        (x\<lparr>retransmissionCounter := retransmissionCounter x - 1\<rparr>), [])
                   else give_up x)
         else
           (x\<lparr>pendings := pendings x @ [AwaitResubmit m (getResubmissionBackOffTime env x (retransmissionCounter x)) expected]\<rparr>,
            (if retransmissionCounter x = 1 then [ResubmissionStarted] else []) @ [Transmit m]))"

text \<open>A timer of the list fires.\<close>

definition retransmission_timeout :: "environment \<Rightarrow> nat \<Rightarrow> exchange \<Rightarrow> exchange \<times> exchange_output list" where
  "retransmission_timeout env n x =
     (if n < length (retransmissionTimers x) \<and> running (retransmissionTimers x ! n)
      then let t = retransmissionTimers x ! n
           in retransmitMessage env (timerMessage t) (timerExpected t) (set_running False n x)
      else (x, []))"

subsection \<open>Completion of what is awaited\<close>

definition remove_pending :: "nat \<Rightarrow> exchange \<Rightarrow> exchange" where
  "remove_pending n x = x\<lparr>pendings := take n (pendings x) @ drop (Suc n) (pendings x)\<rparr>"

definition counter_ready :: "environment \<Rightarrow> nat \<Rightarrow> int \<Rightarrow> exchange \<Rightarrow> exchange \<times> exchange_output list" where
  "counter_ready env n counter x =
     (if n < length (pendings x) then
        (case pendings x ! n of
           AwaitCounter job \<Rightarrow> send_counter env job counter (remove_pending n x)
         | _ \<Rightarrow> (x, []))
      else (x, []))"

definition channel_done :: "nat \<Rightarrow> exchange \<Rightarrow> exchange \<times> exchange_output list" where
  "channel_done n x =
     (if n < length (pendings x) then
        (case pendings x ! n of
           AwaitChannel reliable next \<Rightarrow> send_done reliable next (remove_pending n x)
         | AwaitResend \<Rightarrow> (remove_pending n x, [])
         | AwaitResubmit m interval expected \<Rightarrow> (new_retransmission_timer interval m expected True (remove_pending n x), [])
         | AwaitCounter job \<Rightarrow> (x, []))
      else (x, []))"

text \<open>
  A channel that fails: a send passes the error on, except that \<open>close\<close> and \<open>destroy\<close> log it and go on;
  a retransmission is tried again later unless the channel is not connected.
\<close>

definition channel_failed :: "nat \<Rightarrow> js_error \<Rightarrow> exchange \<Rightarrow> exchange \<times> exchange_output list" where
  "channel_failed n e x =
     (if n < length (pendings x) then
        (case pendings x ! n of
           AwaitChannel reliable next \<Rightarrow>
             if next \<in> {Nothing, ThenReturn} then (remove_pending n x, [ThrowsError e]) else after next (remove_pending n x)
         | AwaitResend \<Rightarrow> (remove_pending n x, [ThrowsError e])
         | AwaitResubmit m interval expected \<Rightarrow>
             if e = ChannelNotConnectedError then close_now (remove_pending n x)
             else (new_retransmission_timer interval m expected True (remove_pending n x), [])
         | AwaitCounter job \<Rightarrow> (x, []))
      else (x, []))"

subsection \<open>Closing and timed interactions\<close>

definition close_exchange :: "bool \<Rightarrow> exchange \<Rightarrow> exchange \<times> exchange_output list" where
  "close_exchange force x =
     (if closeTimer x \<noteq> None then
        (if force then close_now (x\<lparr>closeTimer := Some False\<rparr>) else (x, []))
      else
        let x = x\<lparr>isClosing := True\<rparr>
        in case receivedMessageToAck x of
             Some m \<Rightarrow>
               sendStandaloneAckForMessage m (ThenClose force)
                 (x\<lparr>receivedMessageAckTimer := False, receivedMessageToAck := None\<rparr>)
           | None \<Rightarrow>
               if sentMessageToAck x = None \<or> force then close_now x else (start_close_timer x, []))"

definition close_timeout :: "exchange \<Rightarrow> exchange \<times> exchange_output list" where
  "close_timeout x = (if closeTimer x = Some True then close_now (x\<lparr>closeTimer := Some False\<rparr>) else (x, []))"

definition destroy_exchange :: "exchange \<Rightarrow> exchange \<times> exchange_output list" where
  "destroy_exchange x =
     (case receivedMessageToAck x of
        Some m \<Rightarrow>
          if closeTimer x = None then
            sendStandaloneAckForMessage m ThenDestroy (x\<lparr>receivedMessageAckTimer := False, receivedMessageToAck := None\<rparr>)
          else close_now x
      | None \<Rightarrow> close_now x)"

definition startTimedInteraction :: "exchange \<Rightarrow> exchange \<times> exchange_output list" where
  "startTimedInteraction x =
     (if timedInteractionTimer x = Some True
      then (x\<lparr>timedInteractionTimer := Some False\<rparr>, [ThrowsError (StatusResponseError 128)])
      else (x\<lparr>timedInteractionTimer := Some True\<rparr>, []))"

definition clearTimedInteraction :: "exchange \<Rightarrow> exchange" where
  "clearTimedInteraction x = x\<lparr>timedInteractionTimer := None\<rparr>"

definition timed_interaction_timeout :: "exchange \<Rightarrow> exchange" where
  "timed_interaction_timeout x = x\<lparr>timedInteractionTimer := map_option (\<lambda>_. False) (timedInteractionTimer x)\<rparr>"

definition hasTimedInteraction :: "exchange \<Rightarrow> bool" where
  "hasTimedInteraction x \<longleftrightarrow> timedInteractionTimer x \<noteq> None"

definition hasActiveTimedInteraction :: "exchange \<Rightarrow> bool" where
  "hasActiveTimedInteraction x \<longleftrightarrow> timedInteractionTimer x = Some True"

definition hasExpiredTimedInteraction :: "exchange \<Rightarrow> bool" where
  "hasExpiredTimedInteraction x \<longleftrightarrow> timedInteractionTimer x = Some False"

definition maxPayloadSize :: "int \<Rightarrow> int" where
  "maxPayloadSize channelMax = channelMax - MATTER_MESSAGE_OVERHEAD"

subsection \<open>Waiting for the next message\<close>

datatype channel_type = Tcp | Udp | Ble | OtherChannel

definition next_message_timeout :: "environment \<Rightarrow> channel_type \<Rightarrow> int option \<Rightarrow> int option \<Rightarrow> exchange \<Rightarrow> int res" where
  "next_message_timeout env ty timeoutMs expected x =
     (case timeoutMs of
        Some t \<Rightarrow> Inr t
      | None \<Rightarrow>
          (case ty of
             Tcp \<Rightarrow> Inr (30000 + PEER_RESPONSE_TIME_BUFFER_MS)
           | Udp \<Rightarrow>
               if \<not> useMRP x then Inl MatterFlowError
               else Inr (calculateMaximumPeerResponseTime env expected + PEER_RESPONSE_TIME_BUFFER_MS)
           | Ble \<Rightarrow> Inr (30000 + PEER_RESPONSE_TIME_BUFFER_MS)
           | OtherChannel \<Rightarrow> Inl MatterFlowError))"

definition nextMessage :: "environment \<Rightarrow> channel_type \<Rightarrow> int option \<Rightarrow> int option \<Rightarrow> exchange \<Rightarrow> exchange \<times> exchange_output list" where
  "nextMessage env ty timeoutMs expected x =
     (case next_message_timeout env ty timeoutMs expected x of
        Inl e \<Rightarrow> (x, [ThrowsError e])
      | Inr _ \<Rightarrow> let (q, out) = queue_read (messagesQueue x) in (x\<lparr>messagesQueue := q\<rparr>, queue_outputs out))"

definition read_timeout :: "exchange \<Rightarrow> exchange \<times> exchange_output list" where
  "read_timeout x = (let (q, out) = queue_timeout (messagesQueue x) in (x\<lparr>messagesQueue := q\<rparr>, queue_outputs out))"

subsection \<open>Events\<close>

datatype exchange_event =
    MessageReceived message bool
  | Send int "byte list" send_options
  | CounterReady environment nat int
  | ChannelDone nat
  | ChannelFailed nat js_error
  | RetransmissionTimeout environment nat
  | AckTimeout
  | CloseCall bool
  | CloseTimeout
  | DestroyCall
  | NextMessage environment channel_type "int option" "int option"
  | ReadTimeout
  | StartTimed
  | ClearTimed
  | TimedTimeout

fun exchange_step :: "exchange_event \<Rightarrow> exchange \<Rightarrow> exchange \<times> exchange_output list" where
  "exchange_step (MessageReceived m duplicate) x = onMessageReceived m duplicate x"
| "exchange_step (Send msgType bytes opts) x = send_begin msgType bytes opts Nothing x"
| "exchange_step (CounterReady env n counter) x = counter_ready env n counter x"
| "exchange_step (ChannelDone n) x = channel_done n x"
| "exchange_step (ChannelFailed n e) x = channel_failed n e x"
| "exchange_step (RetransmissionTimeout env n) x = retransmission_timeout env n x"
| "exchange_step AckTimeout x = ack_timeout x"
| "exchange_step (CloseCall force) x = close_exchange force x"
| "exchange_step CloseTimeout x = close_timeout x"
| "exchange_step DestroyCall x = destroy_exchange x"
| "exchange_step (NextMessage env ty timeoutMs expected) x = nextMessage env ty timeoutMs expected x"
| "exchange_step ReadTimeout x = read_timeout x"
| "exchange_step StartTimed x = startTimedInteraction x"
| "exchange_step ClearTimed x = (clearTimedInteraction x, [])"
| "exchange_step TimedTimeout x = (timed_interaction_timeout x, [])"

fun exchange_run :: "exchange_event list \<Rightarrow> exchange \<Rightarrow> exchange \<times> exchange_output list" where
  "exchange_run [] x = (x, [])"
| "exchange_run (e # es) x =
     (let (x', out) = exchange_step e x; (x'', outs) = exchange_run es x' in (x'', out @ outs))"

subsection \<open>Acknowledgements name received messages\<close>

text \<open>
  The acknowledgements an exchange can come to send, all of numbers in \<open>R\<close>: those of the message it has
  to confirm, of the messages it may send again and of the sends under way.
\<close>

definition acks_in :: "int set \<Rightarrow> message \<Rightarrow> bool" where
  "acks_in R m \<longleftrightarrow> (\<forall>k. ackedMessageId (payloadHeader m) = Some k \<longrightarrow> k \<in> R)"

fun pending_acks_in :: "int set \<Rightarrow> pending \<Rightarrow> bool" where
  "pending_acks_in R (AwaitCounter job) \<longleftrightarrow> (\<forall>k. jobAcked job = Some k \<longrightarrow> k \<in> R)"
| "pending_acks_in R (AwaitResubmit m i e) \<longleftrightarrow> acks_in R m"
| "pending_acks_in R _ \<longleftrightarrow> True"

definition exchange_acks_in :: "int set \<Rightarrow> exchange \<Rightarrow> bool" where
  "exchange_acks_in R x \<longleftrightarrow>
     (\<forall>m. receivedMessageToAck x = Some m \<longrightarrow> messageId (packetHeader m) \<in> R) \<and>
     (\<forall>m. sentMessageToAck x = Some m \<longrightarrow> acks_in R m) \<and>
     (\<forall>p\<in>set (pendings x). pending_acks_in R p) \<and> (\<forall>t\<in>set (retransmissionTimers x). acks_in R (timerMessage t))"

definition step_acks_in :: "int set \<Rightarrow> exchange \<times> exchange_output list \<Rightarrow> bool" where
  "step_acks_in R r \<longleftrightarrow> exchange_acks_in R (fst r) \<and> (\<forall>m. Transmit m \<in> set (snd r) \<longrightarrow> acks_in R m)"

lemma queue_outputs_no_transmit [simp]: "Transmit m \<notin> set (queue_outputs out)"
  by (auto simp: queue_outputs_def split: queue_output.splits)

lemma set_running_acks [simp]: "exchange_acks_in R x \<Longrightarrow> exchange_acks_in R (set_running b n x)"
  by (auto simp: exchange_acks_in_def set_running_def dest!: set_update_subset_insert [THEN subsetD])

lemma set_retransmission_timer_acks [simp]: "exchange_acks_in R x \<Longrightarrow> exchange_acks_in R (set_retransmission_timer b x)"
  by (simp add: set_retransmission_timer_def split: option.splits)

lemma new_retransmission_timer_acks:
  "exchange_acks_in R x \<Longrightarrow> acks_in R m \<Longrightarrow> exchange_acks_in R (new_retransmission_timer i m e b x)"
  by (auto simp: exchange_acks_in_def new_retransmission_timer_def)

lemma close_now_acks: "exchange_acks_in R x \<Longrightarrow> step_acks_in R (close_now x)"
proof -
  assume x: "exchange_acks_in R x"
  then have "exchange_acks_in R (set_retransmission_timer False (x\<lparr>isClosing := True\<rparr>))"
    by (intro set_retransmission_timer_acks) (simp add: exchange_acks_in_def)
  then show ?thesis
    by (auto simp: step_acks_in_def close_now_def Let_def exchange_acks_in_def split: prod.splits)
qed

lemma after_acks: "exchange_acks_in R x \<Longrightarrow> step_acks_in R (after a x)"
  using close_now_acks [of R x]
  by (auto simp: after_def step_acks_in_def start_close_timer_def exchange_acks_in_def split: after_send.splits)

lemma send_begin_acks:
  assumes "exchange_acks_in R x" "\<And>k. includeAcknowledgeMessageId opts = Some k \<Longrightarrow> k \<in> R"
  shows "step_acks_in R (send_begin ty bytes opts a x)"
  using assms after_acks [OF assms(1)]
  by (auto simp: send_begin_def Let_def step_acks_in_def exchange_acks_in_def split: option.splits prod.splits)

lemma sendStandaloneAck_acks:
  "exchange_acks_in R x \<Longrightarrow> (requiresAck (payloadHeader m) \<Longrightarrow> messageId (packetHeader m) \<in> R) \<Longrightarrow>
    step_acks_in R (sendStandaloneAckForMessage m a x)"
  by (auto simp: sendStandaloneAckForMessage_def no_send_options_def intro: after_acks send_begin_acks)

lemma send_counter_acks:
  assumes "exchange_acks_in R x" "\<And>k. jobAcked job = Some k \<Longrightarrow> k \<in> R"
  shows "step_acks_in R (send_counter env job c x)"
proof -
  have m: "acks_in R (job_message job c x)" using assms(2) by (simp add: acks_in_def job_message_def)
  with assms(1) show ?thesis
    by (auto simp: send_counter_def Let_def step_acks_in_def exchange_acks_in_def new_retransmission_timer_def)
qed

lemma deliver_acks:
  assumes "exchange_acks_in R x" "requiresAck (payloadHeader m) \<Longrightarrow> messageId (packetHeader m) \<in> R"
  shows "step_acks_in R (deliver m x)"
proof -
  have "exchange_acks_in R (x\<lparr>receivedMessageAckTimer := False\<rparr>)" using assms(1) by (simp add: exchange_acks_in_def)
  from sendStandaloneAck_acks [OF this, of "the (receivedMessageToAck x)" Nothing] assms show ?thesis
    by (auto simp: deliver_def Let_def step_acks_in_def exchange_acks_in_def split: prod.splits)
qed

lemma acknowledged_acks: "exchange_acks_in R x \<Longrightarrow> step_acks_in R (acknowledged m x)"
  using set_retransmission_timer_acks [of R x False]
  by (auto simp: acknowledged_def Let_def step_acks_in_def exchange_acks_in_def)

lemma step_acks_in_append:
  "step_acks_in R (x, out) \<Longrightarrow> step_acks_in R r \<Longrightarrow> step_acks_in R (case r of (x', out') \<Rightarrow> (x', out @ out'))"
  by (auto simp: step_acks_in_def split: prod.splits)

lemma handle_message_acks:
  assumes "exchange_acks_in R x" "requiresAck (payloadHeader m) \<Longrightarrow> messageId (packetHeader m) \<in> R"
  shows "step_acks_in R (handle_message m duplicate x)"
proof -
  let ?acked = "ackedMessageId (payloadHeader m)" and ?sent = "map_option (\<lambda>s. messageId (packetHeader s)) (sentMessageToAck x)"
  have same: "step_acks_in R (x, [])" "step_acks_in R (x, [ThrowsError MatterFlowError])"
    using assms(1) by (simp_all add: step_acks_in_def)
  have resend: "sentMessageToAck x \<noteq> None \<Longrightarrow>
      step_acks_in R (x\<lparr>pendings := pendings x @ [AwaitResend]\<rparr>, [Transmit (the (sentMessageToAck x))])"
    using assms(1) by (auto simp: step_acks_in_def exchange_acks_in_def)
  obtain x1 out1 where x1: "(if ?sent \<noteq> None \<and> ?acked = ?sent then acknowledged m x else (x, [])) = (x1, out1)" by fastforce
  have r: "step_acks_in R (x1, out1)" using acknowledged_acks [OF assms(1), of m] same(1) x1 by (simp split: if_splits)
  then have e1: "exchange_acks_in R x1" by (simp add: step_acks_in_def)
  have c: "step_acks_in R (case close_now x1 of (x', out') \<Rightarrow> (x', out1 @ out'))"
    by (rule step_acks_in_append [OF r close_now_acks [OF e1]])
  have d: "step_acks_in R (case deliver m x1 of (x', out') \<Rightarrow> (x', out1 @ out'))"
    by (rule step_acks_in_append [OF r deliver_acks [OF e1 assms(2)]])
  show ?thesis
    unfolding handle_message_def Let_def x1 prod.case
    using same resend r c d sendStandaloneAck_acks [OF assms, of Nothing] by presburger
qed

lemma give_up_acks:
  assumes "exchange_acks_in R x"
  shows "step_acks_in R (give_up x)"
proof -
  have g: "step_acks_in R (if closeTimer y \<noteq> None then case close_now y of (x', out') \<Rightarrow> (x', out @ out') else (y, out))"
    if "exchange_acks_in R y" "\<forall>m. Transmit m \<notin> set out" for y out
    using step_acks_in_append [OF _ close_now_acks [OF that(1)], of y out] that by (simp add: step_acks_in_def)
  have "exchange_acks_in R (x\<lparr>receivedMessageToAck := None, sentMessageAckHandlers := False\<rparr>)"
    using assms by (simp add: exchange_acks_in_def)
  with assms show ?thesis
    unfolding give_up_def Let_def by (intro g) simp_all
qed

lemma retransmitMessage_acks:
  assumes "exchange_acks_in R x" "acks_in R m"
  shows "step_acks_in R (retransmitMessage env m expected x)"
proof -
  have c: "exchange_acks_in R (x\<lparr>retransmissionCounter := c\<rparr>)" for c using assms(1) by (simp add: exchange_acks_in_def)
  have t: "step_acks_in R (new_retransmission_timer i m None True (x\<lparr>retransmissionCounter := c\<rparr>), [])" for i c
    using new_retransmission_timer_acks [OF c assms(2)] by (simp add: step_acks_in_def)
  have t0: "step_acks_in R (new_retransmission_timer i m None True x, [])" for i
    using new_retransmission_timer_acks [OF assms] by (simp add: step_acks_in_def)
  have w: "step_acks_in R (x\<lparr>retransmissionCounter := c, pendings := pendings x @ [AwaitResubmit m i expected]\<rparr>, out @ [Transmit m])"
    if "\<forall>m. Transmit m \<notin> set out" for c i out
    using assms that by (auto simp: step_acks_in_def exchange_acks_in_def)
  show ?thesis
  proof (cases expected)
    case None
    then show ?thesis using give_up_acks [OF c] w by (simp add: retransmitMessage_def Let_def)
  next
    case (Some e)
    then show ?thesis using give_up_acks [OF c] t t0 w by (simp add: retransmitMessage_def Let_def)
  qed
qed

lemma retransmission_timeout_acks: "exchange_acks_in R x \<Longrightarrow> step_acks_in R (retransmission_timeout env n x)"
  by (auto simp: retransmission_timeout_def Let_def step_acks_in_def
      intro!: retransmitMessage_acks [unfolded step_acks_in_def] set_running_acks) (auto simp: exchange_acks_in_def)

lemma remove_pending_acks: "exchange_acks_in R x \<Longrightarrow> exchange_acks_in R (remove_pending n x)"
  by (auto simp: exchange_acks_in_def remove_pending_def dest: in_set_takeD in_set_dropD)

lemma pending_acks: "exchange_acks_in R x \<Longrightarrow> n < length (pendings x) \<Longrightarrow> pending_acks_in R (pendings x ! n)"
  by (simp add: exchange_acks_in_def)

lemma completion_acks:
  assumes "exchange_acks_in R x"
  shows "step_acks_in R (counter_ready env n c x)" "step_acks_in R (channel_done n x)" "step_acks_in R (channel_failed n e x)"
proof -
  have r: "exchange_acks_in R (remove_pending n x)" using assms by (rule remove_pending_acks)
  have s: "step_acks_in R (y, out)" if "exchange_acks_in R y" "\<forall>m. Transmit m \<notin> set out" for y out
    using that by (simp add: step_acks_in_def)
  have "exchange_acks_in R (set_retransmission_timer True (remove_pending n x\<lparr>retransmissionCounter := 0\<rparr>))"
    using r by (intro set_retransmission_timer_acks) (simp add: exchange_acks_in_def)
  then have d: "step_acks_in R (send_done reliable a (remove_pending n x))" for reliable a
    using after_acks [OF r] by (simp add: send_done_def s)
  show "step_acks_in R (counter_ready env n c x)" "step_acks_in R (channel_done n x)" "step_acks_in R (channel_failed n e x)"
    using assms r d pending_acks [OF assms, of n]
    by (auto simp: counter_ready_def channel_done_def channel_failed_def
        intro!: s send_counter_acks new_retransmission_timer_acks after_acks close_now_acks split: pending.splits)
qed

lemma exchange_step_acks:
  assumes "exchange_acks_in R x" "\<And>m dup. e = MessageReceived m dup \<Longrightarrow> requiresAck (payloadHeader m) \<Longrightarrow> messageId (packetHeader m) \<in> R"
    and "\<And>ty bytes opts k. e = Send ty bytes opts \<Longrightarrow> includeAcknowledgeMessageId opts = Some k \<Longrightarrow> k \<in> R"
  shows "step_acks_in R (exchange_step e x)"
proof -
  have clear: "exchange_acks_in R (x\<lparr>receivedMessageAckTimer := False, receivedMessageToAck := None\<rparr>)"
    "exchange_acks_in R (x\<lparr>isClosing := True, receivedMessageAckTimer := False, receivedMessageToAck := None\<rparr>)"
    "exchange_acks_in R (x\<lparr>receivedMessageAckTimer := False\<rparr>)" "exchange_acks_in R (x\<lparr>isClosing := True\<rparr>)"
    "exchange_acks_in R (x\<lparr>closeTimer := Some False\<rparr>)"
    using assms(1) by (simp_all add: exchange_acks_in_def)
  have id: "messageId (packetHeader m) \<in> R" if "receivedMessageToAck x = Some m" for m
    using that assms(1) by (simp add: exchange_acks_in_def)
  have s: "step_acks_in R (y, out)" if "exchange_acks_in R y" "\<forall>m. Transmit m \<notin> set out" for y out
    using that by (simp add: step_acks_in_def)
  have simple: "step_acks_in R (ack_timeout x)" "step_acks_in R (close_exchange force x)" "step_acks_in R (close_timeout x)"
    "step_acks_in R (destroy_exchange x)" "step_acks_in R (startTimedInteraction x)" "step_acks_in R (read_timeout x)"
    "step_acks_in R (nextMessage env ty t ex x)" "step_acks_in R (clearTimedInteraction x, [])"
    "step_acks_in R (timed_interaction_timeout x, [])" for force env ty t ex
    using assms(1) clear id
    by (auto simp: ack_timeout_def close_exchange_def close_timeout_def destroy_exchange_def startTimedInteraction_def
        read_timeout_def nextMessage_def clearTimedInteraction_def timed_interaction_timeout_def start_close_timer_def Let_def
        intro!: s sendStandaloneAck_acks close_now_acks split: option.splits sum.splits prod.splits)
      (simp_all add: exchange_acks_in_def)
  show ?thesis
  proof (cases e)
    case (MessageReceived m dup)
    let ?m = "if requiresAck (payloadHeader m) \<and> \<not> useMRP x then without_ack m else m"
    have "messageId (packetHeader ?m) \<in> R" if "requiresAck (payloadHeader ?m)"
      using assms(2) [OF MessageReceived] that by (simp add: without_ack_def split: if_splits)
    with MessageReceived assms(1) show ?thesis by (simp only: exchange_step.simps onMessageReceived_def handle_message_acks)
  qed (use assms simple in \<open>auto intro: send_begin_acks completion_acks retransmission_timeout_acks\<close>)
qed

text \<open>The numbers that may be acknowledged: of received messages that ask for it, or that a caller asks for.\<close>

fun acknowledgeable :: "exchange_event list \<Rightarrow> int set" where
  "acknowledgeable [] = {}"
| "acknowledgeable (MessageReceived m duplicate # es) =
     (if requiresAck (payloadHeader m) then {messageId (packetHeader m)} else {}) \<union> acknowledgeable es"
| "acknowledgeable (Send msgType bytes opts # es) = set_option (includeAcknowledgeMessageId opts) \<union> acknowledgeable es"
| "acknowledgeable (_ # es) = acknowledgeable es"

lemma acknowledgeable_Cons: "acknowledgeable (e # es) = acknowledgeable [e] \<union> acknowledgeable es"
  by (cases e) auto

lemma exchange_run_acks:
  "exchange_acks_in R x \<Longrightarrow> acknowledgeable es \<subseteq> R \<Longrightarrow> step_acks_in R (exchange_run es x)"
proof (induction es arbitrary: x)
  case Nil
  then show ?case by (simp add: step_acks_in_def)
next
  case (Cons e es)
  have e: "acknowledgeable [e] \<subseteq> R" "acknowledgeable es \<subseteq> R" using Cons.prems(2) acknowledgeable_Cons [of e es] by auto
  have s: "step_acks_in R (exchange_step e x)"
    using e(1) by (intro exchange_step_acks [OF Cons.prems(1)]) auto
  then have "exchange_acks_in R (fst (exchange_step e x))" by (simp add: step_acks_in_def)
  from Cons.IH [OF this e(2)] s show ?case by (auto simp: step_acks_in_def split: prod.splits)
qed

lemma new_exchange_acks: "exchange_acks_in R (new_MessageExchange ctx ini s n pn i p)"
  by (simp add: exchange_acks_in_def new_MessageExchange_def)

text \<open>C14: whatever happens to an exchange - messages received in any order, duplicated or from another
  peer, sends, lost channels, timers, closing - every message it puts on the channel, retransmissions
  included, acknowledges nothing or a message that has by then been received and asked for an
  acknowledgement, or that the caller of \<open>send\<close> named.\<close>

theorem exchange_acks_received:
  assumes "Transmit m \<in> set (snd (exchange_run events (new_MessageExchange ctx ini session node peer i protocol)))"
    and "ackedMessageId (payloadHeader m) = Some k"
  shows "k \<in> acknowledgeable events"
  using exchange_run_acks [OF new_exchange_acks [of "acknowledgeable events" ctx ini session node peer i protocol] subset_refl] assms
  by (auto simp: step_acks_in_def acks_in_def)

subsection \<open>Retransmissions are bounded\<close>

text \<open>
  What happens to an exchange whose peer is silent: a message is handed to the channel, its transmission
  ends one way or the other, and the retransmission timer fires.
\<close>

fun is_silent :: "exchange_event \<Rightarrow> bool" where
  "is_silent (ChannelDone n) = True"
| "is_silent (ChannelFailed n e) = True"
| "is_silent (RetransmissionTimeout env n) = True"
| "is_silent _ = False"

text \<open>An event has an effect where the transmission it ends is under way or its timer is running.\<close>

fun enabled :: "exchange_event \<Rightarrow> exchange \<Rightarrow> bool" where
  "enabled (ChannelDone n) x = (n < length (pendings x))"
| "enabled (ChannelFailed n e) x = (n < length (pendings x))"
| "enabled (RetransmissionTimeout env n) x = (n < length (retransmissionTimers x) \<and> running (retransmissionTimers x ! n))"
| "enabled _ x = True"

fun effective :: "exchange_event list \<Rightarrow> exchange \<Rightarrow> bool" where
  "effective [] x = True"
| "effective (e # es) x = (is_silent e \<and> enabled e x \<and> effective es (fst (exchange_step e x)))"

definition quiescent :: "exchange \<Rightarrow> bool" where
  "quiescent x \<longleftrightarrow> pendings x = [] \<and> (\<forall>t\<in>set (retransmissionTimers x). \<not> running t)"

fun transmits :: "exchange_output list \<Rightarrow> nat" where
  "transmits [] = 0"
| "transmits (Transmit m # out) = Suc (transmits out)"
| "transmits (_ # out) = transmits out"

lemma transmits_append [simp]: "transmits (a @ b) = transmits a + transmits b"
  by (induction a rule: transmits.induct) auto

text \<open>The end of a send: it gave up, the first transmission failed, or the exchange was closed.\<close>

definition ended :: "exchange_output list \<Rightarrow> bool" where
  "ended out \<longleftrightarrow> AckRejected RetransmissionLimitReachedError \<in> set out \<or> Closed \<in> set out \<or> (\<exists>e. ThrowsError e \<in> set out)"

lemma ended_append [simp]: "ended (a @ b) \<longleftrightarrow> ended a \<or> ended b"
  by (auto simp: ended_def)

text \<open>
  The five shapes of an exchange that waits for one acknowledgement: the first transmission is under way,
  the timer runs, a retransmission is under way, the last wait runs, and nothing is left to happen.
\<close>

datatype phase = First | Timing nat | Resending nat | LastWait | Over

definition idle_timers :: "exchange \<Rightarrow> bool" where
  "idle_timers x \<longleftrightarrow> (\<forall>t\<in>set (retransmissionTimers x). \<not> running t)"

definition only_running :: "bool \<Rightarrow> exchange \<Rightarrow> bool" where
  "only_running further x \<longleftrightarrow>
     (\<exists>ts t. retransmissionTimers x = ts @ [t] \<and> (\<forall>t\<in>set ts. \<not> running t) \<and> running t \<and> (timerExpected t \<noteq> None) = further)
     \<and> retransmissionTimer x = Some (length (retransmissionTimers x) - 1)"

fun in_phase :: "phase \<Rightarrow> exchange \<Rightarrow> bool" where
  "in_phase First x \<longleftrightarrow> pendings x = [AwaitChannel True Nothing] \<and> retransmissionCounter x = 0 \<and>
     (\<exists>ts t. retransmissionTimers x = ts @ [t] \<and> (\<forall>t\<in>set ts. \<not> running t) \<and> \<not> running t \<and> timerExpected t \<noteq> None) \<and>
     retransmissionTimer x = Some (length (retransmissionTimers x) - 1)"
| "in_phase (Timing c) x \<longleftrightarrow> pendings x = [] \<and> retransmissionCounter x = int c \<and> c \<le> 4 \<and> only_running True x"
| "in_phase (Resending c) x \<longleftrightarrow> (\<exists>m i e. pendings x = [AwaitResubmit m i (Some e)]) \<and> retransmissionCounter x = int c \<and>
     1 \<le> c \<and> c \<le> 4 \<and> idle_timers x"
| "in_phase LastWait x \<longleftrightarrow> pendings x = [] \<and> retransmissionCounter x = 4 \<and> only_running False x"
| "in_phase Over x \<longleftrightarrow> pendings x = [] \<and> idle_timers x"

fun phase_left :: "phase \<Rightarrow> nat" where
  "phase_left First = 11"
| "phase_left (Timing c) = 2 * (4 - c) + 2"
| "phase_left (Resending c) = 2 * (4 - c) + 3"
| "phase_left LastWait = 1"
| "phase_left Over = 0"

fun transmits_left :: "phase \<Rightarrow> nat" where
  "transmits_left First = 4"
| "transmits_left (Timing c) = 4 - c"
| "transmits_left (Resending c) = 4 - c"
| "transmits_left LastWait = 0"
| "transmits_left Over = 0"

definition waits :: "exchange \<Rightarrow> bool" where
  "waits x \<longleftrightarrow> sentMessageToAck x \<noteq> None \<and> sentMessageAckHandlers x \<and> closeTimer x = None"

text \<open>A step of the waiting exchange: what is left goes down, and it ends the send where nothing is left.\<close>

definition advances :: "phase \<Rightarrow> exchange \<times> exchange_output list \<Rightarrow> bool" where
  "advances p r \<longleftrightarrow>
     (\<exists>p'. in_phase p' (fst r) \<and> phase_left p' < phase_left p \<and> transmits (snd r) + transmits_left p' \<le> transmits_left p \<and>
           (if p' = Over then ended (snd r) else waits (fst r)))"

lemma advancesI:
  "in_phase p' x \<Longrightarrow> phase_left p' < phase_left p \<Longrightarrow> transmits out + transmits_left p' \<le> transmits_left p \<Longrightarrow>
   (if p' = Over then ended out else waits x) \<Longrightarrow> advances p (x, out)"
  unfolding advances_def by (intro exI [of _ p']) simp

lemma advance_channel_done_first:
  assumes "in_phase First x" "waits x" "n < length (pendings x)"
  shows "advances First (channel_done n x)"
proof -
  from assms(1) obtain ts t where t: "retransmissionTimers x = ts @ [t]" "\<forall>t\<in>set ts. \<not> running t" "timerExpected t \<noteq> None"
    "retransmissionTimer x = Some (length ts)" and p: "pendings x = [AwaitChannel True Nothing]"
    by (simp only: in_phase.simps) (elim conjE exE, simp)
  from p assms(3) have n: "n = 0" by simp
  let ?x = "x\<lparr>pendings := [], retransmissionCounter := 0, retransmissionTimers := ts @ [t\<lparr>running := True\<rparr>]\<rparr>"
  have "channel_done n x = (?x, [])"
    using t p n by (simp add: channel_done_def send_done_def remove_pending_def set_retransmission_timer_def set_running_def)
  moreover have "in_phase (Timing 0) ?x" using t by (auto simp: only_running_def)
  moreover have "waits ?x" using assms(2) by (simp add: waits_def)
  ultimately show ?thesis using advancesI [of "Timing 0" ?x First "[]"] by simp
qed

lemma advance_channel_failed_first:
  assumes "in_phase First x" "n < length (pendings x)"
  shows "advances First (channel_failed n e x)"
  using assms by (auto simp: channel_failed_def remove_pending_def idle_timers_def ended_def intro!: advancesI [of Over])

lemma restarted:
  assumes "idle_timers x" "retransmissionCounter x = int c" "c \<le> 4" "pendings x = []" "waits x"
  shows "advances (Resending c) (new_retransmission_timer i m (Some e) True x, [])"
proof -
  have "in_phase (Timing c) (new_retransmission_timer i m (Some e) True x)"
    using assms by (auto simp: only_running_def new_retransmission_timer_def idle_timers_def)
  moreover have "waits (new_retransmission_timer i m (Some e) True x)"
    using assms(5) by (simp add: waits_def new_retransmission_timer_def)
  ultimately show ?thesis by (auto intro!: advancesI [of "Timing c"])
qed

lemma idle_set_running_False: "idle_timers x \<Longrightarrow> idle_timers (set_running False n x)"
  by (auto simp: idle_timers_def set_running_def dest!: set_update_subset_insert [THEN subsetD])

lemma closed_over:
  assumes "idle_timers x" "pendings x = []"
  shows "in_phase Over (fst (close_now x))" "ended (snd (close_now x))" "transmits (snd (close_now x)) = 0"
proof -
  have "idle_timers (set_retransmission_timer False (x\<lparr>isClosing := True\<rparr>))"
    using idle_set_running_False [of "x\<lparr>isClosing := True\<rparr>"] assms(1)
    by (simp add: set_retransmission_timer_def idle_timers_def split: option.splits)
  moreover have "pendings (set_retransmission_timer False (x\<lparr>isClosing := True\<rparr>)) = []"
    using assms(2) by (simp add: set_retransmission_timer_def set_running_def split: option.splits)
  ultimately show "in_phase Over (fst (close_now x))"
    by (simp add: close_now_def Let_def idle_timers_def split: prod.splits)
  show "ended (snd (close_now x))" by (simp add: close_now_def Let_def ended_def split: prod.splits)
  have q: "transmits (queue_outputs out) = 0" for out
    by (induction out) (auto simp: queue_outputs_def split: queue_output.splits)
  show "transmits (snd (close_now x)) = 0" by (simp add: close_now_def Let_def q split: prod.splits)
qed

lemma advance_resending:
  assumes "in_phase (Resending c) x" "waits x" "n < length (pendings x)"
  shows "advances (Resending c) (channel_done n x)" "advances (Resending c) (channel_failed n e x)"
proof -
  from assms obtain m i ex where p: "pendings x = [AwaitResubmit m i (Some ex)]" and n: "n = 0" by auto
  have r: "idle_timers (remove_pending 0 x)" "pendings (remove_pending 0 x) = []" "waits (remove_pending 0 x)"
    "retransmissionCounter (remove_pending 0 x) = int c"
    using assms p by (auto simp: remove_pending_def idle_timers_def waits_def)
  have again: "advances (Resending c) (new_retransmission_timer i m (Some ex) True (remove_pending 0 x), [])"
    using restarted [OF r(1) r(4) _ r(2,3)] assms(1) by simp
  show "advances (Resending c) (channel_done n x)" using again p n by (simp add: channel_done_def)
  have "advances (Resending c) (close_now (remove_pending 0 x))"
    using closed_over [OF r(1,2)] by (cases "close_now (remove_pending 0 x)") (auto intro!: advancesI [of Over])
  with again p n show "advances (Resending c) (channel_failed n e x)" by (simp add: channel_failed_def)
qed

lemma gives_up:
  assumes "waits x" "idle_timers x" "pendings x = []" "0 < phase_left p"
  shows "advances p (give_up x)"
  using assms advancesI [of Over "x\<lparr>receivedMessageToAck := None, sentMessageAckHandlers := False\<rparr>" p
      "[AckRejected RetransmissionLimitReachedError]"]
  by (simp add: give_up_def Let_def waits_def idle_timers_def ended_def)

lemma fired:
  assumes "only_running further x" "enabled (RetransmissionTimeout env n) x" "pendings x = []" "waits x"
  obtains m ex y where "retransmission_timeout env n x = retransmitMessage env m ex y" "(ex \<noteq> None) = further" "idle_timers y"
    "pendings y = []" "waits y" "retransmissionCounter y = retransmissionCounter x"
proof -
  from assms(1) obtain ts t where t: "retransmissionTimers x = ts @ [t]" "\<forall>t\<in>set ts. \<not> running t"
    "(timerExpected t \<noteq> None) = further"
    by (auto simp: only_running_def)
  have n: "n = length ts" using assms(2) t by (auto simp: nth_append split: if_splits)
  let ?y = "set_running False n x"
  have "retransmission_timeout env n x = retransmitMessage env (timerMessage t) (timerExpected t) ?y"
    using assms(2) t n by (simp add: retransmission_timeout_def)
  moreover have "idle_timers ?y" using t n by (auto simp: set_running_def idle_timers_def)
  moreover have "pendings ?y = []" "waits ?y" "retransmissionCounter ?y = retransmissionCounter x"
    using assms(3,4) by (simp_all add: set_running_def waits_def)
  ultimately show ?thesis using t(3) that by blast
qed

lemma advance_timing:
  assumes "in_phase (Timing c) x" "waits x" "enabled (RetransmissionTimeout env n) x"
  shows "advances (Timing c) (retransmission_timeout env n x)"
proof -
  from assms(1) have c: "pendings x = []" "retransmissionCounter x = int c" "c \<le> 4" "only_running True x" by auto
  obtain m ex y where y: "retransmission_timeout env n x = retransmitMessage env m (Some ex) y" "idle_timers y"
    "pendings y = []" "waits y" "retransmissionCounter y = int c"
    using fired [OF c(4) assms(3) c(1) assms(2)] c(2) by (metis option.exhaust)
  show ?thesis
  proof (cases "c = 4")
    case False
    with c(3) have c': "c + 1 \<le> 4" by simp
    let ?y = "y\<lparr>retransmissionCounter := int c + 1,
      pendings := [AwaitResubmit m (getResubmissionBackOffTime env (y\<lparr>retransmissionCounter := int c + 1\<rparr>) (int c + 1)) (Some ex)]\<rparr>"
    have "in_phase (Resending (c + 1)) ?y" using y c' by (simp add: idle_timers_def)
    moreover have "waits ?y" using y(4) by (simp add: waits_def)
    ultimately have "advances (Timing c) (?y, out)" if "transmits out = 1" for out
      using that c' by (intro advancesI [of "Resending (c + 1)"]) simp_all
    then have "advances (Timing c) (?y, (if int c + 1 = 1 then [ResubmissionStarted] else []) @ [Transmit m])" by simp
    then show ?thesis using y c' by (simp only: retransmitMessage_def Let_def exchange_consts) simp
  next
    case True
    let ?y = "y\<lparr>retransmissionCounter := 5\<rparr>"
    have up: "advances (Timing c) (give_up ?y)"
      using y by (intro gives_up) (simp_all add: waits_def idle_timers_def)
    have "in_phase LastWait (new_retransmission_timer i m None True (?y\<lparr>retransmissionCounter := 4\<rparr>))" for i
      using y by (auto simp: only_running_def new_retransmission_timer_def idle_timers_def)
    moreover have "waits (new_retransmission_timer i m None True (?y\<lparr>retransmissionCounter := 4\<rparr>))" for i
      using y(4) by (simp add: waits_def new_retransmission_timer_def)
    ultimately have "advances (Timing c) (new_retransmission_timer i m None True (?y\<lparr>retransmissionCounter := 4\<rparr>), [])" for i
      by (intro advancesI [of LastWait]) simp_all
    with up y True show ?thesis by (simp add: retransmitMessage_def Let_def exchange_consts)
  qed
qed

lemma advance_last_wait:
  assumes "in_phase LastWait x" "waits x" "enabled (RetransmissionTimeout env n) x"
  shows "advances LastWait (retransmission_timeout env n x)"
proof -
  from assms(1) have c: "pendings x = []" "retransmissionCounter x = 4" "only_running False x" by auto
  obtain m y where y: "retransmission_timeout env n x = retransmitMessage env m None y" "idle_timers y"
    "pendings y = []" "waits y" "retransmissionCounter y = 4"
    using fired [OF c(3) assms(3) c(1) assms(2)] c(2) by metis
  then have "advances LastWait (give_up (y\<lparr>retransmissionCounter := 5\<rparr>))"
    by (intro gives_up) (simp_all add: waits_def idle_timers_def)
  with y show ?thesis by (simp add: retransmitMessage_def Let_def exchange_consts)
qed

lemma idle_not_enabled: "idle_timers x \<Longrightarrow> \<not> enabled (RetransmissionTimeout env n) x"
  by (auto simp: idle_timers_def)

lemma silent_step_advances:
  assumes "in_phase p x" "p \<noteq> Over \<Longrightarrow> waits x" "is_silent e" "enabled e x"
  shows "advances p (exchange_step e x)"
proof (cases p)
  case First
  have "idle_timers x" using assms(1) First by (auto simp: idle_timers_def)
  with assms First show ?thesis
    using advance_channel_done_first advance_channel_failed_first idle_not_enabled
    by (cases e) (auto simp del: in_phase.simps enabled.simps(3))
next
  case (Timing c)
  with assms show ?thesis using advance_timing by (cases e) (auto simp del: in_phase.simps enabled.simps(3), auto)
next
  case (Resending c)
  with assms show ?thesis using advance_resending [of c x] idle_not_enabled [of x]
    by (cases e) (simp_all del: enabled.simps(3))
next
  case LastWait
  with assms show ?thesis using advance_last_wait by (cases e) auto
next
  case Over
  with assms show ?thesis using idle_not_enabled by (cases e) auto
qed

lemma silent_run:
  assumes "in_phase p x" "p \<noteq> Over \<Longrightarrow> waits x" "effective es x"
  shows "length es \<le> phase_left p \<and> transmits (snd (exchange_run es x)) \<le> transmits_left p \<and>
    (p \<noteq> Over \<longrightarrow> quiescent (fst (exchange_run es x)) \<longrightarrow> ended (snd (exchange_run es x)))"
  using assms
proof (induction es arbitrary: p x)
  case Nil
  then show ?case by (cases p) (auto simp: quiescent_def only_running_def)
next
  case (Cons e es)
  from Cons.prems have "advances p (exchange_step e x)" by (intro silent_step_advances) auto
  then obtain p' where p': "in_phase p' (fst (exchange_step e x))" "phase_left p' < phase_left p"
    "transmits (snd (exchange_step e x)) + transmits_left p' \<le> transmits_left p"
    "if p' = Over then ended (snd (exchange_step e x)) else waits (fst (exchange_step e x))"
    by (auto simp: advances_def)
  have "length es \<le> phase_left p' \<and> transmits (snd (exchange_run es (fst (exchange_step e x)))) \<le> transmits_left p' \<and>
      (p' \<noteq> Over \<longrightarrow> quiescent (fst (exchange_run es (fst (exchange_step e x)))) \<longrightarrow>
       ended (snd (exchange_run es (fst (exchange_step e x)))))"
    using p' Cons.prems(3) by (intro Cons.IH) auto
  with p' show ?case by (cases "p' = Over") (auto split: prod.splits)
qed

lemma exchange_run_append:
  "exchange_run (es @ fs) x =
     (let (y, out) = exchange_run es x; (z, outs) = exchange_run fs y in (z, out @ outs))"
  by (induction es arbitrary: x) (auto split: prod.splits)

lemma sent_in_first_phase:
  fixes ctx ini session node peer i protocol
  defines "x0 \<equiv> new_MessageExchange ctx ini session node peer i protocol"
  assumes "ctxSupportsMRP ctx" "\<not> ctxReliable ctx" "msgType \<noteq> StandaloneAck" "\<not> disableMrpLogic opts"
    "optRequiresAck opts \<noteq> Some False" "includeAcknowledgeMessageId opts = None"
  obtains x where "exchange_run [Send msgType bytes opts, CounterReady env 0 counter] x0 =
      (x, [Transmit (job_message \<lparr>jobType = msgType, jobPayload = bytes, jobRequiresAck = optRequiresAck opts, jobAcked = None,
             jobDisableMrp = False, jobExpected = (case optExpectedProcessingTimeMs opts of
               None \<Rightarrow> DEFAULT_EXPECTED_PROCESSING_TIME_MS | Some t \<Rightarrow> t), jobAfter = Nothing\<rparr> counter x0)])"
    "in_phase First x" "waits x"
proof -
  have o: "optRequiresAck opts = None \<or> optRequiresAck opts = Some True" using assms(6) by (cases "optRequiresAck opts") auto
  let ?job = "\<lparr>jobType = msgType, jobPayload = bytes, jobRequiresAck = optRequiresAck opts, jobAcked = None,
             jobDisableMrp = False, jobExpected = (case optExpectedProcessingTimeMs opts of
               None \<Rightarrow> DEFAULT_EXPECTED_PROCESSING_TIME_MS | Some t \<Rightarrow> t), jobAfter = Nothing\<rparr>"
  let ?m = "job_message ?job counter x0"
  let ?x = "x0\<lparr>retransmissionTimer := Some 0, sentMessageToAck := Some ?m, sentMessageAckHandlers := True,
     retransmissionTimers := [\<lparr>intervalMs = getResubmissionBackOffTime env x0 0, timerMessage = ?m,
       timerExpected = Some (jobExpected ?job), running = False\<rparr>],
     pendings := [AwaitChannel True Nothing]\<rparr>"
  have b: "send_begin msgType bytes opts Nothing x0 = (x0\<lparr>pendings := [AwaitCounter ?job]\<rparr>, [])"
    using assms(2-7) by (auto simp: send_begin_def Let_def x0_def new_MessageExchange_def)
  have m: "requiresAck (payloadHeader (job_message ?job counter x))" if "useMRP x" for x
    using o assms(4) that by (auto simp: job_message_def)
  have "exchange_run [Send msgType bytes opts, CounterReady env 0 counter] x0 = (?x, [Transmit ?m])"
    using assms(2,3) m [of x0] b
    by (simp add: counter_ready_def remove_pending_def send_counter_def Let_def new_retransmission_timer_def
        getResubmissionBackOffTime_def) (simp add: x0_def new_MessageExchange_def job_message_def getResubmissionBackOffTime_def)
  moreover have "in_phase First ?x" by (simp add: x0_def new_MessageExchange_def)
  moreover have "waits ?x" by (simp add: waits_def x0_def new_MessageExchange_def)
  ultimately show ?thesis using that by blast
qed

text \<open>C17: a message sent reliably to a silent peer is put on the channel at most five times, whatever the
  channel does; at most eleven completions and timeouts can follow one another, and when nothing is left
  to happen the caller has been told by an error, or the exchange is closed.\<close>

theorem retransmissions_bounded:
  assumes "ctxSupportsMRP ctx" "\<not> ctxReliable ctx" "msgType \<noteq> StandaloneAck" "\<not> disableMrpLogic opts"
    "optRequiresAck opts \<noteq> Some False" "includeAcknowledgeMessageId opts = None"
    and "x0 = new_MessageExchange ctx ini session node peer i protocol"
    and "effective events (fst (exchange_run [Send msgType bytes opts, CounterReady env 0 counter] x0))"
    and "exchange_run ([Send msgType bytes opts, CounterReady env 0 counter] @ events) x0 = (x, out)"
  shows "length events \<le> 11 \<and> transmits out \<le> 5 \<and> (quiescent x \<longrightarrow> ended out)"
proof -
  obtain y m where y: "exchange_run [Send msgType bytes opts, CounterReady env 0 counter] x0 = (y, [Transmit m])"
    "in_phase First y" "waits y"
    using sent_in_first_phase [OF assms(1-6)] assms(7) by metis
  with assms(8) have e: "effective events y" by simp
  have r: "(x, out) = (fst (exchange_run events y), Transmit m # snd (exchange_run events y))"
    unfolding assms(9) [symmetric] exchange_run_append y(1) by (simp split: prod.splits)
  show "length events \<le> 11 \<and> transmits out \<le> 5 \<and> (quiescent x \<longrightarrow> ended out)"
    using silent_run [OF y(2) y(3) e] r ended_append [of "[Transmit m]" "snd (exchange_run events y)"] by simp
qed

subsection \<open>Corner cases\<close>

text \<open>The error that ends the retransmissions leaves the message noted as unacknowledged: no other message can be sent.\<close>

lemma send_refused_after_limit:
  assumes "sentMessageToAck x \<noteq> None" "closeTimer x = None" "msgType \<noteq> StandaloneAck" "includeAcknowledgeMessageId opts = None"
  shows "send_begin msgType bytes opts next (fst (give_up x)) = (fst (give_up x), [ThrowsError MatterFlowError])"
proof -
  have "sentMessageToAck (fst (give_up x)) = sentMessageToAck x" using assms(2) by (simp add: give_up_def Let_def)
  then show ?thesis using assms(1,3,4) by (simp add: send_begin_def Let_def)
qed

text \<open>Closing does not settle the promise of a send that waits for its acknowledgement.\<close>

lemma close_leaves_send_waiting:
  "sentMessageAckHandlers (fst (close_now x)) = sentMessageAckHandlers x"
  "AckRejected e \<notin> set (snd (close_now x))" "AckResolved m \<notin> set (snd (close_now x))"
proof -
  have "AckRejected e \<notin> set (queue_outputs out)" "AckResolved m \<notin> set (queue_outputs out)" for out
    by (auto simp: queue_outputs_def split: queue_output.splits)
  then show "AckRejected e \<notin> set (snd (close_now x))" "AckResolved m \<notin> set (snd (close_now x))"
    by (simp_all add: close_now_def Let_def split: prod.splits)
  show "sentMessageAckHandlers (fst (close_now x)) = sentMessageAckHandlers x"
    by (simp add: close_now_def Let_def set_retransmission_timer_def set_running_def split: prod.splits option.splits)
qed

text \<open>
  While a received message waits to be acknowledged, another one that asks for it is not handed to the
  reader; its retransmission, a duplicate by then, is acknowledged.
\<close>

lemma message_lost_while_ack_pending:
  assumes "useMRP x" "sentMessageToAck x = None" "receivedMessageToAck x = Some earlier" "requiresAck (payloadHeader earlier)"
    and "protocolId (payloadHeader m) = xProtocolId x" "requiresAck (payloadHeader m)"
    and "\<not> isStandaloneAck (protocolId (payloadHeader m)) (messageType (payloadHeader m))"
    and "onMessageReceived m False x = (x', out)"
  shows "messagesQueue x' = messagesQueue x" "Received m \<notin> set out"
    "snd (onMessageReceived m True x') = []"
    "\<exists>job. last (pendings (fst (onMessageReceived m True x'))) = AwaitCounter job \<and> jobAcked job = Some (messageId (packetHeader m))"
proof -
  obtain job where "x' = x\<lparr>receivedMessageAckTimer := False, pendings := pendings x @ [AwaitCounter job]\<rparr>" "out = []"
    using assms
    by (auto simp: onMessageReceived_def handle_message_def deliver_def sendStandaloneAckForMessage_def send_begin_def Let_def
        no_send_options_def)
  then show "messagesQueue x' = messagesQueue x" "Received m \<notin> set out"
    "snd (onMessageReceived m True x') = []"
    "\<exists>job. last (pendings (fst (onMessageReceived m True x'))) = AwaitCounter job \<and> jobAcked job = Some (messageId (packetHeader m))"
    using assms
    by (simp_all add: onMessageReceived_def handle_message_def sendStandaloneAckForMessage_def send_begin_def Let_def
        no_send_options_def)
qed

text \<open>
  An acknowledgement that comes while the message is still being handed to the channel: the timer starts
  all the same and the acknowledged message is sent again.
\<close>

lemma acknowledged_message_resent:
  assumes "pendings x = [AwaitChannel True Nothing]" "retransmissionTimer x = Some 0" "retransmissionTimers x = [t]"
    "\<not> running t" "sentMessageToAck x = Some m" "timerMessage t = m" "acknowledged ack x = (x', out)"
  shows "sentMessageToAck x' = None"
    "Transmit m \<in> set (snd (exchange_run [ChannelDone 0, RetransmissionTimeout env 0] x'))"
  using assms
  by (auto simp: acknowledged_def Let_def channel_done_def send_done_def remove_pending_def set_retransmission_timer_def
      set_running_def retransmission_timeout_def retransmitMessage_def MRP_MAX_TRANSMISSIONS_def)

subsection \<open>A concrete exchange\<close>

definition example_context :: exchange_context where
  "example_context = \<lparr>ctxSessionId = 1, ctxPeerSessionId = 2, ctxNodeId = None, ctxPeerNodeId = None, ctxSupportsMRP = True,
     ctxReliable = False, ctxActiveIntervalMs = 300, ctxIdleIntervalMs = 500\<rparr>"

definition example_environment :: environment where
  "example_environment = \<lparr>peerActive = True, jitter = (\<lambda>_. 0), localActiveIntervalMs = 300\<rparr>"

definition example_exchange :: exchange where
  "example_exchange = new_MessageExchange example_context True 2 None None 7 1"

definition example_message :: message where
  "example_message = job_message \<lparr>jobType = 5, jobPayload = [1, 2], jobRequiresAck = None, jobAcked = None, jobDisableMrp = False,
     jobExpected = 0, jobAfter = Nothing\<rparr> 9 example_exchange"

text \<open>Every transmission but the second succeeds and no acknowledgement comes.\<close>

definition silent_peer :: "exchange_event list" where
  "silent_peer =
     [ChannelDone 0, RetransmissionTimeout example_environment 0, ChannelFailed 0 NoResponseTimeoutError,
      RetransmissionTimeout example_environment 1, ChannelDone 0, RetransmissionTimeout example_environment 2, ChannelDone 0,
      RetransmissionTimeout example_environment 3, ChannelDone 0, RetransmissionTimeout example_environment 4,
      RetransmissionTimeout example_environment 5]"

theorem exchange_acks_received_witness:
  "9 \<in> acknowledgeable [MessageReceived example_message False, AckTimeout, CounterReady example_environment 0 3]"
proof (rule exchange_acks_received)
  show "Transmit (job_message \<lparr>jobType = StandaloneAck, jobPayload = [], jobRequiresAck = None, jobAcked = Some 9,
      jobDisableMrp = False, jobExpected = 2000, jobAfter = Nothing\<rparr> 3 example_exchange) \<in> set (snd (exchange_run
        [MessageReceived example_message False, AckTimeout, CounterReady example_environment 0 3]
        (new_MessageExchange example_context True 2 None None 7 1)))"
    by code_simp
qed code_simp

theorem retransmissions_bounded_witness:
  "ended (snd (exchange_run ([Send 5 [1, 2] no_send_options, CounterReady example_environment 0 9] @ silent_peer) example_exchange))"
proof -
  let ?start = "[Send 5 [1, 2] no_send_options, CounterReady example_environment 0 9]"
  have "effective silent_peer (fst (exchange_run ?start example_exchange))" by code_simp
  moreover have "quiescent (fst (exchange_run (?start @ silent_peer) example_exchange))" by code_simp
  moreover have "ctxSupportsMRP example_context" "\<not> ctxReliable example_context" "5 \<noteq> StandaloneAck"
    "\<not> disableMrpLogic no_send_options" "optRequiresAck no_send_options \<noteq> Some False"
    "includeAcknowledgeMessageId no_send_options = None"
    by code_simp+
  ultimately show ?thesis
    using retransmissions_bounded [OF _ _ _ _ _ _ example_exchange_def _ prod.collapse [symmetric]] by blast
qed

end
