(* ===== verification/Channels.thy ===== *)
theory Channels
  imports Packet "HOL-Library.AList" "HOL-Library.Sublist"
begin

text \<open>
  The channels to the peers: packages/protocol/src/protocol/ChannelManager.ts, with the class
  \<open>MessageChannel\<close> of ExchangeManager.ts.  Channels and sessions are objects that several tables refer
  to, so both live in a store and are named by their position in it.  An operation runs to its end
  before the next one starts; what it awaits is the closing of channels, whose callbacks change the
  tables while a loop runs over them, and the loops below read the tables as they are by then.
\<close>

subsection \<open>State\<close>

record chan_session =
  csId :: int
  csTimestamp :: int
  csSecure :: bool
  csPase :: bool
  csFabric :: "int option"
  csPeerNodeId :: int
  csClosingAfter :: bool
  csDestroyed :: "nat list"

datatype peer_address = PeerAddress (paFabricIndex: int) (paNodeId: int)

datatype close_callback = NoCallback | DropPase nat | DropChannel peer_address nat

record message_channel =
  mcSession :: nat
  mcClosed :: bool
  mcCallback :: close_callback
  bytesSentOnChannel :: int

record channel_manager =
  storedSessions :: "chan_session list"
  storedChannels :: "message_channel list"
  channelTable :: "(peer_address \<times> nat list) list"
  paseChannels :: "(nat \<times> nat) list"
  caseSessionsPerFabricAndNode :: int

definition new_ChannelManager :: "chan_session list \<Rightarrow> int \<Rightarrow> channel_manager" where
  "new_ChannelManager ss n =
     \<lparr>storedSessions = ss, storedChannels = [], channelTable = [], paseChannels = [], caseSessionsPerFabricAndNode = n\<rparr>"

definition set_caseSessionsPerFabricAndNode :: "int \<Rightarrow> channel_manager \<Rightarrow> channel_manager" where
  "set_caseSessionsPerFabricAndNode n st = st\<lparr>caseSessionsPerFabricAndNode := n\<rparr>"

definition session_of :: "nat \<Rightarrow> channel_manager \<Rightarrow> chan_session" where
  "session_of s st = storedSessions st ! s"

definition channel_of :: "nat \<Rightarrow> channel_manager \<Rightarrow> message_channel" where
  "channel_of c st = storedChannels st ! c"

definition channel_session :: "nat \<Rightarrow> channel_manager \<Rightarrow> chan_session" where
  "channel_session c st = session_of (mcSession (channel_of c st)) st"

definition set_session :: "nat \<Rightarrow> (chan_session \<Rightarrow> chan_session) \<Rightarrow> channel_manager \<Rightarrow> channel_manager" where
  "set_session s f st = st\<lparr>storedSessions := (storedSessions st)[s := f (session_of s st)]\<rparr>"

definition set_channel :: "nat \<Rightarrow> (message_channel \<Rightarrow> message_channel) \<Rightarrow> channel_manager \<Rightarrow> channel_manager" where
  "set_channel c f st = st\<lparr>storedChannels := (storedChannels st)[c := f (channel_of c st)]\<rparr>"

text \<open>The list of channels of an address, empty where there is none.\<close>

definition channels_at :: "peer_address \<Rightarrow> channel_manager \<Rightarrow> nat list" where
  "channels_at a st = (case map_of (channelTable st) a of None \<Rightarrow> [] | Some cs \<Rightarrow> cs)"

definition set_channels_at :: "peer_address \<Rightarrow> nat list \<Rightarrow> channel_manager \<Rightarrow> channel_manager" where
  "set_channels_at a cs st = st\<lparr>channelTable := AList.update a cs (channelTable st)\<rparr>"

subsection \<open>Closing and removing\<close>

fun find_index :: "('a \<Rightarrow> bool) \<Rightarrow> 'a list \<Rightarrow> nat option" where
  "find_index P [] = None"
| "find_index P (x # xs) = (if P x then Some 0 else map_option Suc (find_index P xs))"

definition channel_index :: "peer_address \<Rightarrow> nat \<Rightarrow> channel_manager \<Rightarrow> nat option" where
  "channel_index a s st = find_index (\<lambda>c. csId (channel_session c st) = csId (session_of s st)) (channels_at a st)"

definition mark_closed :: "nat \<Rightarrow> channel_manager \<Rightarrow> channel_manager" where
  "mark_closed c st = set_channel c (\<lambda>mc. mc\<lparr>mcClosed := True\<rparr>) st"

definition splice :: "peer_address \<Rightarrow> nat \<Rightarrow> channel_manager \<Rightarrow> channel_manager" where
  "splice a i st = set_channels_at a (take i (channels_at a st) @ drop (Suc i) (channels_at a st)) st"

definition open_channels :: "channel_manager \<Rightarrow> nat" where
  "open_channels st = length (filter (\<lambda>mc. \<not> mcClosed mc) (storedChannels st))"

text \<open>
  \<open>MessageChannel.close\<close>, with the callbacks it can have; \<open>removeChannel\<close> closes the channel it
  removes, whose callback removes a channel in turn.  It ends because a closed channel has no more
  callbacks.
\<close>

lemma open_channels_mark_closed:
  "c < length (storedChannels st) \<Longrightarrow> \<not> mcClosed (channel_of c st) \<Longrightarrow> open_channels (mark_closed c st) < open_channels st"
proof -
  assume c: "c < length (storedChannels st)" and o: "\<not> mcClosed (channel_of c st)"
  let ?l = "storedChannels st"
  have split: "?l = take c ?l @ ?l ! c # drop (Suc c) ?l" using c by (rule id_take_nth_drop)
  have "(?l)[c := x] = take c ?l @ x # drop (Suc c) ?l" for x using c by (rule upd_conv_take_nth_drop)
  moreover have "length (filter (\<lambda>mc. \<not> mcClosed mc) ?l) =
      length (filter (\<lambda>mc. \<not> mcClosed mc) (take c ?l)) + 1 + length (filter (\<lambda>mc. \<not> mcClosed mc) (drop (Suc c) ?l))"
    using o by (subst split) (simp add: channel_of_def)
  ultimately show ?thesis by (simp add: open_channels_def mark_closed_def set_channel_def)
qed

lemma splice_channels [simp]: "storedChannels (splice a i st) = storedChannels st" "open_channels (splice a i st) = open_channels st"
  by (simp_all add: splice_def set_channels_at_def open_channels_def)

function close_channel :: "nat \<Rightarrow> channel_manager \<Rightarrow> channel_manager" where
  "close_channel c st =
     (if \<not> c < length (storedChannels st) \<or> mcClosed (channel_of c st) then st
      else
        case mcCallback (channel_of c st) of
          NoCallback \<Rightarrow> mark_closed c st
        | DropPase s \<Rightarrow> (mark_closed c st)\<lparr>paseChannels := AList.delete s (paseChannels st)\<rparr>
        | DropChannel a s \<Rightarrow>
            (case channel_index a s (mark_closed c st) of
               None \<Rightarrow> mark_closed c st
             | Some i \<Rightarrow> close_channel (channels_at a st ! i) (splice a i (mark_closed c st))))"
  by pat_completeness auto

termination
proof (relation "measure (\<lambda>(c, st). open_channels st)")
  fix c st a s i
  assume "\<not> (\<not> c < length (storedChannels st) \<or> mcClosed (channel_of c st))"
  then have "open_channels (mark_closed c st) < open_channels st" by (intro open_channels_mark_closed) auto
  then show "((channels_at a st ! i, splice a i (mark_closed c st)), (c, st)) \<in> measure (\<lambda>(c, st). open_channels st)" by simp
qed simp

declare close_channel.simps [simp del]

definition removeChannel :: "peer_address \<Rightarrow> nat \<Rightarrow> channel_manager \<Rightarrow> channel_manager" where
  "removeChannel a s st =
     (case channel_index a s st of
        None \<Rightarrow> st
      | Some i \<Rightarrow> close_channel (channels_at a st ! i) (splice a i st))"

text \<open>\<open>SecureSession.destroy\<close>, as far as the channels are told: every one that waits for it is closed.\<close>

definition destroy_session :: "nat \<Rightarrow> bool \<Rightarrow> channel_manager \<Rightarrow> channel_manager" where
  "destroy_session s closeAfterExchangeFinished st =
     (let st = (if closeAfterExchangeFinished then set_session s (\<lambda>x. x\<lparr>csClosingAfter := True\<rparr>) st else st)
      in fold close_channel (csDestroyed (session_of s st)) st)"

subsection \<open>Looking up and adding\<close>

fun least_active :: "nat list \<Rightarrow> nat \<Rightarrow> channel_manager \<Rightarrow> nat" where
  "least_active [] oldestC st = oldestC"
| "least_active (c # cs) oldestC st =
     least_active cs (if csTimestamp (channel_session c st) < csTimestamp (channel_session oldestC st) then c else oldestC) st"

definition findLeastActiveChannel :: "nat list \<Rightarrow> channel_manager \<Rightarrow> nat" where
  "findLeastActiveChannel cs st = least_active cs (cs ! 0) st"

definition setChannel :: "peer_address \<Rightarrow> nat \<Rightarrow> channel_manager \<Rightarrow> channel_manager" where
  "setChannel a c st =
     (let s = mcSession (channel_of c st);
          st = set_channel c (\<lambda>mc. mc\<lparr>mcCallback := DropChannel a s\<rparr>) st;
          cs = channels_at a st @ [c];
          st = set_channels_at a cs st
      in if int (length cs) > caseSessionsPerFabricAndNode st then
           let oldestC = findLeastActiveChannel cs st;
               old = mcSession (channel_of oldestC st);
               st = (if csId (session_of s st) \<noteq> csId (session_of old st) then destroy_session old False st else st)
           in close_channel oldestC st
         else st)"

definition usable :: "channel_manager \<Rightarrow> nat \<Rightarrow> bool" where
  "usable st c \<longleftrightarrow> \<not> mcClosed (channel_of c st) \<and> \<not> csClosingAfter (channel_session c st)"

definition hasChannel :: "peer_address \<Rightarrow> channel_manager \<Rightarrow> bool" where
  "hasChannel a st \<longleftrightarrow> filter (usable st) (channels_at a st) \<noteq> []"

definition getChannel :: "peer_address \<Rightarrow> nat option \<Rightarrow> channel_manager \<Rightarrow> nat res" where
  "getChannel a s st =
     (let cs = channels_at a st;
          cs = (case s of None \<Rightarrow> cs | Some s \<Rightarrow> filter (\<lambda>c. csId (channel_session c st) = csId (session_of s st)) cs);
          cs = filter (usable st) cs
      in if cs = [] then Inl NoChannelError else Inr (last cs))"

definition getChannelForSession :: "nat \<Rightarrow> channel_manager \<Rightarrow> nat option res" where
  "getChannelForSession s st =
     (let x = session_of s st
      in if csSecure x \<and> \<not> csPase x then
           (case csFabric x of
              None \<Rightarrow> Inr (map_of (paseChannels st) s)
            | Some f \<Rightarrow> and_then (getChannel (PeerAddress f (csPeerNodeId x)) (Some s) st) (\<lambda>c. Inr (Some c)))
         else Inr (map_of (paseChannels st) s))"

text \<open>The constructor of \<open>MessageChannel\<close>: the new channel is the last of the store.\<close>

definition new_MessageChannel :: "nat \<Rightarrow> close_callback \<Rightarrow> channel_manager \<Rightarrow> nat \<times> channel_manager" where
  "new_MessageChannel s callback st =
     (length (storedChannels st),
      st\<lparr>storedChannels := storedChannels st @ [\<lparr>mcSession = s, mcClosed = False, mcCallback = callback, bytesSentOnChannel = 0\<rparr>]\<rparr>)"

definition on_destroyed :: "nat \<Rightarrow> nat \<Rightarrow> channel_manager \<Rightarrow> channel_manager" where
  "on_destroyed s c st = set_session s (\<lambda>x. x\<lparr>csDestroyed := csDestroyed x @ [c]\<rparr>) st"

definition getOrCreateAsPaseChannel :: "nat \<Rightarrow> channel_manager \<Rightarrow> nat \<times> channel_manager" where
  "getOrCreateAsPaseChannel s st =
     (let (c, st) = new_MessageChannel s (DropPase s) st
      in (c, on_destroyed s c (st\<lparr>paseChannels := AList.update s c (paseChannels st)\<rparr>)))"

definition getOrCreateChannel :: "nat \<Rightarrow> channel_manager \<Rightarrow> nat \<times> channel_manager" where
  "getOrCreateChannel s st =
     (let x = session_of s st
      in if \<not> csSecure x then getOrCreateAsPaseChannel s st
         else
           case csFabric x of
             None \<Rightarrow> getOrCreateAsPaseChannel s st
           | Some f \<Rightarrow>
               let a = PeerAddress f (csPeerNodeId x)
               in case getChannel a (Some s) st of
                    Inr c \<Rightarrow> (c, st)
                  | Inl _ \<Rightarrow>
                      let (c, st) = new_MessageChannel s (DropChannel a s) st
                      in (c, on_destroyed s c (setChannel a c st)))"

subsection \<open>Closing many\<close>

text \<open>The iterator of an array that is being changed: it reads position \<open>i\<close> of what the array is now.\<close>

lemma close_channel_stores:
  "length (storedChannels (close_channel c st)) = length (storedChannels st)"
  "storedSessions (close_channel c st) = storedSessions st"
  "caseSessionsPerFabricAndNode (close_channel c st) = caseSessionsPerFabricAndNode st"
proof (induction c st rule: close_channel.induct)
  case (1 c st)
  { case 1 show ?case using "1.IH"(1) by (subst close_channel.simps) (auto simp: mark_closed_def set_channel_def split: close_callback.splits option.splits) }
  { case 2 show ?case using "1.IH"(2) by (subst close_channel.simps) (auto simp: mark_closed_def set_channel_def splice_def set_channels_at_def split: close_callback.splits option.splits) }
  { case 3 show ?case using "1.IH"(3) by (subst close_channel.simps) (auto simp: mark_closed_def set_channel_def splice_def set_channels_at_def split: close_callback.splits option.splits) }
qed

lemma channels_at_set [simp]: "channels_at a (set_channels_at b cs st) = (if a = b then cs else channels_at a st)"
  by (simp add: channels_at_def set_channels_at_def update_conv')

lemma channels_at_mark_closed [simp]: "channels_at a (mark_closed c st) = channels_at a st"
  by (simp add: channels_at_def mark_closed_def set_channel_def)

lemma subseq_remove: "subseq (take i xs @ drop (Suc i) xs) xs"
proof -
  have "subseq (tl ys) ys" for ys :: "'a list" by (cases ys) auto
  then have "subseq (take i xs @ tl (drop i xs)) (take i xs @ drop i xs)" by (intro list_emb_append_mono) auto
  then show ?thesis by (simp add: tl_drop drop_Suc)
qed

lemma close_channel_at: "subseq (channels_at a (close_channel c st)) (channels_at a st)"
proof (induction c st rule: close_channel.induct)
  case (1 c st)
  show ?case
  proof (cases "\<not> c < length (storedChannels st) \<or> mcClosed (channel_of c st)")
    case True
    then show ?thesis by (subst close_channel.simps) simp
  next
    case False
    have p: "channels_at a ((mark_closed c st)\<lparr>paseChannels := ps\<rparr>) = channels_at a st" for ps
      by (simp add: channels_at_def mark_closed_def set_channel_def)
    have s: "subseq (channels_at a (splice b i (mark_closed c st))) (channels_at a st)" for b i
      by (auto simp: splice_def subseq_remove)
    from False show ?thesis
      by (subst close_channel.simps)
        (auto simp: p split: close_callback.splits option.splits intro: subseq_order.order_trans [OF "1.IH" s])
  qed
qed

function close_from :: "peer_address \<Rightarrow> nat \<Rightarrow> channel_manager \<Rightarrow> channel_manager" where
  "close_from a i st =
     (if i < length (channels_at a st) then close_from a (Suc i) (close_channel (channels_at a st ! i) st) else st)"
  by pat_completeness auto

termination
proof (relation "measure (\<lambda>(a, i, st). length (channels_at a st) - i)")
  fix a i st
  assume i: "i < length (channels_at a st)"
  have "length (channels_at a (close_channel (channels_at a st ! i) st)) \<le> length (channels_at a st)"
    by (rule list_emb_length [OF close_channel_at])
  with i show "((a, Suc i, close_channel (channels_at a st ! i) st), (a, i, st)) \<in> measure (\<lambda>(a, i, st). length (channels_at a st) - i)"
    by simp
qed simp

declare close_from.simps [simp del]

definition removeAllNodeChannels :: "peer_address \<Rightarrow> channel_manager \<Rightarrow> channel_manager" where
  "removeAllNodeChannels a st = close_from a 0 st"

text \<open>An entry of a map that is deleted before the loop comes to it is not visited.\<close>

definition close_all :: "channel_manager \<Rightarrow> channel_manager" where
  "close_all st =
     (let st = fold (\<lambda>(s, c) st. if (s, c) \<in> set (paseChannels st) then close_channel c st else st) (paseChannels st) st;
          st = st\<lparr>paseChannels := []\<rparr>;
          st = fold (\<lambda>a st. close_from a 0 st) (map fst (channelTable st)) st
      in st\<lparr>channelTable := []\<rparr>)"

subsection \<open>Sending\<close>

text \<open>\<open>MessageChannel.send\<close>: the bytes that go to the socket, counted before they are sent.\<close>

definition channel_send :: "(message \<Rightarrow> packet res) \<Rightarrow> nat \<Rightarrow> message \<Rightarrow> channel_manager \<Rightarrow> (channel_manager \<times> byte list) res" where
  "channel_send session_encode c m st =
     and_then (session_encode m) (\<lambda>packet.
     and_then (encodePacket packet) (\<lambda>bytes.
       Inr (set_channel c (\<lambda>mc. mc\<lparr>bytesSentOnChannel := bytesSentOnChannel mc + int (length bytes)\<rparr>) st, bytes)))"

subsection \<open>Events\<close>

datatype channel_event =
    SetChannel peer_address nat
  | GetOrCreate nat
  | RemoveChannel peer_address nat
  | RemoveAll peer_address
  | DestroySession nat bool
  | CloseChannel nat
  | Active nat int

fun channel_step :: "channel_event \<Rightarrow> channel_manager \<Rightarrow> channel_manager" where
  "channel_step (SetChannel a s) st = (let (c, st) = new_MessageChannel s NoCallback st in setChannel a c st)"
| "channel_step (GetOrCreate s) st = snd (getOrCreateChannel s st)"
| "channel_step (RemoveChannel a s) st = removeChannel a s st"
| "channel_step (RemoveAll a) st = removeAllNodeChannels a st"
| "channel_step (DestroySession s closeAfterExchangeFinished) st = destroy_session s closeAfterExchangeFinished st"
| "channel_step (CloseChannel c) st = close_channel c st"
| "channel_step (Active s now) st = set_session s (\<lambda>x. x\<lparr>csTimestamp := now\<rparr>) st"

subsection \<open>The table of channels\<close>

text \<open>
  The channels of the table are open, but for those of \<open>C\<close> that are being closed, and each one's callback
  takes it out of the list it is in.
\<close>

definition entry_ok :: "nat set \<Rightarrow> peer_address \<Rightarrow> channel_manager \<Rightarrow> nat \<Rightarrow> bool" where
  "entry_ok C a st c \<longleftrightarrow>
     c < length (storedChannels st) \<and> mcCallback (channel_of c st) = DropChannel a (mcSession (channel_of c st)) \<and>
     (mcClosed (channel_of c st) \<longrightarrow> c \<in> C)"

definition table_ok :: "nat set \<Rightarrow> channel_manager \<Rightarrow> bool" where
  "table_ok C st \<longleftrightarrow> (\<forall>a. distinct (channels_at a st) \<and> (\<forall>c\<in>set (channels_at a st). entry_ok C a st c))"

lemma table_okD:
  assumes "table_ok C st" "c \<in> set (channels_at a st)"
  shows "c < length (storedChannels st)" "mcCallback (channel_of c st) = DropChannel a (mcSession (channel_of c st))"
    "mcClosed (channel_of c st) \<Longrightarrow> c \<in> C" "distinct (channels_at a st)"
  using assms by (auto simp: table_ok_def entry_ok_def)

lemma one_address:
  assumes "table_ok C st" "c \<in> set (channels_at a st)" "c \<in> set (channels_at b st)"
  shows "a = b"
  using table_okD(2) [OF assms(1,2)] table_okD(2) [OF assms(1,3)] by simp

lemma channel_of_mark_closed:
  "channel_of d (mark_closed c st) =
     (if d = c \<and> c < length (storedChannels st) then (channel_of c st)\<lparr>mcClosed := True\<rparr> else channel_of d st)"
  by (cases "c < length (storedChannels st)") (simp_all add: mark_closed_def set_channel_def channel_of_def nth_list_update list_update_beyond)

lemma mark_closed_simps [simp]:
  "length (storedChannels (mark_closed c st)) = length (storedChannels st)" "storedSessions (mark_closed c st) = storedSessions st"
  "mcCallback (channel_of d (mark_closed c st)) = mcCallback (channel_of d st)"
  "mcSession (channel_of d (mark_closed c st)) = mcSession (channel_of d st)"
  "c < length (storedChannels st) \<Longrightarrow> mcClosed (channel_of d (mark_closed c st)) \<longleftrightarrow> d = c \<or> mcClosed (channel_of d st)"
  by (simp_all add: channel_of_mark_closed) (simp_all add: mark_closed_def set_channel_def split: if_splits)

lemma table_ok_paseChannels [simp]: "table_ok C (st\<lparr>paseChannels := p\<rparr>) = table_ok C st"
  by (simp add: table_ok_def entry_ok_def channels_at_def channel_of_def)

lemma channel_index_mark_closed [simp]: "channel_index a s (mark_closed c st) = channel_index a s st"
  by (simp add: channel_index_def channel_session_def session_of_def)

lemma table_ok_mark_closed:
  "table_ok C st \<Longrightarrow> c < length (storedChannels st) \<Longrightarrow> table_ok (insert c C) (mark_closed c st)"
  by (auto simp: table_ok_def entry_ok_def)

lemma channel_of_splice [simp]: "channel_of c (splice a i st) = channel_of c st"
  by (simp add: channel_of_def)

lemma channels_at_splice:
  "channels_at b (splice a i st) = (if b = a then take i (channels_at a st) @ drop (Suc i) (channels_at a st) else channels_at b st)"
  by (simp add: splice_def)

lemma in_remove_at:
  assumes "distinct xs" "i < length xs"
  shows "x \<in> set (take i xs @ drop (Suc i) xs) \<longleftrightarrow> x \<in> set xs \<and> x \<noteq> xs ! i" "distinct (take i xs @ drop (Suc i) xs)"
proof -
  have e: "xs = take i xs @ xs ! i # drop (Suc i) xs" by (rule id_take_nth_drop [OF assms(2)])
  with assms(1) have "distinct (take i xs @ xs ! i # drop (Suc i) xs)" by metis
  then show "distinct (take i xs @ drop (Suc i) xs)" by auto
  show "x \<in> set (take i xs @ drop (Suc i) xs) \<longleftrightarrow> x \<in> set xs \<and> x \<noteq> xs ! i"
    using \<open>distinct (take i xs @ xs ! i # drop (Suc i) xs)\<close> arg_cong [OF e, of set] by auto
qed

lemma in_splice:
  assumes "table_ok C st" "i < length (channels_at a st)"
  shows "c \<in> set (channels_at b (splice a i st)) \<longleftrightarrow> c \<in> set (channels_at b st) \<and> c \<noteq> channels_at a st ! i"
proof (cases "b = a")
  case True
  have "distinct (channels_at a st)" using assms(1) by (simp add: table_ok_def)
  with True show ?thesis using in_remove_at(1) [of "channels_at a st" i c] assms(2) by (simp add: channels_at_splice)
next
  case False
  then have "c \<in> set (channels_at b st) \<Longrightarrow> c \<noteq> channels_at a st ! i"
    using one_address [OF assms(1), of c b a] nth_mem [OF assms(2)] by auto
  with False show ?thesis by (auto simp: channels_at_splice)
qed

lemma table_ok_splice:
  assumes "table_ok C st" "i < length (channels_at a st)"
  shows "table_ok (C - {channels_at a st ! i}) (splice a i st)"
proof -
  have "distinct (channels_at b (splice a i st))" for b
    using assms in_remove_at(2) [of "channels_at a st" i] by (auto simp: channels_at_splice table_ok_def)
  moreover have "entry_ok (C - {channels_at a st ! i}) b (splice a i st) c" if "c \<in> set (channels_at b (splice a i st))" for b c
    using that assms(1) by (auto simp: in_splice [OF assms] table_ok_def entry_ok_def)
  ultimately show ?thesis by (simp add: table_ok_def)
qed

lemma find_index_Some: "find_index P xs = Some i \<Longrightarrow> i < length xs \<and> P (xs ! i)"
  by (induction xs arbitrary: i) (auto split: if_splits)

lemma find_index_None: "find_index P xs = None \<longleftrightarrow> (\<forall>x\<in>set xs. \<not> P x)"
  by (induction xs) auto

lemma channel_index_Some:
  assumes "channel_index a s st = Some i"
  shows "i < length (channels_at a st)" "csId (channel_session (channels_at a st ! i) st) = csId (session_of s st)"
  using find_index_Some [OF assms [unfolded channel_index_def]] by simp_all

lemma channel_index_None:
  "channel_index a s st = None \<longleftrightarrow> (\<forall>c\<in>set (channels_at a st). csId (channel_session c st) \<noteq> csId (session_of s st))"
  by (simp add: channel_index_def find_index_None)

lemma splice_sessions [simp]: "storedSessions (splice a i st) = storedSessions st"
  by (simp add: splice_def set_channels_at_def)

lemma channel_session_splice [simp]: "channel_session c (splice a i st) = channel_session c st" "session_of s (splice a i st) = session_of s st"
  by (simp_all add: channel_session_def session_of_def)

lemma channel_session_mark_closed [simp]: "channel_session c (mark_closed d st) = channel_session c st" "session_of s (mark_closed d st) = session_of s st"
  by (simp_all add: channel_session_def session_of_def)

text \<open>
  A closed channel that is not in the table any more takes the first one of its session with it, and so
  on; the one being closed goes with it.
\<close>

lemma close_chain:
  assumes "table_ok {z} st" "d < length (storedChannels st)" "\<not> mcClosed (channel_of d st)" "\<forall>b. d \<notin> set (channels_at b st)"
    and "mcCallback (channel_of d st) = DropChannel a s"
    and "\<And>b. z \<in> set (channels_at b st) \<Longrightarrow> b = a \<and> csId (channel_session z st) = csId (session_of s st)"
  shows "table_ok {} (close_channel d st)"
  using assms
proof (induction d st arbitrary: s rule: close_channel.induct)
  case (1 d st)
  let ?st = "mark_closed d st"
  have "entry_ok {z} b ?st c" if "c \<in> set (channels_at b st)" for b c
    using 1(2-5) that by (auto simp: table_ok_def entry_ok_def)
  with 1(2) have ok: "table_ok {z} ?st" by (simp add: table_ok_def)
  show ?case
  proof (cases "channel_index a s st")
    case None
    then have "z \<notin> set (channels_at b st)" for b using 1(7) channel_index_None by blast
    then have "table_ok {} ?st" using ok by (fastforce simp: table_ok_def entry_ok_def)
    with None 1(3,4,6) show ?thesis by (subst close_channel.simps) simp
  next
    case (Some i)
    let ?e = "channels_at a st ! i" and ?st' = "splice a i ?st"
    have i: "i < length (channels_at a ?st)" "csId (channel_session ?e st) = csId (session_of s st)"
      using channel_index_Some [OF Some] by simp_all
    have ok': "table_ok ({z} - {?e}) ?st'" using table_ok_splice [OF ok i(1)] by simp
    have e: "?e \<in> set (channels_at a st)" using i(1) by simp
    have step: "close_channel d st = close_channel ?e ?st'" using Some 1(3,4,6) by (subst close_channel.simps) simp
    show ?thesis
    proof (cases "mcClosed (channel_of ?e ?st')")
      case True
      then have "?e = z" using table_okD(3) [OF ok, of ?e a] e by simp
      with ok' True show ?thesis unfolding step by (subst close_channel.simps) simp
    next
      case False
      have notin: "\<forall>b. ?e \<notin> set (channels_at b ?st')" by (simp add: in_splice [OF ok i(1)])
      have cb: "mcCallback (channel_of ?e ?st') = DropChannel a (mcSession (channel_of ?e ?st'))"
        using table_okD(2) [OF ok, of ?e a] e by simp
      have "table_ok {z} ?st'" using ok' by (auto simp: table_ok_def entry_ok_def)
      moreover have "?e < length (storedChannels ?st')" using table_okD(1) [OF ok, of ?e a] e by simp
      moreover have "b = a \<and> csId (channel_session z ?st') = csId (session_of (mcSession (channel_of ?e ?st')) ?st')"
        if "z \<in> set (channels_at b ?st')" for b
        using that 1(7) [of b] i(2) by (simp add: in_splice [OF ok i(1)] channel_session_def)
      ultimately show ?thesis
        unfolding step using 1(1) [OF _ 1(6)] 1(3,4) Some False notin cb by auto
    qed
  qed
qed

lemma close_channel_ok:
  assumes "table_ok {} st"
  shows "table_ok {} (close_channel c st)"
proof (cases "\<not> c < length (storedChannels st) \<or> mcClosed (channel_of c st)")
  case True
  then show ?thesis using assms by (subst close_channel.simps) simp
next
  case False
  then have c: "c < length (storedChannels st)" "\<not> mcClosed (channel_of c st)" by auto
  have ok: "table_ok {c} (mark_closed c st)" using table_ok_mark_closed [OF assms c(1)] by simp
  show ?thesis
  proof (cases "mcCallback (channel_of c st)")
    case NoCallback
    then have "c \<notin> set (channels_at b st)" for b using table_okD(2) [OF assms, of c b] by auto
    with ok have "table_ok {} (mark_closed c st)" by (fastforce simp: table_ok_def entry_ok_def)
    with NoCallback c show ?thesis by (subst close_channel.simps) simp
  next
    case (DropPase s)
    then have "c \<notin> set (channels_at b st)" for b using table_okD(2) [OF assms, of c b] by auto
    with ok have "table_ok {} (mark_closed c st)"
      by (fastforce simp: table_ok_def entry_ok_def)
    with DropPase c show ?thesis by (subst close_channel.simps) simp
  next
    case (DropChannel a s)
    show ?thesis
    proof (cases "\<exists>b. c \<in> set (channels_at b st)")
      case False
      have "table_ok {c} st" using assms by (auto simp: table_ok_def entry_ok_def)
      then show ?thesis by (rule close_chain [OF _ c _ DropChannel]) (use False in auto)
    next
      case True
      then obtain b where b: "c \<in> set (channels_at b st)" by blast
      have s: "b = a" "s = mcSession (channel_of c st)" using table_okD(2) [OF assms b] DropChannel by simp_all
      with b obtain i where i: "channel_index a s st = Some i"
        using channel_index_None [of a s st] by (auto simp: channel_session_def)
      let ?e = "channels_at a st ! i" and ?st' = "splice a i (mark_closed c st)"
      have il: "i < length (channels_at a (mark_closed c st))" "csId (channel_session ?e st) = csId (session_of s st)"
        using channel_index_Some [OF i] by simp_all
      have step: "close_channel c st = close_channel ?e ?st'" using i c DropChannel by (subst close_channel.simps) simp
      have ok': "table_ok ({c} - {?e}) ?st'" using table_ok_splice [OF ok il(1)] by simp
      have e: "?e \<in> set (channels_at a st)" using il(1) by simp
      show ?thesis
      proof (cases "?e = c")
        case True
        with ok' c show ?thesis unfolding step by (subst close_channel.simps) simp
      next
        case False
        have "\<not> mcClosed (channel_of ?e ?st')" using table_okD(3) [OF ok, of ?e a] e False by auto
        moreover have "table_ok {c} ?st'" using ok' by (auto simp: table_ok_def entry_ok_def)
        moreover have "?e < length (storedChannels ?st')" using table_okD(1) [OF ok, of ?e a] e by simp
        moreover have "\<forall>b. ?e \<notin> set (channels_at b ?st')" by (simp add: in_splice [OF ok il(1)])
        moreover have "mcCallback (channel_of ?e ?st') = DropChannel a (mcSession (channel_of ?e ?st'))"
          using table_okD(2) [OF ok, of ?e a] e by simp
        moreover have "b' = a \<and> csId (channel_session c ?st') = csId (session_of (mcSession (channel_of ?e ?st')) ?st')"
          if "c \<in> set (channels_at b' ?st')" for b'
          using that one_address [OF assms _ b] s il(2) by (auto simp: in_splice [OF ok il(1)] channel_session_def)
        ultimately show ?thesis unfolding step by (intro close_chain) auto
      qed
    qed
  qed
qed

lemma closed_stays: "mcClosed (channel_of d st) \<Longrightarrow> mcClosed (channel_of d (close_channel c st))"
proof (induction c st rule: close_channel.induct)
  case (1 c st)
  have p: "channel_of d (st'\<lparr>paseChannels := ps\<rparr>) = channel_of d st'" for st' ps by (simp add: channel_of_def)
  from 1 show ?case by (subst close_channel.simps) (auto simp: p split: close_callback.splits option.splits)
qed

lemma close_channel_closed:
  assumes "c < length (storedChannels st)"
  shows "mcClosed (channel_of c (close_channel c st))"
proof -
  have p: "channel_of c (st'\<lparr>paseChannels := ps\<rparr>) = channel_of c st'" for st' ps by (simp add: channel_of_def)
  from assms show ?thesis
    by (subst close_channel.simps) (auto simp: p split: close_callback.splits option.splits intro!: closed_stays)
qed

lemma closed_not_in_table:
  assumes "table_ok {} st"
  shows "c \<notin> set (channels_at a (close_channel c st))"
  using close_channel_ok [OF assms, of c] close_channel_stores(1) [of c st] close_channel_closed [of c st]
  by (auto simp: table_ok_def entry_ok_def)

lemma set_session_table [simp]:
  "channels_at a (set_session s f st) = channels_at a st" "storedChannels (set_session s f st) = storedChannels st"
  "table_ok C (set_session s f st) = table_ok C st"
  "caseSessionsPerFabricAndNode (set_session s f st) = caseSessionsPerFabricAndNode st"
  by (simp_all add: set_session_def channels_at_def table_ok_def entry_ok_def channel_of_def)

lemma fold_close:
  assumes "table_ok {} st"
  shows "table_ok {} (fold close_channel cs st) \<and> subseq (channels_at a (fold close_channel cs st)) (channels_at a st) \<and>
    caseSessionsPerFabricAndNode (fold close_channel cs st) = caseSessionsPerFabricAndNode st \<and>
    storedSessions (fold close_channel cs st) = storedSessions st"
  using assms
proof (induction cs arbitrary: st)
  case (Cons c cs)
  from Cons.IH [OF close_channel_ok [OF Cons.prems]] show ?case
    by (auto simp: close_channel_stores intro: subseq_order.order_trans [OF _ close_channel_at])
qed simp

lemma close_from_ok:
  assumes "table_ok {} st"
  shows "table_ok {} (close_from a i st) \<and> subseq (channels_at b (close_from a i st)) (channels_at b st) \<and>
    caseSessionsPerFabricAndNode (close_from a i st) = caseSessionsPerFabricAndNode st"
  using assms
proof (induction a i st rule: close_from.induct)
  case (1 a i st)
  show ?case
  proof (cases "i < length (channels_at a st)")
    case True
    from 1(1) [OF True close_channel_ok [OF 1(2)]] True show ?thesis
      by (subst (1 2 3) close_from.simps) (auto simp: close_channel_stores intro: subseq_order.order_trans [OF _ close_channel_at])
  next
    case False
    with 1(2) show ?thesis by (subst (1 2 3) close_from.simps) simp
  qed
qed

text \<open>Every list of channels is within the limit for one fabric and node, and its channels are open.\<close>

definition channels_ok :: "int \<Rightarrow> channel_manager \<Rightarrow> bool" where
  "channels_ok n st \<longleftrightarrow>
     table_ok {} st \<and> caseSessionsPerFabricAndNode st = n \<and> (\<forall>a. int (length (channels_at a st)) \<le> max 0 n)"

lemma channels_okI:
  assumes "channels_ok n st" "table_ok {} st'" "\<And>a. subseq (channels_at a st') (channels_at a st)"
    "caseSessionsPerFabricAndNode st' = caseSessionsPerFabricAndNode st"
  shows "channels_ok n st'"
proof -
  have "int (length (channels_at a st')) \<le> max 0 n" for a
    using list_emb_length [OF assms(3) [of a]] assms(1) by (meson channels_ok_def of_nat_le_iff order_trans)
  with assms show ?thesis by (simp add: channels_ok_def)
qed

lemma destroy_session_table:
  assumes "table_ok {} st"
  shows "table_ok {} (destroy_session s b st)" "subseq (channels_at a (destroy_session s b st)) (channels_at a st)"
    "caseSessionsPerFabricAndNode (destroy_session s b st) = caseSessionsPerFabricAndNode st"
  using fold_close [of "set_session s (\<lambda>x. x\<lparr>csClosingAfter := True\<rparr>) st"] fold_close [OF assms] assms
  by (auto simp: destroy_session_def Let_def)

lemma maybe_destroy_table:
  assumes "table_ok {} st"
  shows "table_ok {} (if p then destroy_session s b st else st)"
    "subseq (channels_at a (if p then destroy_session s b st else st)) (channels_at a st)"
    "caseSessionsPerFabricAndNode (if p then destroy_session s b st else st) = caseSessionsPerFabricAndNode st"
  using destroy_session_table [OF assms] assms by simp_all

lemma least_active_in: "least_active cs o1 st \<in> insert o1 (set cs)"
  by (induction cs arbitrary: o1) auto

lemma findLeastActiveChannel_in: "cs \<noteq> [] \<Longrightarrow> findLeastActiveChannel cs st \<in> set cs"
  using least_active_in [of cs "cs ! 0" st] by (cases cs) (auto simp: findLeastActiveChannel_def)

lemma set_channel_stored [simp]: "length (storedChannels (set_channel c f st)) = length (storedChannels st)"
  by (simp add: set_channel_def)

lemma setChannel_new_ok:
  assumes "channels_ok n st" "new_MessageChannel s callback st = (c, st1)"
  shows "channels_ok n (setChannel a c st1)"
proof -
  let ?st2 = "set_channel c (\<lambda>mc. mc\<lparr>mcCallback := DropChannel a s\<rparr>) st1"
  let ?cs = "channels_at a st @ [c]"
  let ?st3 = "set_channels_at a ?cs ?st2"
  have ok: "table_ok {} st" and lim: "caseSessionsPerFabricAndNode st = n"
    and len: "\<And>a. int (length (channels_at a st)) \<le> max 0 n"
    using assms(1) by (auto simp: channels_ok_def)
  have new: "c = length (storedChannels st)" "mcSession (channel_of c st1) = s" "\<not> mcClosed (channel_of c st1)"
    "length (storedChannels st1) = Suc c" "\<And>d. d < c \<Longrightarrow> channel_of d st1 = channel_of d st"
    "\<And>b. channels_at b st1 = channels_at b st" "caseSessionsPerFabricAndNode st1 = n"
    using assms(2) lim by (auto simp: new_MessageChannel_def channel_of_def nth_append channels_at_def)
  have stored3: "length (storedChannels ?st3) = Suc c" using new(4) by (simp add: set_channels_at_def)
  have at2: "\<And>b. channels_at b ?st2 = channels_at b st" using new(6) by (simp add: channels_at_def set_channel_def)
  have of3: "channel_of d ?st3 = (if d = c then (channel_of c st1)\<lparr>mcCallback := DropChannel a s\<rparr> else channel_of d st1)" for d
    using new(4) by (simp add: channel_of_def set_channels_at_def set_channel_def nth_list_update)
  have old: "d < c" if "d \<in> set (channels_at b st)" for d b using table_okD(1) [OF ok that] new(1) by simp
  have "distinct (channels_at b ?st3)" for b using ok old [of c a] by (auto simp: at2 table_ok_def)
  moreover have "entry_ok {} b ?st3 d" if "d \<in> set (channels_at b ?st3)" for b d
  proof (cases "d = c")
    case True
    with that old [of c b] have "b = a" by (auto simp: at2 split: if_splits)
    moreover have "entry_ok {} a ?st3 c" unfolding entry_ok_def of3 stored3 using new(2,3) by simp
    ultimately show ?thesis using True by simp
  next
    case False
    with that have d: "d \<in> set (channels_at b st)" by (auto simp: at2 split: if_splits)
    have "channel_of d ?st3 = channel_of d st" unfolding of3 using False new(5) [OF old [OF d]] by simp
    then show ?thesis unfolding entry_ok_def stored3 using old [OF d] table_okD [OF ok d] by (metis empty_iff less_SucI)
  qed
  ultimately have ok3: "table_ok {} ?st3" by (simp add: table_ok_def)
  have lim3: "caseSessionsPerFabricAndNode ?st3 = n"
    using new(7) by (simp add: set_channels_at_def set_channel_def)
  have e: "setChannel a c st1 =
     (if int (length ?cs) > n then
        let oldestC = findLeastActiveChannel ?cs ?st3; old = mcSession (channel_of oldestC ?st3)
        in close_channel oldestC (if csId (session_of s ?st3) \<noteq> csId (session_of old ?st3) then destroy_session old False ?st3 else ?st3)
      else ?st3)"
    using new(2) lim3 by (simp add: setChannel_def Let_def at2)
  have at3: "channels_at b ?st3 = (if b = a then ?cs else channels_at b st)" for b by (simp add: at2)
  show ?thesis
  proof (cases "int (length ?cs) > n")
    case False
    have "int (length (channels_at b ?st3)) \<le> max 0 n" for b
      using False len [of b] unfolding at3 by auto
    with False ok3 lim3 show ?thesis unfolding e channels_ok_def by simp
  next
    case True
    let ?o = "findLeastActiveChannel ?cs ?st3"
    let ?old = "mcSession (channel_of ?o ?st3)"
    define st4 where "st4 = (if csId (session_of s ?st3) \<noteq> csId (session_of ?old ?st3) then destroy_session ?old False ?st3 else ?st3)"
    have r: "setChannel a c st1 = close_channel ?o st4" using True unfolding e st4_def by (simp add: Let_def)
    have t4: "table_ok {} st4" "\<And>b. subseq (channels_at b st4) (channels_at b ?st3)"
        "caseSessionsPerFabricAndNode st4 = n"
      unfolding st4_def using maybe_destroy_table(1,2) [OF ok3] by (blast, blast)
        (use maybe_destroy_table(3) [OF ok3] lim3 in metis)
    have t5: "table_ok {} (close_channel ?o st4)" by (rule close_channel_ok [OF t4(1)])
    have sub: "subseq (channels_at b (close_channel ?o st4)) (channels_at b ?st3)" for b
      by (rule subseq_order.order_trans [OF close_channel_at t4(2)])
    have "int (length (channels_at b (close_channel ?o st4))) \<le> max 0 n" for b
    proof (cases "b = a")
      case False
      then show ?thesis using list_emb_length [OF sub [of b]] len [of b] unfolding at3 by auto
    next
      case True
      have "?o \<in> set ?cs" by (rule findLeastActiveChannel_in) simp
      moreover have "?o \<notin> set (channels_at a (close_channel ?o st4))" by (rule closed_not_in_table [OF t4(1)])
      ultimately have "channels_at a (close_channel ?o st4) \<noteq> ?cs" by metis
      moreover have s: "subseq (channels_at a (close_channel ?o st4)) ?cs" using sub [of a] by (simp add: at3)
      ultimately have "length (channels_at a (close_channel ?o st4)) < length ?cs"
        using list_emb_length [OF s] subseq_same_length [OF s] by (meson le_neq_implies_less)
      with len [of a] True show ?thesis by simp
    qed
    with t5 show ?thesis unfolding r channels_ok_def by (simp add: close_channel_stores t4(3))
  qed
qed

lemma channel_step_ok:
  assumes "channels_ok n st"
  shows "channels_ok n (channel_step e st)"
proof -
  have ok: "table_ok {} st" using assms by (simp add: channels_ok_def)
  have pase: "channels_ok n (st\<lparr>storedChannels := storedChannels st @ [mc], paseChannels := p\<rparr>)" for mc p
  proof (rule channels_okI [OF assms])
    show "table_ok {} (st\<lparr>storedChannels := storedChannels st @ [mc], paseChannels := p\<rparr>)"
      using ok by (auto simp: table_ok_def entry_ok_def channels_at_def channel_of_def nth_append intro: less_SucI)
  qed (simp_all add: channels_at_def)
  have set: "channels_ok n (set_session s f st')" if "channels_ok n st'" for s f st' using that by (simp add: channels_ok_def)
  show ?thesis
  proof (cases e)
    case (SetChannel a s)
    then show ?thesis using setChannel_new_ok [OF assms] by (auto split: prod.splits)
  next
    case (GetOrCreate s)
    have "channels_ok n (snd (getOrCreateAsPaseChannel s st))"
      using pase by (simp add: getOrCreateAsPaseChannel_def new_MessageChannel_def on_destroyed_def set)
    moreover have "channels_ok n (on_destroyed s c (setChannel a c st1))" if "new_MessageChannel s cb st = (c, st1)" for a c cb st1
      using setChannel_new_ok [OF assms that] by (simp add: on_destroyed_def set)
    ultimately show ?thesis using GetOrCreate assms
      by (auto simp: getOrCreateChannel_def Let_def split: option.splits sum.splits prod.splits)
  next
    case (RemoveChannel a s)
    have "channels_ok n (removeChannel a s st)"
    proof (cases "channel_index a s st")
      case None
      with assms show ?thesis by (simp add: removeChannel_def)
    next
      case (Some i)
      have t: "table_ok {} (splice a i st)" using table_ok_splice [OF ok channel_index_Some(1) [OF Some]] by simp
      have "subseq (channels_at b (splice a i st)) (channels_at b st)" for b by (simp add: channels_at_splice subseq_remove)
      then have "channels_ok n (close_channel (channels_at a st ! i) (splice a i st))"
        by (intro channels_okI [OF assms close_channel_ok [OF t]])
          (auto simp: close_channel_stores splice_def set_channels_at_def intro: subseq_order.order_trans [OF close_channel_at])
      with Some show ?thesis by (simp add: removeChannel_def)
    qed
    with RemoveChannel show ?thesis by simp
  next
    case (RemoveAll a)
    then show ?thesis using close_from_ok [OF ok] by (auto simp: removeAllNodeChannels_def intro!: channels_okI [OF assms])
  next
    case (DestroySession s b)
    then show ?thesis using destroy_session_table [OF ok] by (auto intro!: channels_okI [OF assms])
  next
    case (CloseChannel c)
    then show ?thesis using close_channel_ok [OF ok] by (auto simp: close_channel_stores close_channel_at intro!: channels_okI [OF assms])
  next
    case (Active s now)
    then show ?thesis using set [OF assms] by simp
  qed
qed

lemma channel_steps_ok: "channels_ok n st \<Longrightarrow> channels_ok n (fold channel_step es st)"
  by (induction es arbitrary: st) (simp_all add: channel_step_ok)



subsection \<open>Closing all channels to a node\<close>

text \<open>
  \<open>removeAllNodeChannels\<close> iterates over the list from which each closed channel removes itself: with
  channels of different sessions it closes every second one only.
\<close>

fun every_second :: "'a list \<Rightarrow> 'a list" where
  "every_second (x # y # zs) = y # every_second zs"
| "every_second _ = []"

lemma close_single:
  assumes "table_ok {} st" "c \<in> set (channels_at a st)" "inj_on (\<lambda>c. csId (channel_session c st)) (set (channels_at a st))"
  shows "channels_at a (close_channel c st) = filter (\<lambda>d. d \<noteq> c) (channels_at a st)"
proof -
  note c = table_okD [OF assms(1,2)]
  have "csId (channel_session c st) = csId (session_of (mcSession (channel_of c st)) st)" by (simp add: channel_session_def)
  with assms(2) obtain i where i: "channel_index a (mcSession (channel_of c st)) st = Some i"
    using channel_index_None [of a "mcSession (channel_of c st)" st] by auto
  note ci = channel_index_Some [OF i]
  have e: "channels_at a st ! i = c"
    using inj_onD [OF assms(3), of "channels_at a st ! i" c] ci assms(2) by (simp add: channel_session_def)
  have "close_channel c st = close_channel c (splice a i (mark_closed c st))"
    using c i e by (subst close_channel.simps) auto
  also have "\<dots> = splice a i (mark_closed c st)" using c by (subst close_channel.simps) simp
  finally have "channels_at a (close_channel c st) = take i (channels_at a st) @ drop (Suc i) (channels_at a st)"
    by (simp add: channels_at_splice)
  also have "\<dots> = filter (\<lambda>d. d \<noteq> c) (channels_at a st)"
  proof -
    let ?xs = "channels_at a st"
    have s: "?xs = take i ?xs @ c # drop (Suc i) ?xs" using id_take_nth_drop [OF ci(1)] e by simp
    have "distinct (take i ?xs @ c # drop (Suc i) ?xs)" using c(4) s by metis
    then have n: "c \<notin> set (take i ?xs)" "c \<notin> set (drop (Suc i) ?xs)" by auto
    have "filter (\<lambda>d. d \<noteq> c) ys = ys" if "c \<notin> set ys" for ys using that by (induction ys) auto
    then show ?thesis using n by (subst (3) s) simp
  qed
  finally show ?thesis .
qed

lemma channel_session_close [simp]:
  assumes "c < length (storedChannels st)"
  shows "channel_session d (close_channel c st) = channel_session d st"
proof -
  have "mcSession (channel_of d (close_channel c st)) = mcSession (channel_of d st)" for d c st
  proof (induction c st rule: close_channel.induct)
    case (1 c st)
    have p: "channel_of d (st'\<lparr>paseChannels := ps\<rparr>) = channel_of d st'" for st' ps by (simp add: channel_of_def)
    from 1 show ?case by (subst close_channel.simps) (auto simp: p split: close_callback.splits option.splits)
  qed
  then show ?thesis by (simp add: channel_session_def session_of_def close_channel_stores)
qed

lemma close_from_second:
  assumes "table_ok {} st" "channels_at a st = kept @ rest" "i = length kept"
    "inj_on (\<lambda>c. csId (channel_session c st)) (set (channels_at a st))"
  shows "channels_at a (close_from a i st) = kept @ every_second rest"
  using assms
proof (induction rest arbitrary: st kept i rule: every_second.induct [case_names two none one])
  case (two x y zs)
  let ?st = "close_channel x st"
  have x: "x \<in> set (channels_at a st)" "channels_at a st ! i = x" using two(3,4) by auto
  have "distinct (channels_at a st)" using two(2) by (simp add: table_ok_def)
  then have d: "distinct (kept @ x # y # zs)" unfolding two(3) .
  have at': "channels_at a ?st = (kept @ [y]) @ zs"
  proof -
    have "filter (\<lambda>d. d \<noteq> x) ys = ys" if "x \<notin> set ys" for ys using that by (induction ys) auto
    then show ?thesis using close_single [OF two(2) x(1) two(5)] two(3) d by simp
  qed
  have "close_from a i st = close_from a (Suc i) ?st" using two(3,4) x(2) by (subst close_from.simps) simp
  also have "channels_at a \<dots> = (kept @ [y]) @ every_second zs"
  proof (rule two(1) [OF close_channel_ok [OF two(2)] at'])
    show "Suc i = length (kept @ [y])" using two(4) by simp
    show "inj_on (\<lambda>c. csId (channel_session c ?st)) (set (channels_at a ?st))"
      using two(5) table_okD(1) [OF two(2) x(1)] unfolding at' two(3) by (auto simp: inj_on_def)
  qed
  finally show ?case by simp
next
  case none
  then show ?case by (subst close_from.simps) simp
next
  case (one v)
  let ?st = "close_channel v st"
  have v: "v \<in> set (channels_at a st)" "channels_at a st ! i = v" using one(2,3) by auto
  have "distinct (channels_at a st)" using one(1) by (simp add: table_ok_def)
  then have d: "distinct (kept @ [v])" unfolding one(2) .
  have "filter (\<lambda>d. d \<noteq> v) ys = ys" if "v \<notin> set ys" for ys using that by (induction ys) auto
  then have at': "channels_at a ?st = kept" using close_single [OF one(1) v(1) one(4)] one(2) d by simp
  have "close_from a i st = close_from a (Suc i) ?st" using one(2,3) v(2) by (subst close_from.simps) simp
  also have "\<dots> = ?st" using at' one(3) by (subst close_from.simps) simp
  finally show ?case using at' by simp
qed

text \<open>Removing all channels to a node, where they belong to different sessions, leaves every second one of them open:
  with two or more channels the node stays connected.\<close>

theorem removeAll_leaves_every_second:
  assumes "st = fold channel_step events (new_ChannelManager ss limit)" "0 \<le> limit"
    and "distinct (map (\<lambda>c. csId (channel_session c st)) (channels_at a st))"
  shows "channels_at a (removeAllNodeChannels a st) = every_second (channels_at a st)"
proof -
  have "channels_ok limit (new_ChannelManager ss limit)"
    using assms(2) by (simp add: channels_ok_def new_ChannelManager_def table_ok_def channels_at_def)
  then have "table_ok {} st" unfolding assms(1) using channel_steps_ok by (simp add: channels_ok_def)
  from close_from_second [OF this, of a "[]" _ 0] assms(3) show ?thesis
    by (simp add: removeAllNodeChannels_def distinct_map)
qed

lemma removeAll_leaves_every_second_witness:
  "channels_at (PeerAddress 1 5) (removeAllNodeChannels (PeerAddress 1 5) (fold channel_step
      [GetOrCreate 0, GetOrCreate 1, GetOrCreate 2]
      (new_ChannelManager (map (\<lambda>i. \<lparr>csId = i, csTimestamp = i, csSecure = True, csPase = False, csFabric = Some 1,
         csPeerNodeId = 5, csClosingAfter = False, csDestroyed = []\<rparr>) [1..4]) 3))) = [1]"
  (is "channels_at ?a (removeAllNodeChannels ?a ?st) = [1]")
proof -
  have at3: "channels_at ?a ?st = [0, 1, 2]" by code_simp
  moreover have "distinct (map (\<lambda>c. csId (channel_session c ?st)) [0, 1, 2])" by code_simp
  ultimately show ?thesis
    using removeAll_leaves_every_second [OF refl, of 3 _ _ ?a] by (simp only: every_second.simps)
qed

text \<open>The channel found for a session is the latest one of its sessions that can be used; there is one when there is any.\<close>

lemma getChannel_usable:
  assumes "getChannel a (Some s) st = Inr c"
  shows "c \<in> set (channels_at a st) \<and> usable st c \<and> csId (channel_session c st) = csId (session_of s st)"
proof -
  have "c \<in> set (filter (usable st) (filter (\<lambda>c. csId (channel_session c st) = csId (session_of s st)) (channels_at a st)))"
    using assms unfolding getChannel_def Let_def option.case by (metis last_in_set old.sum.distinct(2) old.sum.inject(2))
  then show ?thesis by simp
qed

lemma hasChannel_iff: "hasChannel a st \<longleftrightarrow> (\<exists>c. getChannel a None st = Inr c)"
  by (simp add: hasChannel_def getChannel_def Let_def)
end
