(* ===== verification/Exchanges.thy ===== *)
theory Exchanges
  imports SecureSession MessageExchange
begin

text \<open>
  The exchange manager: packages/protocol/src/protocol/ExchangeManager.ts.  From the datagram that comes
  in (\<open>receive_message\<close> of \<open>SecureSession\<close>) to the exchange that takes the message
  (\<open>onMessageReceived\<close> of \<open>MessageExchange\<close>), the creation of exchanges, their limit for a session and
  their removal.  Exchanges are objects: the map from exchange indices names them by their position in
  a store, where an exchange that has been displaced from the map lives on.

  A datagram is handled up to the first await that waits for the network; what follows a send runs
  when the exchange reports that it is done.  The listeners of the transport, the protocol handlers and
  the message that closes a session are left out; \<open>getOrCreateChannel\<close> is the argument that gives
  the context of a session's channel.
\<close>

subsection \<open>State\<close>

definition MAXIMUM_CONCURRENT_EXCHANGES_PER_SESSION :: nat where "MAXIMUM_CONCURRENT_EXCHANGES_PER_SESSION = 5"

record exchange_entry =
  eIndex :: int
  eSession :: session_ref
  eExchange :: exchange

record exchange_manager =
  sessionTable :: session_manager
  exchangeCounter :: int
  objects :: "exchange_entry list"
  exchanges :: "(int \<times> nat) list"
  protocols :: "int list"
  closingAfterExchange :: "int list"
  closedByExchange :: "int list"
  transmissionMetadata :: "(string \<times> int) list"
  managerClosing :: bool

datatype manager_output =
    FromExchange nat exchange_output
  | NewExchange nat message
  | Failed js_error

type_synonym manager_result = "exchange_manager \<times> manager_output list"

text \<open>The id of a session: unsecured sessions all have the same.\<close>

fun session_id :: "session_ref \<Rightarrow> int" where
  "session_id (Secure i) = i"
| "session_id (Insecure n) = UNICAST_UNSECURE_SESSION_ID"

definition getIncrementedCounter :: "int \<Rightarrow> int" where
  "getIncrementedCounter counter = (if counter + 1 > 0xffff then 0 else counter + 1)"

definition new_ExchangeManager :: "session_manager \<Rightarrow> int \<Rightarrow> exchange_manager" where
  "new_ExchangeManager sm counter =
     \<lparr>sessionTable = sm, exchangeCounter = counter, objects = [], exchanges = [], protocols = [], closingAfterExchange = [],
      closedByExchange = [], transmissionMetadata = [], managerClosing = False\<rparr>"

definition addProtocolHandler :: "int \<Rightarrow> exchange_manager \<Rightarrow> exchange_manager res" where
  "addProtocolHandler p em =
     (if p \<in> set (protocols em) then Inl ImplementationError else Inr (em\<lparr>protocols := protocols em @ [p]\<rparr>))"

subsection \<open>Running and deleting exchanges\<close>

definition object_of :: "nat \<Rightarrow> exchange_manager \<Rightarrow> exchange_entry" where
  "object_of r em = objects em ! r"

definition drop_exchange :: "int \<Rightarrow> exchange_manager \<Rightarrow> exchange_manager" where
  "drop_exchange i em = em\<lparr>exchanges := AList.delete i (exchanges em)\<rparr>"

text \<open>A method of an exchange is called; what it leaves of the exchange is stored and its outputs are collected.\<close>

definition call_exchange :: "(exchange \<Rightarrow> exchange \<times> exchange_output list) \<Rightarrow> nat \<Rightarrow> exchange_manager \<Rightarrow> exchange_manager \<times> exchange_output list" where
  "call_exchange f r em =
     (let (x, out) = f (eExchange (object_of r em))
      in (em\<lparr>objects := (objects em)[r := (object_of r em)\<lparr>eExchange := x\<rparr>]\<rparr>, out))"

text \<open>
  \<open>#closeSession\<close> with the exchanges of the session: they are destroyed, each of which deletes its index
  when it is closed.  The deletion in turn closes a session only once.
\<close>

definition destroy_one :: "nat \<Rightarrow> manager_result \<Rightarrow> manager_result" where
  "destroy_one r res =
     (let (em, outs) = res;
          (em, out) = call_exchange destroy_exchange r em;
          em = (if Closed \<in> set out then drop_exchange (eIndex (object_of r em)) em else em)
      in (em, outs @ map (FromExchange r) out))"

definition closeSession :: "int \<Rightarrow> exchange_manager \<Rightarrow> manager_result" where
  "closeSession sid em =
     (if sid \<in> set (closedByExchange em) then (em, [])
      else
        let em = em\<lparr>closedByExchange := sid # closedByExchange em\<rparr>
        in fold (\<lambda>(i, r) res.
               if map_of (exchanges (fst res)) i = Some r \<and> session_id (eSession (object_of r (fst res))) = sid
               then destroy_one r res else res)
             (exchanges em) (em, []))"

definition deleteExchange :: "int \<Rightarrow> exchange_manager \<Rightarrow> manager_result" where
  "deleteExchange i em =
     (case map_of (exchanges em) i of
        None \<Rightarrow> (em, [])
      | Some r \<Rightarrow>
          (case eSession (object_of r em) of
             Secure sid \<Rightarrow>
               let (em, out) = (if sid \<in> set (closingAfterExchange em) then closeSession sid em else (em, []))
               in (drop_exchange i em, out)
           | Insecure n \<Rightarrow> (drop_exchange i em, [])))"

text \<open>An event of an exchange; when it is closed its observer deletes its index.\<close>

definition run_exchange :: "(exchange \<Rightarrow> exchange \<times> exchange_output list) \<Rightarrow> nat \<Rightarrow> exchange_manager \<Rightarrow> manager_result" where
  "run_exchange f r em =
     (let (em, out) = call_exchange f r em;
          (em, out') = (if Closed \<in> set out then deleteExchange (eIndex (object_of r em)) em else (em, []))
      in (em, map (FromExchange r) out @ out'))"

subsection \<open>Adding exchanges\<close>

text \<open>The exchanges of a session in the order of the map, except those that are closing.\<close>

definition session_exchanges :: "int \<Rightarrow> exchange_manager \<Rightarrow> nat list" where
  "session_exchanges sid em =
     filter (\<lambda>r. session_id (eSession (object_of r em)) = sid \<and> \<not> isClosing (eExchange (object_of r em))) (map snd (exchanges em))"

definition cleanupSessionExchanges :: "int \<Rightarrow> exchange_manager \<Rightarrow> manager_result" where
  "cleanupSessionExchanges sid em =
     (if sid = UNICAST_UNSECURE_SESSION_ID then (em, [])
      else
        let rs = session_exchanges sid em
        in if length rs \<le> MAXIMUM_CONCURRENT_EXCHANGES_PER_SESSION then (em, [])
           else run_exchange (close_exchange False) (rs ! 0) em)"

definition addExchange :: "exchange_entry \<Rightarrow> exchange_manager \<Rightarrow> nat \<times> manager_result" where
  "addExchange e em =
     (let r = length (objects em);
          em = em\<lparr>objects := objects em @ [e], exchanges := AList.update (eIndex e) r (exchanges em)\<rparr>
      in (r, cleanupSessionExchanges (session_id (eSession e)) em))"

definition initiateExchangeWithChannel :: "exchange_context \<Rightarrow> session_ref \<Rightarrow> int \<Rightarrow> exchange_manager \<Rightarrow> nat \<times> manager_result" where
  "initiateExchangeWithChannel ctx s protocol em =
     (let i = getIncrementedCounter (exchangeCounter em)
      in addExchange \<lparr>eIndex = js_or i 0x10000, eSession = s, eExchange = initiate ctx i protocol\<rparr> (em\<lparr>exchangeCounter := i\<rparr>))"

subsection \<open>Messages\<close>

definition message_of :: "decoded_message \<Rightarrow> message" where
  "message_of m =
     \<lparr>packetHeader = packet_header.truncate (dpacketHeader m), payloadHeader = dpayloadHeader m,
      securityExtension = dsecurityExtension m, payload = dpayload m\<rparr>"

definition exchange_index :: "message \<Rightarrow> int" where
  "exchange_index m =
     (if isInitiatorMessage (payloadHeader m) then exchangeId (payloadHeader m) else js_or (exchangeId (payloadHeader m)) 0x10000)"

text \<open>The exchange a message of a session belongs to.\<close>

definition find_exchange :: "session_ref \<Rightarrow> message \<Rightarrow> exchange_manager \<Rightarrow> nat option" where
  "find_exchange s m em =
     (case map_of (exchanges em) (exchange_index m) of
        None \<Rightarrow> None
      | Some r \<Rightarrow>
          if session_id (eSession (object_of r em)) \<noteq> session_id s \<or> isInitiator (eExchange (object_of r em)) = isInitiatorMessage (payloadHeader m)
          then None else Some r)"

definition entry_for :: "exchange_context \<Rightarrow> session_ref \<Rightarrow> message \<Rightarrow> exchange_entry" where
  "entry_for ctx s m = \<lparr>eIndex = exchange_index m, eSession = s, eExchange = fromInitialMessage ctx m\<rparr>"

fun closing_after :: "session_ref \<Rightarrow> exchange_manager \<Rightarrow> bool" where
  "closing_after (Secure sid) em = (sid \<in> set (closingAfterExchange em))"
| "closing_after (Insecure n) em = False"

text \<open>A message that opens an exchange, for the handler of its protocol.\<close>

definition open_exchange :: "exchange_context \<Rightarrow> session_ref \<Rightarrow> message \<Rightarrow> exchange_manager \<Rightarrow> manager_result" where
  "open_exchange ctx s m em =
     (if messageType (payloadHeader m) = StandaloneAck \<and> \<not> requiresAck (payloadHeader m) then (em, [])
      else
        let (r, em, out) = addExchange (entry_for ctx s m) em;
            (em, out') = run_exchange (onMessageReceived m False) r em
        in if (\<exists>e\<in>set out'. case e of FromExchange r' (ThrowsError e) \<Rightarrow> True | _ \<Rightarrow> False) then (em, out @ out')
           else (em, out @ out' @ [NewExchange r m]))"

text \<open>A message nobody waits for is acknowledged if it asks for it; the exchange is closed after that.\<close>

definition acknowledge_unsolicited :: "exchange_context \<Rightarrow> session_ref \<Rightarrow> message \<Rightarrow> exchange_manager \<Rightarrow> manager_result" where
  "acknowledge_unsolicited ctx s m em =
     (let (r, em, out) = addExchange (entry_for ctx s m) em;
          (em, out') = run_exchange (send_begin StandaloneAck []
              (no_send_options\<lparr>includeAcknowledgeMessageId := Some (messageId (packetHeader m))\<rparr>) ThenReturn) r em
      in (em, out @ out'))"

definition dispatch :: "(session_ref \<Rightarrow> exchange_context) \<Rightarrow> session_ref \<Rightarrow> message \<Rightarrow> bool \<Rightarrow> exchange_manager \<Rightarrow> manager_result" where
  "dispatch channel s m isDuplicate em =
     (case find_exchange s m em of
        Some r \<Rightarrow> run_exchange (onMessageReceived m isDuplicate) r em
      | None \<Rightarrow>
          if managerClosing em then (em, [])
          else if closing_after s em then (em, [Failed MatterFlowError])
          else if protocolId (payloadHeader m) \<in> set (protocols em) \<and> isInitiatorMessage (payloadHeader m) \<and> \<not> isDuplicate then
            open_exchange (channel s) s m em
          else if requiresAck (payloadHeader m) then acknowledge_unsolicited (channel s) s m em
          else if protocolId (payloadHeader m) \<notin> set (protocols em) then (em, [Failed MatterFlowError])
          else (em, []))"

definition count_bytes :: "string \<Rightarrow> nat \<Rightarrow> exchange_manager \<Rightarrow> exchange_manager" where
  "count_bytes name n em =
     em\<lparr>transmissionMetadata := AList.update name
          ((case map_of (transmissionMetadata em) name of None \<Rightarrow> 0 | Some k \<Rightarrow> k) + int n) (transmissionMetadata em)\<rparr>"

definition onMessage ::
  "aead_decrypt \<Rightarrow> (session_ref \<Rightarrow> exchange_context) \<Rightarrow> string \<Rightarrow> byte list \<Rightarrow> exchange_manager \<Rightarrow> manager_result" where
  "onMessage decrypt channel name messageBytes em =
     (let em = count_bytes name (length messageBytes) em;
          (sm, r) = receive_message decrypt (managerClosing em) messageBytes (sessionTable em);
          em = em\<lparr>sessionTable := sm\<rparr>
      in case r of
           Inl e \<Rightarrow> (em, [Failed e])
         | Inr None \<Rightarrow> (em, [])
         | Inr (Some (s, m, isDuplicate)) \<Rightarrow> dispatch channel s (message_of m) isDuplicate em)"

subsection \<open>Events\<close>

text \<open>
  An event of an exchange can tell that the standalone acknowledgement of an unsolicited message has been
  sent: its exchange is closed then.
\<close>

definition exchange_event :: "exchange_event \<Rightarrow> nat \<Rightarrow> exchange_manager \<Rightarrow> manager_result" where
  "exchange_event e r em =
     (let (em, out) = run_exchange (exchange_step e) r em
      in if FromExchange r SendReturned \<in> set out then
           let (em, out') = run_exchange (close_exchange False) r em in (em, out @ out')
         else (em, out))"

datatype manager_event =
    Datagram string "byte list"
  | Initiate session_ref int
  | OnExchange nat exchange_event
  | Register int
  | CloseLater int
  | CloseSession int

fun manager_step :: "aead_decrypt \<Rightarrow> (session_ref \<Rightarrow> exchange_context) \<Rightarrow> manager_event \<Rightarrow> exchange_manager \<Rightarrow> manager_result" where
  "manager_step decrypt channel (Datagram name bytes) em = onMessage decrypt channel name bytes em"
| "manager_step decrypt channel (Initiate s protocol) em = snd (initiateExchangeWithChannel (channel s) s protocol em)"
| "manager_step decrypt channel (OnExchange r e) em = (if r < length (objects em) then exchange_event e r em else (em, []))"
| "manager_step decrypt channel (Register p) em =
     (case addProtocolHandler p em of Inl e \<Rightarrow> (em, [Failed e]) | Inr em' \<Rightarrow> (em', []))"
| "manager_step decrypt channel (CloseLater sid) em = (em\<lparr>closingAfterExchange := sid # closingAfterExchange em\<rparr>, [])"
| "manager_step decrypt channel (CloseSession sid) em = closeSession sid em"

fun manager_run :: "aead_decrypt \<Rightarrow> (session_ref \<Rightarrow> exchange_context) \<Rightarrow> manager_event list \<Rightarrow> exchange_manager \<Rightarrow> manager_result" where
  "manager_run decrypt channel [] em = (em, [])"
| "manager_run decrypt channel (e # es) em =
     (let (em, out) = manager_step decrypt channel e em; (em, outs) = manager_run decrypt channel es em in (em, out @ outs))"

subsection \<open>What an exchange keeps\<close>

text \<open>
  No method changes the id or the role of an exchange or reopens it, and an exchange that waits for its
  close timer, or sends an acknowledgement before it starts it, is closing.
\<close>

fun after_of :: "pending \<Rightarrow> after_send" where
  "after_of (AwaitCounter job) = jobAfter job"
| "after_of (AwaitChannel reliable next) = next"
| "after_of _ = Nothing"

definition closing_ok :: "exchange \<Rightarrow> bool" where
  "closing_ok x \<longleftrightarrow> (closeTimer x \<noteq> None \<or> (\<exists>p\<in>set (pendings x). \<exists>b. after_of p = ThenClose b) \<longrightarrow> isClosing x)"

definition keeps :: "exchange \<Rightarrow> exchange \<times> exchange_output list \<Rightarrow> bool" where
  "keeps x r \<longleftrightarrow>
     xExchangeId (fst r) = xExchangeId x \<and> isInitiator (fst r) = isInitiator x \<and>
     (closing_ok x \<longrightarrow> closing_ok (fst r)) \<and> (isClosing x \<longrightarrow> isClosing (fst r))"

lemma timer_fields [simp]:
  "xExchangeId (set_running b n x) = xExchangeId x" "isInitiator (set_running b n x) = isInitiator x"
  "isClosing (set_running b n x) = isClosing x" "closeTimer (set_running b n x) = closeTimer x" "pendings (set_running b n x) = pendings x"
  "xExchangeId (set_retransmission_timer b x) = xExchangeId x" "isInitiator (set_retransmission_timer b x) = isInitiator x"
  "isClosing (set_retransmission_timer b x) = isClosing x" "closeTimer (set_retransmission_timer b x) = closeTimer x"
  "pendings (set_retransmission_timer b x) = pendings x"
  "xExchangeId (new_retransmission_timer i m e b x) = xExchangeId x" "isInitiator (new_retransmission_timer i m e b x) = isInitiator x"
  "isClosing (new_retransmission_timer i m e b x) = isClosing x" "closeTimer (new_retransmission_timer i m e b x) = closeTimer x"
  "pendings (new_retransmission_timer i m e b x) = pendings x"
  by (simp_all add: set_running_def set_retransmission_timer_def new_retransmission_timer_def split: option.splits)

lemma keepsI:
  assumes "xExchangeId y = xExchangeId x" "isInitiator y = isInitiator x" "isClosing x \<Longrightarrow> isClosing y"
    "closeTimer y \<noteq> None \<Longrightarrow> closeTimer x \<noteq> None \<or> isClosing y"
    "\<And>p b. p \<in> set (pendings y) \<Longrightarrow> after_of p = ThenClose b \<Longrightarrow> p \<in> set (pendings x) \<or> isClosing y"
  shows "keeps x (y, out)"
proof -
  have "closing_ok y" if "closing_ok x"
    unfolding closing_ok_def
  proof (intro impI, elim disjE bexE exE)
    assume "closeTimer y \<noteq> None"
    with assms(3,4) that show "isClosing y" by (auto simp: closing_ok_def)
  next
    fix p b
    assume "p \<in> set (pendings y)" "after_of p = ThenClose b"
    with assms(3) assms(5) [of p b] that show "isClosing y" by (auto simp: closing_ok_def)
  qed
  with assms show ?thesis by (simp add: keeps_def)
qed

lemma keeps_trans: "keeps x (y, out) \<Longrightarrow> keeps y r \<Longrightarrow> keeps x r"
  by (auto simp: keeps_def)

lemma close_now_keeps [simp]: "keeps x (close_now x)" "isClosing (fst (close_now x))"
  by (auto simp: close_now_def Let_def split: prod.splits intro!: keepsI)

lemma after_keeps: "(\<And>b. a = ThenClose b \<Longrightarrow> isClosing x) \<Longrightarrow> keeps x (after a x)"
proof (cases a)
  case (ThenClose b)
  assume "\<And>b. a = ThenClose b \<Longrightarrow> isClosing x"
  with ThenClose have "isClosing x" by simp
  then have "keeps x (start_close_timer x, [])" by (intro keepsI) (simp_all add: start_close_timer_def)
  with ThenClose show ?thesis by (simp add: after_def)
qed (simp_all add: after_def keepsI)

lemma send_begin_keeps: "(\<And>b. a = ThenClose b \<Longrightarrow> isClosing x) \<Longrightarrow> keeps x (send_begin ty bytes opts a x)"
  using after_keeps [of a x] by (auto simp: send_begin_def Let_def split: option.splits prod.splits intro!: keepsI)

lemma sendStandaloneAck_keeps: "(\<And>b. a = ThenClose b \<Longrightarrow> isClosing x) \<Longrightarrow> keeps x (sendStandaloneAckForMessage m a x)"
  by (auto simp: sendStandaloneAckForMessage_def intro: after_keeps send_begin_keeps)

lemma keeps_split: "keeps x r \<Longrightarrow> keeps x (case r of (x', out') \<Rightarrow> (x', out @ out'))"
  by (auto simp: keeps_def split: prod.splits)

lemma keeps_modified:
  assumes "keeps y r" "xExchangeId y = xExchangeId x" "isInitiator y = isInitiator x" "isClosing y = isClosing x"
    "closeTimer y = closeTimer x" "pendings y = pendings x"
  shows "keeps x r"
  using assms by (auto simp: keeps_def closing_ok_def)

lemma acknowledged_keeps: "keeps x (acknowledged m x)"
  by (auto simp: acknowledged_def Let_def intro!: keepsI)

lemma deliver_keeps: "keeps x (deliver m x)"
proof -
  have "keeps x (sendStandaloneAckForMessage m' Nothing (x\<lparr>receivedMessageAckTimer := False\<rparr>))" for m'
    by (rule keeps_modified [OF sendStandaloneAck_keeps]) simp_all
  then show ?thesis by (auto simp: deliver_def Let_def split: prod.splits intro!: keepsI)
qed

lemma handle_message_keeps: "keeps x (handle_message m duplicate x)"
proof -
  let ?acked = "ackedMessageId (payloadHeader m)" and ?sent = "map_option (\<lambda>s. messageId (packetHeader s)) (sentMessageToAck x)"
  have same: "keeps x (x, out)" for out by (rule keepsI) simp_all
  have resend: "keeps x (x\<lparr>pendings := pendings x @ [AwaitResend]\<rparr>, out)" for out by (rule keepsI) auto
  obtain x1 out1 where x1: "(if ?sent \<noteq> None \<and> ?acked = ?sent then acknowledged m x else (x, [])) = (x1, out1)" by fastforce
  have r: "keeps x (x1, out1)" using acknowledged_keeps [of x m] same [of "[]"] x1 by (simp split: if_splits)
  have c: "keeps x (case close_now x1 of (x', out') \<Rightarrow> (x', out1 @ out'))"
    by (rule keeps_split, rule keeps_trans [OF r]) simp
  have d: "keeps x (case deliver m x1 of (x', out') \<Rightarrow> (x', out1 @ out'))"
    by (rule keeps_split, rule keeps_trans [OF r deliver_keeps])
  show ?thesis
    unfolding handle_message_def Let_def x1 prod.case
    using same resend r c d sendStandaloneAck_keeps [of Nothing x m] by (auto simp: split_beta)
qed

lemma onMessageReceived_keeps: "keeps x (onMessageReceived m duplicate x)"
  by (simp add: onMessageReceived_def handle_message_keeps)

lemma give_up_keeps: "keeps x (give_up x)"
proof -
  have "keeps x (close_now (x\<lparr>receivedMessageToAck := None, sentMessageAckHandlers := False\<rparr>))"
    by (rule keeps_modified [OF close_now_keeps(1)]) simp_all
  from this keeps_split [OF this, of "[AckRejected RetransmissionLimitReachedError]"] show ?thesis
    by (auto simp: give_up_def Let_def intro!: keeps_split keepsI)
qed

lemma retransmitMessage_keeps: "keeps x (retransmitMessage env m expected x)"
proof -
  have "keeps x (give_up (x\<lparr>retransmissionCounter := c\<rparr>))" for c
    by (rule keeps_modified [OF give_up_keeps]) simp_all
  then show ?thesis by (auto simp: retransmitMessage_def Let_def split: option.splits intro!: keepsI)
qed

lemma retransmission_timeout_keeps: "keeps x (retransmission_timeout env n x)"
  by (auto simp: retransmission_timeout_def Let_def intro!: keepsI keeps_modified [OF retransmitMessage_keeps])

lemma remove_pending_fields [simp]:
  "xExchangeId (remove_pending n x) = xExchangeId x" "isInitiator (remove_pending n x) = isInitiator x"
  "isClosing (remove_pending n x) = isClosing x" "closeTimer (remove_pending n x) = closeTimer x"
  by (simp_all add: remove_pending_def)

lemma remove_pending_in: "p \<in> set (pendings (remove_pending n x)) \<Longrightarrow> p \<in> set (pendings x)"
  by (auto simp: remove_pending_def dest: in_set_takeD in_set_dropD)

lemma remove_pending_keeps: "keeps x (remove_pending n x, out)"
  by (rule keepsI) (auto dest: remove_pending_in)

lemma completion_keeps:
  assumes "closing_ok x"
  shows "keeps x (counter_ready env n c x)" "keeps x (channel_done n x)" "keeps x (channel_failed n e x)"
proof -
  note r = remove_pending_keeps [of x n "[]"]
  have a: "isClosing x" if "n < length (pendings x)" "after_of (pendings x ! n) = ThenClose b" for b
    using assms that nth_mem [of n "pendings x"] by (auto simp: closing_ok_def)
  have same: "keeps x (x, [])" by (rule keepsI) simp_all
  have after: "keeps x (after nx (remove_pending n x))" if "n < length (pendings x)" "pendings x ! n = AwaitChannel reliable nx" for reliable nx
    using a that by (intro keeps_trans [OF r] after_keeps) simp
  have counter: "keeps x (send_counter env job c (remove_pending n x))" if "n < length (pendings x)" "pendings x ! n = AwaitCounter job" for job
    using a that by (intro keeps_trans [OF r]) (auto simp: send_counter_def Let_def intro!: keepsI)
  have timer: "keeps x (new_retransmission_timer i m e' b (remove_pending n x), [])" for i m e' b
    by (rule keeps_trans [OF r]) (rule keepsI, auto)
  have start: "keeps x (set_retransmission_timer True (remove_pending n x\<lparr>retransmissionCounter := 0\<rparr>), [])"
    by (rule keeps_trans [OF r]) (rule keepsI, auto)
  have close: "keeps x (close_now (remove_pending n x))" by (rule keeps_trans [OF r]) simp
  show "keeps x (counter_ready env n c x)"
    using counter same by (auto simp: counter_ready_def split: pending.splits)
  show "keeps x (channel_done n x)"
    using after timer start same r by (auto simp: channel_done_def send_done_def split: pending.splits)
  show "keeps x (channel_failed n e x)"
    using after timer close same remove_pending_keeps [of x n] by (auto simp: channel_failed_def split: pending.splits)
qed

lemma close_exchange_keeps: "keeps x (close_exchange force x)"
proof -
  have "keeps x (sendStandaloneAckForMessage m (ThenClose force)
      (x\<lparr>isClosing := True, receivedMessageAckTimer := False, receivedMessageToAck := None\<rparr>))" for m
    by (rule keeps_trans [where y = "x\<lparr>isClosing := True, receivedMessageAckTimer := False, receivedMessageToAck := None\<rparr>" and out = "[]"])
      (auto intro!: keepsI sendStandaloneAck_keeps)
  moreover have "keeps x (close_now (x\<lparr>closeTimer := Some False\<rparr>))" if "closeTimer x \<noteq> None"
    by (rule keeps_trans [where y = "x\<lparr>closeTimer := Some False\<rparr>" and out = "[]"]) (use that in \<open>auto intro!: keepsI\<close>)
  moreover have "keeps x (close_now (x\<lparr>isClosing := True\<rparr>))"
    by (rule keeps_trans [where y = "x\<lparr>isClosing := True\<rparr>" and out = "[]"]) (auto intro!: keepsI)
  moreover have "keeps x (start_close_timer (x\<lparr>isClosing := True\<rparr>), [])" by (rule keepsI) (auto simp: start_close_timer_def)
  moreover have "keeps x (x, [])" by (rule keepsI) simp_all
  ultimately show ?thesis by (auto simp: close_exchange_def Let_def split: option.splits)
qed

lemma destroy_exchange_keeps: "keeps x (destroy_exchange x)"
proof -
  have "keeps x (sendStandaloneAckForMessage m ThenDestroy (x\<lparr>receivedMessageAckTimer := False, receivedMessageToAck := None\<rparr>))" for m
    by (rule keeps_modified [OF sendStandaloneAck_keeps]) simp_all
  then show ?thesis by (auto simp: destroy_exchange_def split: option.splits)
qed

lemma exchange_step_keeps:
  assumes "closing_ok x"
  shows "keeps x (exchange_step e x)"
proof -
  have same: "keeps x (x, out)" for out by (rule keepsI) simp_all
  have ack: "keeps x (sendStandaloneAckForMessage m Nothing (x\<lparr>receivedMessageAckTimer := False, receivedMessageToAck := None\<rparr>))" for m
    by (rule keeps_modified [OF sendStandaloneAck_keeps]) simp_all
  have timer: "keeps x (close_now (x\<lparr>closeTimer := Some False\<rparr>))" if "closeTimer x \<noteq> None"
    by (rule keeps_trans [where y = "x\<lparr>closeTimer := Some False\<rparr>" and out = "[]"]) (use that in \<open>auto intro!: keepsI\<close>)
  have simple: "keeps x (ack_timeout x)" "keeps x (close_timeout x)" "keeps x (startTimedInteraction x)" "keeps x (read_timeout x)"
    "keeps x (nextMessage env ty t ex x)" "keeps x (clearTimedInteraction x, [])" "keeps x (timed_interaction_timeout x, [])" for env ty t ex
    using same ack timer
    by (auto simp: ack_timeout_def close_timeout_def startTimedInteraction_def read_timeout_def nextMessage_def clearTimedInteraction_def
        timed_interaction_timeout_def Let_def split: option.splits sum.splits prod.splits intro!: keepsI)
  show ?thesis
    using completion_keeps [OF assms] simple
    by (cases e) (auto intro: onMessageReceived_keeps send_begin_keeps retransmission_timeout_keeps close_exchange_keeps destroy_exchange_keeps)
qed


subsection \<open>What the manager keeps\<close>

text \<open>
  \<open>em'\<close> has no more exchanges in its map than \<open>em\<close>, the same objects, none of them reopened.
\<close>

definition same_object :: "exchange_entry \<Rightarrow> exchange_entry \<Rightarrow> bool" where
  "same_object e e' \<longleftrightarrow>
     eIndex e' = eIndex e \<and> eSession e' = eSession e \<and> xExchangeId (eExchange e') = xExchangeId (eExchange e) \<and>
     isInitiator (eExchange e') = isInitiator (eExchange e) \<and>
     (isClosing (eExchange e) \<longrightarrow> isClosing (eExchange e')) \<and> (closing_ok (eExchange e) \<longrightarrow> closing_ok (eExchange e'))"

definition shrinks :: "exchange_manager \<Rightarrow> exchange_manager \<Rightarrow> bool" where
  "shrinks em em' \<longleftrightarrow>
     list_all2 same_object (objects em) (objects em') \<and> subseq (exchanges em') (exchanges em) \<and>
     exchangeCounter em' = exchangeCounter em"

lemma same_object_refl [simp]: "same_object e e"
  by (simp add: same_object_def)

lemma shrinks_refl [simp]: "shrinks em em"
  by (simp add: shrinks_def list_all2_refl)

lemma shrinks_trans: "shrinks a b \<Longrightarrow> shrinks b c \<Longrightarrow> shrinks a c"
proof -
  have t: "same_object x z" if "same_object x y" "same_object y z" for x y z using that by (auto simp: same_object_def)
  show "shrinks a b \<Longrightarrow> shrinks b c \<Longrightarrow> shrinks a c"
    unfolding shrinks_def by (metis (no_types) list_all2_trans [of same_object same_object same_object] t subseq_order.order_trans)
qed

lemma delete_subseq: "subseq (AList.delete i xs) xs"
  by (simp add: AList.delete_eq)

lemma drop_exchange_shrinks [simp]: "shrinks em (drop_exchange i em)"
  by (simp add: shrinks_def drop_exchange_def list_all2_refl delete_subseq)

definition objects_ok :: "exchange_manager \<Rightarrow> bool" where
  "objects_ok em \<longleftrightarrow> (\<forall>e\<in>set (objects em). closing_ok (eExchange e))"

lemma shrinks_objects_ok: "shrinks em em' \<Longrightarrow> objects_ok em \<Longrightarrow> objects_ok em'"
  by (force simp: shrinks_def objects_ok_def all_set_conv_all_nth list_all2_conv_all_nth same_object_def)

lemma objects_okD: "objects_ok em \<Longrightarrow> r < length (objects em) \<Longrightarrow> closing_ok (eExchange (object_of r em))"
  by (simp add: objects_ok_def object_of_def)

lemma call_exchange_shrinks:
  assumes "r < length (objects em) \<Longrightarrow> keeps (eExchange (object_of r em)) (f (eExchange (object_of r em)))"
  shows "shrinks em (fst (call_exchange f r em))"
proof (cases "r < length (objects em)")
  case True
  with assms have "same_object (object_of r em) ((object_of r em)\<lparr>eExchange := fst (f (eExchange (object_of r em)))\<rparr>)"
    by (simp add: keeps_def same_object_def)
  then show ?thesis
    by (auto simp: call_exchange_def shrinks_def list_all2_conv_all_nth object_of_def split: prod.splits)
      (metis nth_list_update_eq nth_list_update_neq same_object_refl)
next
  case False
  then show ?thesis by (simp add: call_exchange_def shrinks_def list_update_beyond list_all2_refl split: prod.splits)
qed

lemma destroy_one_shrinks: "shrinks (fst res) (fst (destroy_one r res))"
proof -
  have "shrinks (fst res) (fst (call_exchange destroy_exchange r (fst res)))"
    by (rule call_exchange_shrinks) (rule destroy_exchange_keeps)
  then show ?thesis by (auto simp: destroy_one_def Let_def split: prod.splits intro: shrinks_trans)
qed

lemma closeSession_shrinks: "shrinks em (fst (closeSession sid em))"
proof -
  have "shrinks em (fst res) \<Longrightarrow> shrinks em (fst (fold (\<lambda>(i, r) res.
      if map_of (exchanges (fst res)) i = Some r \<and> session_id (eSession (object_of r (fst res))) = sid
      then destroy_one r res else res) xs res))" for xs res
  proof (induction xs arbitrary: res)
    case (Cons p xs)
    show ?case
      using Cons.IH [OF Cons.prems] Cons.IH [OF shrinks_trans [OF Cons.prems destroy_one_shrinks]] by (cases p) simp
  qed simp
  moreover have "shrinks em (em\<lparr>closedByExchange := c\<rparr>)" for c by (simp add: shrinks_def list_all2_refl)
  ultimately show ?thesis by (simp add: closeSession_def Let_def)
qed

lemma deleteExchange_shrinks: "shrinks em (fst (deleteExchange i em))"
  using closeSession_shrinks shrinks_trans [OF closeSession_shrinks drop_exchange_shrinks]
  by (auto simp: deleteExchange_def split: option.splits session_ref.splits prod.splits) (metis fst_conv)

lemma run_exchange_shrinks:
  assumes "r < length (objects em) \<Longrightarrow> keeps (eExchange (object_of r em)) (f (eExchange (object_of r em)))"
  shows "shrinks em (fst (run_exchange f r em))"
  using call_exchange_shrinks [of r em f, OF assms] shrinks_trans [OF _ deleteExchange_shrinks]
  by (auto simp: run_exchange_def Let_def split: prod.splits) (metis fst_conv)+

lemma exchange_event_shrinks:
  assumes "objects_ok em"
  shows "shrinks em (fst (exchange_event e r em))"
proof -
  have s: "shrinks em (fst (run_exchange (exchange_step e) r em))"
    using objects_okD [OF assms] by (intro run_exchange_shrinks exchange_step_keeps)
  have "shrinks (fst (run_exchange (exchange_step e) r em)) (fst (run_exchange (close_exchange False) r em'))"
    if "em' = fst (run_exchange (exchange_step e) r em)" for em'
    unfolding that by (rule run_exchange_shrinks) (rule close_exchange_keeps)
  with s show ?thesis by (auto simp: exchange_event_def split: prod.splits intro: shrinks_trans)
qed

text \<open>
  The map names objects of the store by the index they carry, which tells their exchange id, and holds at
  most five open exchanges of a secure session.
\<close>

definition open_in :: "int \<Rightarrow> exchange_manager \<Rightarrow> nat" where
  "open_in sid em = length (session_exchanges sid em)"

definition map_ok :: "exchange_manager \<Rightarrow> bool" where
  "map_ok em \<longleftrightarrow>
     distinct (map fst (exchanges em)) \<and> objects_ok em \<and> 0 \<le> exchangeCounter em \<and> exchangeCounter em \<le> 0xffff \<and>
     (\<forall>(i, r)\<in>set (exchanges em). r < length (objects em) \<and> eIndex (object_of r em) = i \<and>
        0 \<le> xExchangeId (eExchange (object_of r em)) \<and> xExchangeId (eExchange (object_of r em)) = i mod 65536)"

definition limit_ok :: "exchange_manager \<Rightarrow> bool" where
  "limit_ok em \<longleftrightarrow> (\<forall>sid. sid \<noteq> UNICAST_UNSECURE_SESSION_ID \<longrightarrow> open_in sid em \<le> MAXIMUM_CONCURRENT_EXCHANGES_PER_SESSION)"

lemma same_object_at:
  "shrinks em em' \<Longrightarrow> r < length (objects em) \<Longrightarrow> same_object (object_of r em) (object_of r em')"
  by (simp add: shrinks_def object_of_def list_all2_conv_all_nth)

lemma shrinks_map_ok:
  assumes "shrinks em em'" "map_ok em"
  shows "map_ok em'"
proof -
  have sub: "subseq (exchanges em') (exchanges em)" using assms(1) by (simp add: shrinks_def)
  have "distinct (map fst (exchanges em'))"
    using assms(2) by (intro distinct_subseq [OF subseq_map [OF sub]]) (simp add: map_ok_def)
  moreover have "r < length (objects em') \<and> eIndex (object_of r em') = i \<and> 0 \<le> xExchangeId (eExchange (object_of r em')) \<and>
      xExchangeId (eExchange (object_of r em')) = i mod 65536" if "(i, r) \<in> set (exchanges em')" for i r
  proof -
    have "(i, r) \<in> set (exchanges em)" using that sub by (auto dest: list_emb_set)
    with assms(2) have "r < length (objects em) \<and> eIndex (object_of r em) = i \<and> 0 \<le> xExchangeId (eExchange (object_of r em)) \<and>
      xExchangeId (eExchange (object_of r em)) = i mod 65536" by (auto simp: map_ok_def)
    moreover have "length (objects em') = length (objects em)" using assms(1) by (auto simp: shrinks_def dest: list_all2_lengthD)
    ultimately show ?thesis using same_object_at [OF assms(1), of r] by (simp add: same_object_def)
  qed
  ultimately show ?thesis using assms shrinks_objects_ok [OF assms(1)] by (auto simp: map_ok_def shrinks_def)
qed

lemma filter_implies_subseq:
  "(\<And>x. Q x \<Longrightarrow> x \<in> set xs \<Longrightarrow> P x) \<Longrightarrow> subseq (filter Q xs) (filter P xs)"
proof (induction xs)
  case (Cons x xs)
  have IH: "subseq (filter Q xs) (filter P xs)" using Cons.prems by (intro Cons.IH) simp
  show ?case
  proof (cases "Q x")
    case True
    with Cons.prems have "P x" by simp
    with IH True show ?thesis by simp
  qed (use IH in \<open>simp add: list_emb_Cons\<close>)
qed simp

text \<open>The open exchanges of a session can only become fewer.\<close>

lemma shrinks_open:
  assumes "shrinks em em'" "map_ok em"
  shows "subseq (session_exchanges sid em') (session_exchanges sid em)"
proof -
  have sub: "subseq (map snd (exchanges em')) (map snd (exchanges em))" using assms(1) by (simp add: shrinks_def subseq_map)
  let ?P = "\<lambda>em r. session_id (eSession (object_of r em)) = sid \<and> \<not> isClosing (eExchange (object_of r em))"
  have "?P em r" if "?P em' r" "r \<in> set (map snd (exchanges em'))" for r
  proof -
    have "r \<in> set (map snd (exchanges em))" using list_emb_set [OF sub that(2)] by auto
    then have "r < length (objects em)" using assms(2) by (auto simp: map_ok_def)
    from same_object_at [OF assms(1) this] that(1) show ?thesis by (auto simp: same_object_def)
  qed
  then have "subseq (filter (?P em') (map snd (exchanges em'))) (filter (?P em) (map snd (exchanges em')))"
    by (rule filter_implies_subseq)
  also have "subseq (filter (?P em) (map snd (exchanges em'))) (filter (?P em) (map snd (exchanges em)))"
    by (rule subseq_filter [OF sub])
  finally show ?thesis by (simp add: session_exchanges_def)
qed

lemma shrinks_limit_ok:
  assumes "shrinks em em'" "map_ok em" "limit_ok em"
  shows "limit_ok em'"
  using list_emb_length [OF shrinks_open [OF assms(1,2)]] assms(3) unfolding limit_ok_def open_in_def by (meson order_trans)

lemma close_exchange_closes:
  assumes "closing_ok x"
  shows "isClosing (fst (close_exchange False x))"
proof -
  have "isClosing (fst (sendStandaloneAckForMessage m (ThenClose False)
      (x\<lparr>isClosing := True, receivedMessageAckTimer := False, receivedMessageToAck := None\<rparr>)))" for m
    using sendStandaloneAck_keeps [of "ThenClose False" "x\<lparr>isClosing := True, receivedMessageAckTimer := False, receivedMessageToAck := None\<rparr>" m]
    by (simp add: keeps_def)
  with assms show ?thesis
    by (auto simp: close_exchange_def Let_def start_close_timer_def closing_ok_def split: option.splits)
qed

lemma run_exchange_closes:
  assumes "r < length (objects em)" "objects_ok em"
  shows "isClosing (eExchange (object_of r (fst (run_exchange (close_exchange False) r em))))"
proof -
  let ?em = "fst (call_exchange (close_exchange False) r em)"
  have c: "isClosing (eExchange (object_of r ?em))"
    using assms(1) close_exchange_closes [OF objects_okD [OF assms(2,1)]]
    by (simp add: call_exchange_def object_of_def split_beta)
  have l: "r < length (objects ?em)" using assms(1) by (simp add: call_exchange_def split: prod.splits)
  have "isClosing (eExchange (object_of r (fst (deleteExchange i ?em))))" for i
    using same_object_at [OF deleteExchange_shrinks [of ?em i] l] c by (simp add: same_object_def)
  with c show ?thesis by (auto simp: run_exchange_def Let_def split: prod.splits) (metis fst_conv)+
qed

lemma filter_update_length:
  "length (filter P (map snd (AList.update i r xs))) \<le> length (filter P (map snd xs)) + (if P r then 1 else 0)"
  by (induction xs) auto

lemma in_update:
  "distinct (map fst xs) \<Longrightarrow> (i', r') \<in> set (AList.update i r xs) \<Longrightarrow> (i', r') = (i, r) \<or> (i', r') \<in> set xs"
  by (induction xs) (auto split: if_splits)

lemma addExchange_ok:
  assumes "map_ok em" "limit_ok em" "closing_ok (eExchange e)" "xExchangeId (eExchange e) = eIndex e mod 65536"
  shows "map_ok (fst (snd (addExchange e em)))" "limit_ok (fst (snd (addExchange e em)))"
    "fst (addExchange e em) < length (objects (fst (snd (addExchange e em))))"
    "same_object e (object_of (fst (addExchange e em)) (fst (snd (addExchange e em))))"
proof -
  let ?r = "length (objects em)"
  let ?em = "em\<lparr>objects := objects em @ [e], exchanges := AList.update (eIndex e) ?r (exchanges em)\<rparr>"
  let ?sid = "session_id (eSession e)"
  have d: "distinct (map fst (exchanges em))" using assms(1) by (simp add: map_ok_def)
  have old: "object_of r ?em = object_of r em" if "r < length (objects em)" for r using that by (simp add: object_of_def nth_append)
  have ex: "exchanges ?em = AList.update (eIndex e) ?r (exchanges em)" by simp
  have new: "object_of ?r ?em = e" by (simp add: object_of_def)
  have ok: "map_ok ?em"
  proof -
    have "r < length (objects ?em) \<and> eIndex (object_of r ?em) = i \<and> 0 \<le> xExchangeId (eExchange (object_of r ?em)) \<and>
        xExchangeId (eExchange (object_of r ?em)) = i mod 65536" if "(i, r) \<in> set (exchanges ?em)" for i r
    proof (cases "(i, r) = (eIndex e, ?r)")
      case True
      then show ?thesis using new assms(4) by simp
    next
      case False
      with in_update [OF d, of i r "eIndex e" ?r] that have "(i, r) \<in> set (exchanges em)" by auto
      with assms(1) have "r < length (objects em)" "eIndex (object_of r em) = i" "0 \<le> xExchangeId (eExchange (object_of r em))"
        "xExchangeId (eExchange (object_of r em)) = i mod 65536" by (auto simp: map_ok_def)
      with old show ?thesis by simp
    qed
    moreover have "distinct (map fst (exchanges ?em))" using d by (simp add: distinct_update)
    ultimately show ?thesis using assms(1,3) by (auto simp: map_ok_def objects_ok_def)
  qed
  have count: "open_in sid ?em \<le> open_in sid em + (if sid = ?sid then 1 else 0)" for sid
  proof -
    let ?P = "\<lambda>em r. session_id (eSession (object_of r em)) = sid \<and> \<not> isClosing (eExchange (object_of r em))"
    have "filter (?P ?em) (map snd (exchanges em)) = filter (?P em) (map snd (exchanges em))"
    proof (rule filter_cong [OF refl])
      fix r assume "r \<in> set (map snd (exchanges em))"
      with assms(1) have "r < length (objects em)" by (auto simp: map_ok_def)
      then show "?P ?em r = ?P em r" by (simp only: old)
    qed
    moreover have "length (session_exchanges sid ?em) \<le> length (filter (?P ?em) (map snd (exchanges em))) + (if ?P ?em ?r then 1 else 0)"
      unfolding session_exchanges_def ex by (rule filter_update_length)
    ultimately show ?thesis unfolding open_in_def new by (auto simp: session_exchanges_def split: if_splits)
  qed
  have add: "addExchange e em = (?r, cleanupSessionExchanges ?sid ?em)" by (simp add: addExchange_def Let_def)
  have shrink: "shrinks ?em (fst (cleanupSessionExchanges ?sid ?em))"
    by (auto simp: cleanupSessionExchanges_def Let_def intro!: run_exchange_shrinks close_exchange_keeps)
  show "map_ok (fst (snd (addExchange e em)))" unfolding add using shrinks_map_ok [OF shrink ok] by simp
  have len: "length (objects (fst (cleanupSessionExchanges ?sid ?em))) = Suc ?r"
    using shrink by (auto simp: shrinks_def dest: list_all2_lengthD)
  then show "fst (addExchange e em) < length (objects (fst (snd (addExchange e em))))" unfolding add by simp
  show "same_object e (object_of (fst (addExchange e em)) (fst (snd (addExchange e em))))"
    unfolding add using same_object_at [OF shrink, of ?r] new by simp
  show "limit_ok (fst (snd (addExchange e em)))"
    unfolding limit_ok_def add snd_conv
  proof (intro allI impI)
    fix sid assume s: "sid \<noteq> UNICAST_UNSECURE_SESSION_ID"
    let ?em' = "fst (cleanupSessionExchanges ?sid ?em)"
    have sub: "subseq (session_exchanges sid ?em') (session_exchanges sid ?em)" by (rule shrinks_open [OF shrink ok])
    have lim: "open_in sid em \<le> MAXIMUM_CONCURRENT_EXCHANGES_PER_SESSION" using assms(2) s by (simp add: limit_ok_def)
    show "open_in sid ?em' \<le> MAXIMUM_CONCURRENT_EXCHANGES_PER_SESSION"
    proof (cases "open_in sid ?em \<le> MAXIMUM_CONCURRENT_EXCHANGES_PER_SESSION")
      case True
      then show ?thesis using list_emb_length [OF sub] by (simp add: open_in_def)
    next
      case False
      then have sid: "sid = ?sid" and six: "open_in sid ?em = Suc MAXIMUM_CONCURRENT_EXCHANGES_PER_SESSION"
        using count [of sid] lim by (auto split: if_splits)
      let ?rs = "session_exchanges sid ?em"
      have r0: "?rs ! 0 \<in> set ?rs" using six by (auto simp: open_in_def)
      then have "?rs ! 0 < length (objects ?em)" using ok by (auto simp: session_exchanges_def map_ok_def)
      moreover have "objects_ok ?em" using ok by (simp add: map_ok_def)
      moreover have "?em' = fst (run_exchange (close_exchange False) (?rs ! 0) ?em)"
        using six s sid by (simp add: cleanupSessionExchanges_def Let_def open_in_def)
      ultimately have "isClosing (eExchange (object_of (?rs ! 0) ?em'))" using run_exchange_closes by simp
      then have "?rs ! 0 \<notin> set (session_exchanges sid ?em')" by (simp add: session_exchanges_def)
      with r0 have "session_exchanges sid ?em' \<noteq> ?rs" by metis
      then have "length (session_exchanges sid ?em') < length ?rs"
        using list_emb_length [OF sub] subseq_same_length [OF sub] by (meson le_neq_implies_less)
      then show ?thesis using six by (simp add: open_in_def)
    qed
  qed
qed

lemma exchange_id_index:
  assumes "0 \<le> i" "i \<le> 0xffff"
  shows "js_or i 0x10000 mod 65536 = i"
proof -
  have "(i OR 65536) mod 65536 = take_bit 16 (i OR 65536)" by (simp add: take_bit_eq_mod)
  also have "\<dots> = take_bit 16 i OR take_bit 16 65536" by (rule take_bit_or)
  also have "\<dots> = i" using assms by (simp add: take_bit_eq_mod)
  finally show ?thesis using assms by (simp add: js_or_def)
qed

lemma exchange_index_id:
  assumes "0 \<le> exchangeId (payloadHeader m)" "exchangeId (payloadHeader m) \<le> 0xffff"
  shows "exchange_index m mod 65536 = exchangeId (payloadHeader m)"
  using assms exchange_id_index [OF assms] by (simp add: exchange_index_def)

lemma new_exchange_closing_ok [simp]: "closing_ok (new_MessageExchange ctx ini s n pn i p)"
  by (simp add: closing_ok_def new_MessageExchange_def)

definition manager_ok :: "exchange_manager \<Rightarrow> bool" where
  "manager_ok em \<longleftrightarrow> map_ok em \<and> limit_ok em"

lemma shrinks_ok: "shrinks em em' \<Longrightarrow> manager_ok em \<Longrightarrow> manager_ok em'"
  using shrinks_map_ok shrinks_limit_ok by (auto simp: manager_ok_def)

lemma same_tables_ok:
  assumes "manager_ok em" "objects em' = objects em" "exchanges em' = exchanges em" "0 \<le> exchangeCounter em'" "exchangeCounter em' \<le> 0xffff"
  shows "manager_ok em'"
proof -
  have "object_of r em' = object_of r em" for r using assms(2) by (simp add: object_of_def)
  with assms show ?thesis
    by (simp add: manager_ok_def map_ok_def limit_ok_def open_in_def session_exchanges_def objects_ok_def)
qed

lemma manager_ok_objects: "manager_ok em \<Longrightarrow> objects_ok em"
  by (simp add: manager_ok_def map_ok_def)

text \<open>Adding an exchange and calling a method of it.\<close>

lemma add_and_run_ok:
  assumes "manager_ok em" "closing_ok (eExchange e)" "xExchangeId (eExchange e) = eIndex e mod 65536"
    and "addExchange e em = (r, em1, out)" "\<And>x. keeps x (f x)"
  shows "manager_ok (fst (run_exchange f r em1))"
proof -
  have "manager_ok em1"
    using addExchange_ok [OF _ _ assms(2,3), of em] assms(1,4) by (simp add: manager_ok_def)
  then show ?thesis by (rule shrinks_ok [OF run_exchange_shrinks, rotated]) (rule assms(5))
qed

lemma dispatch_ok:
  assumes "manager_ok em" "0 \<le> exchangeId (payloadHeader m)" "exchangeId (payloadHeader m) \<le> 0xffff"
  shows "manager_ok (fst (dispatch channel s m isDuplicate em))"
proof -
  have e: "closing_ok (eExchange (entry_for ctx s m))"
    "xExchangeId (eExchange (entry_for ctx s m)) = eIndex (entry_for ctx s m) mod 65536" for ctx
    using exchange_index_id [OF assms(2,3)] by (simp_all add: entry_for_def fromInitialMessage_def) (simp add: new_MessageExchange_def)
  have o: "manager_ok (fst (open_exchange ctx s m em))" for ctx
  proof -
    obtain r em1 out where add: "addExchange (entry_for ctx s m) em = (r, em1, out)" using prod_cases3 by blast
    have "fst (open_exchange ctx s m em) = (if messageType (payloadHeader m) = StandaloneAck \<and> \<not> requiresAck (payloadHeader m) then em
        else fst (run_exchange (onMessageReceived m False) r em1))"
      by (simp add: open_exchange_def add split_beta)
    with add_and_run_ok [OF assms(1) e add onMessageReceived_keeps] assms(1) show ?thesis by simp
  qed
  have a: "manager_ok (fst (acknowledge_unsolicited ctx s m em))" for ctx
  proof -
    obtain r em1 out where add: "addExchange (entry_for ctx s m) em = (r, em1, out)" using prod_cases3 by blast
    have "fst (acknowledge_unsolicited ctx s m em) = fst (run_exchange (send_begin StandaloneAck []
        (no_send_options\<lparr>includeAcknowledgeMessageId := Some (messageId (packetHeader m))\<rparr>) ThenReturn) r em1)"
      by (simp add: acknowledge_unsolicited_def add split_beta)
    moreover have "keeps x (send_begin StandaloneAck [] opts ThenReturn x)" for x opts by (rule send_begin_keeps) simp
    ultimately show ?thesis using add_and_run_ok [OF assms(1) e add] by simp
  qed
  have "manager_ok (fst (run_exchange (onMessageReceived m d) r em))" for r d
    by (rule shrinks_ok [OF run_exchange_shrinks assms(1)]) (rule onMessageReceived_keeps)
  with o a assms(1) show ?thesis by (cases "find_exchange s m em") (simp_all add: dispatch_def)
qed

lemma decodePayloadHeader_exchangeId:
  "decodePayloadHeader r = Inr (h, r') \<Longrightarrow> 0 \<le> exchangeId h \<and> exchangeId h \<le> 0xffff"
  by (auto simp: decodePayloadHeader_def readUInt16_def Let_def and_then_Inr_iff split: prod.splits dest: read_uint_range)

lemma decodePayload_exchangeId:
  "decodePayload p = Inr m \<Longrightarrow> 0 \<le> exchangeId (dpayloadHeader m) \<and> exchangeId (dpayloadHeader m) \<le> 0xffff"
  by (auto simp: decodePayload_def Let_def and_then_Inr_iff split: prod.splits if_splits dest: decodePayloadHeader_exchangeId)

lemma receive_message_exchangeId:
  assumes "receive_message decrypt closing bytes sm = (sm', Inr (Some (s, m, dup)))"
  shows "0 \<le> exchangeId (dpayloadHeader m) \<and> exchangeId (dpayloadHeader m) \<le> 0xffff"
proof -
  have "\<exists>p. decodePayload p = Inr m"
    using assms
    by (auto simp: receive_message_def receive_secure_def receive_insecure_def session_decode_def Let_def and_then_Inr_iff
        split: sum.splits option.splits if_splits prod.splits)
  then show ?thesis using decodePayload_exchangeId by blast
qed

lemma onMessage_ok:
  assumes "manager_ok em"
  shows "manager_ok (fst (onMessage decrypt channel name bytes em))"
proof -
  obtain sm r where r: "receive_message decrypt (managerClosing em) bytes (sessionTable em) = (sm, r)" by fastforce
  let ?em = "(count_bytes name (length bytes) em)\<lparr>sessionTable := sm\<rparr>"
  have ok: "manager_ok ?em"
    using assms by (intro same_tables_ok [OF assms]) (simp_all add: count_bytes_def manager_ok_def map_ok_def)
  have e: "onMessage decrypt channel name bytes em =
      (case r of Inl e \<Rightarrow> (?em, [Failed e]) | Inr None \<Rightarrow> (?em, [])
       | Inr (Some (s, m, isDuplicate)) \<Rightarrow> dispatch channel s (message_of m) isDuplicate ?em)"
    using r by (cases r) (auto simp: onMessage_def Let_def count_bytes_def split: option.splits)
  have "manager_ok (fst (dispatch channel s (message_of m) d ?em))" if "r = Inr (Some (s, m, d))" for s m d
    using receive_message_exchangeId [of decrypt "managerClosing em" bytes "sessionTable em" sm s m d] r that
    by (intro dispatch_ok [OF ok]) (simp_all add: message_of_def)
  with ok show ?thesis unfolding e by (auto split: sum.splits option.splits prod.splits)
qed

lemma initiate_ok:
  assumes "manager_ok em"
  shows "manager_ok (fst (snd (initiateExchangeWithChannel ctx s p em)))"
proof -
  let ?i = "getIncrementedCounter (exchangeCounter em)"
  have i: "0 \<le> ?i" "?i \<le> 0xffff" using assms by (auto simp: getIncrementedCounter_def manager_ok_def map_ok_def)
  have "manager_ok (em\<lparr>exchangeCounter := ?i\<rparr>)" using assms i by (intro same_tables_ok [OF assms]) simp_all
  moreover have "xExchangeId (initiate ctx ?i p) = js_or ?i 0x10000 mod 65536"
    using exchange_id_index [OF i] by (simp add: initiate_def new_MessageExchange_def)
  ultimately show ?thesis
    by (simp add: initiateExchangeWithChannel_def Let_def manager_ok_def addExchange_ok initiate_def)
qed

lemma manager_step_ok:
  assumes "manager_ok em"
  shows "manager_ok (fst (manager_step decrypt channel e em))"
proof (cases e)
  case (OnExchange r ev)
  then show ?thesis using shrinks_ok [OF exchange_event_shrinks [OF manager_ok_objects [OF assms]] assms] assms by simp
next
  case (CloseSession sid)
  then show ?thesis using shrinks_ok [OF closeSession_shrinks assms] by simp
next
  case (Register p)
  have "manager_ok (em\<lparr>protocols := ps\<rparr>)" for ps
    using assms by (intro same_tables_ok [OF assms]) (simp_all add: manager_ok_def map_ok_def)
  with Register assms show ?thesis by (auto simp: addProtocolHandler_def)
next
  case (CloseLater sid)
  have "manager_ok (em\<lparr>closingAfterExchange := c\<rparr>)" for c
    using assms by (intro same_tables_ok [OF assms]) (simp_all add: manager_ok_def map_ok_def)
  with CloseLater show ?thesis by simp
qed (use onMessage_ok [OF assms] initiate_ok [OF assms] in simp_all)

lemma manager_run_ok: "manager_ok em \<Longrightarrow> manager_ok (fst (manager_run decrypt channel es em))"
proof (induction es arbitrary: em)
  case (Cons e es)
  from Cons.IH [OF manager_step_ok [OF Cons.prems], of decrypt channel e] show ?case by (simp add: split_beta)
qed simp

lemma new_manager_ok: "0 \<le> counter \<Longrightarrow> counter \<le> 0xffff \<Longrightarrow> manager_ok (new_ExchangeManager sm counter)"
  by (simp add: manager_ok_def map_ok_def limit_ok_def objects_ok_def open_in_def session_exchanges_def new_ExchangeManager_def)

text \<open>C23: However datagrams, exchanges of our own, timers and closings interleave, a secure session never has more
  than five exchanges in the table that are not closing.\<close>

theorem session_exchanges_bounded:
  assumes "0 \<le> counter" "counter \<le> 0xffff"
    and "em = fst (manager_run decrypt channel events (new_ExchangeManager sm counter))" "sid \<noteq> UNICAST_UNSECURE_SESSION_ID"
  shows "length (session_exchanges sid em) \<le> 5"
  using manager_run_ok [OF new_manager_ok [OF assms(1,2)]] assms(3,4)
  by (auto simp: manager_ok_def limit_ok_def open_in_def MAXIMUM_CONCURRENT_EXCHANGES_PER_SESSION_def)


subsection \<open>Bytes received\<close>

lemma call_exchange_bytes [simp]: "transmissionMetadata (fst (call_exchange f r em)) = transmissionMetadata em"
  by (simp add: call_exchange_def split_beta)

lemma drop_exchange_bytes [simp]: "transmissionMetadata (drop_exchange i em) = transmissionMetadata em"
  by (simp add: drop_exchange_def)

lemma destroy_one_bytes [simp]: "transmissionMetadata (fst (destroy_one r res)) = transmissionMetadata (fst res)"
  using call_exchange_bytes [of destroy_exchange r "fst res"] by (simp add: destroy_one_def Let_def split_beta)

lemma closeSession_bytes [simp]: "transmissionMetadata (fst (closeSession sid em)) = transmissionMetadata em"
proof -
  have "transmissionMetadata (fst (fold (\<lambda>(i, r) res.
      if map_of (exchanges (fst res)) i = Some r \<and> session_id (eSession (object_of r (fst res))) = sid
      then destroy_one r res else res) xs res)) = transmissionMetadata (fst res)" for xs res
    by (induction xs arbitrary: res) auto
  then show ?thesis by (simp add: closeSession_def Let_def)
qed

lemma deleteExchange_bytes [simp]: "transmissionMetadata (fst (deleteExchange i em)) = transmissionMetadata em"
  using closeSession_bytes by (simp add: deleteExchange_def split_beta split: option.splits session_ref.splits)

lemma run_exchange_bytes [simp]: "transmissionMetadata (fst (run_exchange f r em)) = transmissionMetadata em"
  using call_exchange_bytes [of f r em] by (simp add: run_exchange_def Let_def split_beta)

lemma addExchange_bytes [simp]: "transmissionMetadata (fst (snd (addExchange e em))) = transmissionMetadata em"
  by (simp add: addExchange_def cleanupSessionExchanges_def Let_def)

lemma dispatch_bytes [simp]: "transmissionMetadata (fst (dispatch channel s m d em)) = transmissionMetadata em"
proof -
  have "transmissionMetadata (fst (open_exchange ctx s m em)) = transmissionMetadata em"
    "transmissionMetadata (fst (acknowledge_unsolicited ctx s m em)) = transmissionMetadata em" for ctx
    by (simp_all add: open_exchange_def acknowledge_unsolicited_def split_beta)
  then show ?thesis by (cases "find_exchange s m em") (simp_all add: dispatch_def)
qed

lemma step_bytes:
  "transmissionMetadata (fst (manager_step decrypt channel e em)) =
     (case e of
        Datagram name bytes \<Rightarrow> AList.update name
          ((case map_of (transmissionMetadata em) name of None \<Rightarrow> 0 | Some k \<Rightarrow> k) + int (length bytes)) (transmissionMetadata em)
      | _ \<Rightarrow> transmissionMetadata em)"
proof (cases e)
  case (Datagram name bytes)
  then show ?thesis by (simp add: onMessage_def count_bytes_def Let_def split_beta split: sum.splits option.splits)
next
  case (OnExchange r ev)
  have "transmissionMetadata (fst (exchange_event ev r em)) = transmissionMetadata em"
    by (simp add: exchange_event_def split_beta)
  with OnExchange show ?thesis by simp
qed (auto simp: initiateExchangeWithChannel_def addProtocolHandler_def Let_def)

fun bytes_received :: "string \<Rightarrow> manager_event list \<Rightarrow> int" where
  "bytes_received name [] = 0"
| "bytes_received name (Datagram n bytes # es) = (if n = name then int (length bytes) else 0) + bytes_received name es"
| "bytes_received name (_ # es) = bytes_received name es"

definition counted :: "string \<Rightarrow> exchange_manager \<Rightarrow> int" where
  "counted name em = (case map_of (transmissionMetadata em) name of None \<Rightarrow> 0 | Some k \<Rightarrow> k)"

text \<open>The bytes counted for a channel are exactly those of the datagrams that came in on it, accepted or not.\<close>

theorem received_bytes_exact:
  "counted name (fst (manager_run decrypt channel events em)) = counted name em + bytes_received name events"
proof (induction events arbitrary: em)
  case (Cons e es)
  have "counted name (fst (manager_step decrypt channel e em)) = counted name em + bytes_received name [e]"
    unfolding counted_def step_bytes by (cases e) (simp_all add: update_conv')
  moreover have "bytes_received name (e # es) = bytes_received name [e] + bytes_received name es" by (cases e) simp_all
  ultimately show ?case using Cons.IH [of "fst (manager_step decrypt channel e em)"] by (simp add: split_beta)
qed simp

subsection \<open>Concrete runs\<close>

definition sample_request :: "int \<Rightarrow> int \<Rightarrow> message" where
  "sample_request i mid =
     \<lparr>packetHeader = \<lparr>sessionId = 1, sessionType = SessionType_Unicast, hasPrivacyEnhancements = False, isControlMessage = False,
        hasMessageExtensions = False, messageId = mid, sourceNodeId = None, destNodeId = None, destGroupId = None\<rparr>,
      payloadHeader = \<lparr>exchangeId = i, protocolId = 1, messageType = 2, isInitiatorMessage = True, requiresAck = True,
        ackedMessageId = None, hasSecuredExtension = False\<rparr>,
      securityExtension = None, payload = []\<rparr>"

definition sample_table :: exchange_manager where
  "sample_table = (new_ExchangeManager \<lparr>sessions = [], insecureSessions = [], nextSessionId = 1\<rparr> 5)\<lparr>protocols := [1]\<rparr>"

definition udp :: "session_ref \<Rightarrow> exchange_context" where "udp s = example_context"
definition tcp :: "session_ref \<Rightarrow> exchange_context" where "tcp s = example_context\<lparr>ctxReliable := True\<rparr>"

text \<open>
  Two peers that choose the same exchange id: the second exchange takes the first one's place in the
  table, and the messages of the first are not found any more.
\<close>

lemma exchange_displaced:
  "let em1 = fst (dispatch udp (Secure 1) (sample_request 7 100) False sample_table);
       em2 = fst (dispatch udp (Secure 2) (sample_request 7 200) False em1)
   in find_exchange (Secure 1) (sample_request 7 101) em1 = Some 0 \<and> find_exchange (Secure 1) (sample_request 7 101) em2 = None"
  by code_simp

text \<open>All unsecured sessions have the id 0: a message of any of them finds the exchange of another.\<close>

lemma insecure_exchanges_shared: "find_exchange (Insecure a) m em = find_exchange (Insecure b) m em"
  unfolding find_exchange_def session_id.simps by (rule refl)

text \<open>
  On a channel without MRP an unsolicited message that asks for an acknowledgement is answered with an
  error, and the exchange made for it stays in the table.
\<close>

lemma unsolicited_exchange_leaks:
  "let (em, out) = dispatch tcp (Secure 1) ((sample_request 7 100)\<lparr>payloadHeader := (payloadHeader (sample_request 7 100))\<lparr>protocolId := 9\<rparr>\<rparr>)
         False sample_table
   in out = [FromExchange 0 (ThrowsError InternalError)] \<and> map fst (exchanges em) = [7]"
  by code_simp

theorem session_exchanges_bounded_witness:
  "length (session_exchanges 1 (fst (manager_run toy_decrypt udp (replicate 7 (Initiate (Secure 1) 1))
     (new_ExchangeManager \<lparr>sessions = [], insecureSessions = [], nextSessionId = 1\<rparr> 0xffff)))) \<le> 5"
  by (rule session_exchanges_bounded [OF _ _ refl]) (simp_all add: UNICAST_UNSECURE_SESSION_ID_def)

definition sample_answer :: message where
  "sample_answer = (sample_request 0 100)\<lparr>payloadHeader := (payloadHeader (sample_request 0 100))\<lparr>isInitiatorMessage := False\<rparr>\<rparr>"

end
