(* ===== verification/Transactions.thy ===== *)
theory Transactions
  imports Prelude
begin

text \<open>
  The transactions of packages/general/src/transaction: Tx.ts, ResourceSet.ts, Resource.ts and Status.ts.
  Transactions and resources are objects named by numbers; the locks of the resources and the state of
  every transaction make up the system.  A method that waits for locks leaves a job behind, which goes on
  when the transactions it waits for have all been shared once.

  The callbacks of a participant are parameters.  Before and during a commit they only return or throw;
  after it they may use the transaction again.  They run to their end where the code may await them, and
  logging and the monitor of slow transactions are left out.
\<close>

subsection \<open>State\<close>

datatype status = ReadOnly | Shared | Waiting | Exclusive | CommittingPhaseOne | CommittingPhaseTwo | RollingBack | Destroyed

datatype purpose = ForBegin | ForResources "nat list"

record acquisition =
  aResources :: "nat list"
  aPurpose :: purpose
  aWaiting :: bool

record tx =
  txStatus :: status
  txParticipants :: "nat list"
  txRoles :: "(nat \<times> nat) list"
  txResources :: "nat list"
  waitingOn :: "nat list option"
  acquisitions :: "acquisition list"

record tx_system =
  transactions :: "tx list"
  lockedBy :: "nat \<Rightarrow> nat option"
  references :: "(nat \<times> nat) list"

datatype request = AddResources "nat list" | BeginSync | AddParticipants "nat list" | ThrowError

record participant_code =
  pName :: "nat \<Rightarrow> string"
  pRole :: "nat \<Rightarrow> nat option"
  preCommit :: "nat \<Rightarrow> nat \<Rightarrow> bool res"
  commit1 :: "nat \<Rightarrow> unit res"
  commit2 :: "nat \<Rightarrow> unit res"
  postCommit :: "nat \<Rightarrow> request list"
  rollbackP :: "nat \<Rightarrow> unit res"

definition MAX_PRECOMMIT_CYCLES :: nat where "MAX_PRECOMMIT_CYCLES = 5"
definition MAX_CHAINED_COMMITS :: nat where "MAX_CHAINED_COMMITS = 5"

definition new_tx :: "bool \<Rightarrow> tx" where
  "new_tx readonly =
     \<lparr>txStatus = (if readonly then ReadOnly else Shared), txParticipants = [], txRoles = [], txResources = [], waitingOn = None,
      acquisitions = []\<rparr>"

definition tx_of :: "nat \<Rightarrow> tx_system \<Rightarrow> tx" where
  "tx_of t sys = transactions sys ! t"

definition set_tx :: "nat \<Rightarrow> (tx \<Rightarrow> tx) \<Rightarrow> tx_system \<Rightarrow> tx_system" where
  "set_tx t f sys = sys\<lparr>transactions := (transactions sys)[t := f (tx_of t sys)]\<rparr>"

definition set_status :: "status \<Rightarrow> nat \<Rightarrow> tx_system \<Rightarrow> tx_system" where
  "set_status s t sys = set_tx t (\<lambda>x. x\<lparr>txStatus := s\<rparr>) sys"

text \<open>Elements of a \<open>Set\<close> in the order they are added.\<close>

definition add_once :: "'a \<Rightarrow> 'a list \<Rightarrow> 'a list" where
  "add_once x xs = (if x \<in> set xs then xs else xs @ [x])"

definition assertAvailable :: "tx \<Rightarrow> unit res" where
  "assertAvailable x =
     (if txStatus x = Destroyed then Inl TransactionDestroyedError
      else if txStatus x = ReadOnly then Inl ImplementationError else Inr ())"

subsection \<open>Sets of resources\<close>

text \<open>A resource can stand in for another; a chain without a cycle ends within as many steps as there are references.\<close>

fun resolve :: "nat \<Rightarrow> (nat \<times> nat) list \<Rightarrow> nat \<Rightarrow> nat" where
  "resolve 0 refs r = r"
| "resolve (Suc n) refs r = (case map_of refs r of None \<Rightarrow> r | Some r' \<Rightarrow> resolve n refs r')"

definition resource_set :: "nat list \<Rightarrow> tx_system \<Rightarrow> nat list" where
  "resource_set rs sys = fold add_once (map (resolve (length (references sys)) (references sys)) rs) []"

definition isLocked :: "nat \<Rightarrow> tx_system \<Rightarrow> bool" where
  "isLocked r sys \<longleftrightarrow> lockedBy sys (resolve (length (references sys)) (references sys) r) \<noteq> None"

definition blockers :: "nat \<Rightarrow> nat list \<Rightarrow> tx_system \<Rightarrow> nat list" where
  "blockers t rs sys = fold add_once (concat (map (\<lambda>r. case lockedBy sys r of None \<Rightarrow> [] | Some u \<Rightarrow> if u = t then [] else [u]) rs)) []"

definition acquireLocksSync :: "nat \<Rightarrow> nat list \<Rightarrow> tx_system \<Rightarrow> tx_system res" where
  "acquireLocksSync t rs sys =
     (if blockers t rs sys \<noteq> [] then Inl SynchronousTransactionConflictError
      else Inr (sys\<lparr>lockedBy := \<lambda>r. if r \<in> set rs then Some t else lockedBy sys r\<rparr>))"

definition releaseLocks :: "nat \<Rightarrow> nat list \<Rightarrow> tx_system \<Rightarrow> tx_system" where
  "releaseLocks t rs sys = sys\<lparr>lockedBy := \<lambda>r. if r \<in> set rs \<and> lockedBy sys r = Some t then None else lockedBy sys r\<rparr>"

definition assertResourcesAreLocked :: "nat \<Rightarrow> tx_system \<Rightarrow> unit res" where
  "assertResourcesAreLocked t sys =
     (if \<forall>r\<in>set (txResources (tx_of t sys)). lockedBy sys r = Some t then Inr () else Inl TransactionFlowError)"

text \<open>Whom a transaction waits for.\<close>

definition waits_for :: "tx_system \<Rightarrow> nat \<Rightarrow> nat list" where
  "waits_for sys t = (if t < length (transactions sys) then case waitingOn (tx_of t sys) of None \<Rightarrow> [] | Some us \<Rightarrow> us else [])"

text \<open>\<open>examineBlocker\<close>: depth first through those who wait, each examined once.\<close>

function finds_cycle :: "tx_system \<Rightarrow> nat \<Rightarrow> nat list \<Rightarrow> nat set \<Rightarrow> bool" where
  "finds_cycle sys t [] examined = False"
| "finds_cycle sys t (u # us) examined =
     (if u \<in> examined then finds_cycle sys t us examined
      else if u = t then True
      else finds_cycle sys t (waits_for sys u @ us) (insert u examined))"
  by pat_completeness auto

termination
proof (relation "inv_image ({(a, b). a < b} <*lex*> {(a, b). a < b})
    (\<lambda>(sys, t, us, examined). (card ({..< length (transactions sys)} - examined), length us))")
  show "wf (inv_image ({(a :: nat, b). a < b} <*lex*> {(a :: nat, b). a < b})
      (\<lambda>(sys, t, us, examined). (card ({..< length (transactions sys)} - examined), length us)))"
    by (intro wf_inv_image wf_lex_prod wf_less)
next
  fix sys :: tx_system and t u :: nat and us :: "nat list" and examined :: "nat set"
  assume u: "u \<notin> examined" "u \<noteq> t"
  let ?n = "length (transactions sys)"
  show "((sys, t, waits_for sys u @ us, insert u examined), (sys, t, u # us, examined))
    \<in> inv_image ({(a, b). a < b} <*lex*> {(a, b). a < b})
      (\<lambda>(sys, t, us, examined). (card ({..< length (transactions sys)} - examined), length us))"
  proof (cases "u < ?n")
    case True
    then have "{..< ?n} - insert u examined \<subset> {..< ?n} - examined" using u(1) by auto
    then have "card ({..< ?n} - insert u examined) < card ({..< ?n} - examined)" by (intro psubset_card_mono) simp_all
    then show ?thesis by simp
  next
    case False
    then have "waits_for sys u = []" "{..< ?n} - insert u examined = {..< ?n} - examined" by (auto simp: waits_for_def)
    then show ?thesis by simp
  qed
qed simp

definition detectDeadlock :: "nat \<Rightarrow> nat list \<Rightarrow> tx_system \<Rightarrow> bool" where
  "detectDeadlock t us sys \<longleftrightarrow> finds_cycle sys t us {}"

definition waitFor :: "nat \<Rightarrow> nat list \<Rightarrow> tx_system \<Rightarrow> tx_system res" where
  "waitFor t us sys =
     and_then (assertAvailable (tx_of t sys)) (\<lambda>_.
       if waitingOn (tx_of t sys) \<noteq> None then Inl TransactionFlowError
       else Inr (set_tx t (\<lambda>x. x\<lparr>waitingOn := Some us\<rparr>) sys))"

text \<open>One round of \<open>acquireLocks\<close>: it fails, has the locks or waits.\<close>

datatype attempt = Failed js_error | Locked tx_system | Waits tx_system

definition acquire_once :: "nat \<Rightarrow> nat list \<Rightarrow> tx_system \<Rightarrow> attempt" where
  "acquire_once t rs sys =
     (let us = blockers t rs sys
      in if us = [] then (case acquireLocksSync t rs sys of Inl e \<Rightarrow> Failed e | Inr sys' \<Rightarrow> Locked sys')
         else if detectDeadlock t us sys then Failed TransactionDeadlockError
         else (case waitFor t us sys of Inl e \<Rightarrow> Failed e | Inr sys' \<Rightarrow> Waits sys'))"

subsection \<open>Adding resources and beginning\<close>

datatype outcome = Returned | Threw js_error | Pending

definition add_all :: "nat list \<Rightarrow> nat \<Rightarrow> tx_system \<Rightarrow> tx_system" where
  "add_all rs t sys = set_tx t (\<lambda>x. x\<lparr>txResources := fold add_once rs (txResources x)\<rparr>) sys"

definition addResourcesSync :: "nat list \<Rightarrow> nat \<Rightarrow> tx_system \<Rightarrow> tx_system \<times> outcome" where
  "addResourcesSync rs t sys =
     (case assertAvailable (tx_of t sys) of
        Inl e \<Rightarrow> (sys, Threw e)
      | Inr _ \<Rightarrow>
          if txStatus (tx_of t sys) = Exclusive then
            (case acquireLocksSync t (resource_set rs sys) sys of
               Inl e \<Rightarrow> (sys, Threw e)
             | Inr sys' \<Rightarrow> (add_all rs t sys', Returned))
          else if txStatus (tx_of t sys) \<noteq> Shared then (sys, Threw TransactionFlowError)
          else (add_all rs t sys, Returned))"

text \<open>What follows an attempt to lock.  An error puts a transaction that begins back to shared, whatever it is by then.\<close>

definition after_attempt :: "attempt \<Rightarrow> purpose \<Rightarrow> nat list \<Rightarrow> nat \<Rightarrow> tx_system \<Rightarrow> tx_system \<times> outcome" where
  "after_attempt r p rs t sys =
     (case r of
        Failed e \<Rightarrow> ((case p of ForBegin \<Rightarrow> set_status Shared t sys | ForResources _ \<Rightarrow> sys), Threw e)
      | Locked sys' \<Rightarrow>
          (case p of
             ForBegin \<Rightarrow> (set_status Exclusive t sys', Returned)
           | ForResources added \<Rightarrow> addResourcesSync added t sys')
      | Waits sys' \<Rightarrow>
          (set_tx t (\<lambda>x. x\<lparr>acquisitions := acquisitions x @ [\<lparr>aResources = rs, aPurpose = p, aWaiting = True\<rparr>]\<rparr>) sys', Pending))"

definition addResources :: "nat list \<Rightarrow> nat \<Rightarrow> tx_system \<Rightarrow> tx_system \<times> outcome" where
  "addResources rs t sys =
     (case assertAvailable (tx_of t sys) of
        Inl e \<Rightarrow> (sys, Threw e)
      | Inr _ \<Rightarrow>
          if txStatus (tx_of t sys) = Exclusive then
            let set = resource_set rs sys in after_attempt (acquire_once t set sys) (ForResources rs) set t sys
          else addResourcesSync rs t sys)"

definition begin_tx :: "nat \<Rightarrow> tx_system \<Rightarrow> tx_system \<times> outcome" where
  "begin_tx t sys =
     (case assertAvailable (tx_of t sys) of
        Inl e \<Rightarrow> (sys, Threw e)
      | Inr _ \<Rightarrow>
          if txStatus (tx_of t sys) = Exclusive then (sys, Returned)
          else if txStatus (tx_of t sys) \<noteq> Shared then (sys, Threw TransactionFlowError)
          else
            let sys = set_status Waiting t sys; set = resource_set (txResources (tx_of t sys)) sys
            in after_attempt (acquire_once t set sys) ForBegin set t sys)"

definition beginSync :: "nat \<Rightarrow> tx_system \<Rightarrow> tx_system \<times> outcome" where
  "beginSync t sys =
     (case assertAvailable (tx_of t sys) of
        Inl e \<Rightarrow> (sys, Threw e)
      | Inr _ \<Rightarrow>
          if txStatus (tx_of t sys) = Exclusive then (sys, Returned)
          else if txStatus (tx_of t sys) \<noteq> Shared then (sys, Threw TransactionFlowError)
          else
            (case acquireLocksSync t (resource_set (txResources (tx_of t sys)) sys) sys of
               Inl e \<Rightarrow> (set_status Shared t sys, Threw e)
             | Inr sys' \<Rightarrow> (set_status Exclusive t sys', Returned)))"

text \<open>A waiting method goes on when nobody is left to wait for: it looks at the locks again.\<close>

definition resume :: "nat \<Rightarrow> nat \<Rightarrow> tx_system \<Rightarrow> tx_system \<times> outcome" where
  "resume t k sys =
     (let js = acquisitions (tx_of t sys)
      in if k < length js \<and> \<not> aWaiting (js ! k) then
           let j = js ! k;
               sys = set_tx t (\<lambda>x. x\<lparr>acquisitions := take k js @ drop (Suc k) js\<rparr>) sys
           in after_attempt (acquire_once t (aResources j) sys) (aPurpose j) (aResources j) t sys
         else (sys, Pending))"

subsection \<open>Participants\<close>

fun addParticipants :: "participant_code \<Rightarrow> nat list \<Rightarrow> nat \<Rightarrow> tx_system \<Rightarrow> tx_system \<times> outcome" where
  "addParticipants code [] t sys =
     (case assertAvailable (tx_of t sys) of Inl e \<Rightarrow> (sys, Threw e) | Inr _ \<Rightarrow> (sys, Returned))"
| "addParticipants code (p # ps) t sys =
     (case assertAvailable (tx_of t sys) of
        Inl e \<Rightarrow> (sys, Threw e)
      | Inr _ \<Rightarrow>
          let x = tx_of t sys
          in if p \<in> set (txParticipants x) then addParticipants code ps t sys
             else if pName code p \<in> pName code ` set (txParticipants x) then (sys, Threw ImplementationError)
             else
               let sys = set_tx t (\<lambda>x. x\<lparr>txParticipants := txParticipants x @ [p]\<rparr>) sys
               in case pRole code p of
                    None \<Rightarrow> addParticipants code ps t sys
                  | Some role \<Rightarrow>
                      if map_of (txRoles x) role \<noteq> None then (sys, Threw TransactionFlowError)
                      else addParticipants code ps t (set_tx t (\<lambda>x. x\<lparr>txRoles := txRoles x @ [(role, p)]\<rparr>) sys))"

definition getParticipant :: "nat \<Rightarrow> nat \<Rightarrow> tx_system \<Rightarrow> nat option res" where
  "getParticipant role t sys = and_then (assertAvailable (tx_of t sys)) (\<lambda>_. Inr (map_of (txRoles (tx_of t sys)) role))"

subsection \<open>Finalizing\<close>

datatype call = PreCommit nat | Commit1 nat | Commit2 nat | PostCommit nat | Rollback nat

text \<open>The event \<open>shared\<close> of a transaction: those who wait only for it are woken.\<close>

definition notify_one :: "nat \<Rightarrow> tx \<Rightarrow> tx" where
  "notify_one t x =
     (case waitingOn x of
        None \<Rightarrow> x
      | Some us \<Rightarrow>
          if t \<notin> set us then x
          else if filter (\<lambda>u. u \<noteq> t) us \<noteq> [] then x\<lparr>waitingOn := Some (filter (\<lambda>u. u \<noteq> t) us)\<rparr>
          else x\<lparr>waitingOn := None, acquisitions := map (\<lambda>a. a\<lparr>aWaiting := False\<rparr>) (acquisitions x)\<rparr>)"

definition emit_shared :: "nat \<Rightarrow> tx_system \<Rightarrow> tx_system" where
  "emit_shared t sys = sys\<lparr>transactions := map (notify_one t) (transactions sys)\<rparr>"

definition cleanup :: "nat \<Rightarrow> tx_system \<Rightarrow> tx_system" where
  "cleanup t sys =
     emit_shared t (set_status Shared t (set_tx t (\<lambda>x. x\<lparr>txParticipants := []\<rparr>)
       (releaseLocks t (resource_set (txResources (tx_of t sys)) sys) sys)))"

type_synonym finalizer = "nat list \<Rightarrow> call list \<times> unit res"

definition finalize :: "finalizer \<Rightarrow> nat \<Rightarrow> tx_system \<Rightarrow> tx_system \<times> call list \<times> unit res" where
  "finalize f t sys =
     (if txStatus (tx_of t sys) \<noteq> Shared \<and> txStatus (tx_of t sys) \<noteq> Exclusive then (sys, [], Inl TransactionFlowError)
      else
        let (log, r) = f (txParticipants (tx_of t sys))
        in (cleanup t sys, log, r))"

definition executeRollback :: "participant_code \<Rightarrow> finalizer" where
  "executeRollback code ps =
     (map Rollback ps, if \<exists>p\<in>set ps. isl (rollbackP code p) then Inl FinalizationError else Inr ())"

fun commit1_all :: "participant_code \<Rightarrow> nat list \<Rightarrow> call list \<times> bool" where
  "commit1_all code [] = ([], True)"
| "commit1_all code (p # ps) =
     (if isl (commit1 code p) then ([Commit1 p], False)
      else let (log, ok) = commit1_all code ps in (Commit1 p # log, ok))"

definition executeCommit2 :: "participant_code \<Rightarrow> finalizer" where
  "executeCommit2 code ps =
     (map Commit2 ps, if \<exists>p\<in>set ps. isl (commit2 code p) then Inl FinalizationError else Inr ())"

definition executeCommit :: "participant_code \<Rightarrow> finalizer" where
  "executeCommit code ps =
     (let (log, ok) = commit1_all code ps
      in if ok then let (log', r) = executeCommit2 code ps in (log @ log', r)
         else let (log', r) = executeRollback code ps in (log @ log', Inl FinalizationError))"

fun precommit_cycle :: "participant_code \<Rightarrow> nat \<Rightarrow> nat list \<Rightarrow> bool \<Rightarrow> call list \<times> bool res" where
  "precommit_cycle code c [] mutated = ([], Inr mutated)"
| "precommit_cycle code c (p # ps) mutated =
     (case preCommit code p c of
        Inl e \<Rightarrow> ([PreCommit p], Inl e)
      | Inr b \<Rightarrow> let (log, r) = precommit_cycle code c ps (mutated \<or> b) in (PreCommit p # log, r))"

text \<open>The cycles, of which \<open>left\<close> may still follow this one.\<close>

fun precommit_cycles :: "participant_code \<Rightarrow> nat \<Rightarrow> nat \<Rightarrow> nat list \<Rightarrow> call list \<times> unit res" where
  "precommit_cycles code left c ps =
     (let (log, r) = precommit_cycle code c ps False
      in case r of
           Inl e \<Rightarrow> (log, Inl e)
         | Inr False \<Rightarrow> (log, Inr ())
         | Inr True \<Rightarrow>
             (case left of
                0 \<Rightarrow> (log, Inl UnsettledStateError)
              | Suc left' \<Rightarrow> let (log', r) = precommit_cycles code left' (Suc c) ps in (log @ log', r)))"

definition executePreCommit :: "participant_code \<Rightarrow> nat list \<Rightarrow> call list \<times> unit res" where
  "executePreCommit code ps = precommit_cycles code (MAX_PRECOMMIT_CYCLES - 1) 1 ps"

definition run_request :: "participant_code \<Rightarrow> nat \<Rightarrow> request \<Rightarrow> tx_system \<Rightarrow> tx_system \<times> outcome" where
  "run_request code t q sys =
     (case q of
        AddResources rs \<Rightarrow> addResourcesSync rs t sys
      | BeginSync \<Rightarrow> beginSync t sys
      | AddParticipants ps \<Rightarrow> addParticipants code ps t sys
      | ThrowError \<Rightarrow> (sys, Threw PlainError))"

fun run_requests :: "participant_code \<Rightarrow> nat \<Rightarrow> request list \<Rightarrow> tx_system \<Rightarrow> tx_system \<times> unit res" where
  "run_requests code t [] sys = (sys, Inr ())"
| "run_requests code t (q # qs) sys =
     (case run_request code t q sys of
        (sys', Threw e) \<Rightarrow> (sys', Inl e)
      | (sys', _) \<Rightarrow> run_requests code t qs sys')"

text \<open>An error in a callback after the commit is logged and ends these callbacks.\<close>

fun executePostCommit :: "participant_code \<Rightarrow> nat \<Rightarrow> nat list \<Rightarrow> tx_system \<Rightarrow> tx_system \<times> call list" where
  "executePostCommit code t [] sys = (sys, [])"
| "executePostCommit code t (p # ps) sys =
     (case run_requests code t (postCommit code p) sys of
        (sys', Inl e) \<Rightarrow> (sys', [PostCommit p])
      | (sys', Inr _) \<Rightarrow> let (sys'', log) = executePostCommit code t ps sys' in (sys'', PostCommit p # log))"

definition rollback_tx :: "participant_code \<Rightarrow> nat \<Rightarrow> tx_system \<Rightarrow> tx_system \<times> call list \<times> unit res" where
  "rollback_tx code t sys =
     (case assertAvailable (tx_of t sys) of
        Inl e \<Rightarrow> (sys, [], Inl e)
      | Inr _ \<Rightarrow> finalize (executeRollback code) t sys)"

definition commit_tx :: "participant_code \<Rightarrow> nat \<Rightarrow> tx_system \<Rightarrow> tx_system \<times> call list \<times> unit res" where
  "commit_tx code t sys =
     (case assertAvailable (tx_of t sys) of
        Inl e \<Rightarrow> (sys, [], Inl e)
      | Inr _ \<Rightarrow>
          if txStatus (tx_of t sys) = Shared then rollback_tx code t sys
          else
            let ps = txParticipants (tx_of t sys); (log, r) = executePreCommit code ps
            in case r of
                 Inl e \<Rightarrow>
                   let (sys, log', r) = finalize (executeRollback code) t sys
                   in (sys, log @ log', case r of Inl e' \<Rightarrow> Inl e' | Inr _ \<Rightarrow> Inl e)
               | Inr _ \<Rightarrow>
                   let (sys, log', r) = finalize (executeCommit code) t sys
                   in case r of
                        Inl e \<Rightarrow> (sys, log @ log', Inl e)
                      | Inr _ \<Rightarrow> let (sys, log'') = executePostCommit code t ps sys in (sys, log @ log' @ log'', Inr ()))"

definition close_tx :: "nat \<Rightarrow> tx_system \<Rightarrow> tx_system" where
  "close_tx t sys = set_tx t (\<lambda>x. x\<lparr>txStatus := Destroyed, txResources := [], txRoles := [], txParticipants := []\<rparr>) sys"

subsection \<open>Acting in a transaction\<close>

text \<open>\<open>commitTransaction\<close>: callbacks after a commit can make the transaction exclusive again, and it is committed again.\<close>

fun commit_chain :: "participant_code \<Rightarrow> nat \<Rightarrow> nat \<Rightarrow> tx_system \<Rightarrow> tx_system \<times> unit res" where
  "commit_chain code 0 t sys = (sys, Inl TransactionFlowError)"
| "commit_chain code (Suc n) t sys =
     (case commit_tx code t sys of
        (sys', log, Inl e) \<Rightarrow> (sys', Inl e)
      | (sys', log, Inr _) \<Rightarrow> if txStatus (tx_of t sys') = Exclusive then commit_chain code n t sys' else (sys', Inr ()))"

definition act :: "participant_code \<Rightarrow> request list \<Rightarrow> tx_system \<Rightarrow> tx_system \<times> unit res" where
  "act code actor sys =
     (let t = length (transactions sys);
          sys = sys\<lparr>transactions := transactions sys @ [new_tx False]\<rparr>;
          (sys, r) = run_requests code t actor sys;
          (sys, r) =
            (case r of
               Inl e \<Rightarrow> (fst (rollback_tx code t sys), Inl e)
             | Inr _ \<Rightarrow> commit_chain code MAX_CHAINED_COMMITS t sys)
      in (close_tx t sys, r))"

subsection \<open>Transactions side by side\<close>

datatype event =
    Create bool
  | AddResourcesCall nat "nat list"
  | AddResourcesSyncCall nat "nat list"
  | BeginCall nat
  | BeginSyncCall nat
  | AddParticipantsCall nat "nat list"
  | CommitCall nat
  | RollbackCall nat
  | CloseCall nat
  | GoOn nat nat
  | Act "request list"

definition exists_tx :: "nat \<Rightarrow> tx_system \<Rightarrow> bool" where
  "exists_tx t sys \<longleftrightarrow> t < length (transactions sys)"

definition perform :: "participant_code \<Rightarrow> event \<Rightarrow> tx_system \<Rightarrow> tx_system" where
  "perform code e sys =
     (case e of
        Create readonly \<Rightarrow> sys\<lparr>transactions := transactions sys @ [new_tx readonly]\<rparr>
      | AddResourcesCall t rs \<Rightarrow> if exists_tx t sys then fst (addResources rs t sys) else sys
      | AddResourcesSyncCall t rs \<Rightarrow> if exists_tx t sys then fst (addResourcesSync rs t sys) else sys
      | BeginCall t \<Rightarrow> if exists_tx t sys then fst (begin_tx t sys) else sys
      | BeginSyncCall t \<Rightarrow> if exists_tx t sys then fst (beginSync t sys) else sys
      | AddParticipantsCall t ps \<Rightarrow> if exists_tx t sys then fst (addParticipants code ps t sys) else sys
      | CommitCall t \<Rightarrow> if exists_tx t sys then fst (commit_tx code t sys) else sys
      | RollbackCall t \<Rightarrow> if exists_tx t sys then fst (rollback_tx code t sys) else sys
      | CloseCall t \<Rightarrow> if exists_tx t sys then close_tx t sys else sys
      | GoOn t k \<Rightarrow> if exists_tx t sys then fst (resume t k sys) else sys
      | Act actor \<Rightarrow> fst (act code actor sys))"

fun run_events :: "participant_code \<Rightarrow> event list \<Rightarrow> tx_system \<Rightarrow> tx_system" where
  "run_events code [] sys = sys"
| "run_events code (e # es) sys = run_events code es (perform code e sys)"

definition no_transactions :: "(nat \<times> nat) list \<Rightarrow> tx_system" where
  "no_transactions refs = \<lparr>transactions = [], lockedBy = \<lambda>_. None, references = refs\<rparr>"

text \<open>Who waits for whom.\<close>

definition wait_graph :: "tx_system \<Rightarrow> (nat \<times> nat) set" where
  "wait_graph sys = {(a, b). b \<in> set (waits_for sys a)}"

lemma in_wait_graph [simp]: "(a, b) \<in> wait_graph sys \<longleftrightarrow> b \<in> set (waits_for sys a)"
  by (simp add: wait_graph_def)

lemma wait_graph_eqI: "(\<And>u. waits_for sys u = waits_for sys' u) \<Longrightarrow> wait_graph sys = wait_graph sys'"
  by (simp add: wait_graph_def)

subsection \<open>The search for a cycle\<close>

text \<open>A search that finds no cycle ends with a set of transactions, closed under waiting, without the one it looks for.\<close>

lemma no_cycle_closed:
  assumes "\<not> finds_cycle sys t us E" "t \<notin> E" "\<And>x y. x \<in> E \<Longrightarrow> y \<in> set (waits_for sys x) \<Longrightarrow> y \<in> E \<union> set us"
  shows "\<exists>C. E \<union> set us \<subseteq> C \<and> t \<notin> C \<and> wait_graph sys `` C \<subseteq> C"
  using assms
proof (induction sys t us E rule: finds_cycle.induct)
  case (1 sys t E)
  then show ?case by (intro exI [of _ E]) (auto simp: wait_graph_def)
next
  case (2 sys t u us E)
  show ?case
  proof (cases "u \<in> E")
    case True
    have "\<exists>C. E \<union> set us \<subseteq> C \<and> t \<notin> C \<and> wait_graph sys `` C \<subseteq> C"
    proof (rule "2.IH"(1))
      show "\<not> finds_cycle sys t us E" using True "2.prems"(1) by simp
      show "t \<notin> E" by (rule "2.prems"(2))
      show "y \<in> E \<union> set us" if "x \<in> E" "y \<in> set (waits_for sys x)" for x y
        using "2.prems"(3) [OF that] True by auto
    qed (rule True)
    then obtain C where "E \<union> set us \<subseteq> C" "t \<notin> C" "wait_graph sys `` C \<subseteq> C" by blast
    then show ?thesis using True by (intro exI [of _ C]) auto
  next
    case False
    then have "u \<noteq> t" using "2.prems"(1) by auto
    have "\<exists>C. insert u E \<union> set (waits_for sys u @ us) \<subseteq> C \<and> t \<notin> C \<and> wait_graph sys `` C \<subseteq> C"
    proof (rule "2.IH"(2))
      show "\<not> finds_cycle sys t (waits_for sys u @ us) (insert u E)" using False \<open>u \<noteq> t\<close> "2.prems"(1) by simp
      show "t \<notin> insert u E" using "2.prems"(2) \<open>u \<noteq> t\<close> by simp
      show "y \<in> insert u E \<union> set (waits_for sys u @ us)" if "x \<in> insert u E" "y \<in> set (waits_for sys x)" for x y
        using "2.prems"(3) [of x y] that by auto
    qed (use False \<open>u \<noteq> t\<close> in auto)
    then obtain C where "insert u E \<union> set (waits_for sys u @ us) \<subseteq> C" "t \<notin> C" "wait_graph sys `` C \<subseteq> C" by blast
    then show ?thesis by (intro exI [of _ C]) auto
  qed
qed

lemma acyclic_extend:
  assumes "acyclic r" "r `` C \<subseteq> C" "t \<notin> C" "B \<subseteq> C" "finite B"
  shows "acyclic (r \<union> {t} \<times> B)"
  using assms(5, 4)
proof (induction B)
  case empty
  then show ?case using assms(1) by simp
next
  case (insert b B)
  let ?r = "r \<union> {t} \<times> B"
  have "y \<in> C" if "(b, y) \<in> ?r\<^sup>*" for y
    using that by (induction rule: rtrancl_induct) (use insert.prems assms(2, 3) in auto)
  then have "(b, t) \<notin> ?r\<^sup>*" using assms(3) by blast
  moreover have "r \<union> {t} \<times> insert b B = insert (t, b) ?r" by auto
  ultimately show ?case using insert by (simp add: acyclic_insert)
qed

subsection \<open>What the operations do to the graph\<close>

lemma waits_for_set_tx: "(\<And>x. waitingOn (f x) = waitingOn x) \<Longrightarrow> wait_graph (set_tx t f sys) = wait_graph sys"
  by (rule wait_graph_eqI) (cases "t < length (transactions sys)"; simp add: waits_for_def set_tx_def tx_of_def nth_list_update)

lemma wait_graph_set_status [simp]: "wait_graph (set_status s t sys) = wait_graph sys"
  unfolding set_status_def by (rule waits_for_set_tx) simp

lemma wait_graph_add_all [simp]: "wait_graph (add_all rs t sys) = wait_graph sys"
  unfolding add_all_def by (rule waits_for_set_tx) simp

lemma wait_graph_transactions: "transactions sys = transactions sys' \<Longrightarrow> wait_graph sys = wait_graph sys'"
  by (rule wait_graph_eqI) (simp add: waits_for_def tx_of_def)

lemma wait_graph_lockedBy [simp]: "wait_graph (sys\<lparr>lockedBy := l\<rparr>) = wait_graph sys"
  by (rule wait_graph_transactions) simp

lemma wait_graph_acquire: "acquireLocksSync t rs sys = Inr sys' \<Longrightarrow> wait_graph sys' = wait_graph sys"
  by (auto simp: acquireLocksSync_def split: if_splits)

lemma wait_graph_release [simp]: "wait_graph (releaseLocks t rs sys) = wait_graph sys"
  by (simp add: releaseLocks_def)

lemma transactions_emit: "transactions (emit_shared t sys) = map (notify_one t) (transactions sys)"
  by (simp add: emit_shared_def)

lemma wait_graph_emit: "wait_graph (emit_shared t sys) \<subseteq> wait_graph sys"
proof -
  have notified: "set (case waitingOn (notify_one t x) of None \<Rightarrow> [] | Some us \<Rightarrow> us) \<subseteq> set (case waitingOn x of None \<Rightarrow> [] | Some us \<Rightarrow> us)" for x
    by (cases "waitingOn x") (auto simp: notify_one_def)
  have "set (waits_for (emit_shared t sys) u) \<subseteq> set (waits_for sys u)" for u
  proof (cases "u < length (transactions sys)")
    case True
    then show ?thesis unfolding waits_for_def tx_of_def transactions_emit
      using notified [of "transactions sys ! u"] by (simp only: nth_map length_map if_True)
  qed (simp add: waits_for_def transactions_emit)
  then show ?thesis by (meson in_wait_graph subrelI subsetD)
qed

lemma wait_graph_close [simp]: "wait_graph (close_tx t sys) = wait_graph sys"
  unfolding close_tx_def by (rule waits_for_set_tx) simp

lemma wait_graph_new [simp]: "wait_graph (sys\<lparr>transactions := transactions sys @ [new_tx readonly]\<rparr>) = wait_graph sys"
proof (rule wait_graph_eqI)
  fix u
  consider "u < length (transactions sys)" | "u = length (transactions sys)" | "u > length (transactions sys)" by linarith
  then show "waits_for (sys\<lparr>transactions := transactions sys @ [new_tx readonly]\<rparr>) u = waits_for sys u"
    by cases (simp_all add: waits_for_def tx_of_def new_tx_def nth_append)
qed

lemma wait_graph_cleanup: "wait_graph (cleanup t sys) \<subseteq> wait_graph sys"
proof -
  have "wait_graph (set_tx t (\<lambda>x. x\<lparr>txParticipants := []\<rparr>) sys') = wait_graph sys'" for sys'
    by (rule waits_for_set_tx) simp
  then show ?thesis unfolding cleanup_def using wait_graph_emit [of t] by (metis wait_graph_release wait_graph_set_status)
qed

subsection \<open>Laws kept by the operations of a transaction\<close>

text \<open>A law of the system that the parts of the synchronous operations of one transaction keep.\<close>

locale kept_by_parts =
  fixes t :: nat and P :: "tx_system \<Rightarrow> bool"
  assumes kept_locking: "P sys \<Longrightarrow> txStatus (tx_of t sys) = Exclusive \<Longrightarrow>
      acquireLocksSync t (resource_set rs sys) sys = Inr sys' \<Longrightarrow> P (add_all rs t sys')"
    and kept_adding: "P sys \<Longrightarrow> txStatus (tx_of t sys) = Shared \<Longrightarrow> P (add_all rs t sys)"
    and kept_beginning: "P sys \<Longrightarrow> txStatus (tx_of t sys) = Shared \<Longrightarrow>
      acquireLocksSync t (resource_set (txResources (tx_of t sys)) sys) sys = Inr sys' \<Longrightarrow> P (set_status Exclusive t sys')"
    and kept_staying: "P sys \<Longrightarrow> txStatus (tx_of t sys) = Shared \<Longrightarrow> P (set_status Shared t sys)"
    and kept_joining: "P sys \<Longrightarrow> P (set_tx t (\<lambda>x. x\<lparr>txParticipants := txParticipants x @ [p]\<rparr>) sys)"
    and kept_roles: "P sys \<Longrightarrow> P (set_tx t (\<lambda>x. x\<lparr>txRoles := txRoles x @ [r]\<rparr>) sys)"
    and kept_cleanup: "P sys \<Longrightarrow> P (cleanup t sys)"
begin

lemma kept_addResourcesSync: "addResourcesSync rs t sys = (sys', c) \<Longrightarrow> P sys \<Longrightarrow> P sys'"
  using kept_locking kept_adding by (auto simp: addResourcesSync_def split: sum.splits if_splits)

lemma kept_beginSync: "beginSync t sys = (sys', c) \<Longrightarrow> P sys \<Longrightarrow> P sys'"
  using kept_beginning kept_staying by (auto simp: beginSync_def split: sum.splits if_splits)

lemma kept_addParticipants: "addParticipants code ps t sys = (sys', c) \<Longrightarrow> P sys \<Longrightarrow> P sys'"
proof (induction ps arbitrary: sys)
  case (Cons p ps)
  then show ?case
    using kept_joining kept_roles by (auto simp: Let_def split: sum.splits if_splits option.splits)
qed (auto split: sum.splits)

lemma kept_run_request: "run_request code t q sys = (sys', c) \<Longrightarrow> P sys \<Longrightarrow> P sys'"
  using kept_addResourcesSync kept_beginSync kept_addParticipants
  by (auto simp: run_request_def split: request.splits)

lemma kept_run_requests: "run_requests code t qs sys = (sys', c) \<Longrightarrow> P sys \<Longrightarrow> P sys'"
  using kept_run_request
  by (induction qs arbitrary: sys) (fastforce split: prod.splits outcome.splits)+

lemma kept_postCommit: "executePostCommit code t ps sys = (sys', log) \<Longrightarrow> P sys \<Longrightarrow> P sys'"
  using kept_run_requests
  by (induction ps arbitrary: sys log) (fastforce split: prod.splits sum.splits)+

lemma kept_finalize: "finalize f t sys = (sys', log, r) \<Longrightarrow> P sys \<Longrightarrow> P sys'"
  using kept_cleanup by (auto simp: finalize_def split: if_splits prod.splits)

lemma kept_rollback: "rollback_tx code t sys = (sys', log, r) \<Longrightarrow> P sys \<Longrightarrow> P sys'"
  using kept_finalize by (auto simp: rollback_tx_def split: sum.splits)

lemma kept_commit: "commit_tx code t sys = (sys', log, r) \<Longrightarrow> P sys \<Longrightarrow> P sys'"
  using kept_rollback kept_finalize kept_postCommit
  by (auto simp: commit_tx_def Let_def split: sum.splits prod.splits if_splits)

lemma kept_commit_chain: "commit_chain code n t sys = (sys', r) \<Longrightarrow> P sys \<Longrightarrow> P sys'"
  using kept_commit
  by (induction n arbitrary: sys) (fastforce split: prod.splits sum.splits if_splits)+

end

text \<open>Waiting only becomes less.\<close>

interpretation waits: kept_by_parts t "\<lambda>sys. wait_graph sys \<subseteq> G" for t G
  using wait_graph_cleanup by unfold_locales (auto simp: wait_graph_acquire waits_for_set_tx)

lemma wait_graph_waitFor:
  assumes "waitFor t us sys = Inr sys'" "exists_tx t sys"
  shows "wait_graph sys' = wait_graph sys \<union> {t} \<times> set us"
proof -
  have unwaiting: "waitingOn (transactions sys ! t) = None" and
    sys': "sys' = set_tx t (\<lambda>x. x\<lparr>waitingOn := Some us\<rparr>) sys"
    using assms(1) by (auto simp: waitFor_def and_then_Inr_iff tx_of_def split: if_splits)
  have "waits_for sys' u = (if u = t then us else waits_for sys u)" for u
    using assms(2) by (simp add: sys' waits_for_def set_tx_def tx_of_def exists_tx_def nth_list_update)
  moreover have "waits_for sys t = []"
    using unwaiting by (simp add: waits_for_def tx_of_def)
  ultimately show ?thesis by (auto split: if_splits)
qed

lemma acyclic_waitFor:
  assumes "waitFor t us sys = Inr sys'" "exists_tx t sys" "\<not> detectDeadlock t us sys" "acyclic (wait_graph sys)"
  shows "acyclic (wait_graph sys')"
proof -
  have "\<exists>C. {} \<union> set us \<subseteq> C \<and> t \<notin> C \<and> wait_graph sys `` C \<subseteq> C"
    using assms(3) by (intro no_cycle_closed) (simp_all add: detectDeadlock_def)
  then obtain C where "set us \<subseteq> C" "t \<notin> C" "wait_graph sys `` C \<subseteq> C" by auto
  then show ?thesis
    using assms(4) wait_graph_waitFor [OF assms(1, 2)] acyclic_extend [of _ C t "set us"] by simp
qed

lemma acyclic_attempt:
  assumes "acyclic (wait_graph sys)" "exists_tx t sys" "after_attempt (acquire_once t rs sys) p rs' t sys = (sys', c)"
  shows "acyclic (wait_graph sys')"
proof (cases "acquire_once t rs sys")
  case (Failed e)
  then show ?thesis using assms by (auto simp: after_attempt_def split: purpose.splits)
next
  case (Locked sys1)
  then have "wait_graph sys1 \<subseteq> wait_graph sys"
    by (auto simp: acquire_once_def Let_def wait_graph_acquire split: if_splits sum.splits)
  then have "wait_graph sys' \<subseteq> wait_graph sys"
    using Locked assms(3) waits.kept_addResourcesSync [where G = "wait_graph sys"]
    by (auto simp: after_attempt_def split: purpose.splits)
  then show ?thesis using assms(1) acyclic_subset by blast
next
  case (Waits sys1)
  then have "acyclic (wait_graph sys1)"
    using assms(1, 2) acyclic_waitFor [of t _ sys sys1]
    by (auto simp: acquire_once_def Let_def split: if_splits sum.splits)
  moreover have "wait_graph (set_tx t (\<lambda>x. x\<lparr>acquisitions := acquisitions x @ [a]\<rparr>) sys1) = wait_graph sys1" for a
    by (rule waits_for_set_tx) simp
  ultimately show ?thesis using Waits assms(3) by (auto simp: after_attempt_def)
qed

lemma exists_tx_set_tx [simp]: "exists_tx t (set_tx u f sys) = exists_tx t sys"
  by (simp add: exists_tx_def set_tx_def)

lemma exists_tx_set_status [simp]: "exists_tx t (set_status s u sys) = exists_tx t sys"
  by (simp add: set_status_def)

lemma acyclic_addResources:
  assumes "acyclic (wait_graph sys)" "exists_tx t sys" "addResources rs t sys = (sys', c)"
  shows "acyclic (wait_graph sys')"
proof -
  have "wait_graph sys' \<subseteq> wait_graph sys" if "addResourcesSync rs t sys = (sys', c)"
    using waits.kept_addResourcesSync [OF that] by simp
  then show ?thesis
    using assms acyclic_attempt [of sys t] acyclic_subset
    by (auto simp: addResources_def Let_def split: sum.splits if_splits)
qed

lemma acyclic_begin:
  "acyclic (wait_graph sys) \<Longrightarrow> exists_tx t sys \<Longrightarrow> begin_tx t sys = (sys', c) \<Longrightarrow> acyclic (wait_graph sys')"
  using acyclic_attempt [of "set_status Waiting t sys" t]
  by (auto simp: begin_tx_def Let_def split: sum.splits if_splits)

lemma acyclic_resume:
  assumes "acyclic (wait_graph sys)" "exists_tx t sys" "resume t k sys = (sys', c)"
  shows "acyclic (wait_graph sys')"
proof -
  have "wait_graph (set_tx t (\<lambda>x. x\<lparr>acquisitions := js\<rparr>) sys) = wait_graph sys" for js
    by (rule waits_for_set_tx) simp
  then show ?thesis
    using assms acyclic_attempt [of "set_tx t (\<lambda>x. x\<lparr>acquisitions := js\<rparr>) sys" t for js]
    by (auto simp: resume_def Let_def split: if_splits)
qed

text \<open>An action: the actor, then a rollback or the chain of commits, and the end of the transaction.\<close>

lemma act_cases [consumes 1, case_names rolled_back chained]:
  assumes "act code actor sys = (sys', r)"
  obtains sys1 sys2 e log r' where "run_requests code (length (transactions sys)) actor (sys\<lparr>transactions := transactions sys @ [new_tx False]\<rparr>) = (sys1, Inl e)"
      "rollback_tx code (length (transactions sys)) sys1 = (sys2, log, r')" "r = Inl e" "sys' = close_tx (length (transactions sys)) sys2"
  | sys1 sys2 where "run_requests code (length (transactions sys)) actor (sys\<lparr>transactions := transactions sys @ [new_tx False]\<rparr>) = (sys1, Inr ())"
      "commit_chain code MAX_CHAINED_COMMITS (length (transactions sys)) sys1 = (sys2, r)" "sys' = close_tx (length (transactions sys)) sys2"
proof -
  let ?t = "length (transactions sys)"
  obtain sys1 r1 where run: "run_requests code ?t actor (sys\<lparr>transactions := transactions sys @ [new_tx False]\<rparr>) = (sys1, r1)"
    by fastforce
  show thesis
  proof (cases r1)
    case (Inl e)
    obtain sys2 log r' where "rollback_tx code ?t sys1 = (sys2, log, r')" using prod_cases3 by blast
    then show thesis using that(1) run Inl assms by (simp add: act_def Let_def)
  next
    case (Inr u)
    obtain sys2 r' where "commit_chain code MAX_CHAINED_COMMITS ?t sys1 = (sys2, r')" by fastforce
    then show thesis using that(2) run Inr assms by (simp add: act_def Let_def)
  qed
qed

lemma wait_graph_act:
  assumes "act code actor sys = (sys', r)"
  shows "wait_graph sys' \<subseteq> wait_graph sys"
proof -
  have start: "wait_graph (sys\<lparr>transactions := transactions sys @ [new_tx False]\<rparr>) \<subseteq> wait_graph sys" by simp
  show ?thesis
    using assms
  proof (cases rule: act_cases)
    case rolled_back
    then show ?thesis
      using waits.kept_rollback [OF _ waits.kept_run_requests [OF _ start]] by simp
  next
    case chained
    then show ?thesis
      using waits.kept_commit_chain [OF _ waits.kept_run_requests [OF _ start]] by simp
  qed
qed

lemma acyclic_fst: "(\<And>sys' c. g = (sys', c) \<Longrightarrow> acyclic (wait_graph sys')) \<Longrightarrow> acyclic (wait_graph (fst g))"
  by (cases g) simp

lemma acyclic_sync: "(\<And>sys' c. g = (sys', c) \<Longrightarrow> wait_graph sys' \<subseteq> wait_graph sys) \<Longrightarrow> acyclic (wait_graph sys) \<Longrightarrow> acyclic (wait_graph (fst g))"
  by (cases g) (auto intro: acyclic_subset)

lemma acyclic_sync_log:
  "(\<And>sys' log r. g = (sys', log, r) \<Longrightarrow> wait_graph sys' \<subseteq> wait_graph sys) \<Longrightarrow> acyclic (wait_graph sys) \<Longrightarrow> acyclic (wait_graph (fst g))"
  by (cases g) (auto intro: acyclic_subset)

lemma acyclic_perform: 
  assumes "acyclic (wait_graph sys)"
  shows "acyclic (wait_graph (perform code e sys))"
proof (cases e)
  case (AddResourcesCall t rs)
  then show ?thesis using assms by (auto simp: perform_def intro!: acyclic_fst intro: acyclic_addResources)
next
  case (AddResourcesSyncCall t rs)
  then show ?thesis using assms by (auto simp: perform_def intro!: acyclic_sync [OF waits.kept_addResourcesSync])
next
  case (BeginCall t)
  then show ?thesis using assms by (auto simp: perform_def intro!: acyclic_fst intro: acyclic_begin)
next
  case (BeginSyncCall t)
  then show ?thesis using assms by (auto simp: perform_def intro!: acyclic_sync [OF waits.kept_beginSync])
next
  case (AddParticipantsCall t ps)
  then show ?thesis using assms by (auto simp: perform_def intro!: acyclic_sync [OF waits.kept_addParticipants])
next
  case (CommitCall t)
  then show ?thesis using assms by (auto simp: perform_def intro!: acyclic_sync_log [OF waits.kept_commit])
next
  case (RollbackCall t)
  then show ?thesis using assms by (auto simp: perform_def intro!: acyclic_sync_log [OF waits.kept_rollback])
next
  case (GoOn t k)
  then show ?thesis using assms by (auto simp: perform_def intro!: acyclic_fst intro: acyclic_resume)
next
  case (Act actor)
  then show ?thesis using assms by (auto simp: perform_def intro!: acyclic_sync [OF wait_graph_act])
qed (use assms in \<open>simp_all add: perform_def\<close>)

lemma acyclic_run: "acyclic (wait_graph sys) \<Longrightarrow> acyclic (wait_graph (run_events code es sys))"
  by (induction es arbitrary: sys) (simp_all add: acyclic_perform)

text \<open>C18: Transactions never wait for one another in a circle, whatever they lock, begin, commit, roll back, close or resume.\<close>

theorem transactions_never_deadlock:
  "acyclic (wait_graph (run_events code es (no_transactions refs)))"
proof (rule acyclic_run)
  have "wait_graph (no_transactions refs) = {}"
    by (auto simp: wait_graph_def waits_for_def no_transactions_def)
  then show "acyclic (wait_graph (no_transactions refs))" by (simp add: acyclic_def)
qed

subsection \<open>All or nothing\<close>

lemma commit1_all_ok: "commit1_all code ps = (log, True) \<Longrightarrow> log = map Commit1 ps \<and> (\<forall>p\<in>set ps. \<not> isl (commit1 code p))"
  by (induction ps arbitrary: log) (auto split: if_splits prod.splits)

lemma commit1_all_failed: "commit1_all code ps = (log, False) \<Longrightarrow> set log \<subseteq> Commit1 ` set ps \<and> (\<exists>p\<in>set ps. isl (commit1 code p))"
  by (induction ps arbitrary: log) (fastforce split: if_splits prod.splits)+

lemma precommit_cycle_log: "precommit_cycle code c ps m = (log, r) \<Longrightarrow> set log \<subseteq> PreCommit ` set ps \<and> length log \<le> length ps"
  by (induction code c ps m arbitrary: log r rule: precommit_cycle.induct) (fastforce split: sum.splits prod.splits)+

lemma precommit_cycles_log:
  "precommit_cycles code left c ps = (log, r) \<Longrightarrow> set log \<subseteq> PreCommit ` set ps \<and> length log \<le> Suc left * length ps"
proof (induction left arbitrary: c log r)
  case 0
  then show ?case
    using precommit_cycle_log [of code c ps False] by (force split: sum.splits prod.splits bool.splits)
next
  case (Suc left)
  obtain log1 r1 where cycle: "precommit_cycle code c ps False = (log1, r1)" by fastforce
  obtain log2 r2 where rest: "precommit_cycles code left (Suc c) ps = (log2, r2)" by fastforce
  have "log = log1 \<or> log = log1 @ log2"
    using Suc.prems cycle rest by (simp split: sum.splits bool.splits prod.splits)
  then show ?case using precommit_cycle_log [OF cycle] Suc.IH [OF rest] by auto
qed

text \<open>What the participants see of a commit: the phases before it, then either the whole of phase two or the whole rollback.\<close>

lemma executeCommit_log:
  assumes "executeCommit code ps = (log, r)"
  shows "log = map Commit1 ps @ map Commit2 ps \<and> (\<forall>p\<in>set ps. \<not> isl (commit1 code p))
    \<or> (\<exists>log1. log = log1 @ map Rollback ps \<and> set log1 \<subseteq> Commit1 ` set ps) \<and> (\<exists>p\<in>set ps. isl (commit1 code p)) \<and> r = Inl FinalizationError"
proof -
  obtain log1 ok where first: "commit1_all code ps = (log1, ok)" by fastforce
  show ?thesis
  proof (cases ok)
    case True
    then show ?thesis using assms first commit1_all_ok [of code ps log1]
      by (auto simp: executeCommit_def executeCommit2_def)
  next
    case False
    then show ?thesis using assms first commit1_all_failed [of code ps log1]
      by (auto simp: executeCommit_def executeRollback_def)
  qed
qed

lemma postCommit_log: "executePostCommit code t ps sys = (sys', log) \<Longrightarrow> set log \<subseteq> PostCommit ` set ps"
  by (induction ps arbitrary: sys log) (fastforce split: prod.splits sum.splits)+

text \<open>C15: A commit of an exclusive transaction asks its participants at most five times to settle.  Then either all of them pass the first phase and every one of them gets the second, or the commit fails and every one of them is rolled back, with no second phase for any.\<close>

theorem commit_all_or_nothing:
  assumes "commit_tx code t sys = (sys', log, r)" "txStatus (tx_of t sys) = Exclusive"
  shows "\<exists>settling. set settling \<subseteq> PreCommit ` set (txParticipants (tx_of t sys))
    \<and> length settling \<le> 5 * length (txParticipants (tx_of t sys))
    \<and> ((\<forall>p\<in>set (txParticipants (tx_of t sys)). \<not> isl (commit1 code p))
         \<and> (\<exists>after. log = settling @ map Commit1 (txParticipants (tx_of t sys)) @ map Commit2 (txParticipants (tx_of t sys)) @ after
              \<and> set after \<subseteq> PostCommit ` set (txParticipants (tx_of t sys)))
       \<or> isl r \<and> (\<exists>first. log = settling @ first @ map Rollback (txParticipants (tx_of t sys))
              \<and> set first \<subseteq> Commit1 ` set (txParticipants (tx_of t sys))))"
proof -
  define ps where "ps = txParticipants (tx_of t sys)"
  have available: "assertAvailable (tx_of t sys) = Inr ()" using assms(2) by (simp add: assertAvailable_def)
  have finalized: "\<exists>sys2. finalize f t sys = (sys2, f ps)" for f
    using assms(2) by (cases "f ps") (simp add: finalize_def ps_def)
  obtain pre r1 where pre: "executePreCommit code ps = (pre, r1)" by fastforce
  then have settling: "set pre \<subseteq> PreCommit ` set ps \<and> length pre \<le> 5 * length ps"
    using precommit_cycles_log [of code 4 1 ps pre r1] by (simp add: executePreCommit_def MAX_PRECOMMIT_CYCLES_def)
  show ?thesis
    unfolding ps_def [symmetric]
  proof (cases r1)
    case (Inl e)
    obtain sys2 where "finalize (executeRollback code) t sys = (sys2, executeRollback code ps)" using finalized by blast
    then have "log = pre @ map Rollback ps \<and> isl r"
      using assms available pre Inl
      by (auto simp: commit_tx_def Let_def ps_def executeRollback_def split: if_splits sum.splits)
    then show "\<exists>settling. set settling \<subseteq> PreCommit ` set ps \<and> length settling \<le> 5 * length ps
      \<and> ((\<forall>p\<in>set ps. \<not> isl (commit1 code p)) \<and> (\<exists>after. log = settling @ map Commit1 ps @ map Commit2 ps @ after \<and> set after \<subseteq> PostCommit ` set ps)
        \<or> isl r \<and> (\<exists>first. log = settling @ first @ map Rollback ps \<and> set first \<subseteq> Commit1 ` set ps))"
      using settling by (intro exI [of _ pre]) simp
  next
    case (Inr u)
    obtain sys2 log2 r2 where commit: "executeCommit code ps = (log2, r2)" "finalize (executeCommit code) t sys = (sys2, log2, r2)"
      using finalized by (metis surj_pair)
    have "\<exists>after. log = pre @ log2 @ after \<and> set after \<subseteq> PostCommit ` set ps \<and> (isl r2 \<longrightarrow> after = [] \<and> r = r2)"
      using assms available pre Inr commit(2) postCommit_log [of code t ps sys2]
      by (auto simp: commit_tx_def Let_def ps_def split: sum.splits prod.splits)
    then show "\<exists>settling. set settling \<subseteq> PreCommit ` set ps \<and> length settling \<le> 5 * length ps
      \<and> ((\<forall>p\<in>set ps. \<not> isl (commit1 code p)) \<and> (\<exists>after. log = settling @ map Commit1 ps @ map Commit2 ps @ after \<and> set after \<subseteq> PostCommit ` set ps)
        \<or> isl r \<and> (\<exists>first. log = settling @ first @ map Rollback ps \<and> set first \<subseteq> Commit1 ` set ps))"
      using settling executeCommit_log [OF commit(1)] by (intro exI [of _ pre]) auto
  qed
qed

subsection \<open>Locks\<close>

lemma set_fold_add_once [simp]: "set (fold add_once xs ys) = set xs \<union> set ys"
  by (induction xs arbitrary: ys) (auto simp: add_once_def)

lemma set_resource_set: "set (resource_set rs sys) = resolve (length (references sys)) (references sys) ` set rs"
  by (simp add: resource_set_def)

lemma tx_of_set_tx [simp]: "exists_tx t sys \<Longrightarrow> tx_of t (set_tx t f sys) = f (tx_of t sys)"
  by (simp add: tx_of_def set_tx_def exists_tx_def)

lemma lockedBy_set_tx [simp]: "lockedBy (set_tx t f sys) = lockedBy sys" "references (set_tx t f sys) = references sys"
  by (simp_all add: set_tx_def)

text \<open>What holds of a transaction between its operations, the locks of the others being those of \<open>L\<close>.\<close>

definition in_order :: "(nat \<times> nat) list \<Rightarrow> (nat \<Rightarrow> nat option) \<Rightarrow> nat \<Rightarrow> tx_system \<Rightarrow> bool" where
  "in_order refs L t sys \<longleftrightarrow>
     exists_tx t sys \<and> references sys = refs
     \<and> (txStatus (tx_of t sys) = Shared \<or> txStatus (tx_of t sys) = Exclusive)
     \<and> (txStatus (tx_of t sys) = Shared \<longrightarrow> (\<forall>r. lockedBy sys r \<noteq> Some t))
     \<and> (\<forall>r. lockedBy sys r = Some t \<longrightarrow> r \<in> set (resource_set (txResources (tx_of t sys)) sys))
     \<and> (\<forall>r. L r \<noteq> Some t) \<and> (\<forall>r. lockedBy sys r = L r \<or> lockedBy sys r = Some t \<and> L r = None)"

lemma set_blockers: "u \<in> set (blockers t rs sys) \<longleftrightarrow> u \<noteq> t \<and> (\<exists>r\<in>set rs. lockedBy sys r = Some u)"
proof -
  have "u \<in> set (case l of None \<Rightarrow> [] | Some v \<Rightarrow> if v = t then [] else [v]) \<longleftrightarrow> u \<noteq> t \<and> l = Some u" for l
    by (cases l) auto
  then show ?thesis by (simp add: blockers_def)
qed

lemma acquired_locks:
  assumes "acquireLocksSync t rs sys = Inr sys'"
  shows "sys' = sys\<lparr>lockedBy := \<lambda>r. if r \<in> set rs then Some t else lockedBy sys r\<rparr>"
    "r \<in> set rs \<Longrightarrow> lockedBy sys r = None \<or> lockedBy sys r = Some t"
proof -
  have "blockers t rs sys = []" using assms by (simp add: acquireLocksSync_def split: if_splits)
  then show "r \<in> set rs \<Longrightarrow> lockedBy sys r = None \<or> lockedBy sys r = Some t"
    using set_blockers [of _ t rs sys] by (cases "lockedBy sys r") auto
qed (use assms in \<open>simp add: acquireLocksSync_def split: if_splits\<close>)

lemma in_order_set_tx:
  assumes "in_order refs L t sys" "txStatus (f (tx_of t sys)) = txStatus (tx_of t sys)"
    "set (txResources (tx_of t sys)) \<subseteq> set (txResources (f (tx_of t sys)))"
  shows "in_order refs L t (set_tx t f sys)"
  using assms by (fastforce simp: in_order_def set_resource_set)

lemma in_order_acquired:
  assumes "in_order refs L t sys" "acquireLocksSync t (resource_set rs sys) sys = Inr sys'"
    "txStatus (f (tx_of t sys)) = Exclusive" "set (txResources (f (tx_of t sys))) = set rs \<union> set (txResources (tx_of t sys))"
  shows "in_order refs L t (set_tx t f sys')"
proof -
  note sys' = acquired_locks(1) [OF assms(2)]
  have tx: "exists_tx t sys'" "tx_of t sys' = tx_of t sys" "references sys' = refs"
    using assms(1) by (simp_all add: sys' in_order_def exists_tx_def tx_of_def)
  have lock: "lockedBy sys' = (\<lambda>r. if r \<in> resolve (length (references sys)) (references sys) ` set rs then Some t else lockedBy sys r)"
    by (simp add: sys' set_resource_set)
  have free: "r \<in> set (resource_set rs sys) \<Longrightarrow> L r = None" for r
    using acquired_locks(2) [OF assms(2)] assms(1) unfolding in_order_def by metis
  show ?thesis
    using assms(1, 3, 4) free
    unfolding in_order_def set_resource_set lockedBy_set_tx tx_of_set_tx [OF tx(1)] exists_tx_set_tx tx(2, 3) lock
    by (auto simp: tx(1))
qed

lemma tx_of_emit [simp]:
  "exists_tx t sys \<Longrightarrow> txStatus (tx_of t (emit_shared u sys)) = txStatus (tx_of t sys)"
  "exists_tx t sys \<Longrightarrow> txResources (tx_of t (emit_shared u sys)) = txResources (tx_of t sys)"
  by (auto simp: tx_of_def exists_tx_def transactions_emit notify_one_def split: option.splits)

lemma emit_shared_frame [simp]:
  "exists_tx t (emit_shared u sys) = exists_tx t sys" "lockedBy (emit_shared u sys) = lockedBy sys"
  "references (emit_shared u sys) = references sys"
  by (simp_all add: exists_tx_def emit_shared_def)

lemma releaseLocks_frame [simp]:
  "exists_tx u (releaseLocks t rs sys) = exists_tx u sys" "tx_of u (releaseLocks t rs sys) = tx_of u sys"
  "references (releaseLocks t rs sys) = references sys"
  by (simp_all add: exists_tx_def tx_of_def releaseLocks_def)

lemma lockedBy_cleanup:
  "lockedBy (cleanup t sys) r =
     (if r \<in> set (resource_set (txResources (tx_of t sys)) sys) \<and> lockedBy sys r = Some t then None else lockedBy sys r)"
  by (simp add: cleanup_def set_status_def) (simp add: releaseLocks_def)

lemma cleanup_frame:
  assumes "exists_tx t sys"
  shows "exists_tx t (cleanup t sys)" "references (cleanup t sys) = references sys"
    "txStatus (tx_of t (cleanup t sys)) = Shared" "txResources (tx_of t (cleanup t sys)) = txResources (tx_of t sys)"
  using assms by (simp_all add: cleanup_def set_status_def)

lemma in_order_mine: "in_order refs L t sys \<Longrightarrow> lockedBy sys r = Some t \<Longrightarrow> L r = None"
  unfolding in_order_def by metis

lemma in_order_cleanup: "in_order refs L t sys \<Longrightarrow> in_order refs L t (cleanup t sys)"
proof -
  assume order: "in_order refs L t sys"
  then have tx: "exists_tx t sys" by (simp add: in_order_def)
  have released: "lockedBy (cleanup t sys) r = L r" for r
  proof (cases "lockedBy sys r = Some t")
    case True
    then show ?thesis using order in_order_mine [OF order True] by (simp add: in_order_def lockedBy_cleanup)
  next
    case False
    then show ?thesis using order unfolding in_order_def lockedBy_cleanup by metis
  qed
  then show ?thesis using order by (simp add: in_order_def cleanup_frame [OF tx])
qed

text \<open>The parts of the operations keep a transaction in order.\<close>

interpretation ordered: kept_by_parts t "in_order refs L t" for refs L t
proof unfold_locales
  fix sys sys' rs
  assume "in_order refs L t sys" "txStatus (tx_of t sys) = Exclusive" "acquireLocksSync t (resource_set rs sys) sys = Inr sys'"
  then show "in_order refs L t (add_all rs t sys')"
    unfolding add_all_def by (intro in_order_acquired) auto
next
  fix sys sys'
  assume "in_order refs L t sys" "acquireLocksSync t (resource_set (txResources (tx_of t sys)) sys) sys = Inr sys'"
  then show "in_order refs L t (set_status Exclusive t sys')"
    unfolding set_status_def by (intro in_order_acquired) auto
qed (auto simp: add_all_def set_status_def intro!: in_order_set_tx in_order_cleanup)

lemma in_order_released: "in_order refs L t sys \<Longrightarrow> txStatus (tx_of t sys) \<noteq> Exclusive \<Longrightarrow> lockedBy sys = L"
  by (rule ext) (auto simp: in_order_def)

lemma finalize_shares:
  assumes "in_order refs L t sys" "finalize f t sys = (sys', log, r)"
  shows "txStatus (tx_of t sys') = Shared"
  using assms cleanup_frame(3) [of t sys] by (auto simp: in_order_def finalize_def split: prod.splits if_splits)

lemma in_order_available: "in_order refs L t sys \<Longrightarrow> assertAvailable (tx_of t sys) = Inr ()"
  by (auto simp: in_order_def assertAvailable_def)

lemma commit_failed_shared:
  assumes "in_order refs L t sys" "commit_tx code t sys = (sys', log, Inl e)"
  shows "txStatus (tx_of t sys') = Shared"
  using assms(2) in_order_available [OF assms(1)] finalize_shares [OF assms(1)]
  by (auto simp: commit_tx_def rollback_tx_def Let_def split: if_splits sum.splits prod.splits)

lemma commit_chain_releases:
  "in_order refs L t sys \<Longrightarrow> commit_chain code n t sys = (sys', r) \<Longrightarrow> lockedBy sys' = L \<or> r = Inl TransactionFlowError"
proof (induction n arbitrary: sys)
  case (Suc n)
  obtain sys1 log r1 where commit: "commit_tx code t sys = (sys1, log, r1)" using prod_cases3 by blast
  have order: "in_order refs L t sys1" by (rule ordered.kept_commit [OF commit Suc.prems(1)])
  show ?case
  proof (cases r1)
    case (Inl e)
    then show ?thesis
      using commit_failed_shared [OF Suc.prems(1)] commit Suc.prems(2) in_order_released [OF order] by auto
  next
    case (Inr u)
    then show ?thesis
      using commit Suc.prems(2) Suc.IH [OF order] in_order_released [OF order] by (auto split: if_splits)
  qed
qed simp

lemma in_order_new:
  assumes "\<And>r. lockedBy sys r \<noteq> Some (length (transactions sys))"
  shows "in_order (references sys) (lockedBy sys) (length (transactions sys)) (sys\<lparr>transactions := transactions sys @ [new_tx False]\<rparr>)"
  using assms by (simp add: in_order_def exists_tx_def tx_of_def new_tx_def)


subsection \<open>Runs\<close>

text \<open>Two participants that settle at once and commit; the callback after the first one's commit is given.\<close>

definition sample_code :: "request list \<Rightarrow> participant_code" where
  "sample_code after =
     \<lparr>pName = (\<lambda>p. if p = 0 then ''a'' else ''b''), pRole = (\<lambda>p. if p = 0 then Some 5 else None), preCommit = (\<lambda>p c. Inr (c = 1)),
      commit1 = (\<lambda>p. Inr ()), commit2 = (\<lambda>p. Inr ()), postCommit = (\<lambda>p. if p = 0 then after else []), rollbackP = (\<lambda>p. Inr ())\<rparr>"

lemma sample_commit:
  "let sys = fst (run_requests (sample_code []) 0 [AddResources [7], AddParticipants [0, 1], BeginSync] (perform (sample_code []) (Create False) (no_transactions [])))
   in txStatus (tx_of 0 sys) = Exclusive
     \<and> fst (snd (commit_tx (sample_code []) 0 sys)) = [PreCommit 0, PreCommit 1, PreCommit 0, PreCommit 1, Commit1 0, Commit1 1, Commit2 0, Commit2 1, PostCommit 0, PostCommit 1]"
  by code_simp

lemma sample_act:
  "snd (act (sample_code []) [AddResources [7], AddParticipants [0, 1], BeginSync] (no_transactions [])) = Inr ()"
  by code_simp

text \<open>A callback that makes the transaction exclusive after each commit: the sixth commit is refused and the lock stays.\<close>

lemma locks_leak_after_chained_commits:
  "case act (sample_code [BeginSync, AddParticipants [0]]) [AddResources [7], AddParticipants [0], BeginSync] (no_transactions []) of
     (sys, r) \<Rightarrow> r = Inl TransactionFlowError \<and> txStatus (tx_of 0 sys) = Destroyed \<and> lockedBy sys 7 = Some 0"
  by code_simp

text \<open>A \<open>begin\<close> nobody waits for: its transaction is closed, and gets its lock and its life back when the lock is free.\<close>

lemma pending_begin_revives:
  "let sys = run_events (sample_code []) [Create False, Create False, AddResourcesSyncCall 0 [7], AddResourcesSyncCall 1 [7], BeginSyncCall 0,
        BeginCall 1, CloseCall 1, CommitCall 0, GoOn 1 0] (no_transactions [])
   in txStatus (tx_of 1 sys) = Exclusive"
  by code_simp

text \<open>After a commit the participants are forgotten and their roles are not.\<close>

lemma stale_participant_after_commit:
  "let sys = run_events (sample_code []) [Create False, AddResourcesSyncCall 0 [7], AddParticipantsCall 0 [0], BeginSyncCall 0, CommitCall 0] (no_transactions [])
   in txParticipants (tx_of 0 sys) = [] \<and> getParticipant 5 0 sys = Inr (Some 0)
     \<and> snd (addParticipants (sample_code []) [0] 0 sys) = Threw TransactionFlowError"
  by code_simp

subsection \<open>The properties at runs\<close>

definition failing_code :: participant_code where
  "failing_code = (sample_code [])\<lparr>commit1 := \<lambda>p. if p = 1 then Inl PlainError else Inr ()\<rparr>"

definition sample_system :: tx_system where
  "sample_system = fst (run_requests failing_code 0 [AddResources [7], AddParticipants [0, 1], BeginSync] (perform failing_code (Create False) (no_transactions [])))"

lemma sample_system: "txParticipants (tx_of 0 sample_system) = [0, 1]" "txStatus (tx_of 0 sample_system) = Exclusive"
  by code_simp+

lemma commit_all_or_nothing_witness:
  "case commit_tx failing_code 0 sample_system of
     (_, log, r) \<Rightarrow> isl r \<and> Rollback 0 \<in> set log \<and> Rollback 1 \<in> set log \<and> Commit2 0 \<notin> set log \<and> Commit2 1 \<notin> set log"
proof -
  obtain sys' log r where commit: "commit_tx failing_code 0 sample_system = (sys', log, r)" using prod_cases3 by blast
  have "isl (commit1 failing_code 1)" by (simp add: failing_code_def)
  then obtain settling first where "isl r" "set settling \<subseteq> PreCommit ` {0, 1}" "set first \<subseteq> Commit1 ` {0, 1}"
    "log = settling @ first @ map Rollback [0, 1]"
    using commit_all_or_nothing [OF commit sample_system(2)] unfolding sample_system(1) by auto
  then show ?thesis using commit by auto
qed


end
