(* ===== verification/Events.thy ===== *)
theory Events
  imports Prelude
begin

text \<open>
  The event log of packages/protocol/src/events: BaseEventStore.ts, VolatileEventStore.ts,
  NonvolatileEventStore.ts and OccurrenceManager.ts.  The storage of a node answers at once; it holds the
  end of the reserved numbers and, in the context of the events, occurrences under their numbers.  What is
  only in memory is lost by a restart, which makes a new store of the same storage.

  The manager uses its store through a record of operations, as the class uses the interface
  \<open>EventStore\<close>; the locale \<open>event_store\<close> has the laws it relies on and is interpreted by both stores.
\<close>

subsection \<open>Occurrences\<close>

datatype event_priority = Debug | Info | Critical

text \<open>What an event carries: a scalar, or an object with named numbers.\<close>

datatype payload = Scalar int | Fields "(string \<times> int) list"

record occurrence =
  endpointId :: int
  clusterId :: int
  eventId :: int
  epochTimestamp :: int
  priority :: event_priority
  payload :: payload

record occurrence_summary =
  sNumber :: int
  sPriority :: event_priority
  sEndpointId :: int
  sClusterId :: int
  sEventId :: int

definition OccurrenceSummary :: "int \<Rightarrow> occurrence \<Rightarrow> occurrence_summary" where
  "OccurrenceSummary n x =
     \<lparr>sNumber = n, sPriority = priority x, sEndpointId = endpointId x, sClusterId = clusterId x, sEventId = eventId x\<rparr>"

subsection \<open>BaseEventStore\<close>

record base_store =
  lastEventNumber :: "int option"
  persistedEvents :: "(int \<times> occurrence) list"
  nextNumber :: "int option"

text \<open>The first number after a restart: the end of the reservation or the number after the highest stored one.\<close>

fun next_after :: "int list \<Rightarrow> int option \<Rightarrow> int option" where
  "next_after [] n = n"
| "next_after (k # ks) n = next_after ks (case n of None \<Rightarrow> Some (k + 1) | Some m \<Rightarrow> if m \<le> k then Some (k + 1) else n)"

definition loadInitialState :: "'z base_store_scheme \<Rightarrow> 'z base_store_scheme \<times> int option \<times> int list" where
  "loadInitialState s =
     (let reservationEnd = lastEventNumber s;
          eventNumbers = map fst (persistedEvents s)
      in (s\<lparr>nextNumber := Some (case next_after eventNumbers reservationEnd of None \<Rightarrow> 1 | Some n \<Rightarrow> n)\<rparr>, reservationEnd, eventNumbers))"

definition allocateNumber :: "'z base_store_scheme \<Rightarrow> ('z base_store_scheme \<times> int) res" where
  "allocateNumber s =
     (case nextNumber s of None \<Rightarrow> Inl InternalError | Some n \<Rightarrow> Inr (s\<lparr>nextNumber := Some (n + 1)\<rparr>, n))"

definition base_clear :: "'z base_store_scheme \<Rightarrow> 'z base_store_scheme" where
  "base_clear s = s\<lparr>lastEventNumber := None, persistedEvents := [], nextNumber := Some 1\<rparr>"

text \<open>Setting and deleting a key of a context or a map.\<close>

definition entry_set :: "int \<Rightarrow> occurrence \<Rightarrow> (int \<times> occurrence) list \<Rightarrow> (int \<times> occurrence) list" where
  "entry_set n x es = (if n \<in> fst ` set es then map (\<lambda>e. if fst e = n then (n, x) else e) es else es @ [(n, x)])"

definition entry_delete :: "int \<Rightarrow> (int \<times> occurrence) list \<Rightarrow> (int \<times> occurrence) list" where
  "entry_delete n es = filter (\<lambda>e. fst e \<noteq> n) es"

subsection \<open>VolatileEventStore\<close>

record volatile_store = base_store +
  numbersReservedTo :: "int option"
  numberBlockSize :: int
  vEvents :: "(int \<times> occurrence) list"

definition new_VolatileEventStore :: "int option \<Rightarrow> (int \<times> occurrence) list \<Rightarrow> int \<Rightarrow> volatile_store" where
  "new_VolatileEventStore reservation persisted blockSize =
     \<lparr>lastEventNumber = reservation, persistedEvents = persisted, nextNumber = None,
      numbersReservedTo = None, numberBlockSize = blockSize, vEvents = []\<rparr>"

definition volatile_load :: "volatile_store \<Rightarrow> volatile_store \<times> occurrence_summary list" where
  "volatile_load s =
     (let (s, reservationEnd, eventIds) = loadInitialState s;
          s = (if eventIds \<noteq> [] then s\<lparr>persistedEvents := []\<rparr> else s)
      in (s\<lparr>numbersReservedTo := reservationEnd\<rparr>, []))"

definition volatile_get :: "int \<Rightarrow> volatile_store \<Rightarrow> occurrence res" where
  "volatile_get n s = (case map_of (vEvents s) n of None \<Rightarrow> Inl InternalError | Some x \<Rightarrow> Inr x)"

text \<open>The key is deleted from the storage of the store, where there is nothing under a number; the map in memory is left alone.\<close>

definition volatile_delete :: "int \<Rightarrow> volatile_store \<Rightarrow> volatile_store" where
  "volatile_delete n s = s"

definition volatile_add :: "occurrence \<Rightarrow> volatile_store \<Rightarrow> (volatile_store \<times> occurrence_summary) res" where
  "volatile_add x s =
     and_then (allocateNumber s) (\<lambda>(s, n).
       let reservedTo = (case numbersReservedTo s of None \<Rightarrow> 1 | Some r \<Rightarrow> r);
           s = (if n \<ge> reservedTo
                then s\<lparr>lastEventNumber := Some (reservedTo + numberBlockSize s), numbersReservedTo := Some (reservedTo + numberBlockSize s)\<rparr>
                else s)
       in Inr (s\<lparr>vEvents := entry_set n x (vEvents s)\<rparr>, OccurrenceSummary n x))"

definition volatile_clear :: "volatile_store \<Rightarrow> volatile_store" where
  "volatile_clear s = (base_clear s)\<lparr>vEvents := [], numbersReservedTo := None\<rparr>"

subsection \<open>NonvolatileEventStore\<close>

record nonvolatile_store = base_store +
  removeNumberReservation :: bool

definition new_NonvolatileEventStore :: "int option \<Rightarrow> (int \<times> occurrence) list \<Rightarrow> nonvolatile_store" where
  "new_NonvolatileEventStore reservation persisted =
     \<lparr>lastEventNumber = reservation, persistedEvents = persisted, nextNumber = None, removeNumberReservation = False\<rparr>"

definition nonvolatile_load :: "nonvolatile_store \<Rightarrow> nonvolatile_store \<times> occurrence_summary list" where
  "nonvolatile_load s =
     (let (s, reservationEnd, eventNumbers) = loadInitialState s;
          s = (if reservationEnd \<noteq> None then s\<lparr>removeNumberReservation := True\<rparr> else s)
      in (s, concat (map (\<lambda>n. case map_of (persistedEvents s) n of None \<Rightarrow> [] | Some x \<Rightarrow> [OccurrenceSummary n x]) eventNumbers)))"

definition nonvolatile_add :: "occurrence \<Rightarrow> nonvolatile_store \<Rightarrow> (nonvolatile_store \<times> occurrence_summary) res" where
  "nonvolatile_add x s =
     and_then (allocateNumber s) (\<lambda>(s, n).
       let s = s\<lparr>persistedEvents := entry_set n x (persistedEvents s)\<rparr>;
           s = (if removeNumberReservation s then s\<lparr>removeNumberReservation := False, lastEventNumber := None\<rparr> else s)
       in Inr (s, OccurrenceSummary n x))"

definition nonvolatile_get :: "int \<Rightarrow> nonvolatile_store \<Rightarrow> occurrence res" where
  "nonvolatile_get n s = (case map_of (persistedEvents s) n of None \<Rightarrow> Inl StorageError | Some x \<Rightarrow> Inr x)"

definition nonvolatile_delete :: "int \<Rightarrow> nonvolatile_store \<Rightarrow> nonvolatile_store" where
  "nonvolatile_delete n s = s\<lparr>persistedEvents := entry_delete n (persistedEvents s)\<rparr>"

definition nonvolatile_clear :: "nonvolatile_store \<Rightarrow> nonvolatile_store" where
  "nonvolatile_clear s = base_clear (s\<lparr>removeNumberReservation := False\<rparr>)"

subsection \<open>OccurrenceManager\<close>

record buffer_config =
  minEventAllowance :: int
  maxEventAllowance :: int
  minPriorityEventAllowance :: "event_priority \<Rightarrow> int"

definition DefaultBufferConfig :: buffer_config where
  "DefaultBufferConfig = \<lparr>minEventAllowance = 10000, maxEventAllowance = 11000, minPriorityEventAllowance = \<lambda>_. 2000\<rparr>"

text \<open>The interface \<open>EventStore\<close>.\<close>

record 's event_store_ops =
  op_load :: "'s \<Rightarrow> 's \<times> occurrence_summary list"
  op_add :: "occurrence \<Rightarrow> 's \<Rightarrow> ('s \<times> occurrence_summary) res"
  op_get :: "int \<Rightarrow> 's \<Rightarrow> occurrence res"
  op_delete :: "int \<Rightarrow> 's \<Rightarrow> 's"
  op_clear :: "'s \<Rightarrow> 's"

definition volatile_ops :: "volatile_store event_store_ops" where
  "volatile_ops = \<lparr>op_load = volatile_load, op_add = volatile_add, op_get = volatile_get, op_delete = volatile_delete, op_clear = volatile_clear\<rparr>"

definition nonvolatile_ops :: "nonvolatile_store event_store_ops" where
  "nonvolatile_ops = \<lparr>op_load = nonvolatile_load, op_add = nonvolatile_add, op_get = nonvolatile_get, op_delete = nonvolatile_delete,
     op_clear = nonvolatile_clear\<rparr>"

record 's occurrence_manager =
  event_log :: 's
  storedEventCount :: int
  bufferConfig :: buffer_config
  occurrences :: "event_priority \<Rightarrow> occurrence_summary list"

definition file_entry :: "occurrence_summary \<Rightarrow> 's occurrence_manager \<Rightarrow> 's occurrence_manager" where
  "file_entry e m = m\<lparr>occurrences := (occurrences m)(sPriority e := occurrences m (sPriority e) @ [e])\<rparr>"

definition new_OccurrenceManager :: "'s event_store_ops \<Rightarrow> 's \<Rightarrow> buffer_config option \<Rightarrow> 's occurrence_manager res" where
  "new_OccurrenceManager ops s config =
     (let config = (case config of None \<Rightarrow> DefaultBufferConfig | Some c \<Rightarrow> c)
      in if maxEventAllowance config < minEventAllowance config then Inl ImplementationError
         else if minPriorityEventAllowance config Critical + minPriorityEventAllowance config Info
             + minPriorityEventAllowance config Debug > minEventAllowance config then Inl ImplementationError
         else
           let (s, index) = op_load ops s
           in Inr (fold file_entry index
                \<lparr>event_log = s, storedEventCount = int (length index), bufferConfig = config, occurrences = \<lambda>_. []\<rparr>))"

definition clear_manager :: "'s event_store_ops \<Rightarrow> 's occurrence_manager \<Rightarrow> 's occurrence_manager" where
  "clear_manager ops m = m\<lparr>event_log := op_clear ops (event_log m), storedEventCount := 0, occurrences := \<lambda>_. []\<rparr>"

text \<open>A query: a path, the smallest numbers of its filters and the fabric it is for.\<close>

definition matches :: "int option \<times> int option \<times> int option \<Rightarrow> int option list \<Rightarrow> occurrence_summary \<Rightarrow> bool" where
  "matches path filters e \<longleftrightarrow>
     (case path of (ep, cl, ev) \<Rightarrow> ep = Some (sEndpointId e) \<and> cl = Some (sClusterId e) \<and> ev = Some (sEventId e))
     \<and> (filters = [] \<or> (\<exists>f\<in>set filters. case f of None \<Rightarrow> False | Some eventMin \<Rightarrow> sNumber e \<ge> eventMin))"

definition visible_to :: "int option \<Rightarrow> occurrence \<Rightarrow> bool" where
  "visible_to fabric x \<longleftrightarrow>
     (case fabric of
        None \<Rightarrow> True
      | Some i \<Rightarrow>
          (case payload x of
             Scalar _ \<Rightarrow> True
           | Fields fs \<Rightarrow> (case map_of fs ''fabricIndex'' of None \<Rightarrow> True | Some j \<Rightarrow> j = i)))"

definition query ::
  "'s event_store_ops \<Rightarrow> int option \<times> int option \<times> int option \<Rightarrow> int option list \<Rightarrow> int option \<Rightarrow> 's occurrence_manager
    \<Rightarrow> (int \<times> occurrence) list res" where
  "query ops path filters fabric m =
     and_then (map_res (\<lambda>e. and_then (op_get ops (sNumber e) (event_log m)) (\<lambda>x. Inr (sNumber e, x)))
         (filter (matches path filters) (occurrences m Critical @ occurrences m Info @ occurrences m Debug)))
       (\<lambda>found. Inr (filter (\<lambda>(n, x). visible_to fabric x) found))"

text \<open>The loop counts how many occurrences of a priority go; the length it compares does not change while it counts.\<close>

fun cull_count :: "nat \<Rightarrow> int \<Rightarrow> int \<Rightarrow> nat" where
  "cull_count 0 len reservation = 0"
| "cull_count (Suc count) len reservation = (if len > reservation then Suc (cull_count count len reservation) else 0)"

fun drop_priorities :: "'s event_store_ops \<Rightarrow> event_priority list \<Rightarrow> nat \<Rightarrow> 's occurrence_manager \<Rightarrow> 's occurrence_manager" where
  "drop_priorities ops [] count m = m"
| "drop_priorities ops (p # ps) count m =
     (let xs = occurrences m p;
          countThisPriority = cull_count count (int (length xs)) (minPriorityEventAllowance (bufferConfig m) p);
          m = m\<lparr>occurrences := (occurrences m)(p := drop countThisPriority xs),
                event_log := fold (\<lambda>e. op_delete ops (sNumber e)) (take countThisPriority xs) (event_log m),
                storedEventCount := storedEventCount m - int countThisPriority\<rparr>
      in if count - countThisPriority = 0 then m else drop_priorities ops ps (count - countThisPriority) m)"

definition dropOldOccurrences :: "'s event_store_ops \<Rightarrow> 's occurrence_manager \<Rightarrow> 's occurrence_manager" where
  "dropOldOccurrences ops m =
     (let count = storedEventCount m - minEventAllowance (bufferConfig m)
      in if count \<le> 0 then m else drop_priorities ops [Debug, Info, Critical] (nat count) m)"

definition add_occurrence :: "'s event_store_ops \<Rightarrow> occurrence \<Rightarrow> 's occurrence_manager \<Rightarrow> ('s occurrence_manager \<times> int \<times> occurrence) res" where
  "add_occurrence ops x m =
     and_then (op_add ops x (event_log m)) (\<lambda>(s, entry).
       let m = m\<lparr>event_log := s, occurrences := (occurrences m)(priority x := occurrences m (priority x) @ [entry]),
                 storedEventCount := storedEventCount m + 1\<rparr>;
           m = (if storedEventCount m > maxEventAllowance (bufferConfig m) then dropOldOccurrences ops m else m)
       in Inr (m, sNumber entry, x))"

subsection \<open>What the manager relies on\<close>

locale event_store =
  fixes ops :: "'s event_store_ops" and ok :: "'s \<Rightarrow> bool" and held :: "'s \<Rightarrow> int \<Rightarrow> occurrence option"
  assumes add_succeeds: "ok s \<Longrightarrow> \<exists>s' e. op_add ops x s = Inr (s', e)"
    and added: "ok s \<Longrightarrow> op_add ops x s = Inr (s', e) \<Longrightarrow>
      ok s' \<and> OccurrenceSummary (sNumber e) x = e \<and> held s' = (held s)(sNumber e \<mapsto> x) \<and> (\<forall>m. held s m \<noteq> None \<longrightarrow> m < sNumber e)"
    and got: "ok s \<Longrightarrow> held s n = Some x \<Longrightarrow> op_get ops n s = Inr x"
    and delete_ok: "ok s \<Longrightarrow> ok (op_delete ops n s)"
    and delete_keeps: "ok s \<Longrightarrow> m \<noteq> n \<Longrightarrow> held (op_delete ops n s) m = held s m"
    and clear_ok: "ok s \<Longrightarrow> ok (op_clear ops s)"

text \<open>The entries of the index are those of occurrences in the store, in the order of their numbers.\<close>

definition indexed :: "('s \<Rightarrow> bool) \<Rightarrow> ('s \<Rightarrow> int \<Rightarrow> occurrence option) \<Rightarrow> 's occurrence_manager \<Rightarrow> bool" where
  "indexed ok held m \<longleftrightarrow>
     ok (event_log m)
     \<and> (\<forall>p. \<forall>e\<in>set (occurrences m p). sPriority e = p \<and> (\<exists>x. held (event_log m) (sNumber e) = Some x \<and> OccurrenceSummary (sNumber e) x = e))
     \<and> (\<forall>p. sorted_wrt (<) (map sNumber (occurrences m p)))"

definition all_indexed :: "('s \<Rightarrow> int \<Rightarrow> occurrence option) \<Rightarrow> 's occurrence_manager \<Rightarrow> bool" where
  "all_indexed held m \<longleftrightarrow> (\<forall>n x. held (event_log m) n = Some x \<longrightarrow> OccurrenceSummary n x \<in> set (occurrences m (priority x)))"

lemma OccurrenceSummary_sel [simp]:
  "sNumber (OccurrenceSummary n x) = n" "sPriority (OccurrenceSummary n x) = priority x"
  by (simp_all add: OccurrenceSummary_def)

lemma indexedD:
  assumes "indexed ok held m" "e \<in> set (occurrences m p)"
  shows "sPriority e = p" "\<exists>x. held (event_log m) (sNumber e) = Some x \<and> OccurrenceSummary (sNumber e) x = e"
  using assms by (auto simp: indexed_def)

text \<open>Dropping a prefix of the entries of one priority.\<close>

definition drop_entries :: "'s event_store_ops \<Rightarrow> event_priority \<Rightarrow> nat \<Rightarrow> 's occurrence_manager \<Rightarrow> 's occurrence_manager" where
  "drop_entries ops p k m =
     m\<lparr>occurrences := (occurrences m)(p := drop k (occurrences m p)),
       event_log := fold (\<lambda>e. op_delete ops (sNumber e)) (take k (occurrences m p)) (event_log m),
       storedEventCount := storedEventCount m - int k\<rparr>"

lemma drop_priorities_Cons:
  "drop_priorities ops (p # ps) count m =
     (let k = cull_count count (int (length (occurrences m p))) (minPriorityEventAllowance (bufferConfig m) p)
      in if count - k = 0 then drop_entries ops p k m else drop_priorities ops ps (count - k) (drop_entries ops p k m))"
  by (simp add: drop_entries_def Let_def)

declare drop_priorities.simps(2) [simp del]

context event_store
begin

lemma deletes: "ok s \<Longrightarrow> ok (fold (\<lambda>e. op_delete ops (sNumber e)) es s)
    \<and> (\<forall>n. n \<notin> sNumber ` set es \<longrightarrow> held (fold (\<lambda>e. op_delete ops (sNumber e)) es s) n = held s n)"
  by (induction es arbitrary: s) (auto simp: delete_ok delete_keeps)

lemma kept_entries:
  assumes "indexed ok held m" "e \<in> set (occurrences (drop_entries ops p k m) q)"
  shows "e \<in> set (occurrences m q)" "sNumber e \<notin> sNumber ` set (take k (occurrences m p))"
proof -
  show e: "e \<in> set (occurrences m q)"
    using assms(2) by (auto simp: drop_entries_def dest: in_set_dropD split: if_splits)
  show "sNumber e \<notin> sNumber ` set (take k (occurrences m p))"
  proof
    assume "sNumber e \<in> sNumber ` set (take k (occurrences m p))"
    then obtain d where d: "d \<in> set (take k (occurrences m p))" "sNumber d = sNumber e" by auto
    then have d': "d \<in> set (occurrences m p)" by (meson in_set_takeD)
    obtain x y where "held (event_log m) (sNumber d) = Some x" "OccurrenceSummary (sNumber d) x = d"
      "held (event_log m) (sNumber e) = Some y" "OccurrenceSummary (sNumber e) y = e"
      using indexedD(2) [OF assms(1) d'] indexedD(2) [OF assms(1) e] by blast
    then have "d = e" using d(2) by simp
    then have "p = q" using indexedD(1) [OF assms(1) d'] indexedD(1) [OF assms(1) e] by simp
    then have "e \<in> set (drop k (occurrences m p))" using assms(2) by (simp add: drop_entries_def)
    moreover have "sorted_wrt (<) (map sNumber (take k (occurrences m p)) @ map sNumber (drop k (occurrences m p)))"
      using assms(1) by (simp add: indexed_def flip: map_append)
    ultimately have "sNumber d < sNumber e" using d(1) unfolding sorted_wrt_append by auto
    then show False using d(2) by simp
  qed
qed

lemma indexed_drop_entries:
  assumes "indexed ok held m"
  shows "indexed ok held (drop_entries ops p k m)"
proof -
  let ?m = "drop_entries ops p k m"
  have log: "event_log ?m = fold (\<lambda>e. op_delete ops (sNumber e)) (take k (occurrences m p)) (event_log m)"
    by (simp add: drop_entries_def)
  have "ok (event_log m)" using assms by (simp add: indexed_def)
  note deletes = deletes [OF this, of "take k (occurrences m p)"]
  show ?thesis
    unfolding indexed_def
  proof (intro conjI allI ballI)
    show "ok (event_log ?m)" using deletes log by simp
  next
    fix q e
    assume e: "e \<in> set (occurrences ?m q)"
    then show "sPriority e = q" using kept_entries(1) [OF assms] indexedD(1) [OF assms] by blast
    show "\<exists>x. held (event_log ?m) (sNumber e) = Some x \<and> OccurrenceSummary (sNumber e) x = e"
    proof -
      have "held (event_log ?m) (sNumber e) = held (event_log m) (sNumber e)"
        using kept_entries(2) [OF assms e] deletes log by simp
      then show ?thesis using indexedD(2) [OF assms kept_entries(1) [OF assms e]] by presburger
    qed
  next
    fix q
    show "sorted_wrt (<) (map sNumber (occurrences ?m q))"
      using assms sorted_wrt_drop [of "(<)" "map sNumber (occurrences m q)" k]
      by (auto simp: indexed_def drop_entries_def drop_map)
  qed
qed

lemma indexed_drop_priorities: "indexed ok held m \<Longrightarrow> indexed ok held (drop_priorities ops ps count m)"
  by (induction ps arbitrary: count m) (simp_all add: drop_priorities_Cons Let_def indexed_drop_entries)

lemma indexed_add:
  assumes "indexed ok held m" "add_occurrence ops x m = Inr (m', n, y)"
  shows "indexed ok held m'"
proof -
  obtain s e where add: "op_add ops x (event_log m) = Inr (s, e)"
    using assms(2) by (auto simp: add_occurrence_def and_then_Inr_iff)
  have "ok (event_log m)" using assms(1) by (simp add: indexed_def)
  note new = added [OF this add]
  define m1 where "m1 = m\<lparr>event_log := s, occurrences := (occurrences m)(priority x := occurrences m (priority x) @ [e]), storedEventCount := storedEventCount m + 1\<rparr>"
  have older: "sNumber d < sNumber e" if "d \<in> set (occurrences m p)" for d p
    using indexedD(2) [OF assms(1) that] new by auto
  have "indexed ok held m1"
    unfolding indexed_def
  proof (intro conjI allI ballI)
    show "ok (event_log m1)" using new by (simp add: m1_def)
  next
    fix p d
    assume d: "d \<in> set (occurrences m1 p)"
    have entry: "OccurrenceSummary (sNumber e) x = e" "sPriority e = priority x"
      using new by simp (metis new OccurrenceSummary_sel(2))
    consider "d = e" "p = priority x" | "d \<in> set (occurrences m p)"
      using d by (auto simp: m1_def split: if_splits)
    then have "sPriority d = p \<and> (\<exists>x. held s (sNumber d) = Some x \<and> OccurrenceSummary (sNumber d) x = d)"
    proof cases
      case 1
      then show ?thesis using new entry by auto
    next
      case 2
      then have "held s (sNumber d) = held (event_log m) (sNumber d)" using new older [OF 2] by simp
      then show ?thesis using indexedD [OF assms(1) 2] by auto
    qed
    then show "sPriority d = p" "\<exists>x. held (event_log m1) (sNumber d) = Some x \<and> OccurrenceSummary (sNumber d) x = d"
      by (simp_all add: m1_def)
  next
    fix p
    show "sorted_wrt (<) (map sNumber (occurrences m1 p))"
      using assms(1) older by (auto simp: m1_def indexed_def sorted_wrt_append)
  qed
  then show ?thesis
    using assms(2) add indexed_drop_priorities
    by (auto simp: add_occurrence_def m1_def Let_def dropOldOccurrences_def split: if_splits)
qed

lemma query_found:
  assumes "indexed ok held m"
  shows "\<exists>found. query ops path filters fabric m = Inr found
    \<and> (\<forall>n x. (n, x) \<in> set found \<longleftrightarrow>
        held (event_log m) n = Some x \<and> OccurrenceSummary n x \<in> set (occurrences m (priority x))
        \<and> matches path filters (OccurrenceSummary n x) \<and> visible_to fabric x)"
proof -
  define es where "es = filter (matches path filters) (occurrences m Critical @ occurrences m Info @ occurrences m Debug)"
  define content where "content = (\<lambda>e :: occurrence_summary. (sNumber e, the (held (event_log m) (sNumber e))))"
  have ok: "ok (event_log m)" using assms by (simp add: indexed_def)
  have entries: "e \<in> set es \<longleftrightarrow> e \<in> set (occurrences m (sPriority e)) \<and> matches path filters e" for e
  proof -
    have "e \<in> set (occurrences m p) \<Longrightarrow> p = sPriority e" for p using indexedD(1) [OF assms] by blast
    then show ?thesis by (cases "sPriority e") (auto simp: es_def)
  qed
  have "map_res (\<lambda>e. and_then (op_get ops (sNumber e) (event_log m)) (\<lambda>x. Inr (sNumber e, x))) es = Inr (map content es)"
  proof (rule map_res_Inr)
    fix e assume "e \<in> set es"
    then have "e \<in> set (occurrences m (sPriority e))" using entries by blast
    then obtain x where "held (event_log m) (sNumber e) = Some x" using indexedD(2) [OF assms] by blast
    then show "and_then (op_get ops (sNumber e) (event_log m)) (\<lambda>x. Inr (sNumber e, x)) = Inr (content e)"
      using got [OF ok] by (simp add: content_def)
  qed
  then have result: "query ops path filters fabric m = Inr (filter (\<lambda>(n, x). visible_to fabric x) (map content es))"
    unfolding query_def es_def [symmetric] by simp
  have "(n, x) \<in> content ` set es \<longleftrightarrow> held (event_log m) n = Some x \<and> OccurrenceSummary n x \<in> set (occurrences m (priority x))
      \<and> matches path filters (OccurrenceSummary n x)" for n x
  proof
    assume "(n, x) \<in> content ` set es"
    then obtain e where e: "e \<in> set es" "n = sNumber e" "x = the (held (event_log m) n)" by (auto simp: content_def)
    then have found: "e \<in> set (occurrences m (sPriority e))" "matches path filters e" using entries by blast+
    obtain y where y: "held (event_log m) n = Some y" "OccurrenceSummary n y = e" using indexedD(2) [OF assms found(1)] e(2) by blast
    then have "x = y" using e(3) by simp
    then show "held (event_log m) n = Some x \<and> OccurrenceSummary n x \<in> set (occurrences m (priority x)) \<and> matches path filters (OccurrenceSummary n x)"
      using y found OccurrenceSummary_sel(2) [of n y] by simp
  next
    assume "held (event_log m) n = Some x \<and> OccurrenceSummary n x \<in> set (occurrences m (priority x)) \<and> matches path filters (OccurrenceSummary n x)"
    then show "(n, x) \<in> content ` set es"
      using entries [of "OccurrenceSummary n x"]
      by (intro image_eqI [of _ _ "OccurrenceSummary n x"]) (simp_all add: content_def)
  qed
  then show ?thesis using result by (intro exI [of _ "filter (\<lambda>(n, x). visible_to fabric x) (map content es)"]) auto
qed

end

text \<open>A store that forgets what is deleted and finds again, when it is opened, what it has.\<close>

locale exact_event_store = event_store ops ok held for ops :: "'s event_store_ops" and ok held +
  fixes reopen :: "'s \<Rightarrow> 's"
  assumes delete_removes: "ok s \<Longrightarrow> held (op_delete ops n s) n = None"
    and clear_removes: "ok s \<Longrightarrow> held (op_clear ops s) n = None"
    and reopened: "ok s \<Longrightarrow> op_load ops (reopen s) = (s', index) \<Longrightarrow>
      ok s' \<and> held s' = held s \<and> sorted_wrt (<) (map sNumber index)
      \<and> (\<forall>e. e \<in> set index \<longleftrightarrow> (\<exists>x. held s (sNumber e) = Some x \<and> OccurrenceSummary (sNumber e) x = e))"

datatype log_event = AddEvent occurrence | ClearLog | RestartLog

definition log_step :: "'s event_store_ops \<Rightarrow> ('s \<Rightarrow> 's) \<Rightarrow> log_event \<Rightarrow> 's occurrence_manager \<Rightarrow> 's occurrence_manager" where
  "log_step ops reopen v m =
     (case v of
        AddEvent x \<Rightarrow> (case add_occurrence ops x m of Inl e \<Rightarrow> m | Inr (m', n, y) \<Rightarrow> m')
      | ClearLog \<Rightarrow> clear_manager ops m
      | RestartLog \<Rightarrow> (case new_OccurrenceManager ops (reopen (event_log m)) (Some (bufferConfig m)) of Inl e \<Rightarrow> m | Inr m' \<Rightarrow> m'))"

fun run_log :: "'s event_store_ops \<Rightarrow> ('s \<Rightarrow> 's) \<Rightarrow> log_event list \<Rightarrow> 's occurrence_manager \<Rightarrow> 's occurrence_manager" where
  "run_log ops reopen [] m = m"
| "run_log ops reopen (v # vs) m = run_log ops reopen vs (log_step ops reopen v m)"

lemma filed_entries:
  "event_log (fold file_entry es m) = event_log m \<and> bufferConfig (fold file_entry es m) = bufferConfig m
   \<and> occurrences (fold file_entry es m) p = occurrences m p @ filter (\<lambda>e. sPriority e = p) es"
  by (induction es arbitrary: m) (auto simp: file_entry_def)

lemma sorted_filter: "sorted_wrt (<) (map sNumber es) \<Longrightarrow> sorted_wrt (<) (map sNumber (filter P es))"
  by (induction es) auto

context exact_event_store
begin

lemma removed: "ok s \<Longrightarrow> n \<in> sNumber ` set es \<Longrightarrow> held (fold (\<lambda>e. op_delete ops (sNumber e)) es s) n = None"
proof (induction es arbitrary: s)
  case (Cons e es)
  have ok: "ok (op_delete ops (sNumber e) s)" by (rule delete_ok [OF Cons.prems(1)])
  show ?case
  proof (cases "n \<in> sNumber ` set es")
    case True
    then show ?thesis using Cons.IH [OF ok] by simp
  next
    case False
    then have "n = sNumber e" using Cons.prems(2) by auto
    then show ?thesis using deletes [OF ok, of es] False delete_removes [OF Cons.prems(1)] by simp
  qed
qed simp

lemma all_indexed_drop_entries:
  assumes "indexed ok held m" "all_indexed held m"
  shows "all_indexed held (drop_entries ops p k m)"
  unfolding all_indexed_def
proof (intro allI impI)
  fix n x
  let ?m = "drop_entries ops p k m"
  let ?out = "take k (occurrences m p)"
  have ok: "ok (event_log m)" using assms(1) by (simp add: indexed_def)
  have log: "event_log ?m = fold (\<lambda>e. op_delete ops (sNumber e)) ?out (event_log m)" by (simp add: drop_entries_def)
  assume held: "held (event_log ?m) n = Some x"
  then have out: "n \<notin> sNumber ` set ?out" using removed [OF ok, of n ?out] log by (metis option.distinct(1))
  then have "held (event_log m) n = Some x" using held deletes [OF ok, of ?out] log out by simp
  then have "OccurrenceSummary n x \<in> set (occurrences m (priority x))" using assms(2) by (simp add: all_indexed_def)
  moreover have "OccurrenceSummary n x \<notin> set ?out" using out by force
  moreover have "set (occurrences m p) = set ?out \<union> set (drop k (occurrences m p))"
    by (metis append_take_drop_id set_append)
  ultimately show "OccurrenceSummary n x \<in> set (occurrences ?m (priority x))" by (auto simp: drop_entries_def)
qed

lemma all_indexed_drop_priorities:
  "indexed ok held m \<Longrightarrow> all_indexed held m \<Longrightarrow> all_indexed held (drop_priorities ops ps count m)"
  by (induction ps arbitrary: count m)
    (simp_all add: drop_priorities_Cons Let_def indexed_drop_entries all_indexed_drop_entries)

lemma all_indexed_add:
  assumes "indexed ok held m" "all_indexed held m" "add_occurrence ops x m = Inr (m', n, y)"
  shows "all_indexed held m'"
proof -
  obtain s e where add: "op_add ops x (event_log m) = Inr (s, e)"
    using assms(3) by (auto simp: add_occurrence_def and_then_Inr_iff)
  have "ok (event_log m)" using assms(1) by (simp add: indexed_def)
  note new = added [OF this add]
  define m1 where "m1 = m\<lparr>event_log := s, occurrences := (occurrences m)(priority x := occurrences m (priority x) @ [e]), storedEventCount := storedEventCount m + 1\<rparr>"
  have "all_indexed held m1"
    unfolding all_indexed_def
  proof (intro allI impI)
    fix n y
    assume "held (event_log m1) n = Some y"
    then have "n = sNumber e \<and> y = x \<or> held (event_log m) n = Some y"
      using new by (auto simp: m1_def split: if_splits)
    moreover have "OccurrenceSummary n y \<in> set (occurrences m (priority y))" if "held (event_log m) n = Some y"
      using assms(2) that by (simp add: all_indexed_def)
    ultimately show "OccurrenceSummary n y \<in> set (occurrences m1 (priority y))"
      using new by (auto simp: m1_def)
  qed
  moreover have "indexed ok held m1"
  proof -
    define low where "low = m\<lparr>bufferConfig := (bufferConfig m)\<lparr>maxEventAllowance := storedEventCount m + 1\<rparr>\<rparr>"
    have "indexed ok held low" using assms(1) by (simp add: indexed_def low_def)
    moreover have "add_occurrence ops x low = Inr (m1\<lparr>bufferConfig := bufferConfig low\<rparr>, sNumber e, x)"
      using add by (simp add: add_occurrence_def low_def m1_def)
    ultimately have "indexed ok held (m1\<lparr>bufferConfig := bufferConfig low\<rparr>)" by (rule indexed_add)
    then show ?thesis by (simp add: indexed_def)
  qed
  ultimately show ?thesis
    using assms(3) add all_indexed_drop_priorities
    by (auto simp: add_occurrence_def m1_def Let_def dropOldOccurrences_def split: if_splits)
qed

lemma indexed_reopened:
  assumes "ok s" "new_OccurrenceManager ops (reopen s) config = Inr m"
  shows "indexed ok held m \<and> all_indexed held m"
proof -
  obtain s' index where load: "op_load ops (reopen s) = (s', index)" by fastforce
  note opened = reopened [OF assms(1) load]
  have log: "event_log m = s'" "occurrences m p = filter (\<lambda>e. sPriority e = p) index" for p
    using assms(2) load by (auto simp: new_OccurrenceManager_def Let_def filed_entries split: if_splits)
  have "indexed ok held m"
    using opened by (simp add: indexed_def log sorted_filter)
  moreover have "all_indexed held m"
    using opened by (auto simp: all_indexed_def log)
  ultimately show ?thesis ..
qed

lemma run_log_indexed:
  "indexed ok held m \<Longrightarrow> all_indexed held m \<Longrightarrow> indexed ok held (run_log ops reopen vs m) \<and> all_indexed held (run_log ops reopen vs m)"
proof (induction vs arbitrary: m)
  case (Cons v vs)
  have ok: "ok (event_log m)" using Cons.prems(1) by (simp add: indexed_def)
  have "indexed ok held (log_step ops reopen v m) \<and> all_indexed held (log_step ops reopen v m)"
  proof (cases v)
    case (AddEvent x)
    then show ?thesis
      using Cons.prems indexed_add all_indexed_add by (auto simp: log_step_def split: sum.splits prod.splits)
  next
    case ClearLog
    then show ?thesis
      using clear_ok [OF ok] clear_removes [OF ok]
      by (simp add: log_step_def clear_manager_def indexed_def all_indexed_def)
  next
    case RestartLog
    then show ?thesis
      using Cons.prems indexed_reopened [OF ok] by (auto simp: log_step_def split: sum.splits)
  qed
  then show ?case using Cons.IH by simp
qed simp

lemma query_exact:
  assumes "indexed ok held m" "all_indexed held m"
  shows "\<exists>found. query ops path filters fabric m = Inr found
    \<and> (\<forall>n x. (n, x) \<in> set found \<longleftrightarrow>
        held (event_log m) n = Some x \<and> matches path filters (OccurrenceSummary n x) \<and> visible_to fabric x)"
  using query_found [OF assms(1), of path filters fabric] assms(2) unfolding all_indexed_def by metis

end

subsection \<open>The two stores\<close>

definition nonvolatile_ok :: "nonvolatile_store \<Rightarrow> bool" where
  "nonvolatile_ok s \<longleftrightarrow> (\<exists>k. nextNumber s = Some k \<and> (\<forall>n\<in>fst ` set (persistedEvents s). n < k)) \<and> sorted_wrt (<) (map fst (persistedEvents s))"

definition nonvolatile_held :: "nonvolatile_store \<Rightarrow> int \<Rightarrow> occurrence option" where
  "nonvolatile_held s = map_of (persistedEvents s)"

definition reopen_nonvolatile :: "nonvolatile_store \<Rightarrow> nonvolatile_store" where
  "reopen_nonvolatile s = new_NonvolatileEventStore (lastEventNumber s) (persistedEvents s)"

lemma entry_set_new: "n \<notin> fst ` set es \<Longrightarrow> entry_set n x es = es @ [(n, x)]"
  by (simp add: entry_set_def)

lemma map_of_entry_set:
  assumes "n \<notin> fst ` set es"
  shows "map_of (entry_set n x es) = (map_of es)(n \<mapsto> x)"
proof -
  have "map_of es n = None" using assms by (simp add: map_of_eq_None_iff)
  then show ?thesis using assms by (intro ext) (simp add: entry_set_new map_add_def split: option.splits)
qed

lemma map_of_entry_delete: "map_of (entry_delete n es) = (map_of es)(n := None)"
  by (induction es) (auto simp: entry_delete_def)

lemma keys_entry_delete: "fst ` set (entry_delete n es) = fst ` set es - {n}"
  by (auto simp: entry_delete_def)

lemma sorted_entry_delete: "sorted_wrt (<) (map fst es) \<Longrightarrow> sorted_wrt (<) (map fst (entry_delete n es))"
  by (induction es) (auto simp: entry_delete_def)

lemma concat_singletons: "(\<And>x. x \<in> set xs \<Longrightarrow> g (f x) = [h x]) \<Longrightarrow> concat (map g (map f xs)) = map h xs"
  by (induction xs) auto

lemma next_after_bound: "next_after ks n = Some m \<Longrightarrow> (\<forall>k\<in>set ks. k < m) \<and> (\<forall>j. n = Some j \<longrightarrow> j \<le> m)"
proof (induction ks arbitrary: n)
  case (Cons k ks)
  define n' where "n' = (case n of None \<Rightarrow> k + 1 | Some m \<Rightarrow> if m \<le> k then k + 1 else m)"
  have "k < n'" "\<forall>j. n = Some j \<longrightarrow> j \<le> n'" by (auto simp: n'_def split: option.splits)
  moreover have "next_after ks (Some n') = Some m"
    using Cons.prems by (cases n) (simp_all add: n'_def split: if_splits)
  ultimately show ?case using Cons.IH [of "Some n'"] by force
qed simp

lemma next_after_Some: "\<exists>m. next_after ks (Some n) = Some m"
  by (induction ks arbitrary: n) simp_all

lemma next_after_None: "next_after ks n = None \<Longrightarrow> ks = [] \<and> n = None"
proof (cases ks)
  case (Cons k ks')
  define n' where "n' = (case n of None \<Rightarrow> k + 1 | Some m \<Rightarrow> if m \<le> k then k + 1 else m)"
  have "next_after ks n = next_after ks' (Some n')" using Cons by (cases n) (simp_all add: n'_def)
  then show "next_after ks n = None \<Longrightarrow> ks = [] \<and> n = None" using next_after_Some [of ks' n'] by auto
qed simp

lemma nonvolatile_reopened:
  "nonvolatile_load (reopen_nonvolatile s) =
     (\<lparr>lastEventNumber = lastEventNumber s, persistedEvents = persistedEvents s,
        nextNumber = Some (case next_after (map fst (persistedEvents s)) (lastEventNumber s) of None \<Rightarrow> 1 | Some n \<Rightarrow> n),
        removeNumberReservation = (lastEventNumber s \<noteq> None)\<rparr>,
      concat (map (\<lambda>n. case map_of (persistedEvents s) n of None \<Rightarrow> [] | Some x \<Rightarrow> [OccurrenceSummary n x]) (map fst (persistedEvents s))))"
  by (simp add: nonvolatile_load_def loadInitialState_def reopen_nonvolatile_def new_NonvolatileEventStore_def Let_def)

interpretation nonvolatile: exact_event_store nonvolatile_ops nonvolatile_ok nonvolatile_held reopen_nonvolatile
proof unfold_locales
  fix s x
  assume "nonvolatile_ok s"
  then show "\<exists>s' e. op_add nonvolatile_ops x s = Inr (s', e)"
    by (auto simp: nonvolatile_ops_def nonvolatile_add_def allocateNumber_def nonvolatile_ok_def Let_def)
next
  fix s x s' e
  assume ok: "nonvolatile_ok s" and add: "op_add nonvolatile_ops x s = Inr (s', e)"
  obtain k where k: "nextNumber s = Some k" "\<forall>n\<in>fst ` set (persistedEvents s). n < k" using ok by (auto simp: nonvolatile_ok_def)
  then have new: "k \<notin> fst ` set (persistedEvents s)" by auto
  have s': "persistedEvents s' = persistedEvents s @ [(k, x)]" "nextNumber s' = Some (k + 1)" "e = OccurrenceSummary k x"
    using add k new by (auto simp: nonvolatile_ops_def nonvolatile_add_def allocateNumber_def Let_def entry_set_new split: if_splits)
  have "nonvolatile_ok s'" using ok k by (fastforce simp: nonvolatile_ok_def s' sorted_wrt_append)
  moreover have "nonvolatile_held s' = (nonvolatile_held s)(k \<mapsto> x)"
    using map_of_entry_set [OF new] new by (simp add: nonvolatile_held_def s' entry_set_new)
  moreover have "n < k" if "nonvolatile_held s n \<noteq> None" for n
    using k(2) that by (auto simp: nonvolatile_held_def map_of_eq_None_iff)
  ultimately show "nonvolatile_ok s' \<and> OccurrenceSummary (sNumber e) x = e \<and> nonvolatile_held s' = (nonvolatile_held s)(sNumber e \<mapsto> x)
      \<and> (\<forall>m. nonvolatile_held s m \<noteq> None \<longrightarrow> m < sNumber e)"
    by (simp add: s'(3))
next
  fix s s' index
  assume ok: "nonvolatile_ok s" and load: "op_load nonvolatile_ops (reopen_nonvolatile s) = (s', index)"
  have sorted: "sorted_wrt (<) (map fst (persistedEvents s))" using ok by (simp add: nonvolatile_ok_def)
  have distinct: "distinct (map fst (persistedEvents s))" using sorted by (simp add: strict_sorted_iff)
  define k where "k = (case next_after (map fst (persistedEvents s)) (lastEventNumber s) of None \<Rightarrow> 1 | Some n \<Rightarrow> n)"
  have loaded: "nextNumber s' = Some k" "persistedEvents s' = persistedEvents s"
    "index = concat (map (\<lambda>n. case map_of (persistedEvents s) n of None \<Rightarrow> [] | Some x \<Rightarrow> [OccurrenceSummary n x]) (map fst (persistedEvents s)))"
    using load unfolding k_def nonvolatile_ops_def event_store_ops.simps nonvolatile_reopened by auto
  have above: "\<forall>n\<in>fst ` set (persistedEvents s). n < k"
    using next_after_bound [of "map fst (persistedEvents s)" "lastEventNumber s"] next_after_None [of "map fst (persistedEvents s)" "lastEventNumber s"]
    by (auto simp: k_def split: option.splits)
  have "(case map_of (persistedEvents s) (fst e) of None \<Rightarrow> [] | Some x \<Rightarrow> [OccurrenceSummary (fst e) x]) = [case e of (n, x) \<Rightarrow> OccurrenceSummary n x]"
    if "e \<in> set (persistedEvents s)" for e
    using distinct that by (cases e) simp
  then have index: "index = map (\<lambda>(n, x). OccurrenceSummary n x) (persistedEvents s)"
    unfolding loaded(3) by (rule concat_singletons)
  have "e \<in> set index \<longleftrightarrow> (\<exists>x. map_of (persistedEvents s) (sNumber e) = Some x \<and> OccurrenceSummary (sNumber e) x = e)" for e
    using distinct by (auto simp: index image_iff intro!: bexI [of _ "(sNumber e, x)" for x])
  moreover have "map sNumber index = map fst (persistedEvents s)" by (simp add: index case_prod_unfold)
  ultimately show "nonvolatile_ok s' \<and> nonvolatile_held s' = nonvolatile_held s \<and> sorted_wrt (<) (map sNumber index)
      \<and> (\<forall>e. e \<in> set index \<longleftrightarrow> (\<exists>x. nonvolatile_held s (sNumber e) = Some x \<and> OccurrenceSummary (sNumber e) x = e))"
    using loaded(1, 2) above sorted by (simp add: nonvolatile_ok_def nonvolatile_held_def)
qed (auto simp: nonvolatile_ops_def nonvolatile_get_def nonvolatile_delete_def nonvolatile_clear_def base_clear_def nonvolatile_ok_def nonvolatile_held_def
    map_of_entry_delete keys_entry_delete sorted_entry_delete)

text \<open>The volatile store is only known to hold what it is given.\<close>

definition volatile_ok :: "volatile_store \<Rightarrow> bool" where
  "volatile_ok s \<longleftrightarrow> (\<exists>k. nextNumber s = Some k \<and> (\<forall>n\<in>fst ` set (vEvents s). n < k))"

definition volatile_held :: "volatile_store \<Rightarrow> int \<Rightarrow> occurrence option" where
  "volatile_held s = map_of (vEvents s)"

definition reopen_volatile :: "volatile_store \<Rightarrow> volatile_store" where
  "reopen_volatile s = new_VolatileEventStore (lastEventNumber s) (persistedEvents s) (numberBlockSize s)"

interpretation volatile: event_store volatile_ops volatile_ok volatile_held
proof unfold_locales
  fix s x
  assume "volatile_ok s"
  then show "\<exists>s' e. op_add volatile_ops x s = Inr (s', e)"
    by (auto simp: volatile_ops_def volatile_add_def allocateNumber_def volatile_ok_def Let_def)
next
  fix s x s' e
  assume ok: "volatile_ok s" and add: "op_add volatile_ops x s = Inr (s', e)"
  obtain k where k: "nextNumber s = Some k" "\<forall>n\<in>fst ` set (vEvents s). n < k" using ok by (auto simp: volatile_ok_def)
  then have new: "k \<notin> fst ` set (vEvents s)" by auto
  have s': "vEvents s' = vEvents s @ [(k, x)]" "nextNumber s' = Some (k + 1)" "e = OccurrenceSummary k x"
    using add k new by (auto simp: volatile_ops_def volatile_add_def allocateNumber_def Let_def entry_set_new split: if_splits option.splits)
  have "volatile_ok s'" using k by (fastforce simp: volatile_ok_def s')
  moreover have "volatile_held s' = (volatile_held s)(k \<mapsto> x)"
    using map_of_entry_set [OF new] new by (simp add: volatile_held_def s' entry_set_new)
  moreover have "n < k" if "volatile_held s n \<noteq> None" for n
    using k(2) that by (auto simp: volatile_held_def map_of_eq_None_iff)
  ultimately show "volatile_ok s' \<and> OccurrenceSummary (sNumber e) x = e \<and> volatile_held s' = (volatile_held s)(sNumber e \<mapsto> x)
      \<and> (\<forall>m. volatile_held s m \<noteq> None \<longrightarrow> m < sNumber e)"
    by (simp add: s'(3))
qed (auto simp: volatile_ops_def volatile_get_def volatile_delete_def volatile_clear_def base_clear_def volatile_ok_def volatile_held_def)

subsection \<open>The log of a node\<close>

text \<open>C29: In every state of a log with non-volatile store, reached by events, clearing and restarts, a query succeeds and returns exactly the stored events that its path, filters and fabric select, each with its number and content.\<close>

theorem event_query_exact:
  assumes "new_OccurrenceManager nonvolatile_ops (new_NonvolatileEventStore None []) (Some config) = Inr m"
  shows "\<exists>found. query nonvolatile_ops path filters fabric (run_log nonvolatile_ops reopen_nonvolatile vs m) = Inr found
    \<and> (\<forall>n x. (n, x) \<in> set found \<longleftrightarrow>
        (n, x) \<in> set (persistedEvents (event_log (run_log nonvolatile_ops reopen_nonvolatile vs m)))
        \<and> matches path filters (OccurrenceSummary n x) \<and> visible_to fabric x)"
proof -
  let ?m = "run_log nonvolatile_ops reopen_nonvolatile vs m"
  have "nonvolatile_ok ((new_NonvolatileEventStore None [])\<lparr>nextNumber := Some 1\<rparr>)"
    by (simp add: nonvolatile_ok_def new_NonvolatileEventStore_def)
  moreover have reopened: "reopen_nonvolatile ((new_NonvolatileEventStore None [])\<lparr>nextNumber := Some 1\<rparr>) = new_NonvolatileEventStore None []"
    by (simp add: reopen_nonvolatile_def new_NonvolatileEventStore_def)
  ultimately have "indexed nonvolatile_ok nonvolatile_held m \<and> all_indexed nonvolatile_held m"
    using assms nonvolatile.indexed_reopened [of "(new_NonvolatileEventStore None [])\<lparr>nextNumber := Some 1\<rparr>" "Some config" m]
    unfolding reopened by blast
  then have indexed: "indexed nonvolatile_ok nonvolatile_held ?m" "all_indexed nonvolatile_held ?m"
    using nonvolatile.run_log_indexed by blast+
  have "distinct (map fst (persistedEvents (event_log ?m)))"
    using indexed(1) by (simp add: indexed_def nonvolatile_ok_def strict_sorted_iff)
  then have "nonvolatile_held (event_log ?m) n = Some x \<longleftrightarrow> (n, x) \<in> set (persistedEvents (event_log ?m))" for n x
    by (simp add: nonvolatile_held_def)
  then show ?thesis using nonvolatile.query_exact [OF indexed, of path filters fabric] by simp
qed

text \<open>Dropping old occurrences.\<close>

lemma cull_count_eq: "cull_count count len reservation = (if len > reservation then count else 0)"
  by (induction count) auto


subsection \<open>Numbers of a volatile log\<close>

text \<open>The numbers given to events, with restarts between them.\<close>

fun volatile_numbers :: "occurrence option list \<Rightarrow> volatile_store \<Rightarrow> int list" where
  "volatile_numbers [] s = []"
| "volatile_numbers (None # vs) s = volatile_numbers vs (fst (volatile_load (reopen_volatile s)))"
| "volatile_numbers (Some x # vs) s =
     (case volatile_add x s of Inl e \<Rightarrow> volatile_numbers vs s | Inr (s', e) \<Rightarrow> sNumber e # volatile_numbers vs s')"

text \<open>What is in storage is above the numbers that have been given.\<close>

definition reserved :: "int \<Rightarrow> volatile_store \<Rightarrow> bool" where
  "reserved k s \<longleftrightarrow> nextNumber s = Some k \<and> persistedEvents s = [] \<and> numbersReservedTo s = lastEventNumber s \<and> 0 < numberBlockSize s
     \<and> 1 \<le> k \<and> (case lastEventNumber s of None \<Rightarrow> k = 1 | Some r \<Rightarrow> k \<le> r)"

lemma reserved_add:
  assumes "reserved k s"
  shows "\<exists>s'. volatile_add x s = Inr (s', OccurrenceSummary k x) \<and> reserved (k + 1) s'"
proof (cases "lastEventNumber s")
  case None
  then show ?thesis using assms by (auto simp: reserved_def volatile_add_def allocateNumber_def Let_def)
next
  case (Some r)
  then show ?thesis using assms by (cases "k = r") (auto simp: reserved_def volatile_add_def allocateNumber_def Let_def)
qed

lemma reserved_restart:
  assumes "reserved k s"
  shows "\<exists>k'\<ge>k. reserved k' (fst (volatile_load (reopen_volatile s)))"
  using assms
  by (cases "lastEventNumber s")
    (auto simp: reserved_def volatile_load_def loadInitialState_def reopen_volatile_def new_VolatileEventStore_def Let_def)

lemma volatile_numbers_above:
  "reserved k s \<Longrightarrow> sorted_wrt (<) (volatile_numbers vs s) \<and> (\<forall>n\<in>set (volatile_numbers vs s). k \<le> n)"
proof (induction vs s arbitrary: k rule: volatile_numbers.induct)
  case (2 vs s)
  then show ?case using reserved_restart [OF "2.prems"] by (fastforce intro: order.trans)
next
  case (3 x vs s)
  obtain s' where add: "volatile_add x s = Inr (s', OccurrenceSummary k x)" "reserved (k + 1) s'"
    using reserved_add [OF "3.prems"] by blast
  then have "sorted_wrt (<) (volatile_numbers vs s') \<and> (\<forall>n\<in>set (volatile_numbers vs s'). k + 1 \<le> n)"
    using "3.IH"(2) by blast
  then show ?case using add(1) by fastforce
qed simp

text \<open>C34: A volatile log, started on empty storage, gives increasing numbers to its events, also after restarts that lose the events, whatever the size of its blocks.\<close>

theorem event_numbers_increase:
  assumes "0 < blockSize"
  shows "sorted_wrt (<) (volatile_numbers vs (fst (volatile_load (new_VolatileEventStore None [] blockSize))))"
proof -
  have "reserved 1 (fst (volatile_load (new_VolatileEventStore None [] blockSize)))"
    using assms by (simp add: reserved_def volatile_load_def loadInitialState_def new_VolatileEventStore_def Let_def)
  then show ?thesis using volatile_numbers_above by blast
qed

subsection \<open>Where the log fails\<close>

definition sample_event :: "event_priority \<Rightarrow> occurrence" where
  "sample_event p = \<lparr>endpointId = 1, clusterId = 40, eventId = 0, epochTimestamp = 7, priority = p, payload = Scalar 0\<rparr>"

text \<open>Storage of a non-volatile log with the event 2000: the numbers are reserved from one, below those used, and repeat after a restart.\<close>

lemma numbers_repeat_after_conversion:
  "volatile_numbers [Some (sample_event Info), None, Some (sample_event Info)]
     (fst (volatile_load (new_VolatileEventStore None [(2000, sample_event Info)] 1000))) = [2001, 1001]"
  by code_simp

text \<open>Nothing of a volatile log is freed.\<close>

lemma drop_priorities_log: "vEvents (event_log (drop_priorities volatile_ops ps count m)) = vEvents (event_log m)"
proof (induction ps arbitrary: count m)
  case (Cons p ps)
  have "fold (\<lambda>e. op_delete volatile_ops (sNumber e)) es s = s" for es :: "occurrence_summary list" and s
    by (induction es arbitrary: s) (simp_all add: volatile_ops_def volatile_delete_def)
  then show ?case using Cons.IH by (simp add: drop_priorities_Cons drop_entries_def Let_def)
qed simp

lemma volatile_log_keeps_dropped:
  "vEvents (event_log (dropOldOccurrences volatile_ops m)) = vEvents (event_log m)"
  by (simp add: dropOldOccurrences_def drop_priorities_log Let_def)

text \<open>With the default configuration, one event above its reservation costs a priority a thousand of them.\<close>

lemma reservation_not_kept:
  assumes "bufferConfig m = DefaultBufferConfig" "storedEventCount m = 11001" "length (occurrences m Debug) = 2001"
  shows "length (occurrences (dropOldOccurrences ops m) Debug) = 1000"
  using assms by (simp add: dropOldOccurrences_def drop_priorities_Cons drop_entries_def cull_count_eq DefaultBufferConfig_def Let_def)

text \<open>More events are subtracted from the count than there are: the log outgrows any bound.\<close>

definition small_buffer :: buffer_config where
  "small_buffer = \<lparr>minEventAllowance = 2, maxEventAllowance = 3, minPriorityEventAllowance = \<lambda>_. 0\<rparr>"

definition only_critical :: "nat \<Rightarrow> nonvolatile_store occurrence_manager \<Rightarrow> bool" where
  "only_critical n m \<longleftrightarrow> bufferConfig m = small_buffer \<and> storedEventCount m = 2 \<and> occurrences m Debug = [] \<and> occurrences m Info = []
     \<and> length (occurrences m Critical) = n \<and> nonvolatile_ok (event_log m)"

lemma grows_by_one:
  assumes "only_critical n m"
  shows "only_critical (n + 1) (run_log nonvolatile_ops reopen_nonvolatile [AddEvent (sample_event Debug), AddEvent (sample_event Critical)] m)"
proof -
  have ok: "nonvolatile_ok (event_log m)" using assms by (simp add: only_critical_def)
  obtain s1 e1 where add1: "op_add nonvolatile_ops (sample_event Debug) (event_log m) = Inr (s1, e1)"
    using nonvolatile.add_succeeds [OF ok] by blast
  then have ok1: "nonvolatile_ok s1" using nonvolatile.added [OF ok] by blast
  obtain s2 e2 where add2: "op_add nonvolatile_ops (sample_event Critical) s1 = Inr (s2, e2)"
    using nonvolatile.add_succeeds [OF ok1] by blast
  then have ok2: "nonvolatile_ok s2" using nonvolatile.added [OF ok1] by blast
  show ?thesis
    using assms add1 add2 nonvolatile.delete_ok [OF ok2]
    by (simp add: only_critical_def log_step_def add_occurrence_def Let_def small_buffer_def sample_event_def dropOldOccurrences_def
        drop_priorities_Cons drop_entries_def cull_count_eq)
qed

lemma log_grows_without_bound:
  assumes "only_critical 2 m"
  shows "\<exists>vs. n \<le> length (occurrences (run_log nonvolatile_ops reopen_nonvolatile vs m) Critical)"
proof -
  have append: "run_log nonvolatile_ops reopen_nonvolatile (us @ ws) m' = run_log nonvolatile_ops reopen_nonvolatile ws (run_log nonvolatile_ops reopen_nonvolatile us m')" for us ws m'
    by (induction us arbitrary: m') simp_all
  have "\<exists>vs. only_critical (n + 2) (run_log nonvolatile_ops reopen_nonvolatile vs m)" for n
  proof (induction n)
    case 0
    then show ?case using assms by (intro exI [of _ "[]"]) (simp add: numeral_2_eq_2)
  next
    case (Suc n)
    then obtain vs where "only_critical (n + 2) (run_log nonvolatile_ops reopen_nonvolatile vs m)" by blast
    from grows_by_one [OF this] show ?case
      by (intro exI [of _ "vs @ [AddEvent (sample_event Debug), AddEvent (sample_event Critical)]"]) (simp add: append)
  qed
  then show ?thesis unfolding only_critical_def by (metis le_add1)
qed

subsection \<open>The properties at logs\<close>

lemma event_numbers_increase_witness: "volatile_numbers [Some (sample_event Info), None, Some (sample_event Info)] (fst (volatile_load (new_VolatileEventStore None [] 1000))) = [1, 1001]
    \<and> sorted_wrt (<) (volatile_numbers [Some (sample_event Info), None, Some (sample_event Info)] (fst (volatile_load (new_VolatileEventStore None [] 1000))))"
proof (intro conjI)
  show "sorted_wrt (<) (volatile_numbers [Some (sample_event Info), None, Some (sample_event Info)] (fst (volatile_load (new_VolatileEventStore None [] 1000))))"
    by (rule event_numbers_increase) simp
qed code_simp

lemma event_query_exact_witness:
  "case new_OccurrenceManager nonvolatile_ops (new_NonvolatileEventStore None []) (Some small_buffer) of
     Inl e \<Rightarrow> False
   | Inr m \<Rightarrow> (case query nonvolatile_ops (Some 1, Some 40, Some 0) [Some 1] (Some 3) (run_log nonvolatile_ops reopen_nonvolatile [AddEvent (sample_event Info), RestartLog] m) of
       Inl e \<Rightarrow> False | Inr found \<Rightarrow> (1, sample_event Info) \<in> set found)"
proof -
  have stored: "case new_OccurrenceManager nonvolatile_ops (new_NonvolatileEventStore None []) (Some small_buffer) of
     Inl e \<Rightarrow> False
   | Inr m \<Rightarrow> (1, sample_event Info) \<in> set (persistedEvents (event_log (run_log nonvolatile_ops reopen_nonvolatile [AddEvent (sample_event Info), RestartLog] m)))"
    by code_simp
  then obtain m where m: "new_OccurrenceManager nonvolatile_ops (new_NonvolatileEventStore None []) (Some small_buffer) = Inr m"
    by (auto split: sum.splits)
  have "matches (Some 1, Some 40, Some 0) [Some 1] (OccurrenceSummary 1 (sample_event Info))" "visible_to (Some 3) (sample_event Info)"
    by code_simp+
  then show ?thesis
    using event_query_exact [OF m, of "(Some 1, Some 40, Some 0)" "[Some 1]" "Some 3" "[AddEvent (sample_event Info), RestartLog]"] stored m
    by auto
qed

text \<open>The newest event can be the one that is dropped; its number is given again after a restart.\<close>

lemma number_given_twice:
  "case new_OccurrenceManager nonvolatile_ops (new_NonvolatileEventStore None []) (Some small_buffer) of
     Inl e \<Rightarrow> False
   | Inr m \<Rightarrow>
       let filled = run_log nonvolatile_ops reopen_nonvolatile (map (AddEvent \<circ> sample_event) [Critical, Critical, Critical, Debug]) m
       in nextNumber (event_log filled) = Some 5 \<and> nextNumber (event_log (run_log nonvolatile_ops reopen_nonvolatile [RestartLog] filled)) = Some 4"
  by code_simp

end
