(* ===== verification/AttributeReports.thy ===== *)
theory AttributeReports
  imports TlvProperties "HOL-Library.Multiset"
begin

text \<open>
  What attribute reports are made of: packages/protocol/src/interaction/AttributeDataEncoder.ts and
  AttributeDataDecoder.ts over the schemas of packages/types/src/protocol/types.  The payload of a report
  goes with the schema of its attribute; on the wire it is a stream of TLV elements of \<open>TlvSchema\<close>.  The
  registry of clusters, which is generated, is a parameter: what it knows of an attribute.  The numbers of
  nodes, endpoints, clusters and attributes are plain integers, as their wrappers do not change them.
\<close>

subsection \<open>Paths, data and reports\<close>

record attribute_path =
  enableTagCompression :: "bool option"
  nodeId :: "int option"
  endpointId :: "int option"
  clusterId :: "int option"
  attributeId :: "int option"
  listIndex :: list_index
  wildcardPathFlags :: "int option"

record full_path =
  fpNode :: "int option"
  fpEndpoint :: int
  fpCluster :: int
  fpAttribute :: int
  fpVersion :: "int option"

text \<open>Data to send, with its schema, and a status.\<close>

record attribute_data_payload =
  apPath :: attribute_path
  apSchema :: tlv_schema
  apPayload :: js_value
  apVersion :: "int option"

record attribute_status =
  asPath :: attribute_path
  asStatus :: int
  asClusterStatus :: "int option"

record attribute_report =
  arData :: "attribute_data_payload option"
  arStatus :: "attribute_status option"
  hasFabricSensitiveData :: bool

text \<open>Data as it is received.\<close>

record attribute_data =
  adPath :: attribute_path
  adVersion :: "int option"
  adData :: "tlv_element list"

subsection \<open>Encoding\<close>

definition TlvAttributePath :: tlv_schema where
  "TlvAttributePath = ObjectSchema
     [TlvOptionalField ''enableTagCompression'' 0 BooleanSchema, TlvOptionalField ''nodeId'' 1 TlvUInt64,
      TlvOptionalField ''endpointId'' 2 TlvUInt16, TlvOptionalField ''clusterId'' 3 TlvUInt32,
      TlvOptionalField ''attributeId'' 4 TlvUInt32, TlvOptionalField ''listIndex'' 5 (NullableSchema TlvUInt16),
      TlvOptionalField ''wildcardPathFlags'' 6 TlvUInt32] False False"

definition TlvStatus :: tlv_schema where
  "TlvStatus = ObjectSchema [TlvOptionalField ''status'' 0 TlvUInt32, TlvOptionalField ''clusterStatus'' 1 TlvUInt32] True False"

definition TlvAttributeStatus :: tlv_schema where
  "TlvAttributeStatus = ObjectSchema [TlvField ''path'' 0 TlvAttributePath None, TlvField ''status'' 1 TlvStatus None] True False"

definition TlvAttributeReportData :: tlv_schema where
  "TlvAttributeReportData = ObjectSchema
     [TlvOptionalField ''dataVersion'' 0 TlvUInt32, TlvField ''path'' 1 TlvAttributePath None, TlvField ''data'' 2 AnySchema None] True False"

definition TlvAttributeReport :: tlv_schema where
  "TlvAttributeReport = ObjectSchema
     [TlvOptionalField ''attributeStatus'' 0 TlvAttributeStatus, TlvOptionalField ''attributeData'' 1 TlvAttributeReportData] True False"

definition number_or_undefined :: "int option \<Rightarrow> js_value" where
  "number_or_undefined n = (case n of None \<Rightarrow> Undef | Some i \<Rightarrow> Prim (PNumber i))"

definition path_object :: "attribute_path \<Rightarrow> js_value" where
  "path_object p = JObject
     [(''enableTagCompression'', case enableTagCompression p of None \<Rightarrow> Undef | Some b \<Rightarrow> Prim (PBool b)),
      (''nodeId'', case nodeId p of None \<Rightarrow> Undef | Some i \<Rightarrow> Prim (PBigInt i)),
      (''endpointId'', number_or_undefined (endpointId p)), (''clusterId'', number_or_undefined (clusterId p)),
      (''attributeId'', number_or_undefined (attributeId p)),
      (''listIndex'', case listIndex p of WholeArray \<Rightarrow> Undef | AppendItem \<Rightarrow> Null | ItemAt i \<Rightarrow> Prim (PNumber (int i))),
      (''wildcardPathFlags'', number_or_undefined (wildcardPathFlags p))]"

definition status_object :: "attribute_status \<Rightarrow> js_value" where
  "status_object s = JObject
     [(''path'', path_object (asPath s)),
      (''status'', JObject [(''status'', Prim (PNumber (asStatus s))), (''clusterStatus'', number_or_undefined (asClusterStatus s))])]"

definition data_object :: "attribute_path \<Rightarrow> int option \<Rightarrow> tlv_element list \<Rightarrow> js_value" where
  "data_object path version es =
     JObject [(''path'', path_object path), (''data'', JStream es), (''dataVersion'', number_or_undefined version)]"

definition encodeAttributePayloadData :: "attribute_report \<Rightarrow> encoding_options \<Rightarrow> tlv_element list res" where
  "encodeAttributePayloadData r opts =
     (case arData r of None \<Rightarrow> Inl MatterFlowError | Some d \<Rightarrow> encodeTlv (apSchema d) (apPayload d) opts)"

definition encodeAttributePayload :: "attribute_report \<Rightarrow> encoding_options \<Rightarrow> tlv_element list res" where
  "encodeAttributePayload r opts =
     (case arData r of
        None \<Rightarrow>
          encodeTlv TlvAttributeReport (JObject [(''attributeStatus'', case arStatus r of None \<Rightarrow> Undef | Some s \<Rightarrow> status_object s)]) no_options
      | Some d \<Rightarrow>
          and_then (encodeTlv (apSchema d) (apPayload d) opts) (\<lambda>es.
            encodeTlv TlvAttributeReport (JObject [(''attributeData'', data_object (apPath d) (apVersion d) es)]) no_options))"

subsection \<open>Chunks\<close>

definition canAttributePayloadBeChunked :: "attribute_report \<Rightarrow> bool" where
  "canAttributePayloadBeChunked r =
     (case arData r of
        None \<Rightarrow> False
      | Some d \<Rightarrow>
          (case (apSchema d, apPayload d) of
             (ArraySchema S mn mx, JArray xs) \<Rightarrow> xs \<noteq> [] \<and> listIndex (apPath d) = WholeArray
           | _ \<Rightarrow> False))"

text \<open>A report with an item of the list, and one with the list as far as it is known.\<close>

definition list_report :: "attribute_report \<Rightarrow> attribute_data_payload \<Rightarrow> js_value list \<Rightarrow> attribute_report" where
  "list_report r d xs =
     \<lparr>arData = Some \<lparr>apPath = (apPath d)\<lparr>listIndex := WholeArray\<rparr>, apSchema = apSchema d, apPayload = JArray xs, apVersion = apVersion d\<rparr>,
      arStatus = None, hasFabricSensitiveData = hasFabricSensitiveData r\<rparr>"

definition item_report :: "attribute_report \<Rightarrow> attribute_data_payload \<Rightarrow> tlv_schema \<Rightarrow> js_value \<Rightarrow> attribute_report" where
  "item_report r d S x =
     \<lparr>arData = Some \<lparr>apPath = (apPath d)\<lparr>listIndex := AppendItem\<rparr>, apSchema = S, apPayload = x, apVersion = apVersion d\<rparr>,
      arStatus = None, hasFabricSensitiveData = hasFabricSensitiveData r\<rparr>"

definition chunkAttributePayload :: "attribute_report \<Rightarrow> attribute_report list res" where
  "chunkAttributePayload r =
     (case arData r of
        None \<Rightarrow> Inl MatterFlowError
      | Some d \<Rightarrow>
          (case (apSchema d, apPayload d) of
             (ArraySchema S mn mx, JArray xs) \<Rightarrow> Inr (list_report r d [] # map (item_report r d S) xs)
           | _ \<Rightarrow> Inl MatterFlowError))"

subsection \<open>Tag compression\<close>

definition path_of :: "attribute_report \<Rightarrow> attribute_path option" where
  "path_of r =
     (case arData r of Some d \<Rightarrow> Some (apPath d) | None \<Rightarrow> (case arStatus r of Some s \<Rightarrow> Some (asPath s) | None \<Rightarrow> None))"

text \<open>The first component in which both are given and differ decides.\<close>

definition compare_component :: "int option \<Rightarrow> int option \<Rightarrow> int \<Rightarrow> int" where
  "compare_component a b further =
     (case (a, b) of (Some x, Some y) \<Rightarrow> if x < y then - 1 else if x > y then 1 else further | _ \<Rightarrow> further)"

definition sortAttributeDataByPath :: "attribute_report \<Rightarrow> attribute_report \<Rightarrow> int" where
  "sortAttributeDataByPath r1 r2 =
     (let get = (\<lambda>f r. case path_of r of None \<Rightarrow> None | Some p \<Rightarrow> f p)
      in compare_component (get nodeId r1) (get nodeId r2)
         (compare_component (get endpointId r1) (get endpointId r2)
         (compare_component (get clusterId r1) (get clusterId r2)
         (compare_component (get attributeId r1) (get attributeId r2) 0))))"

text \<open>A stable sort.\<close>

fun insert_sorted :: "('a \<Rightarrow> 'a \<Rightarrow> int) \<Rightarrow> 'a \<Rightarrow> 'a list \<Rightarrow> 'a list" where
  "insert_sorted cmp x [] = [x]"
| "insert_sorted cmp x (y # ys) = (if cmp x y \<le> 0 then x # y # ys else y # insert_sorted cmp x ys)"

definition js_sort :: "('a \<Rightarrow> 'a \<Rightarrow> int) \<Rightarrow> 'a list \<Rightarrow> 'a list" where
  "js_sort cmp xs = foldr (insert_sorted cmp) xs []"

definition compressPath :: "attribute_path \<Rightarrow> int option \<Rightarrow> full_path option \<Rightarrow> attribute_path \<times> full_path option" where
  "compressPath path version lastFullPath =
     (case (endpointId path, clusterId path, attributeId path) of
        (Some ep, Some cl, Some at) \<Rightarrow>
          let newFullPath = (path\<lparr>enableTagCompression := None\<rparr>,
                Some \<lparr>fpNode = nodeId path, fpEndpoint = ep, fpCluster = cl, fpAttribute = at, fpVersion = version\<rparr>)
          in (case lastFullPath of
                None \<Rightarrow> newFullPath
              | Some l \<Rightarrow>
                  if version \<noteq> None \<and> version \<noteq> fpVersion l then newFullPath
                  else
                    let same_endpoint = (ep = fpEndpoint l);
                        same_node = (nodeId path = fpNode l \<and> nodeId path \<noteq> None);
                        c = path\<lparr>enableTagCompression := Some True\<rparr>;
                        c = (if same_endpoint then c\<lparr>endpointId := None\<rparr> else c);
                        c = (if same_node then c\<lparr>nodeId := None\<rparr> else c)
                    in if \<not> same_endpoint \<and> \<not> same_node then newFullPath else (c, lastFullPath))
      | _ \<Rightarrow> (path, lastFullPath))"

definition compress_report :: "attribute_report \<Rightarrow> full_path option \<Rightarrow> attribute_report \<times> full_path option" where
  "compress_report r l =
     (let (data, l) =
        (case arData r of
           None \<Rightarrow> (None, l)
         | Some d \<Rightarrow>
             let (path, l) = compressPath (apPath d) (apVersion d) l
             in (Some (d\<lparr>apPath := path, apVersion := if enableTagCompression path = Some True then None else apVersion d\<rparr>), l));
          (status, l) =
        (case arStatus r of
           None \<Rightarrow> (None, l)
         | Some s \<Rightarrow> let (path, l) = compressPath (asPath s) None l in (Some (s\<lparr>asPath := path\<rparr>), l))
      in (\<lparr>arData = data, arStatus = status, hasFabricSensitiveData = hasFabricSensitiveData r\<rparr>, l))"

fun compress_all :: "attribute_report list \<Rightarrow> full_path option \<Rightarrow> attribute_report list" where
  "compress_all [] l = []"
| "compress_all (r # rs) l = (let (r', l') = compress_report r l in r' # compress_all rs l')"

definition compressAttributeDataReportTags :: "attribute_report list \<Rightarrow> attribute_report list" where
  "compressAttributeDataReportTags rs = compress_all (js_sort sortAttributeDataByPath rs) None"

subsection \<open>Decoding\<close>

definition or_else :: "'a option \<Rightarrow> 'a option \<Rightarrow> 'a option" where
  "or_else a b = (case a of None \<Rightarrow> b | Some x \<Rightarrow> a)"

fun expand_all :: "bool \<Rightarrow> full_path option \<Rightarrow> attribute_data list \<Rightarrow> attribute_data list res" where
  "expand_all accept l [] = Inr []"
| "expand_all accept l (d # ds) =
     (let p = adPath d
      in if enableTagCompression p = Some True then
           (case l of
              None \<Rightarrow> Inl UnexpectedDataError
            | Some full \<Rightarrow>
                let p = p\<lparr>nodeId := or_else (nodeId p) (fpNode full), endpointId := or_else (endpointId p) (Some (fpEndpoint full)),
                          clusterId := or_else (clusterId p) (Some (fpCluster full)), attributeId := or_else (attributeId p) (Some (fpAttribute full))\<rparr>;
                    d = d\<lparr>adPath := p, adVersion := or_else (adVersion d) (fpVersion full)\<rparr>
                in and_then (expand_all accept l ds) (\<lambda>ds. Inr (d # ds)))
         else
           (case (endpointId p, clusterId p, attributeId p) of
              (Some ep, Some cl, Some at) \<Rightarrow>
                and_then (expand_all accept (Some \<lparr>fpNode = nodeId p, fpEndpoint = ep, fpCluster = cl, fpAttribute = at, fpVersion = adVersion d\<rparr>) ds)
                  (\<lambda>ds. Inr (d # ds))
            | _ \<Rightarrow> if \<not> accept then Inl UnexpectedDataError else and_then (expand_all accept l ds) (\<lambda>ds. Inr (d # ds))))"

definition expandPathsInAttributeData :: "attribute_data list \<Rightarrow> bool \<Rightarrow> attribute_data list res" where
  "expandPathsInAttributeData ds acceptWildcardPaths = expand_all acceptWildcardPaths None ds"

datatype attribute_key = AttributeKey "int option" "int option" "int option" "int option"

definition key_of :: "attribute_path \<Rightarrow> attribute_key" where
  "key_of p = AttributeKey (nodeId p) (endpointId p) (clusterId p) (attributeId p)"

fun group_add :: "attribute_key \<Rightarrow> 'd \<Rightarrow> (attribute_key \<times> 'd list) list \<Rightarrow> (attribute_key \<times> 'd list) list" where
  "group_add k d [] = [(k, [d])]"
| "group_add k d ((k', ds) # gs) = (if k = k' then (k', ds @ [d]) # gs else (k', ds) # group_add k d gs)"

definition normalizeAttributeData :: "attribute_data list \<Rightarrow> bool \<Rightarrow> attribute_data list list res" where
  "normalizeAttributeData ds acceptWildcardPaths =
     and_then (expandPathsInAttributeData ds acceptWildcardPaths) (\<lambda>ds.
       Inr (map snd (fold (\<lambda>d. group_add (key_of (adPath d)) d) ds [])))"

definition decodeListAttributeValueWithSchema :: "tlv_schema \<Rightarrow> attribute_data list \<Rightarrow> js_value list option \<Rightarrow> js_value res" where
  "decodeListAttributeValueWithSchema schema vals currentValue =
     (case schema of
        ArraySchema S mn mx \<Rightarrow>
          and_then (decodeFromChunkedArray S mn mx (map (\<lambda>d. (listIndex (adPath d), adData d)) vals) currentValue) (\<lambda>xs. Inr (JArray xs))
      | _ \<Rightarrow> Inl UnexpectedDataError)"

text \<open>Without a value the default is returned, if any; the list of the default is the current value of a list.\<close>

definition decodeAttributeValueWithSchema :: "tlv_schema \<Rightarrow> attribute_data list \<Rightarrow> js_value option \<Rightarrow> js_value option res" where
  "decodeAttributeValueWithSchema schema vals defaultValue =
     (if vals = [] then Inr defaultValue
      else case schema of
        ArraySchema S mn mx \<Rightarrow>
          and_then (decodeListAttributeValueWithSchema schema vals (case defaultValue of Some (JArray xs) \<Rightarrow> Some xs | _ \<Rightarrow> None)) (\<lambda>v. Inr (Some v))
      | _ \<Rightarrow>
          if length vals = 1 \<and> listIndex (adPath (hd vals)) = WholeArray then and_then (decodeTlv schema (adData (hd vals))) (\<lambda>v. Inr (Some v))
          else if \<exists>d\<in>set vals. listIndex (adPath d) \<noteq> WholeArray then Inl UnexpectedDataError
          else
            let version = (\<lambda>d. case adVersion d of None \<Rightarrow> 0 | Some n \<Rightarrow> n);
                best = js_sort (\<lambda>a b. version b - version a) vals
            in and_then (decodeTlv schema (adData (hd best))) (\<lambda>v. Inr (Some v)))"

definition decodeUnknownAttributeValue :: "attribute_data list \<Rightarrow> js_value option res" where
  "decodeUnknownAttributeValue vals =
     (let stream = (\<lambda>v. case v of JStream es \<Rightarrow> and_then (decodeAnyTlvStream es) (\<lambda>x. Inr x) | _ \<Rightarrow> Inl TypeError)
      in if vals = [] then Inr None
         else if length vals = 1 \<and> listIndex (adPath (hd vals)) = WholeArray then
           and_then (decodeTlv AnySchema (adData (hd vals))) (\<lambda>v. and_then (stream v) (\<lambda>x. Inr (Some x)))
         else
           and_then (decodeFromChunkedArray AnySchema 0 65535 (map (\<lambda>d. (listIndex (adPath d), adData d)) vals) None) (\<lambda>vs.
             and_then (map_res stream vs) (\<lambda>xs. Inr (Some (JArray xs)))))"

datatype attribute_name = Known string | Unknown int

record decoded_attribute =
  daPath :: attribute_key
  daName :: attribute_name
  daVersion :: "int option"
  daValue :: "js_value option"

type_synonym cluster_registry = "int \<Rightarrow> int \<Rightarrow> (string \<times> tlv_schema) option"

text \<open>A group that cannot be decoded is logged and left out, an incomplete path stops everything.\<close>

definition decode_group :: "cluster_registry \<Rightarrow> attribute_data list \<Rightarrow> decoded_attribute list res" where
  "decode_group registry vals =
     (let p = adPath (hd vals)
      in case (endpointId p, clusterId p, attributeId p) of
           (Some ep, Some cl, Some at) \<Rightarrow>
             (case registry cl at of
                None \<Rightarrow>
                  (case decodeUnknownAttributeValue vals of
                     Inl e \<Rightarrow> Inr []
                   | Inr v \<Rightarrow> Inr [\<lparr>daPath = key_of p, daName = Unknown at, daVersion = adVersion (hd vals), daValue = v\<rparr>])
              | Some (name, schema) \<Rightarrow>
                  (case decodeAttributeValueWithSchema schema vals None of
                     Inl e \<Rightarrow> Inr []
                   | Inr v \<Rightarrow> Inr [\<lparr>daPath = key_of p, daName = Known name, daVersion = adVersion (hd vals), daValue = v\<rparr>]))
         | _ \<Rightarrow> Inl UnexpectedDataError)"

definition normalizeAndDecodeAttributeData :: "cluster_registry \<Rightarrow> attribute_data list \<Rightarrow> decoded_attribute list res" where
  "normalizeAndDecodeAttributeData registry ds =
     and_then (normalizeAttributeData ds False) (\<lambda>groups.
       and_then (map_res (decode_group registry) groups) (\<lambda>results. Inr (concat results)))"

record decoded_status =
  dsPath :: attribute_key
  dsName :: attribute_name
  dsStatus :: int
  dsClusterStatus :: "int option"

definition decode_status :: "cluster_registry \<Rightarrow> attribute_status \<Rightarrow> decoded_status res" where
  "decode_status registry s =
     (case (endpointId (asPath s), clusterId (asPath s), attributeId (asPath s)) of
        (Some ep, Some cl, Some at) \<Rightarrow>
          Inr \<lparr>dsPath = key_of (asPath s), dsName = (case registry cl at of None \<Rightarrow> Unknown at | Some (name, schema) \<Rightarrow> Known name),
               dsStatus = asStatus s, dsClusterStatus = asClusterStatus s\<rparr>
      | _ \<Rightarrow> Inl UnexpectedDataError)"

definition normalizeAttributeStatus :: "cluster_registry \<Rightarrow> attribute_status list \<Rightarrow> decoded_status list res" where
  "normalizeAttributeStatus registry ss = map_res (decode_status registry) ss"

definition normalizeAndDecodeReadAttributeReport ::
  "cluster_registry \<Rightarrow> (attribute_data option \<times> attribute_status option) list \<Rightarrow> (decoded_attribute list \<times> decoded_status list) res" where
  "normalizeAndDecodeReadAttributeReport registry reports =
     and_then (normalizeAndDecodeAttributeData registry (concat (map (\<lambda>(d, s). case d of None \<Rightarrow> [] | Some d \<Rightarrow> [d]) reports))) (\<lambda>ds.
     and_then (normalizeAttributeStatus registry (concat (map (\<lambda>(d, s). case s of None \<Rightarrow> [] | Some s \<Rightarrow> [s]) reports))) (\<lambda>ss.
       Inr (ds, ss)))"

subsection \<open>Sorting\<close>

lemma mset_insert_sorted [simp]: "mset (insert_sorted cmp x ys) = add_mset x (mset ys)"
  by (induction ys) auto

lemma mset_js_sort [simp]: "mset (js_sort cmp xs) = mset xs"
  unfolding js_sort_def by (induction xs) auto

lemma set_js_sort [simp]: "set (js_sort cmp xs) = set xs"
  using mset_js_sort [of cmp xs] by (metis mset_eq_setD)

subsection \<open>Compression and expansion\<close>

text \<open>What is received of a report whose payload is encoded by \<open>enc\<close>, and without the flag of compression.\<close>

definition received :: "(tlv_schema \<Rightarrow> js_value \<Rightarrow> tlv_element list) \<Rightarrow> attribute_report \<Rightarrow> attribute_data" where
  "received enc r =
     (case arData r of
        Some d \<Rightarrow> \<lparr>adPath = apPath d, adVersion = apVersion d, adData = enc (apSchema d) (apPayload d)\<rparr>
      | None \<Rightarrow> undefined)"

definition uncompressed :: "attribute_data \<Rightarrow> attribute_data" where
  "uncompressed d = d\<lparr>adPath := (adPath d)\<lparr>enableTagCompression := None\<rparr>\<rparr>"

lemma received_data: "arData r = Some d \<Longrightarrow> received enc r = \<lparr>adPath = apPath d, adVersion = apVersion d, adData = enc (apSchema d) (apPayload d)\<rparr>"
  by (simp add: received_def)

lemma uncompressed_make [simp]:
  "uncompressed \<lparr>adPath = p, adVersion = v, adData = es\<rparr> = \<lparr>adPath = p\<lparr>enableTagCompression := None\<rparr>, adVersion = v, adData = es\<rparr>"
  by (simp add: uncompressed_def)

text \<open>Reports of data with version and complete path, with or without a node.\<close>

definition compressible :: "bool \<Rightarrow> attribute_report \<Rightarrow> bool" where
  "compressible with_node r \<longleftrightarrow>
     arStatus r = None
     \<and> (case arData r of
          None \<Rightarrow> False
        | Some d \<Rightarrow> endpointId (apPath d) \<noteq> None \<and> clusterId (apPath d) \<noteq> None \<and> attributeId (apPath d) \<noteq> None \<and> apVersion d \<noteq> None
            \<and> (nodeId (apPath d) \<noteq> None) = with_node)"

definition compressible_after :: "bool \<Rightarrow> full_path option \<Rightarrow> bool" where
  "compressible_after with_node l \<longleftrightarrow>
     (case l of None \<Rightarrow> True | Some full \<Rightarrow> fpVersion full \<noteq> None \<and> (fpNode full \<noteq> None) = with_node)"

lemma expand_compressed:
  assumes "\<forall>r\<in>set rs. compressible b r" "compressible_after b l"
  shows "\<exists>ds. expand_all False l (map (received enc) (compress_all rs l)) = Inr ds
    \<and> map uncompressed ds = map (uncompressed \<circ> received enc) rs"
  using assms
proof (induction rs arbitrary: l)
  case (Cons r rs)
  obtain d ep cl at v where d: "arData r = Some d" "arStatus r = None"
    "endpointId (apPath d) = Some ep" "clusterId (apPath d) = Some cl" "attributeId (apPath d) = Some at" "apVersion d = Some v"
    "(nodeId (apPath d) \<noteq> None) = b"
    using Cons.prems(1) by (auto simp: compressible_def split: option.splits)
  define full where "full = \<lparr>fpNode = nodeId (apPath d), fpEndpoint = ep, fpCluster = cl, fpAttribute = at, fpVersion = Some v\<rparr>"
  have after: "compressible_after b (Some full)" using d(7) by (simp add: compressible_after_def full_def)
  have rest: "\<forall>r\<in>set rs. compressible b r" using Cons.prems(1) by simp
  consider (start) "compressPath (apPath d) (apVersion d) l = ((apPath d)\<lparr>enableTagCompression := None\<rparr>, Some full)"
    | (short) l' where "l = Some l'" "fpVersion l' = Some v" "ep = fpEndpoint l' \<or> nodeId (apPath d) = fpNode l' \<and> nodeId (apPath d) \<noteq> None"
  proof (cases l)
    case None
    then show thesis using start d by (simp add: compressPath_def full_def)
  next
    case (Some l')
    show thesis
    proof (cases "fpVersion l' = Some v \<and> (ep = fpEndpoint l' \<or> nodeId (apPath d) = fpNode l' \<and> nodeId (apPath d) \<noteq> None)")
      case True
      then show thesis using short Some by blast
    next
      case False
      then show thesis using start d(3-6) Some by (simp add: compressPath_def full_def Let_def)
    qed
  qed
  then show ?case
  proof cases
    case start
    obtain ds where "expand_all False (Some full) (map (received enc) (compress_all rs (Some full))) = Inr ds"
      "map uncompressed ds = map (uncompressed \<circ> received enc) rs"
      using Cons.IH [OF rest after] by blast
    then show ?thesis
      using start d by (simp add: compress_report_def received_data full_def)
  next
    case short
    obtain ds where ds: "expand_all False l (map (received enc) (compress_all rs l)) = Inr ds"
      "map uncompressed ds = map (uncompressed \<circ> received enc) rs"
      using Cons.IH [OF rest Cons.prems(2)] by blast
    have node: "(fpNode l' \<noteq> None) = b" using Cons.prems(2) short(1) by (simp add: compressible_after_def)
    show ?thesis
    proof (cases "ep = fpEndpoint l'"; cases "nodeId (apPath d) = fpNode l' \<and> nodeId (apPath d) \<noteq> None")
    qed (use ds d short node in \<open>auto simp: compress_report_def compressPath_def received_data or_else_def Let_def
        split: option.splits\<close>)
  qed
qed simp


subsection \<open>Values put together again\<close>

text \<open>What is received of data: the value as a whole, or the first items of a list and the others one by one.\<close>

definition on_wire :: "attribute_data_payload \<Rightarrow> list_index \<Rightarrow> tlv_element list \<Rightarrow> attribute_data" where
  "on_wire d i es = \<lparr>adPath = (apPath d)\<lparr>listIndex := i\<rparr>, adVersion = apVersion d, adData = es\<rparr>"

definition transmits :: "encoding_options \<Rightarrow> attribute_data_payload \<Rightarrow> attribute_data list \<Rightarrow> bool" where
  "transmits opts d ds \<longleftrightarrow>
     (\<exists>es. encodeTlv (apSchema d) (apPayload d) opts = Inr es \<and> ds = [on_wire d WholeArray es])
     \<or> (\<exists>S mn mx xs k es items. apSchema d = ArraySchema S mn mx \<and> apPayload d = JArray xs
          \<and> encodeTlv (ArraySchema S mn mx) (JArray (take k xs)) opts = Inr es
          \<and> map_res (\<lambda>x. encodeTlv S x opts) (drop k xs) = Inr items
          \<and> ds = on_wire d WholeArray es # map (on_wire d AppendItem) items)"

lemma decodeTlv_array_bounds: "decodeTlv (ArraySchema S mn mx) es = decodeTlv (ArraySchema S mn' mx') es"
  by (simp add: decodeTlv_def decodeTlvInternal_def)

lemma encodeTlv_array_bounds: "encodeTlv (ArraySchema S mn mx) v opts = encodeTlv (ArraySchema S mn' mx') v opts"
  by (simp add: encodeTlv_def)

lemma decode_appended:
  assumes "sound_schema S" "\<forall>x\<in>set xs. fits S x"
  shows "fold_res (decode_chunk S mn mx) (map (\<lambda>x. (AppendItem, elements S x None)) xs) acc = Inr (acc @ xs)"
  using assms(2) decodeTlv_elements [OF assms(1)]
  by (induction xs arbitrary: acc) (simp_all add: decode_chunk_def)

lemma decode_list_parts:
  assumes "sound_schema S" "\<forall>x\<in>set (xs @ ys). fits S x" "\<not> (forWriteInteraction opts \<and> allowMissingFields opts)"
    "encodeTlv (ArraySchema S mn mx) (JArray xs) opts = Inr es" "map_res (\<lambda>x. encodeTlv S x opts) ys = Inr items"
  shows "decodeFromChunkedArray S mn mx ((WholeArray, es) # map (\<lambda>e. (AppendItem, e)) items) None = Inr (xs @ ys)"
proof -
  let ?n = "int (length xs)"
  have sound: "sound_schema (ArraySchema S 0 ?n)" "fits (ArraySchema S 0 ?n) (JArray xs)"
    using assms(1, 2) by (simp_all add: validate_length_def list_all_iff)
  have "es = elements (ArraySchema S 0 ?n) (JArray xs) None"
    using assms(4) encodeTlv_elements [OF sound assms(3)] encodeTlv_array_bounds [of S mn mx _ opts 0 ?n] by simp
  then have first: "decodeTlv (ArraySchema S mn mx) es = Inr (JArray xs)"
    using decodeTlv_elements [OF sound] decodeTlv_array_bounds [of S mn mx es 0 ?n] by simp
  have "map_res (\<lambda>x. encodeTlv S x opts) ys = Inr (map (\<lambda>x. elements S x None) ys)"
    using assms(1, 2) by (intro map_res_Inr encodeTlv_elements assms(3)) auto
  then have items: "items = map (\<lambda>x. elements S x None) ys" using assms(5) by simp
  have "fold_res (decode_chunk S mn mx) (map (\<lambda>x. (AppendItem, elements S x None)) ys) xs = Inr (xs @ ys)"
    using assms(1, 2) by (intro decode_appended) auto
  then show ?thesis
    by (simp add: decodeFromChunkedArray_def decode_chunk_def first array_items_def items comp_def)
qed

lemma decode_transmitted:
  assumes "transmits opts d ds" "sound_schema (apSchema d)" "fits (apSchema d) (apPayload d)"
    "\<not> (forWriteInteraction opts \<and> allowMissingFields opts)"
  shows "decodeAttributeValueWithSchema (apSchema d) ds None = Inr (Some (apPayload d))"
proof -
  have list: "decodeAttributeValueWithSchema (apSchema d) (on_wire d WholeArray es # map (on_wire d AppendItem) items) None = Inr (Some (apPayload d))"
    if "apSchema d = ArraySchema S mn mx" "apPayload d = JArray (xs @ ys)"
      "encodeTlv (ArraySchema S mn mx) (JArray xs) opts = Inr es" "map_res (\<lambda>x. encodeTlv S x opts) ys = Inr items"
    for S mn mx xs ys es items
  proof -
    have "sound_schema S" "\<forall>x\<in>set (xs @ ys). fits S x" using assms(2, 3) that(1, 2) by (auto simp: list_all_iff)
    from decode_list_parts [OF this assms(4) that(3, 4)] show ?thesis
      by (simp add: decodeAttributeValueWithSchema_def decodeListAttributeValueWithSchema_def that(1, 2) on_wire_def comp_def)
  qed
  show ?thesis
  proof (cases "\<exists>S mn mx. apSchema d = ArraySchema S mn mx")
    case True
    then obtain S mn mx where S: "apSchema d = ArraySchema S mn mx" by blast
    obtain xs where xs: "apPayload d = JArray xs"
      using assms(3) S by (auto split: js_value.splits)
    from assms(1) consider
      (whole) es where "encodeTlv (ArraySchema S mn mx) (JArray xs) opts = Inr es" "ds = [on_wire d WholeArray es]"
      | (parts) k es items where "encodeTlv (ArraySchema S mn mx) (JArray (take k xs)) opts = Inr es"
          "map_res (\<lambda>x. encodeTlv S x opts) (drop k xs) = Inr items" "ds = on_wire d WholeArray es # map (on_wire d AppendItem) items"
      unfolding transmits_def S xs by auto
    then show ?thesis
    proof cases
      case whole
      then show ?thesis using list [OF S, of xs "[]" es "[]"] xs by simp
    next
      case parts
      then show ?thesis using list [OF S, of "take k xs" "drop k xs" es items] xs by simp
    qed
  next
    case False
    then obtain es where es: "encodeTlv (apSchema d) (apPayload d) opts = Inr es" "ds = [on_wire d WholeArray es]"
      using assms(1) by (auto simp: transmits_def)
    then have "decodeTlv (apSchema d) es = Inr (apPayload d)"
      using encodeTlv_elements [OF assms(2, 3, 4)] decodeTlv_elements [OF assms(2, 3)] by simp
    then show ?thesis using False es(2)
      by (cases "apSchema d") (simp_all add: decodeAttributeValueWithSchema_def on_wire_def)
  qed
qed

text \<open>Groups.\<close>

lemma group_add_groups:
  assumes "distinct (map fst gs)"
  shows "distinct (map fst (group_add k d gs))" "set (map fst (group_add k d gs)) = insert k (set (map fst gs))"
    "map_of (group_add k d gs) j = (if j = k then Some ((case map_of gs k of None \<Rightarrow> [] | Some ds \<Rightarrow> ds) @ [d]) else map_of gs j)"
  using assms by (induction k d gs rule: group_add.induct) auto

lemma groups_of:
  assumes "gs = fold (\<lambda>d. group_add (key_of (adPath d)) d) ds []"
  shows "distinct (map fst gs) \<and> set (map fst gs) = (\<lambda>d. key_of (adPath d)) ` set ds
    \<and> (\<forall>k vs. (k, vs) \<in> set gs \<longrightarrow> vs = filter (\<lambda>d. key_of (adPath d) = k) ds)"
proof -
  have "distinct (map fst (fold (\<lambda>d. group_add (key_of (adPath d)) d) ds gs))
      \<and> set (map fst (fold (\<lambda>d. group_add (key_of (adPath d)) d) ds gs)) = set (map fst gs) \<union> (\<lambda>d. key_of (adPath d)) ` set ds
      \<and> (\<forall>k. case_option [] id (map_of (fold (\<lambda>d. group_add (key_of (adPath d)) d) ds gs) k) = case_option [] id (map_of gs k) @ filter (\<lambda>d. key_of (adPath d) = k) ds)"
    if "distinct (map fst gs)" for gs
    using that
  proof (induction ds arbitrary: gs)
    case (Cons d ds)
    note step = group_add_groups [OF Cons.prems, of "key_of (adPath d)" d]
    show ?case
      using Cons.IH [OF step(1)] unfolding step(2, 3) by (auto split: option.splits)
  qed simp
  from this [of "[]"] have d: "distinct (map fst gs)" "set (map fst gs) = (\<lambda>d. key_of (adPath d)) ` set ds"
    "\<And>k. case_option [] id (map_of gs k) = filter (\<lambda>d. key_of (adPath d) = k) ds"
    by (simp_all add: assms)
  have "vs = filter (\<lambda>d. key_of (adPath d) = k) ds" if "(k, vs) \<in> set gs" for k vs
    using d(3) [of k] map_of_is_SomeI [OF d(1) that] by simp
  then show ?thesis using d by blast
qed

lemma expand_plain:
  assumes "\<forall>d\<in>set ds. enableTagCompression (adPath d) \<noteq> Some True \<and> endpointId (adPath d) \<noteq> None \<and> clusterId (adPath d) \<noteq> None
      \<and> attributeId (adPath d) \<noteq> None"
  shows "expand_all accept l ds = Inr ds"
  using assms by (induction ds arbitrary: l) (auto simp: Let_def)

text \<open>Data to send that a receiver with a registry of clusters can decode.\<close>

definition reportable :: "cluster_registry \<Rightarrow> attribute_data_payload \<Rightarrow> bool" where
  "reportable registry d \<longleftrightarrow>
     enableTagCompression (apPath d) \<noteq> Some True \<and> listIndex (apPath d) = WholeArray \<and> endpointId (apPath d) \<noteq> None
     \<and> (case (clusterId (apPath d), attributeId (apPath d)) of
          (Some cl, Some at) \<Rightarrow> \<exists>name. registry cl at = Some (name, apSchema d)
        | _ \<Rightarrow> False)
     \<and> sound_schema (apSchema d) \<and> fits (apSchema d) (apPayload d)"

definition decoded_of :: "cluster_registry \<Rightarrow> attribute_data_payload \<Rightarrow> decoded_attribute" where
  "decoded_of registry d =
     \<lparr>daPath = key_of (apPath d),
      daName = (case registry (the (clusterId (apPath d))) (the (attributeId (apPath d))) of Some (name, schema) \<Rightarrow> Known name | None \<Rightarrow> Unknown 0),
      daVersion = apVersion d, daValue = Some (apPayload d)\<rparr>"

lemma key_on_wire [simp]: "key_of (adPath (on_wire d i es)) = key_of (apPath d)"
  by (simp add: on_wire_def key_of_def)

lemma transmits_wire: "transmits opts d ds \<Longrightarrow> ds \<noteq> [] \<and> (\<forall>w\<in>set ds. \<exists>i es. w = on_wire d i es)"
  unfolding transmits_def by (elim disjE exE conjE) (simp; blast)+

lemma decode_group_transmitted:
  assumes "transmits opts d ds" "reportable registry d" "\<not> (forWriteInteraction opts \<and> allowMissingFields opts)"
  shows "decode_group registry ds = Inr [decoded_of registry d]"
proof -
  obtain i es ws where ds: "ds = on_wire d i es # ws" using transmits_wire [OF assms(1)] by (cases ds) auto
  obtain ep cl at name where path: "endpointId (apPath d) = Some ep" "clusterId (apPath d) = Some cl" "attributeId (apPath d) = Some at"
    "registry cl at = Some (name, apSchema d)"
    using assms(2) by (auto simp: reportable_def split: option.splits)
  have "decodeAttributeValueWithSchema (apSchema d) ds None = Inr (Some (apPayload d))"
    using assms by (intro decode_transmitted) (simp_all add: reportable_def)
  then show ?thesis
    using path unfolding ds by (simp add: decode_group_def decoded_of_def on_wire_def key_of_def)
qed

text \<open>However the data of attributes is cut into reports and in whatever order the reports of different attributes come, decoding them gives every attribute once, with its name, version and value.\<close>

theorem attribute_data_reassembled:
  assumes "\<forall>d\<in>set ps. reportable registry d" "distinct (map (key_of \<circ> apPath) ps)"
    "\<forall>d\<in>set ps. transmits opts d (filter (\<lambda>w. key_of (adPath w) = key_of (apPath d)) ds)"
    "\<forall>w\<in>set ds. \<exists>d\<in>set ps. key_of (adPath w) = key_of (apPath d)"
    "\<not> (forWriteInteraction opts \<and> allowMissingFields opts)"
  shows "\<exists>results. normalizeAndDecodeAttributeData registry ds = Inr results \<and> mset results = mset (map (decoded_of registry) ps)"
proof -
  define gs where "gs = fold (\<lambda>d. group_add (key_of (adPath d)) d) ds []"
  note groups = groups_of [OF gs_def]
  have wire: "\<exists>d\<in>set ps. \<exists>i es. w = on_wire d i es" if "w \<in> set ds" for w
  proof -
    obtain d where d: "d \<in> set ps" "key_of (adPath w) = key_of (apPath d)" using assms(4) \<open>w \<in> set ds\<close> by blast
    then have "w \<in> set (filter (\<lambda>w. key_of (adPath w) = key_of (apPath d)) ds)" using \<open>w \<in> set ds\<close> by simp
    then show ?thesis using transmits_wire assms(3) d(1) by blast
  qed
  have "expand_all False None ds = Inr ds"
  proof (intro expand_plain ballI)
    fix w assume "w \<in> set ds"
    then obtain d i es where "d \<in> set ps" "w = on_wire d i es" using wire by blast
    then show "enableTagCompression (adPath w) \<noteq> Some True \<and> endpointId (adPath w) \<noteq> None \<and> clusterId (adPath w) \<noteq> None \<and> attributeId (adPath w) \<noteq> None"
      using assms(1) by (auto simp: reportable_def on_wire_def split: option.splits)
  qed
  then have normal: "normalizeAttributeData ds False = Inr (map snd gs)"
    by (simp add: normalizeAttributeData_def expandPathsInAttributeData_def gs_def)
  define payload_of where "payload_of k = (THE d. d \<in> set ps \<and> key_of (apPath d) = k)" for k
  have payload_of: "payload_of (key_of (apPath d)) = d" if "d \<in> set ps" for d
    unfolding payload_of_def using assms(2) that by (intro the_equality) (auto simp: distinct_map inj_on_def)
  have keys: "set (map fst gs) = (key_of \<circ> apPath) ` set ps"
  proof (intro equalityI subsetI)
    fix k assume "k \<in> set (map fst gs)"
    then show "k \<in> (key_of \<circ> apPath) ` set ps" using groups assms(4) by auto
  next
    fix k assume "k \<in> (key_of \<circ> apPath) ` set ps"
    then obtain d where d: "d \<in> set ps" "k = key_of (apPath d)" by auto
    then obtain w where "w \<in> set (filter (\<lambda>w. key_of (adPath w) = key_of (apPath d)) ds)"
      using transmits_wire assms(3) by (meson hd_in_set)
    then have "w \<in> set ds" "key_of (adPath w) = k" using d(2) by simp_all
    then have "k \<in> (\<lambda>d. key_of (adPath d)) ` set ds" by blast
    then show "k \<in> set (map fst gs)" using groups by blast
  qed
  have "decode_group registry (snd g) = Inr [decoded_of registry (payload_of (fst g))]" if g: "g \<in> set gs" for g
  proof -
    obtain k vs where kv: "g = (k, vs)" by fastforce
    then have "k \<in> (key_of \<circ> apPath) ` set ps" using keys g by force
    then obtain d where d: "d \<in> set ps" "k = key_of (apPath d)" by auto
    then have "transmits opts d vs" using groups g kv assms(3) by auto
    then show ?thesis using decode_group_transmitted assms(1, 5) d payload_of kv by simp
  qed
  then have "map_res (decode_group registry) (map snd gs) = Inr (map (\<lambda>g. [decoded_of registry (payload_of (fst g))]) gs)"
  proof (induction gs)
    case (Cons g gs)
    then show ?case by simp
  qed simp
  then have result: "normalizeAndDecodeAttributeData registry ds = Inr (map (decoded_of registry \<circ> payload_of) (map fst gs))"
    by (simp add: normalizeAndDecodeAttributeData_def normal comp_def concat_map_singleton)
  have "mset (map fst gs) = mset (map (key_of \<circ> apPath) ps)"
    using groups assms(2) keys by (intro set_eq_iff_mset_eq_distinct [THEN iffD1]) simp_all
  then have "mset (map (decoded_of registry \<circ> payload_of) (map fst gs)) = image_mset (decoded_of registry \<circ> payload_of) (mset (map (key_of \<circ> apPath) ps))"
    by (metis mset_map)
  also have "\<dots> = mset (map (decoded_of registry) ps)"
    using payload_of by (simp add: multiset.map_comp comp_def flip: mset_map cong: map_cong)
  finally show ?thesis using result by blast
qed

subsection \<open>Examples\<close>

definition on_off_path :: attribute_path where
  "on_off_path = \<lparr>enableTagCompression = None, nodeId = None, endpointId = Some 1, clusterId = Some 6, attributeId = Some 0,
     listIndex = WholeArray, wildcardPathFlags = None\<rparr>"

definition on_off_data :: attribute_data_payload where
  "on_off_data = \<lparr>apPath = on_off_path, apSchema = BooleanSchema, apPayload = Prim (PBool True), apVersion = Some 7\<rparr>"

definition labels_data :: attribute_data_payload where
  "labels_data = \<lparr>apPath = on_off_path\<lparr>attributeId := Some 1\<rparr>, apSchema = ArraySchema BooleanSchema 0 10,
     apPayload = JArray [Prim (PBool True), Prim (PBool False), Prim (PBool True)], apVersion = Some 7\<rparr>"

definition report_of :: "attribute_data_payload \<Rightarrow> attribute_report" where
  "report_of d = \<lparr>arData = Some d, arStatus = None, hasFabricSensitiveData = False\<rparr>"

definition sample_registry :: cluster_registry where
  "sample_registry cl at = (if cl = 6 then if at = 0 then Some (''onOff'', BooleanSchema) else if at = 1 then Some (''labels'', ArraySchema BooleanSchema 0 10) else None else None)"


text \<open>A list whose first item is sent with the list and whose other items surround another attribute.\<close>

definition sample_received :: "attribute_data list" where
  "sample_received =
     [on_wire labels_data WholeArray (elements (ArraySchema BooleanSchema 0 10) (JArray [Prim (PBool True)]) None),
      on_wire labels_data AppendItem (elements BooleanSchema (Prim (PBool False)) None),
      on_wire on_off_data WholeArray (elements BooleanSchema (Prim (PBool True)) None),
      on_wire labels_data AppendItem (elements BooleanSchema (Prim (PBool True)) None)]"

lemma attribute_data_reassembled_witness:
  "\<exists>results. normalizeAndDecodeAttributeData sample_registry sample_received = Inr results
    \<and> mset results = mset (map (decoded_of sample_registry) [labels_data, on_off_data])"
proof (rule attribute_data_reassembled [of _ _ no_options])
  have "transmits no_options labels_data (filter (\<lambda>w. key_of (adPath w) = key_of (apPath labels_data)) sample_received)"
    unfolding transmits_def
    by (intro disjI2 exI [of _ BooleanSchema] exI [of _ 0] exI [of _ 10] exI [of _ "[Prim (PBool True), Prim (PBool False), Prim (PBool True)]"]
      exI [of _ "Suc 0"] exI [of _ "elements (ArraySchema BooleanSchema 0 10) (JArray [Prim (PBool True)]) None"]
      exI [of _ "[elements BooleanSchema (Prim (PBool False)) None, elements BooleanSchema (Prim (PBool True)) None]"])
      (simp_all add: labels_data_def on_off_data_def on_off_path_def sample_received_def on_wire_def key_of_def no_options_def encodeTlv_elements validate_length_def)
  moreover have "transmits no_options on_off_data (filter (\<lambda>w. key_of (adPath w) = key_of (apPath on_off_data)) sample_received)"
    unfolding transmits_def
    by (intro disjI1 exI [of _ "elements BooleanSchema (Prim (PBool True)) None"])
      (simp_all add: labels_data_def on_off_data_def on_off_path_def sample_received_def on_wire_def key_of_def no_options_def encodeTlv_elements validate_length_def)
  ultimately show "\<forall>d\<in>set [labels_data, on_off_data]. transmits no_options d (filter (\<lambda>w. key_of (adPath w) = key_of (apPath d)) sample_received)"
    by simp
qed (simp_all add: reportable_def labels_data_def on_off_data_def on_off_path_def sample_registry_def sample_received_def key_of_def on_wire_def
      no_options_def validate_length_def)

text \<open>The path of a status is compressed, too, but nothing expands it.\<close>

definition unreadable :: attribute_report where
  "unreadable =
     \<lparr>arData = None, arStatus = Some \<lparr>asPath = on_off_path\<lparr>attributeId := Some 2\<rparr>, asStatus = 0x86, asClusterStatus = None\<rparr>,
      hasFabricSensitiveData = False\<rparr>"

lemma compressed_status_rejected:
  "normalizeAttributeStatus registry [the (arStatus unreadable)]
     = Inr [\<lparr>dsPath = AttributeKey None (Some 1) (Some 6) (Some 2), dsName = (case registry 6 2 of None \<Rightarrow> Unknown 2 | Some (name, schema) \<Rightarrow> Known name),
         dsStatus = 0x86, dsClusterStatus = None\<rparr>]"
  "normalizeAttributeStatus registry [the (arStatus (compressAttributeDataReportTags [report_of on_off_data, unreadable] ! 1))]
     = Inl UnexpectedDataError"
  by (simp_all add: normalizeAttributeStatus_def decode_status_def unreadable_def on_off_path_def report_of_def on_off_data_def
      compressAttributeDataReportTags_def js_sort_def sortAttributeDataByPath_def path_of_def compare_component_def compress_report_def
      compressPath_def key_of_def)

end
