(* ===== verification/DataReports.thy ===== *)
theory DataReports
  imports AttributeReports
begin

text \<open>
  The packing of reports into messages: \<open>sendDataReport\<close> of packages/protocol/src/interaction/
  InteractionMessenger.ts.  The reports come from an iterator; those that do not fit into the current
  message wait in a queue, and lists are cut into chunks.  A message holds reports, which the code keeps in
  encoded form: what \<open>encodeAttributePayload\<close> returns for them; events are streams already.

  The sizes of encoded reports are an argument of the loop, \<open>tlv_sizes\<close> where they are computed; the locale
  \<open>report_size_laws\<close> says what packing relies on, and \<open>ReportSizes\<close> interprets it.  The length of an encoded
  message is that of the message without reports, the reports, and three bytes for each array that has any;
  the flag of more messages takes two bytes.  The peer confirms every message.

  The loop is shown to end by what is left to send, to read, and whether the state waits, and not to end for
  what does not fit.
\<close>

subsection \<open>Messages and queues\<close>

record report_config =
  maxPayloadSize :: int
  emptyReportSize :: int

record report_sizes =
  report_size :: "attribute_report \<Rightarrow> int res"
  data_size :: "attribute_report \<Rightarrow> int res"
  event_size :: "tlv_element list \<Rightarrow> int res"

datatype report_value = AttributeValue attribute_report | EventValue "tlv_element list"

record queued_report =
  qReport :: attribute_report
  qSize :: int
  needSendNext :: bool

record report_message =
  mAttributes :: "attribute_report list"
  mEvents :: "tlv_element list list"
  moreChunkedMessages :: bool

record report_state =
  pending :: "report_value list"
  allDataReceived :: bool
  processQueueFirst :: bool
  messageSize :: int
  attributeReportsToSend :: "queued_report list"
  eventReportsToSend :: "(tlv_element list \<times> int) list"
  attributeReports :: "attribute_report list"
  eventReports :: "tlv_element list list"
  sentMessages :: "report_message list"

definition DATA_REPORT_MAX_QUEUED_ATTRIBUTE_MESSAGES :: nat where "DATA_REPORT_MAX_QUEUED_ATTRIBUTE_MESSAGES = 20"
definition DATA_REPORT_MIN_AVAILABLE_BYTES_BEFORE_SENDING :: int where "DATA_REPORT_MIN_AVAILABLE_BYTES_BEFORE_SENDING = 40"

definition start_report :: "report_config \<Rightarrow> report_value list \<Rightarrow> report_state" where
  "start_report cfg vs =
     \<lparr>pending = vs, allDataReceived = False, processQueueFirst = True, messageSize = emptyReportSize cfg, attributeReportsToSend = [],
      eventReportsToSend = [], attributeReports = [], eventReports = [], sentMessages = []\<rparr>"

text \<open>The size of something that is known to be encodable.\<close>

definition size_of :: "int res \<Rightarrow> int" where
  "size_of r = (case r of Inl e \<Rightarrow> 0 | Inr n \<Rightarrow> n)"

definition message_length :: "report_config \<Rightarrow> report_sizes \<Rightarrow> report_message \<Rightarrow> int" where
  "message_length cfg sizes m =
     emptyReportSize cfg - (if moreChunkedMessages m then 0 else 2)
     + (if mAttributes m = [] then 0 else 3 + (\<Sum>r\<leftarrow>mAttributes m. size_of (report_size sizes r)))
     + (if mEvents m = [] then 0 else 3 + (\<Sum>e\<leftarrow>mEvents m. size_of (event_size sizes e)))"

definition sendDataReportMessage :: "report_config \<Rightarrow> report_sizes \<Rightarrow> bool \<Rightarrow> report_state \<Rightarrow> report_state res" where
  "sendDataReportMessage cfg sizes chunked s =
     (let m = \<lparr>mAttributes = attributeReports s, mEvents = eventReports s, moreChunkedMessages = chunked\<rparr>
      in if message_length cfg sizes m > maxPayloadSize cfg then Inl MatterFlowError
         else Inr (s\<lparr>sentMessages := sentMessages s @ [m]\<rparr>))"

definition sendAndResetReport :: "report_config \<Rightarrow> report_sizes \<Rightarrow> report_state \<Rightarrow> report_state res" where
  "sendAndResetReport cfg sizes s =
     and_then (sendDataReportMessage cfg sizes True s) (\<lambda>s.
       Inr (s\<lparr>attributeReports := [], eventReports := [], messageSize := emptyReportSize cfg, processQueueFirst := True\<rparr>))"

subsection \<open>Reading\<close>

definition read_wanted :: "report_state \<Rightarrow> bool res" where
  "read_wanted s =
     (if allDataReceived s then Inr False
      else if attributeReportsToSend s = [] \<and> eventReportsToSend s = [] then Inr True
      else if length (attributeReportsToSend s) \<le> DATA_REPORT_MAX_QUEUED_ATTRIBUTE_MESSAGES \<and> \<not> processQueueFirst s then
        (case attributeReportsToSend s of [] \<Rightarrow> Inl TypeError | q # qs \<Rightarrow> Inr (\<not> needSendNext q))
      else Inr False)"

definition send_next :: "queued_report \<Rightarrow> queued_report" where
  "send_next q = q\<lparr>needSendNext := True\<rparr>"

definition same_cluster :: "attribute_report \<Rightarrow> attribute_report \<Rightarrow> bool" where
  "same_cluster r1 r2 \<longleftrightarrow>
     (case (arData r1, arData r2) of
        (Some d1, Some d2) \<Rightarrow>
          nodeId (apPath d1) = nodeId (apPath d2) \<and> endpointId (apPath d1) = endpointId (apPath d2) \<and> clusterId (apPath d1) = clusterId (apPath d2)
      | _ \<Rightarrow> False)"

definition enqueue :: "report_sizes \<Rightarrow> report_value \<Rightarrow> report_state \<Rightarrow> report_state res" where
  "enqueue sizes v s =
     (case v of
        AttributeValue r \<Rightarrow>
          and_then (report_size sizes r) (\<lambda>n.
            let q = \<lparr>qReport = r, qSize = n, needSendNext = False\<rparr>
            in Inr (case attributeReportsToSend s of
                 [] \<Rightarrow> s\<lparr>attributeReportsToSend := [q]\<rparr>
               | first # rest \<Rightarrow>
                   if same_cluster (qReport first) r then s\<lparr>attributeReportsToSend := q # first # rest\<rparr>
                   else s\<lparr>attributeReportsToSend := map send_next (first # rest) @ [q]\<rparr>))
      | EventValue e \<Rightarrow>
          and_then (event_size sizes e) (\<lambda>n. Inr (s\<lparr>eventReportsToSend := eventReportsToSend s @ [(e, n)]\<rparr>)))"

subsection \<open>Processing the queues\<close>

datatype progress = Continue report_state | Finished report_state

text \<open>The loop over the chunks: items go into the first chunk as long as they fit.\<close>

fun fill_chunk :: "report_sizes \<Rightarrow> int \<Rightarrow> int \<Rightarrow> js_value list \<Rightarrow> attribute_report list \<Rightarrow> (int \<times> js_value list \<times> attribute_report list) res" where
  "fill_chunk sizes availableBytes msgSize items [] = Inr (msgSize, items, [])"
| "fill_chunk sizes availableBytes msgSize items (c # cs) =
     and_then (data_size sizes c) (\<lambda>n.
       if n > availableBytes then Inr (msgSize, items, c # cs)
       else fill_chunk sizes (availableBytes - n) (msgSize + n) (items @ [apPayload (the (arData c))]) cs)"

definition queue_chunk :: "report_sizes \<Rightarrow> attribute_report \<Rightarrow> queued_report res" where
  "queue_chunk sizes c = and_then (report_size sizes c) (\<lambda>n. Inr \<lparr>qReport = c, qSize = n, needSendNext = True\<rparr>)"

definition set_items :: "attribute_report \<Rightarrow> js_value list \<Rightarrow> attribute_report" where
  "set_items r xs = r\<lparr>arData := Some ((the (arData r))\<lparr>apPayload := JArray xs\<rparr>)\<rparr>"

definition add_report :: "attribute_report \<Rightarrow> int \<Rightarrow> report_state \<Rightarrow> report_state" where
  "add_report r n s = s\<lparr>messageSize := messageSize s + n, attributeReports := attributeReports s @ [r]\<rparr>"

text \<open>An attribute is cut: its first chunk joins the message if there is room for it with one item.  The
  chunk only gets into the message when items are left.\<close>

definition send_chunks :: "report_sizes \<Rightarrow> int \<Rightarrow> attribute_report \<Rightarrow> report_state \<Rightarrow> report_state option res" where
  "send_chunks sizes availableBytes r s =
     and_then (chunkAttributePayload r) (\<lambda>chunks.
       case chunks of
         initialChunk # firstDataChunk # rest \<Rightarrow>
           let first = apPayload (the (arData firstDataChunk))
           in and_then (report_size sizes (set_items initialChunk [first])) (\<lambda>n.
                if availableBytes > n then
                  and_then (fill_chunk sizes (availableBytes - n) (messageSize s + n) [first] rest) (\<lambda>(msgSize, items, remaining).
                    let s = s\<lparr>messageSize := msgSize\<rparr>
                    in if remaining = [] then Inr (Some s)
                       else and_then (map_res (queue_chunk sizes) remaining) (\<lambda>qs.
                         Inr (Some (s\<lparr>attributeReportsToSend := qs @ attributeReportsToSend s,
                                      attributeReports := attributeReports s @ [set_items initialChunk items]\<rparr>))))
                else Inr None)
       | _ \<Rightarrow> Inl InternalError)"

definition send_or_queue :: "report_config \<Rightarrow> report_sizes \<Rightarrow> int \<Rightarrow> bool \<Rightarrow> queued_report \<Rightarrow> report_state \<Rightarrow> report_state res" where
  "send_or_queue cfg sizes availableBytes sendOutTheMessage q s =
     (if sendOutTheMessage \<or> availableBytes < DATA_REPORT_MIN_AVAILABLE_BYTES_BEFORE_SENDING
         \<or> (attributeReportsToSend s \<noteq> [] \<and> needSendNext (hd (attributeReportsToSend s)))
         \<or> length (attributeReportsToSend s) \<ge> DATA_REPORT_MAX_QUEUED_ATTRIBUTE_MESSAGES
      then and_then (sendAndResetReport cfg sizes s) (\<lambda>s.
        if qSize q > maxPayloadSize cfg - emptyReportSize cfg - 3 then Inr (s\<lparr>attributeReportsToSend := q # attributeReportsToSend s\<rparr>)
        else Inr (add_report (qReport q) (qSize q) s))
      else Inr (s\<lparr>attributeReportsToSend := attributeReportsToSend s @ [q]\<rparr>))"

definition process_attribute :: "report_config \<Rightarrow> report_sizes \<Rightarrow> queued_report \<Rightarrow> report_state \<Rightarrow> report_state res" where
  "process_attribute cfg sizes q s =
     (let availableBytes = maxPayloadSize cfg - messageSize s - 3
      in if qSize q > availableBytes then
           if (allDataReceived s \<or> needSendNext q) \<and> canAttributePayloadBeChunked (qReport q) then
             and_then (send_chunks sizes availableBytes (qReport q) s) (\<lambda>c.
               case c of
                 Some s \<Rightarrow> Inr s
               | None \<Rightarrow> send_or_queue cfg sizes availableBytes (needSendNext q) q s)
           else if needSendNext q then send_or_queue cfg sizes availableBytes True q s
           else send_or_queue cfg sizes availableBytes False q (s\<lparr>processQueueFirst := False\<rparr>)
         else Inr (add_report (qReport q) (qSize q) s))"

definition process_event :: "report_config \<Rightarrow> report_sizes \<Rightarrow> tlv_element list \<Rightarrow> int \<Rightarrow> report_state \<Rightarrow> report_state res" where
  "process_event cfg sizes e n s =
     and_then
       (if messageSize s + 3 + (if attributeReports s \<noteq> [] then 3 else 0) + n > maxPayloadSize cfg
        then sendAndResetReport cfg sizes s else Inr s)
       (\<lambda>s. Inr (s\<lparr>messageSize := messageSize s + n, eventReports := eventReports s @ [e]\<rparr>))"

definition process_queues :: "report_config \<Rightarrow> report_sizes \<Rightarrow> report_state \<Rightarrow> progress res" where
  "process_queues cfg sizes s =
     (case attributeReportsToSend s of
        q # qs \<Rightarrow> and_then (process_attribute cfg sizes q (s\<lparr>attributeReportsToSend := qs\<rparr>)) (\<lambda>s. Inr (Continue s))
      | [] \<Rightarrow>
          (case eventReportsToSend s of
             (e, n) # es \<Rightarrow> and_then (process_event cfg sizes e n (s\<lparr>eventReportsToSend := es\<rparr>)) (\<lambda>s. Inr (Continue s))
           | [] \<Rightarrow> Inr (if allDataReceived s then Finished s else Continue s)))"

text \<open>One round of the loop.\<close>

definition report_round :: "report_config \<Rightarrow> report_sizes \<Rightarrow> report_state \<Rightarrow> progress res" where
  "report_round cfg sizes s =
     and_then (read_wanted s) (\<lambda>wanted.
       if wanted then
         (case pending s of
            [] \<Rightarrow>
              let s = s\<lparr>allDataReceived := True\<rparr>
              in if attributeReportsToSend s = [] \<and> eventReportsToSend s = [] then Inr (Finished s)
                 else Inr (Continue (s\<lparr>attributeReportsToSend := map send_next (attributeReportsToSend s)\<rparr>))
          | v # vs \<Rightarrow> and_then (enqueue sizes v (s\<lparr>pending := vs\<rparr>)) (process_queues cfg sizes))
       else process_queues cfg sizes s)"

text \<open>The loop with a bound on its rounds: the messages, or \<open>None\<close> when the bound is reached.\<close>

fun report_loop :: "report_config \<Rightarrow> report_sizes \<Rightarrow> nat \<Rightarrow> report_state \<Rightarrow> report_message list option res" where
  "report_loop cfg sizes 0 s = Inr None"
| "report_loop cfg sizes (Suc n) s =
     and_then (report_round cfg sizes s) (\<lambda>p.
       case p of
         Continue s \<Rightarrow> report_loop cfg sizes n s
       | Finished s \<Rightarrow> and_then (sendDataReportMessage cfg sizes False s) (\<lambda>s. Inr (Some (sentMessages s))))"

definition sendDataReport :: "report_config \<Rightarrow> report_sizes \<Rightarrow> nat \<Rightarrow> report_value list \<Rightarrow> report_message list option res" where
  "sendDataReport cfg sizes n vs = report_loop cfg sizes n (start_report cfg vs)"

text \<open>The sizes as they are computed.\<close>

definition options_for :: "bool \<Rightarrow> attribute_report \<Rightarrow> encoding_options" where
  "options_for forFabricFilteredRead r =
     \<lparr>forWriteInteraction = False, allowMissingFields = (\<not> forFabricFilteredRead \<and> hasFabricSensitiveData r)\<rparr>"

definition tlv_sizes :: "bool \<Rightarrow> report_sizes" where
  "tlv_sizes forFabricFilteredRead =
     \<lparr>report_size = (\<lambda>r. and_then (encodeAttributePayload r (options_for forFabricFilteredRead r)) getEncodedByteLength),
      data_size = (\<lambda>r. and_then (encodeAttributePayloadData r (options_for forFabricFilteredRead r)) getEncodedByteLength),
      event_size = getEncodedByteLength\<rparr>"

subsection \<open>What has to fit\<close>

text \<open>
  A report can be sent if it fits into a message alone, or is a list whose items fit one by one and whose
  first chunk leaves a byte.
\<close>

definition capacity :: "report_config \<Rightarrow> int" where
  "capacity cfg = maxPayloadSize cfg - emptyReportSize cfg - 3"

definition available :: "report_config \<Rightarrow> report_state \<Rightarrow> int" where
  "available cfg s = maxPayloadSize cfg - messageSize s - 3"

definition oversize :: "report_config \<Rightarrow> report_sizes \<Rightarrow> attribute_report \<Rightarrow> bool" where
  "oversize cfg sizes r \<longleftrightarrow> size_of (report_size sizes r) > capacity cfg"

definition chunks_fit :: "report_config \<Rightarrow> report_sizes \<Rightarrow> attribute_report \<Rightarrow> bool" where
  "chunks_fit cfg sizes r =
     (case arData r of
        None \<Rightarrow> False
      | Some d \<Rightarrow>
          (case (apSchema d, apPayload d) of
             (ArraySchema S mn mx, JArray (x # xs)) \<Rightarrow>
               size_of (report_size sizes (list_report r d [x])) < capacity cfg
               \<and> (\<forall>y\<in>set (x # xs). size_of (report_size sizes (item_report r d S y)) \<le> capacity cfg)
           | _ \<Rightarrow> False))"

definition sendable :: "report_config \<Rightarrow> report_sizes \<Rightarrow> attribute_report \<Rightarrow> bool" where
  "sendable cfg sizes r \<longleftrightarrow>
     (case report_size sizes r of Inl e \<Rightarrow> False | Inr n \<Rightarrow> True)
     \<and> (arData r = None \<or> arStatus r = None)
     \<and> (oversize cfg sizes r \<longrightarrow> canAttributePayloadBeChunked r \<and> chunks_fit cfg sizes r)"

definition sendable_event :: "report_config \<Rightarrow> report_sizes \<Rightarrow> tlv_element list \<Rightarrow> bool" where
  "sendable_event cfg sizes e = (case event_size sizes e of Inl err \<Rightarrow> False | Inr n \<Rightarrow> n \<le> capacity cfg)"

text \<open>What a report is delivered as, and the delivery of several, interleaved in any way.\<close>

definition pieces :: "attribute_report \<Rightarrow> attribute_report list \<Rightarrow> bool" where
  "pieces r ps \<longleftrightarrow>
     ps = [r]
     \<or> (\<exists>d S mn mx xs k. arData r = Some d \<and> apSchema d = ArraySchema S mn mx \<and> apPayload d = JArray xs \<and> listIndex (apPath d) = WholeArray
          \<and> 0 < k \<and> k < length xs \<and> ps = list_report r d (take k xs) # map (item_report r d S) (drop k xs))"

definition part_of :: "nat \<Rightarrow> (nat \<times> attribute_report) list \<Rightarrow> attribute_report list" where
  "part_of i L = map snd (filter (\<lambda>x. fst x = i) L)"

definition assigned :: "attribute_report list \<Rightarrow> (nat \<times> attribute_report) list \<Rightarrow> bool" where
  "assigned rs L \<longleftrightarrow> (\<forall>x\<in>set L. fst x < length rs) \<and> (\<forall>i<length rs. pieces (rs ! i) (part_of i L))"

definition delivers :: "attribute_report list \<Rightarrow> attribute_report list \<Rightarrow> bool" where
  "delivers rs out \<longleftrightarrow> (\<exists>L. map snd L = out \<and> assigned rs L)"

lemma part_of_simps [simp]:
  "part_of i [] = []"
  "part_of i (x # L) = (if fst x = i then snd x # part_of i L else part_of i L)"
  "part_of i (L @ L') = part_of i L @ part_of i L'"
  by (simp_all add: part_of_def)

lemma part_of_empty [simp]: "part_of i L = [] \<longleftrightarrow> (\<forall>x\<in>set L. fst x \<noteq> i)"
  by (auto simp: part_of_def filter_empty_conv)

lemma piece_paths:
  "map_option (listIndex \<circ> apPath) (arData (list_report r d xs)) = Some WholeArray" "map_option apPayload (arData (list_report r d xs)) = Some (JArray xs)"
  "map_option (listIndex \<circ> apPath) (arData (item_report r d S x)) = Some AppendItem"
  by (simp_all add: list_report_def item_report_def)

lemma pieces_itself:
  assumes "pieces r ps" "r \<in> set ps"
  shows "ps = [r]"
proof (rule ccontr)
  assume "ps \<noteq> [r]"
  then obtain d S mn mx xs k where r: "arData r = Some d" "apPayload d = JArray xs" "k < length xs" "listIndex (apPath d) = WholeArray"
    "ps = list_report r d (take k xs) # map (item_report r d S) (drop k xs)"
    using assms(1) unfolding pieces_def by blast
  have "r \<noteq> list_report r d (take k xs)"
    using piece_paths(2) [of r d "take k xs"] r(1-3) by (metis comp_apply js_value.inject(2) length_take less_irrefl min.absorb4 option.map(2) option.sel)
  moreover have "r \<noteq> item_report r d S x" for x
    using piece_paths(3) [of r d S x] r(1,4) by auto
  ultimately show False using assms(2) r(5) by auto
qed

lemma original_alone:
  assumes "assigned rs (A @ (i, rs ! i) # B)"
  shows "part_of i (A @ B) = []"
proof -
  have "i < length rs" using assms by (simp add: assigned_def)
  then have "pieces (rs ! i) (part_of i A @ rs ! i # part_of i B)"
    using assms unfolding assigned_def by (metis fst_conv part_of_simps(2, 3) snd_conv)
  from pieces_itself [OF this] show ?thesis by (auto simp: append_eq_Cons_conv)
qed

lemma assigned_replace:
  assumes "assigned rs (A @ (i, rs ! i) # B)" "map fst C = replicate (length C) i" "pieces (rs ! i) (map snd C)" "A @ B = A' @ B'"
  shows "assigned rs (A' @ C @ B')"
proof -
  have C: "part_of j C = (if j = i then map snd C else [])" for j
    using assms(2) by (induction C) auto
  have index: "fst x = i" if "x \<in> set C" for x
    using arg_cong [OF assms(2), of set] that by (auto simp: set_replicate_conv_if split: if_splits)
  have others: "set A' \<union> set B' = set A \<union> set B" using arg_cong [OF assms(4), of set] by simp
  have old: "i < length rs" "\<forall>x\<in>set A' \<union> set B'. fst x < length rs" "\<And>j. j < length rs \<Longrightarrow> pieces (rs ! j) (part_of j (A @ (i, rs ! i) # B))"
    using assms(1) by (simp_all add: assigned_def others ball_Un)
  have "pieces (rs ! j) (part_of j (A' @ C @ B'))" if j: "j < length rs" for j
  proof (cases "j = i")
    case True
    have "part_of i (A' @ B') = []" using original_alone [OF assms(1)] unfolding assms(4) .
    then have "part_of i A' = []" "part_of i B' = []" by (simp_all only: part_of_simps(3) append_is_Nil_conv)
    then have "part_of i (A' @ C @ B') = map snd C" using C [of i] by (simp only: part_of_simps(3)) simp
    then show ?thesis using assms(3) True by simp
  next
    case False
    have "part_of j (A' @ C @ B') = part_of j (A' @ B')" using C [of j] False by (simp only: part_of_simps(3)) simp
    also have "\<dots> = part_of j (A @ (i, rs ! i) # B)" unfolding assms(4) [symmetric] using False by simp
    finally show ?thesis using old(3) [OF j] by simp
  qed
  then show ?thesis unfolding assigned_def using old(1, 2) index by auto
qed

lemma assigned_move:
  assumes "assigned rs (A @ x # B)" "snd x = rs ! fst x" "A @ B = A' @ B'"
  shows "assigned rs (A' @ x # B')"
proof -
  obtain i where "x = (i, rs ! i)" using assms(2) by (metis prod.collapse)
  then show ?thesis
    using assigned_replace [of rs A i B "[x]" A' B'] assms(1, 3) by (simp add: pieces_def)
qed

subsection \<open>Laws of the sizes\<close>

text \<open>What packing relies on: the size of a list grows by the size of the data of each item.\<close>

locale report_size_laws =
  fixes sizes :: report_sizes
  assumes size_nonneg: "report_size sizes r = Inr n \<Longrightarrow> 0 \<le> n"
    and event_size_nonneg: "event_size sizes e = Inr n \<Longrightarrow> 0 \<le> n"
    and list_parts: "\<lbrakk>apSchema d = ArraySchema S mn mx; report_size sizes (list_report r d (xs @ ys)) = Inr n\<rbrakk>
      \<Longrightarrow> \<exists>m. report_size sizes (list_report r d xs) = Inr m"
    and list_grows: "\<lbrakk>apSchema d = ArraySchema S mn mx; report_size sizes (list_report r d (xs @ [x])) = Inr n; report_size sizes (list_report r d xs) = Inr m\<rbrakk>
      \<Longrightarrow> data_size sizes (item_report r d S x) = Inr (n - m)"
    and data_size_nonneg: "data_size sizes r = Inr n \<Longrightarrow> 0 \<le> n"
    and item_sizes: "\<lbrakk>apSchema d = ArraySchema S mn mx; report_size sizes (list_report r d []) = Inr n; data_size sizes (item_report r d S x) = Inr m\<rbrakk>
      \<Longrightarrow> \<exists>k. report_size sizes (item_report r d S x) = Inr k \<and> m \<le> k \<and> k \<le> n + m"

text \<open>The steps of the loop for an attribute \<open>q\<close> that has been taken off the queue.\<close>

definition after_sending :: "report_config \<Rightarrow> report_state \<Rightarrow> report_state" where
  "after_sending cfg s =
     s\<lparr>sentMessages := sentMessages s @ [\<lparr>mAttributes = attributeReports s, mEvents = eventReports s, moreChunkedMessages = True\<rparr>],
       attributeReports := [], eventReports := [], messageSize := emptyReportSize cfg, processQueueFirst := True\<rparr>"

inductive attribute_step :: "report_config \<Rightarrow> report_sizes \<Rightarrow> queued_report \<Rightarrow> report_state \<Rightarrow> report_state \<Rightarrow> bool"
  for cfg sizes q s where
  fits: "qSize q \<le> available cfg s \<Longrightarrow> attribute_step cfg sizes q s (add_report (qReport q) (qSize q) s)"
| cut: "\<lbrakk>arData (qReport q) = Some d; apSchema d = ArraySchema S mn mx; apPayload d = JArray xs; listIndex (apPath d) = WholeArray;
    0 < k; k < length xs; needSendNext q; report_size sizes (list_report (qReport q) d (take k xs)) = Inr n; n \<le> available cfg s;
    map_res (queue_chunk sizes) (map (item_report (qReport q) d S) (drop k xs)) = Inr items; available cfg s - n < qSize (hd items)\<rbrakk>
    \<Longrightarrow> attribute_step cfg sizes q s
          (s\<lparr>messageSize := messageSize s + n, attributeReportsToSend := items @ attributeReportsToSend s,
             attributeReports := attributeReports s @ [list_report (qReport q) d (take k xs)]\<rparr>)"
| next_message: "\<lbrakk>available cfg s < qSize q; qSize q \<le> capacity cfg\<rbrakk>
    \<Longrightarrow> attribute_step cfg sizes q s (add_report (qReport q) (qSize q) (after_sending cfg s))"
| postponed: "\<lbrakk>messageSize s \<noteq> emptyReportSize cfg; capacity cfg < qSize q\<rbrakk>
    \<Longrightarrow> attribute_step cfg sizes q s ((after_sending cfg s)\<lparr>attributeReportsToSend := q # attributeReportsToSend s\<rparr>)"
| rotated: "\<lbrakk>available cfg s < qSize q; \<not> needSendNext q; length (attributeReportsToSend s) < 20\<rbrakk>
    \<Longrightarrow> attribute_step cfg sizes q s (s\<lparr>processQueueFirst := False, attributeReportsToSend := attributeReportsToSend s @ [q]\<rparr>)"

text \<open>A message that can be sent.\<close>

definition message_fits :: "report_config \<Rightarrow> report_sizes \<Rightarrow> report_state \<Rightarrow> bool" where
  "message_fits cfg sizes s \<longleftrightarrow>
     messageSize s = emptyReportSize cfg + (\<Sum>r\<leftarrow>attributeReports s. size_of (report_size sizes r)) + (\<Sum>e\<leftarrow>eventReports s. size_of (event_size sizes e))
     \<and> messageSize s + (if attributeReports s = [] then 0 else 3) + (if eventReports s = [] then 0 else 3) \<le> maxPayloadSize cfg"

lemma send_message:
  assumes "message_fits cfg sizes s"
  shows "sendDataReportMessage cfg sizes chunked s
     = Inr (s\<lparr>sentMessages := sentMessages s @ [\<lparr>mAttributes = attributeReports s, mEvents = eventReports s, moreChunkedMessages = chunked\<rparr>]\<rparr>)"
    "message_length cfg sizes \<lparr>mAttributes = attributeReports s, mEvents = eventReports s, moreChunkedMessages = chunked\<rparr> \<le> maxPayloadSize cfg"
proof -
  show "message_length cfg sizes \<lparr>mAttributes = attributeReports s, mEvents = eventReports s, moreChunkedMessages = chunked\<rparr> \<le> maxPayloadSize cfg"
    using assms by (auto simp: message_fits_def message_length_def split: if_splits)
  then show "sendDataReportMessage cfg sizes chunked s
     = Inr (s\<lparr>sentMessages := sentMessages s @ [\<lparr>mAttributes = attributeReports s, mEvents = eventReports s, moreChunkedMessages = chunked\<rparr>]\<rparr>)"
    by (simp add: sendDataReportMessage_def Let_def)
qed

lemma send_and_reset: "message_fits cfg sizes s \<Longrightarrow> sendAndResetReport cfg sizes s = Inr (after_sending cfg s)"
  by (simp add: sendAndResetReport_def send_message after_sending_def)

lemma item_not_cut [simp]: "\<not> canAttributePayloadBeChunked (item_report r d S x)"
  by (cases S; cases x) (simp_all add: item_report_def canAttributePayloadBeChunked_def)

lemma item_payload [simp]: "apPayload (the (arData (item_report r d S x))) = x"
  by (simp add: item_report_def)

context report_size_laws begin

text \<open>Filling the first chunk stops at an item that is left, or at the end.\<close>

lemma fill_chunk_stops:
  assumes S: "apSchema d = ArraySchema S mn mx" and complete: "report_size sizes (list_report r d (xs @ ys)) = Inr whole"
    and first: "report_size sizes (list_report r d xs) = Inr n" and n: "n \<le> room"
  shows "\<exists>j m. j \<le> length ys \<and> report_size sizes (list_report r d (xs @ take j ys)) = Inr m \<and> m \<le> room
    \<and> fill_chunk sizes (room - n) msgSize xs (map (item_report r d S) ys) = Inr (msgSize + m - n, xs @ take j ys, map (item_report r d S) (drop j ys))
    \<and> (j < length ys \<longrightarrow> (\<exists>b. data_size sizes (item_report r d S (ys ! j)) = Inr b \<and> room < m + b))"
  using complete first n
proof (induction ys arbitrary: xs n msgSize)
  case Nil
  then show ?case by (auto intro!: exI [of _ n])
next
  case (Cons y ys)
  obtain m where m: "report_size sizes (list_report r d (xs @ [y])) = Inr m"
    using list_parts [OF S, of r "xs @ [y]" ys] Cons.prems(1) by auto
  have b: "data_size sizes (item_report r d S y) = Inr (m - n)" using list_grows [OF S m Cons.prems(2)] .
  show ?case
  proof (cases "m - n > room - n")
    case True
    then show ?thesis
      using Cons.prems b by (intro exI [of _ 0] exI [of _ n]) simp
  next
    case False
    obtain j m' where j: "j \<le> length ys" "report_size sizes (list_report r d ((xs @ [y]) @ take j ys)) = Inr m'" "m' \<le> room"
      "fill_chunk sizes (room - m) (msgSize + (m - n)) (xs @ [y]) (map (item_report r d S) ys)
         = Inr ((msgSize + (m - n)) + m' - m, (xs @ [y]) @ take j ys, map (item_report r d S) (drop j ys))"
      "j < length ys \<longrightarrow> (\<exists>b. data_size sizes (item_report r d S (ys ! j)) = Inr b \<and> room < m' + b)"
      using Cons.IH [of "xs @ [y]" m "msgSize + (m - n)"] Cons.prems(1) m False by auto
    then show ?thesis
      using b False by (intro exI [of _ "Suc j"] exI [of _ m']) (simp add: algebra_simps)
  qed
qed

end

text \<open>The first chunk with its items replaced.\<close>

lemma set_items_list [simp]: "set_items (list_report r d xs) ys = list_report r d ys"
  by (simp add: set_items_def list_report_def)

lemma list_report_whole:
  assumes "arData r = Some d" "apPayload d = JArray xs" "listIndex (apPath d) = WholeArray" "arStatus r = None"
  shows "list_report r d xs = r"
  using assms by (cases r; cases d; cases "apPath d") (simp add: list_report_def)

context report_size_laws begin

lemma list_size_mono:
  assumes S: "apSchema d = ArraySchema S mn mx"
  shows "\<lbrakk>report_size sizes (list_report r d (xs @ ys)) = Inr n; report_size sizes (list_report r d xs) = Inr m\<rbrakk> \<Longrightarrow> m \<le> n"
proof (induction ys arbitrary: n rule: rev_induct)
  case (snoc y ys)
  obtain l where l: "report_size sizes (list_report r d (xs @ ys)) = Inr l"
    using list_parts [OF S, of r "xs @ ys" "[y]"] snoc.prems(1) by auto
  have "data_size sizes (item_report r d S y) = Inr (n - l)" using list_grows [OF S _ l] snoc.prems(1) by simp
  then show ?case using data_size_nonneg snoc.IH [OF l snoc.prems(2)] by fastforce
qed simp

lemma item_known:
  assumes S: "apSchema d = ArraySchema S mn mx" and n: "report_size sizes (list_report r d xs) = Inr n" and x: "x \<in> set xs"
  shows "\<exists>b k. data_size sizes (item_report r d S x) = Inr b \<and> report_size sizes (item_report r d S x) = Inr k \<and> b \<le> k \<and> k \<le> n"
proof -
  obtain ys zs where xs: "xs = ys @ x # zs" using split_list [OF x] by blast
  obtain m where m: "report_size sizes (list_report r d (ys @ [x])) = Inr m"
    using list_parts [OF S, of r "ys @ [x]" zs] n xs by auto
  obtain l where l: "report_size sizes (list_report r d ys) = Inr l"
    using list_parts [OF S, of r ys "[x]"] m by auto
  obtain e where e: "report_size sizes (list_report r d []) = Inr e"
    using list_parts [OF S, of r "[]"] l by auto
  have b: "data_size sizes (item_report r d S x) = Inr (m - l)" using list_grows [OF S m l] .
  have "e \<le> l" "m \<le> n"
    using list_size_mono [OF S, of r "[]" ys l e] list_size_mono [OF S, of r "ys @ [x]" zs n m] l e m n xs by simp_all
  then show ?thesis using item_sizes [OF S e b] b by fastforce
qed

lemma queue_items:
  assumes "apSchema d = ArraySchema S mn mx" "report_size sizes (list_report r d xs) = Inr n" "set ys \<subseteq> set xs"
  shows "map_res (queue_chunk sizes) (map (item_report r d S) ys)
    = Inr (map (\<lambda>y. \<lparr>qReport = item_report r d S y, qSize = size_of (report_size sizes (item_report r d S y)), needSendNext = True\<rparr>) ys)"
proof -
  have "queue_chunk sizes (item_report r d S y)
      = Inr \<lparr>qReport = item_report r d S y, qSize = size_of (report_size sizes (item_report r d S y)), needSendNext = True\<rparr>" if "y \<in> set ys" for y
    using item_known [OF assms(1, 2)] assms(3) that by (fastforce simp: queue_chunk_def size_of_def)
  then show ?thesis by (induction ys) simp_all
qed

lemma send_chunks_cases:
  assumes r: "arData r = Some d" "apSchema d = ArraySchema S mn mx" "apPayload d = JArray (x # xs)" "listIndex (apPath d) = WholeArray" "arStatus r = None"
    and whole: "report_size sizes r = Inr whole" "room < whole"
  shows "(\<exists>n. report_size sizes (list_report r d [x]) = Inr n \<and> room \<le> n \<and> send_chunks sizes room r s = Inr None)
    \<or> (\<exists>k n items. 0 < k \<and> k < length (x # xs) \<and> report_size sizes (list_report r d (take k (x # xs))) = Inr n \<and> n \<le> room
        \<and> map_res (queue_chunk sizes) (map (item_report r d S) (drop k (x # xs))) = Inr items \<and> room - n < qSize (hd items)
        \<and> send_chunks sizes room r s
            = Inr (Some (s\<lparr>messageSize := messageSize s + n, attributeReportsToSend := items @ attributeReportsToSend s,
                          attributeReports := attributeReports s @ [list_report r d (take k (x # xs))]\<rparr>)))"
proof -
  have total: "report_size sizes (list_report r d ([x] @ xs)) = Inr whole"
    using list_report_whole [OF r(1, 3-5)] whole(1) by simp
  obtain n where n: "report_size sizes (list_report r d [x]) = Inr n" using list_parts [OF r(2) total] by auto
  have chunks: "chunkAttributePayload r = Inr (list_report r d [] # item_report r d S x # map (item_report r d S) xs)"
    by (simp add: chunkAttributePayload_def r)
  show ?thesis
  proof (cases "room \<le> n")
    case True
    then show ?thesis using n chunks by (intro disjI1) (simp add: send_chunks_def)
  next
    case False
    define c where "c = messageSize s + n"
    obtain j m where j: "j \<le> length xs" "report_size sizes (list_report r d ([x] @ take j xs)) = Inr m" "m \<le> room"
      "fill_chunk sizes (room - n) (messageSize s + n) [x] (map (item_report r d S) xs)
         = Inr (messageSize s + n + m - n, [x] @ take j xs, map (item_report r d S) (drop j xs))"
      "j < length xs \<longrightarrow> (\<exists>b. data_size sizes (item_report r d S (xs ! j)) = Inr b \<and> room < m + b)"
      using fill_chunk_stops [OF r(2) total n, of room "messageSize s + n"] False by auto
    have "j \<noteq> length xs" using j(2, 3) total whole(2) by auto
    then have less: "j < length xs" using j(1) by simp
    then obtain y ys where rest: "drop j xs = y # ys" "y = xs ! j" by (metis Cons_nth_drop_Suc)
    define items where "items = map (\<lambda>y. \<lparr>qReport = item_report r d S y, qSize = size_of (report_size sizes (item_report r d S y)), needSendNext = True\<rparr>) (drop j xs)"
    have queued: "map_res (queue_chunk sizes) (map (item_report r d S) (drop j xs)) = Inr items"
      unfolding items_def by (rule queue_items [OF r(2) total]) (use set_drop_subset in fastforce)
    obtain b where b: "data_size sizes (item_report r d S y) = Inr b" "room < m + b" using j(5) less rest(2) by auto
    moreover obtain b' k' where "data_size sizes (item_report r d S y) = Inr b'" "report_size sizes (item_report r d S y) = Inr k'" "b' \<le> k'"
      using item_known [OF r(2) total, of y] less rest(2) by auto
    ultimately have "room - m < qSize (hd items)" using rest(1) by (simp add: items_def size_of_def)
    then show ?thesis
      using j n less chunks queued False rest
      by (intro disjI2 exI [of _ "Suc j"] exI [of _ m] exI [of _ items]) (auto simp: send_chunks_def Let_def)
  qed
qed

end

lemma after_sending_first [simp]: "after_sending cfg (s\<lparr>processQueueFirst := b\<rparr>) = after_sending cfg s"
  by (simp add: after_sending_def)

lemma message_fits_first [simp]: "message_fits cfg sizes (s\<lparr>processQueueFirst := b\<rparr>) = message_fits cfg sizes s"
  by (simp add: message_fits_def)

lemma send_or_queue_step:
  assumes q: "available cfg s < qSize q" and sent: "message_fits cfg sizes s" "40 \<le> capacity cfg"
    and ahead: "attributeReportsToSend s \<noteq> [] \<Longrightarrow> needSendNext (hd (attributeReportsToSend s)) \<Longrightarrow> forced"
    and stays: "\<lbrakk>messageSize s = emptyReportSize cfg; capacity cfg < qSize q\<rbrakk> \<Longrightarrow> \<not> forced \<and> length (attributeReportsToSend s) < 20"
    and free: "\<not> forced \<Longrightarrow> \<not> needSendNext q"
    and t: "t = (if forced then s else s\<lparr>processQueueFirst := False\<rparr>)"
  shows "\<exists>s'. send_or_queue cfg sizes (available cfg s) forced q t = Inr s' \<and> attribute_step cfg sizes q s s'"
proof (cases "forced \<or> available cfg s < 40 \<or> length (attributeReportsToSend s) \<ge> 20")
  case True
  have "sendAndResetReport cfg sizes t = Inr (after_sending cfg s)" using send_and_reset sent(1) by (simp add: t)
  then have go: "send_or_queue cfg sizes (available cfg s) forced q t =
      Inr (if qSize q > capacity cfg then (after_sending cfg s)\<lparr>attributeReportsToSend := q # attributeReportsToSend s\<rparr>
           else add_report (qReport q) (qSize q) (after_sending cfg s))"
    using True t by (auto simp: send_or_queue_def DATA_REPORT_MIN_AVAILABLE_BYTES_BEFORE_SENDING_def
        DATA_REPORT_MAX_QUEUED_ATTRIBUTE_MESSAGES_def capacity_def after_sending_def)
  have "messageSize s \<noteq> emptyReportSize cfg" if "qSize q > capacity cfg"
  proof
    assume empty: "messageSize s = emptyReportSize cfg"
    then have "available cfg s \<ge> 40" using sent(2) by (simp add: available_def capacity_def)
    then show False using stays [OF empty that] True by auto
  qed
  then show ?thesis unfolding go using q by (auto intro: attribute_step.intros)
next
  case False
  then have "send_or_queue cfg sizes (available cfg s) forced q t = Inr (s\<lparr>processQueueFirst := False, attributeReportsToSend := attributeReportsToSend s @ [q]\<rparr>)"
    using ahead by (auto simp: send_or_queue_def DATA_REPORT_MIN_AVAILABLE_BYTES_BEFORE_SENDING_def DATA_REPORT_MAX_QUEUED_ATTRIBUTE_MESSAGES_def t)
  then show ?thesis using False q free by (auto intro: rotated)
qed

context report_size_laws begin

lemma process_attribute_step:
  assumes q: "report_size sizes (qReport q) = Inr (qSize q)" "sendable cfg sizes (qReport q)"
    and sent: "message_fits cfg sizes s" "40 \<le> capacity cfg"
    and ahead: "attributeReportsToSend s \<noteq> [] \<Longrightarrow> needSendNext (hd (attributeReportsToSend s)) \<Longrightarrow> needSendNext q"
    and all: "allDataReceived s \<Longrightarrow> needSendNext q"
    and few: "\<lbrakk>\<not> needSendNext q; oversize cfg sizes (qReport q)\<rbrakk> \<Longrightarrow> length (attributeReportsToSend s) < 20"
  shows "\<exists>s'. process_attribute cfg sizes q s = Inr s' \<and> attribute_step cfg sizes q s s'"
proof (cases "qSize q \<le> available cfg s")
  case True
  then show ?thesis by (auto simp: process_attribute_def available_def Let_def intro: attribute_step.intros)
next
  case False
  then have big: "available cfg s < qSize q" by simp
  have over: "oversize cfg sizes (qReport q) \<longleftrightarrow> capacity cfg < qSize q" by (simp add: oversize_def q size_of_def)
  show ?thesis
  proof (cases "needSendNext q \<and> canAttributePayloadBeChunked (qReport q)")
    case True
    then obtain d S mn mx x xs where r: "arData (qReport q) = Some d" "apSchema d = ArraySchema S mn mx" "apPayload d = JArray (x # xs)"
      "listIndex (apPath d) = WholeArray"
      by (auto simp: canAttributePayloadBeChunked_def neq_Nil_conv split: option.splits tlv_schema.splits js_value.splits)
    have status: "arStatus (qReport q) = None" using q(2) r(1) by (simp add: sendable_def)
    from send_chunks_cases [OF r status q(1) big, of s] show ?thesis
    proof (elim disjE exE conjE)
      fix n assume n: "report_size sizes (list_report (qReport q) d [x]) = Inr n" "available cfg s \<le> n"
        "send_chunks sizes (available cfg s) (qReport q) s = Inr None"
      have "\<exists>s'. send_or_queue cfg sizes (available cfg s) True q s = Inr s' \<and> attribute_step cfg sizes q s s'"
      proof (rule send_or_queue_step [OF big sent])
        assume "messageSize s = emptyReportSize cfg" "capacity cfg < qSize q"
        then show "\<not> True \<and> length (attributeReportsToSend s) < 20"
          using q(2) over n(1, 2) r by (simp add: sendable_def chunks_fit_def available_def capacity_def size_of_def)
      qed simp_all
      then show ?thesis using True big n(3) by (simp add: process_attribute_def available_def)
    next
      fix k n items
      assume "0 < k" "k < length (x # xs)" "report_size sizes (list_report (qReport q) d (take k (x # xs))) = Inr n" "n \<le> available cfg s"
        "map_res (queue_chunk sizes) (map (item_report (qReport q) d S) (drop k (x # xs))) = Inr items" "available cfg s - n < qSize (hd items)"
        "send_chunks sizes (available cfg s) (qReport q) s
            = Inr (Some (s\<lparr>messageSize := messageSize s + n, attributeReportsToSend := items @ attributeReportsToSend s,
                          attributeReports := attributeReports s @ [list_report (qReport q) d (take k (x # xs))]\<rparr>))"
      then show ?thesis
        using True big r by (auto simp: process_attribute_def available_def Let_def intro!: cut)
    qed
  next
    case False
    have "\<exists>s'. send_or_queue cfg sizes (available cfg s) (needSendNext q) q (if needSendNext q then s else s\<lparr>processQueueFirst := False\<rparr>) = Inr s'
        \<and> attribute_step cfg sizes q s s'"
    proof (rule send_or_queue_step [OF big sent])
      assume "messageSize s = emptyReportSize cfg" "capacity cfg < qSize q"
      then show "\<not> needSendNext q \<and> length (attributeReportsToSend s) < 20"
        using q(2) over False few by (auto simp: sendable_def)
    qed (use ahead in auto)
    then show ?thesis using False big all by (auto simp: process_attribute_def available_def Let_def split: if_splits)
  qed
qed

end

subsection \<open>The invariant\<close>

definition attributes_of :: "report_value list \<Rightarrow> attribute_report list" where
  "attributes_of vs = concat (map (\<lambda>v. case v of AttributeValue r \<Rightarrow> [r] | EventValue e \<Rightarrow> []) vs)"

definition events_of :: "report_value list \<Rightarrow> tlv_element list list" where
  "events_of vs = concat (map (\<lambda>v. case v of AttributeValue r \<Rightarrow> [] | EventValue e \<Rightarrow> [e]) vs)"

lemma values_simps [simp]:
  "attributes_of [] = []" "attributes_of (AttributeValue r # vs) = r # attributes_of vs" "attributes_of (EventValue e # vs) = attributes_of vs"
  "events_of [] = []" "events_of (AttributeValue r # vs) = events_of vs" "events_of (EventValue e # vs) = e # events_of vs"
  by (simp_all add: attributes_of_def events_of_def)

lemma values_of_both [simp]:
  "attributes_of (map AttributeValue rs @ map EventValue es) = rs" "events_of (map AttributeValue rs @ map EventValue es) = es"
proof -
  have "attributes_of (map EventValue es) = []" "events_of (map EventValue es) = es" by (induction es) simp_all
  then show "attributes_of (map AttributeValue rs @ map EventValue es) = rs" "events_of (map AttributeValue rs @ map EventValue es) = es"
    by (induction rs) simp_all
qed

text \<open>Everything that waits has its size and can be sent.\<close>

definition sizes_ok :: "report_config \<Rightarrow> report_sizes \<Rightarrow> report_state \<Rightarrow> bool" where
  "sizes_ok cfg sizes s \<longleftrightarrow>
     (\<forall>q\<in>set (attributeReportsToSend s). report_size sizes (qReport q) = Inr (qSize q) \<and> sendable cfg sizes (qReport q))
     \<and> (\<forall>x\<in>set (eventReportsToSend s). event_size sizes (fst x) = Inr (snd x) \<and> snd x \<le> capacity cfg)
     \<and> (\<forall>r\<in>set (attributes_of (pending s)). sendable cfg sizes r) \<and> (\<forall>e\<in>set (events_of (pending s)). sendable_event cfg sizes e)"

text \<open>Attributes come before events; when the queue is not to be processed first, one of its entries does not fit.\<close>

definition order_ok :: "report_config \<Rightarrow> report_state \<Rightarrow> bool" where
  "order_ok cfg s \<longleftrightarrow>
     pending s = map AttributeValue (attributes_of (pending s)) @ map EventValue (events_of (pending s))
     \<and> (eventReportsToSend s \<noteq> [] \<or> eventReports s \<noteq> [] \<longrightarrow> attributes_of (pending s) = [])
     \<and> (eventReports s \<noteq> [] \<longrightarrow> attributeReportsToSend s = [])
     \<and> (allDataReceived s \<longrightarrow> pending s = [] \<and> (\<forall>q\<in>set (attributeReportsToSend s). needSendNext q))
     \<and> (\<not> processQueueFirst s \<longrightarrow> (\<exists>q\<in>set (attributeReportsToSend s). available cfg s < qSize q))"

text \<open>Entries to be sent next stand before the others, which are of one cluster and as they were read.\<close>

definition flags_ok :: "attribute_report list \<Rightarrow> report_state \<Rightarrow> bool" where
  "flags_ok rs s \<longleftrightarrow>
     (\<exists>fs us. attributeReportsToSend s = fs @ us \<and> (\<forall>q\<in>set fs. needSendNext q) \<and> (\<forall>q\<in>set us. \<not> needSendNext q)
        \<and> (length us \<le> 1 \<or> (\<forall>q\<in>set us. \<forall>q'\<in>set us. same_cluster (qReport q) (qReport q')))
        \<and> mset (map qReport us) + mset (attributes_of (pending s)) \<subseteq># mset rs)"

definition sent_attributes :: "report_message list \<Rightarrow> attribute_report list" where
  "sent_attributes ms = concat (map mAttributes ms)"

definition sent_events :: "report_message list \<Rightarrow> tlv_element list list" where
  "sent_events ms = concat (map mEvents ms)"

lemma sent_append [simp]:
  "sent_attributes (ms @ [m]) = sent_attributes ms @ mAttributes m" "sent_events (ms @ [m]) = sent_events ms @ mEvents m"
  by (simp_all add: sent_attributes_def sent_events_def)

text \<open>Every report that was read is somewhere on its way, whole or in pieces.\<close>

definition waiting_as :: "attribute_report list \<Rightarrow> nat \<times> attribute_report \<Rightarrow> queued_report \<Rightarrow> bool" where
  "waiting_as rs x q \<longleftrightarrow> snd x = qReport q \<and> (snd x = rs ! fst x \<or> needSendNext q \<and> \<not> canAttributePayloadBeChunked (snd x))"

definition attributes_kept :: "attribute_report list \<Rightarrow> report_state \<Rightarrow> bool" where
  "attributes_kept rs s \<longleftrightarrow>
     (\<exists>A B C. map snd A = sent_attributes (sentMessages s) @ attributeReports s \<and> list_all2 (waiting_as rs) B (attributeReportsToSend s)
        \<and> map snd C = attributes_of (pending s) \<and> (\<forall>x\<in>set C. snd x = rs ! fst x) \<and> assigned rs (A @ B @ C))"

definition events_kept :: "tlv_element list list \<Rightarrow> report_state \<Rightarrow> bool" where
  "events_kept es s \<longleftrightarrow> sent_events (sentMessages s) @ eventReports s @ map fst (eventReportsToSend s) @ events_of (pending s) = es"

definition messages_ok :: "report_config \<Rightarrow> report_sizes \<Rightarrow> report_state \<Rightarrow> bool" where
  "messages_ok cfg sizes s \<longleftrightarrow>
     message_fits cfg sizes s \<and> (\<forall>m\<in>set (sentMessages s). message_length cfg sizes m \<le> maxPayloadSize cfg \<and> moreChunkedMessages m)"

definition report_inv :: "report_config \<Rightarrow> report_sizes \<Rightarrow> attribute_report list \<Rightarrow> tlv_element list list \<Rightarrow> report_state \<Rightarrow> bool" where
  "report_inv cfg sizes rs es s \<longleftrightarrow>
     sizes_ok cfg sizes s \<and> order_ok cfg s \<and> flags_ok rs s \<and> attributes_kept rs s \<and> events_kept es s \<and> messages_ok cfg sizes s"

subsection \<open>Steps keep the invariant\<close>

lemma queued_items:
  "map_res (queue_chunk sizes) cs = Inr items
    \<Longrightarrow> map qReport items = cs \<and> (\<forall>q\<in>set items. report_size sizes (qReport q) = Inr (qSize q) \<and> needSendNext q)"
  by (induction cs arbitrary: items) (auto simp: queue_chunk_def and_then_Inr_iff)

lemma step_unchanged:
  assumes "attribute_step cfg sizes q s s'"
  shows "pending s' = pending s" "allDataReceived s' = allDataReceived s" "eventReportsToSend s' = eventReportsToSend s"
  using assms by (cases; simp add: add_report_def after_sending_def)+

context report_size_laws begin

lemma item_sendable:
  assumes r: "report_size sizes r = Inr n" "sendable cfg sizes r" "arData r = Some d" "apSchema d = ArraySchema S mn mx" "apPayload d = JArray xs"
    "listIndex (apPath d) = WholeArray" and x: "x \<in> set xs"
  shows "sendable cfg sizes (item_report r d S x)"
proof -
  have "list_report r d xs = r" using r(2, 3, 5, 6) by (intro list_report_whole) (simp_all add: sendable_def)
  then obtain k where k: "report_size sizes (item_report r d S x) = Inr k" "k \<le> n"
    using item_known [OF r(4) _ x, of r n] r(1) by auto
  have "k \<le> capacity cfg"
  proof (cases "n \<le> capacity cfg")
    case False
    then have "chunks_fit cfg sizes r" using r(1, 2) by (simp add: sendable_def oversize_def size_of_def)
    then show ?thesis using r(3-5) x k(1) by (auto simp: chunks_fit_def size_of_def split: list.splits)
  qed (use k in simp)
  then show ?thesis using k(1) by (simp add: sendable_def oversize_def size_of_def) (simp add: item_report_def)
qed

lemma sizes_step:
  assumes "sizes_ok cfg sizes s" "attributeReportsToSend s = q # qs" "attribute_step cfg sizes q (s\<lparr>attributeReportsToSend := qs\<rparr>) s'"
  shows "sizes_ok cfg sizes s'"
proof -
  have q: "report_size sizes (qReport q) = Inr (qSize q)" "sendable cfg sizes (qReport q)"
    using assms(1, 2) by (simp_all add: sizes_ok_def)
  from assms(3) show ?thesis
  proof cases
    case (cut d S mn mx xs k n items)
    have "\<forall>p\<in>set items. report_size sizes (qReport p) = Inr (qSize p) \<and> sendable cfg sizes (qReport p)"
    proof
      fix p assume p: "p \<in> set items"
      then have "qReport p \<in> set (map (item_report (qReport q) d S) (drop k xs))"
        using queued_items [OF cut(11)] by (metis image_eqI list.set_map)
      then obtain x where "x \<in> set xs" "qReport p = item_report (qReport q) d S x" using set_drop_subset by fastforce
      then have "sendable cfg sizes (qReport p)" using item_sendable [OF q cut(2-5)] by simp
      then show "report_size sizes (qReport p) = Inr (qSize p) \<and> sendable cfg sizes (qReport p)"
        using queued_items [OF cut(11)] p by blast
    qed
    then show ?thesis using assms(1, 2) cut(1) by (auto simp: sizes_ok_def)
  qed (use assms(1, 2) in \<open>auto simp: sizes_ok_def add_report_def after_sending_def\<close>)
qed

lemma order_step:
  assumes "order_ok cfg s" "attributeReportsToSend s = q # qs" "attribute_step cfg sizes q (s\<lparr>attributeReportsToSend := qs\<rparr>) s'"
    "report_size sizes (qReport q) = Inr (qSize q)"
  shows "order_ok cfg s'"
proof -
  have next_all: "allDataReceived s \<Longrightarrow> needSendNext q" and none: "eventReports s = []" using assms(1, 2) by (auto simp: order_ok_def)
  from assms(3) show ?thesis
  proof cases
    case fits
    have q: "0 \<le> qSize q" using size_nonneg assms(4) by blast
    have "\<exists>p\<in>set qs. available cfg s' < qSize p" if first: "\<not> processQueueFirst s"
    proof -
      obtain p where "p \<in> set (q # qs)" "available cfg s < qSize p" using assms(1, 2) first by (auto simp: order_ok_def)
      then show ?thesis using fits q by (auto simp: available_def add_report_def intro!: bexI [of _ p])
    qed
    then show ?thesis using assms(1, 2) fits(1) none by (simp add: order_ok_def add_report_def)
  next
    case (cut d S mn mx xs k n items)
    have items: "items \<noteq> []" using queued_items [OF cut(11)] cut(7) by auto
    then have "\<exists>p\<in>set items. available cfg s - n < qSize p" using cut(12) by (intro bexI [of _ "hd items"]) (simp_all add: available_def)
    then show ?thesis
      using assms(1, 2) cut(1) queued_items [OF cut(11)] none items by (auto simp: order_ok_def available_def algebra_simps)
  qed (use assms(1, 2) none next_all in \<open>auto simp: order_ok_def add_report_def after_sending_def available_def\<close>)
qed

lemma flags_step:
  assumes "flags_ok rs s" "attributeReportsToSend s = q # qs" "attribute_step cfg sizes q (s\<lparr>attributeReportsToSend := qs\<rparr>) s'"
  shows "flags_ok rs s'"
proof -
  obtain fs us where u: "q # qs = fs @ us" "\<forall>p\<in>set fs. needSendNext p" "\<forall>p\<in>set us. \<not> needSendNext p"
    "length us \<le> 1 \<or> (\<forall>p\<in>set us. \<forall>p'\<in>set us. same_cluster (qReport p) (qReport p'))"
    "mset (map qReport us) + mset (attributes_of (pending s)) \<subseteq># mset rs"
    using assms(1, 2) by (auto simp: flags_ok_def)
  have flagged: "\<exists>fs'. qs = fs' @ us \<and> set fs' \<subseteq> set fs" if "needSendNext q"
    using u(1, 3) that by (cases fs) auto
  have dropped: "\<exists>fs' us'. qs = fs' @ us' \<and> (\<forall>p\<in>set fs'. needSendNext p) \<and> set us' \<subseteq> set us \<and> length us' \<le> length us \<and> mset (map qReport us') \<subseteq># mset (map qReport us)"
  proof (cases fs)
    case Nil
    then show ?thesis using u(1) by (intro exI [of _ "[]"] exI [of _ qs]) auto
  next
    case (Cons f fs')
    then show ?thesis using u(1, 2) by (intro exI [of _ fs'] exI [of _ us]) auto
  qed
  have unflagged: "fs = [] \<and> us = q # qs" if "\<not> needSendNext q"
    using u(1, 2) that by (cases fs) auto
  show ?thesis using assms(3)
  proof cases
    case (cut d S mn mx xs k n items)
    obtain fs' where "qs = fs' @ us" "set fs' \<subseteq> set fs" using flagged cut(8) by blast
    then show ?thesis
      unfolding flags_ok_def using u(2-5) queued_items [OF cut(11)] cut(1)
      by (intro exI [of _ "items @ fs'"] exI [of _ us]) auto
  next
    case rotated
    show ?thesis
      unfolding flags_ok_def using u(3-5) unflagged [OF rotated(3)] rotated(1)
      by (intro exI [of _ "[]"] exI [of _ "qs @ [q]"]) (auto simp: add_mset_commute)
  next
    case postponed
    then show ?thesis using u unfolding flags_ok_def by (intro exI [of _ fs] exI [of _ us]) (simp add: after_sending_def)
  next
    case fits
    obtain fs' us' where s: "qs = fs' @ us'" "\<forall>p\<in>set fs'. needSendNext p" "set us' \<subseteq> set us" "length us' \<le> length us" "mset (map qReport us') \<subseteq># mset (map qReport us)"
      using dropped by blast
    then show ?thesis
      unfolding flags_ok_def using u(3-5) fits(1) subset_mset.order_trans [OF subset_mset.add_right_mono [OF s(5)] u(5)]
      by (intro exI [of _ fs'] exI [of _ us']) (auto simp: add_report_def subset_iff)
  next
    case next_message
    obtain fs' us' where s: "qs = fs' @ us'" "\<forall>p\<in>set fs'. needSendNext p" "set us' \<subseteq> set us" "length us' \<le> length us" "mset (map qReport us') \<subseteq># mset (map qReport us)"
      using dropped by blast
    then show ?thesis
      unfolding flags_ok_def using u(3-5) next_message(1) subset_mset.order_trans [OF subset_mset.add_right_mono [OF s(5)] u(5)]
      by (intro exI [of _ fs'] exI [of _ us']) (auto simp: add_report_def after_sending_def subset_iff)
  qed
qed

lemma events_step:
  assumes "events_kept es s" "attributeReportsToSend s = q # qs" "attribute_step cfg sizes q (s\<lparr>attributeReportsToSend := qs\<rparr>) s'"
  shows "events_kept es s'"
  using assms(3, 1, 2) by cases (simp_all add: events_kept_def add_report_def after_sending_def)

lemma messages_step:
  assumes "messages_ok cfg sizes s" "attributeReportsToSend s = q # qs" "attribute_step cfg sizes q (s\<lparr>attributeReportsToSend := qs\<rparr>) s'"
    "report_size sizes (qReport q) = Inr (qSize q)" "eventReports s = []" "0 \<le> capacity cfg"
  shows "messages_ok cfg sizes s'"
proof -
  have sent: "message_fits cfg sizes (s\<lparr>attributeReportsToSend := qs\<rparr>)" using assms(1) by (simp add: messages_ok_def message_fits_def)
  note length = send_message(2) [OF sent, of True]
  from assms(3) show ?thesis
  proof cases
    case next_message
    then show ?thesis using assms(1, 4-6) length
      by (auto simp: messages_ok_def message_fits_def add_report_def after_sending_def size_of_def capacity_def)
  next
    case postponed
    then show ?thesis using assms(1, 4-6) length
      by (auto simp: messages_ok_def message_fits_def after_sending_def capacity_def)
  qed (use assms(1, 4, 5) in \<open>auto simp: messages_ok_def message_fits_def add_report_def size_of_def available_def\<close>)
qed

lemma kept_step:
  assumes "attributes_kept rs s" "attributeReportsToSend s = q # qs" "attribute_step cfg sizes q (s\<lparr>attributeReportsToSend := qs\<rparr>) s'"
  shows "attributes_kept rs s'"
proof -
  obtain A x B C where k: "map snd A = sent_attributes (sentMessages s) @ attributeReports s" "list_all2 (waiting_as rs) B qs" "waiting_as rs x q"
    "map snd C = attributes_of (pending s)" "\<forall>x\<in>set C. snd x = rs ! fst x" "assigned rs (A @ x # B @ C)"
    using assms(1, 2) by (auto simp: attributes_kept_def list_all2_Cons2)
  have x: "snd x = qReport q" using k(3) by (simp add: waiting_as_def)
  from assms(3) show ?thesis
  proof cases
    case fits
    then show ?thesis using k x unfolding attributes_kept_def
      by (intro exI [of _ "A @ [x]"] exI [of _ B] exI [of _ C]) (simp add: add_report_def)
  next
    case next_message
    then show ?thesis using k x unfolding attributes_kept_def
      by (intro exI [of _ "A @ [x]"] exI [of _ B] exI [of _ C]) (simp add: add_report_def after_sending_def)
  next
    case postponed
    then show ?thesis using k x unfolding attributes_kept_def
      by (intro exI [of _ A] exI [of _ "x # B"] exI [of _ C]) (simp add: after_sending_def)
  next
    case rotated
    have "assigned rs ((A @ B) @ x # C)"
      using k(3) rotated(3) by (intro assigned_move [OF k(6)]) (auto simp: waiting_as_def)
    then show ?thesis using k rotated(1) unfolding attributes_kept_def
      by (intro exI [of _ A] exI [of _ "B @ [x]"] exI [of _ C]) (simp add: list_all2_appendI)
  next
    case (cut d S mn mx xs l n items)
    define i where "i = fst x"
    have "canAttributePayloadBeChunked (qReport q)"
      using cut(2-7) by (auto simp: canAttributePayloadBeChunked_def)
    then have r: "qReport q = rs ! i" "x = (i, rs ! i)" using k(3) by (auto simp: waiting_as_def i_def prod_eq_iff)
    define P where "P = map (item_report (qReport q) d S) (drop l xs)"
    have items: "map qReport items = P" "\<forall>p\<in>set items. needSendNext p" using queued_items [OF cut(11)] by (simp_all add: P_def)
    have "pieces (rs ! i) (list_report (qReport q) d (take l xs) # P)"
      unfolding pieces_def P_def using cut(2-7) r(1) by auto
    then have "assigned rs (A @ map (Pair i) (list_report (qReport q) d (take l xs) # P) @ B @ C)"
      using k(6) unfolding r(2) by (intro assigned_replace) (simp_all add: comp_def map_replicate_const)
    moreover have "list_all2 (waiting_as rs) (map (Pair i) P) items"
    proof -
      have "\<not> canAttributePayloadBeChunked p" if "p \<in> set P" for p
        using that by (auto simp: P_def)
      then show ?thesis using items unfolding items(1) [symmetric]
        by (auto simp: list_all2_conv_all_nth waiting_as_def)
    qed
    ultimately show ?thesis using k(1, 2, 4, 5) cut(1) unfolding attributes_kept_def
      by (intro exI [of _ "A @ [(i, list_report (qReport q) d (take l xs))]"] exI [of _ "map (Pair i) P @ B"] exI [of _ C]) (simp add: list_all2_appendI)
  qed
qed

end

text \<open>Work left, and what shows that a round gets on with it.\<close>

definition report_weight :: "attribute_report \<Rightarrow> nat" where
  "report_weight r =
     (if canAttributePayloadBeChunked r then case apPayload (the (arData r)) of JArray xs \<Rightarrow> Suc (length xs) | _ \<Rightarrow> 1 else 1)"

definition work_left :: "report_state \<Rightarrow> nat" where
  "work_left s =
     (\<Sum>q\<leftarrow>attributeReportsToSend s. report_weight (qReport q)) + (\<Sum>r\<leftarrow>attributes_of (pending s). report_weight r)
     + length (eventReportsToSend s) + length (events_of (pending s))"

definition unread :: "report_state \<Rightarrow> nat" where
  "unread s = length (pending s) + (if allDataReceived s then 0 else 1)"

definition idle_rank :: "report_config \<Rightarrow> report_state \<Rightarrow> nat" where
  "idle_rank cfg s = (if read_wanted s = Inr True then 0 else if messageSize s = emptyReportSize cfg then 1 else 2)"

lemma weight_pos: "0 < report_weight r"
  by (auto simp: report_weight_def split: js_value.splits)

lemma weight_items: "(\<Sum>r\<leftarrow>map (item_report r d S) xs. report_weight r) = length xs"
  by (induction xs) (simp_all add: report_weight_def)

lemma step_work:
  assumes "attributeReportsToSend s = q # qs" "attribute_step cfg sizes q (s\<lparr>attributeReportsToSend := qs\<rparr>) s'"
  shows "work_left s' < work_left s
    \<or> work_left s' = work_left s
       \<and> (messageSize s \<noteq> emptyReportSize cfg \<and> messageSize s' = emptyReportSize cfg
          \<or> \<not> needSendNext q \<and> \<not> processQueueFirst s' \<and> length (attributeReportsToSend s') \<le> 20 \<and> attributeReportsToSend s' = qs @ [q])"
  using assms(2)
proof cases
  case fits
  then show ?thesis using assms(1) weight_pos by (simp add: work_left_def add_report_def)
next
  case next_message
  then show ?thesis using assms(1) weight_pos by (simp add: work_left_def add_report_def after_sending_def)
next
  case (cut d S mn mx xs k n items)
  have "report_weight (qReport q) = Suc (length xs)"
    using cut(2-7) by (auto simp: report_weight_def canAttributePayloadBeChunked_def)
  moreover have "(\<Sum>p\<leftarrow>items. report_weight (qReport p)) < Suc (length xs)"
  proof -
    have "(\<Sum>p\<leftarrow>items. report_weight (qReport p)) = (\<Sum>r\<leftarrow>map qReport items. report_weight r)" by (simp add: comp_def)
    also have "\<dots> = (\<Sum>r\<leftarrow>map (item_report (qReport q) d S) (drop k xs). report_weight r)" using queued_items [OF cut(11)] by simp
    also have "\<dots> < Suc (length xs)" unfolding weight_items by simp
    finally show ?thesis .
  qed
  ultimately have "work_left s' < work_left s" using assms(1) cut(1) by (simp add: work_left_def)
  then show ?thesis by blast
qed (use assms(1) in \<open>simp_all add: work_left_def after_sending_def\<close>)

lemma waiting_unflagged:
  assumes "flags_ok rs s" "attributeReportsToSend s = q # qs" "\<not> needSendNext q"
  shows "\<forall>p\<in>set qs. \<not> needSendNext p" "oversize cfg sizes (qReport q) \<Longrightarrow>
    \<forall>r\<in>set rs. oversize cfg sizes r \<longrightarrow> length (filter (same_cluster r) rs) \<le> 20 \<Longrightarrow> length qs < 20"
proof -
  obtain fs us where u: "q # qs = fs @ us" "\<forall>p\<in>set fs. needSendNext p" "\<forall>p\<in>set us. \<not> needSendNext p"
    "length us \<le> 1 \<or> (\<forall>p\<in>set us. \<forall>p'\<in>set us. same_cluster (qReport p) (qReport p'))"
    "mset (map qReport us) + mset (attributes_of (pending s)) \<subseteq># mset rs"
    using assms(1, 2) by (auto simp: flags_ok_def)
  have us: "us = q # qs" using u(1, 2) assms(3) by (cases fs) auto
  then show "\<forall>p\<in>set qs. \<not> needSendNext p" using u(3) by simp
  assume over: "oversize cfg sizes (qReport q)" and few: "\<forall>r\<in>set rs. oversize cfg sizes r \<longrightarrow> length (filter (same_cluster r) rs) \<le> 20"
  have sub: "mset (map qReport us) \<subseteq># mset rs" by (rule subset_mset.order_trans [OF mset_subset_eq_add_left u(5)])
  show "length qs < 20"
  proof (cases "length us \<le> 1")
    case False
    then have "filter_mset (same_cluster (qReport q)) (mset (map qReport us)) = mset (map qReport us)"
      using u(4) us by (intro filter_mset_eq_conv [THEN iffD2]) auto
    then have "mset (map qReport us) \<subseteq># mset (filter (same_cluster (qReport q)) rs)"
      using multiset_filter_mono [OF sub, of "same_cluster (qReport q)"] by simp
    then have "size (mset (map qReport us)) \<le> size (mset (filter (same_cluster (qReport q)) rs))" by (rule size_mset_mono)
    then have "length us \<le> length (filter (same_cluster (qReport q)) rs)" by (simp only: size_mset length_map)
    moreover have "qReport q \<in># mset rs" by (rule mset_subset_eqD [OF sub]) (simp add: us)
    then have "length (filter (same_cluster (qReport q)) rs) \<le> 20" using few over by simp
    ultimately show ?thesis using us by simp
  qed (use us in simp)
qed

lemmas inv_defs = report_inv_def sizes_ok_def order_ok_def flags_ok_def attributes_kept_def events_kept_def messages_ok_def

context report_size_laws begin

lemma process_event_inv:
  assumes "report_inv cfg sizes rs es s" "attributeReportsToSend s = []" "eventReportsToSend s = (e, n) # xs" "0 \<le> capacity cfg"
  shows "\<exists>s'. process_event cfg sizes e n (s\<lparr>eventReportsToSend := xs\<rparr>) = Inr s' \<and> report_inv cfg sizes rs es s'
    \<and> pending s' = pending s \<and> allDataReceived s' = allDataReceived s \<and> work_left s' < work_left s"
proof -
  have fits: "message_fits cfg sizes (s\<lparr>eventReportsToSend := xs\<rparr>)" "size_of (event_size sizes e) = n" "n \<le> capacity cfg"
    and first: "processQueueFirst s"
    using assms(1-3) by (auto simp: inv_defs message_fits_def size_of_def)
  note sent = send_and_reset [OF fits(1)] send_message(2) [OF fits(1), of True]
  show ?thesis
  proof (cases "messageSize s + 3 + (if attributeReports s \<noteq> [] then 3 else 0) + n > maxPayloadSize cfg")
    case True
    define s' where "s' = (after_sending cfg (s\<lparr>eventReportsToSend := xs\<rparr>))\<lparr>messageSize := emptyReportSize cfg + n, eventReports := [e]\<rparr>"
    have "process_event cfg sizes e n (s\<lparr>eventReportsToSend := xs\<rparr>) = Inr s'"
      using True sent(1) by (simp add: process_event_def s'_def) (simp add: after_sending_def)
    moreover have "report_inv cfg sizes rs es s'"
      using assms sent(2) fits(2, 3) by (auto simp: inv_defs s'_def after_sending_def message_fits_def capacity_def)
    ultimately show ?thesis using assms(2, 3) by (simp add: s'_def after_sending_def work_left_def)
  next
    case False
    define s' where "s' = s\<lparr>eventReportsToSend := xs, messageSize := messageSize s + n, eventReports := eventReports s @ [e]\<rparr>"
    have "process_event cfg sizes e n (s\<lparr>eventReportsToSend := xs\<rparr>) = Inr s'"
      using False by (simp add: process_event_def s'_def)
    moreover have "report_inv cfg sizes rs es s'"
      using assms(1-3) False fits(2) first by (auto simp: inv_defs s'_def message_fits_def)
    ultimately show ?thesis using assms(2, 3) by (simp add: s'_def work_left_def)
  qed
qed

text \<open>Processing the queues when there is something in them.\<close>

lemma process_progress:
  assumes inv: "report_inv cfg sizes rs es s" and some: "attributeReportsToSend s \<noteq> [] \<or> eventReportsToSend s \<noteq> []" and room: "40 \<le> capacity cfg"
    and few: "\<forall>r\<in>set rs. oversize cfg sizes r \<longrightarrow> length (filter (same_cluster r) rs) \<le> 20"
  shows "\<exists>s'. process_queues cfg sizes s = Inr (Continue s') \<and> report_inv cfg sizes rs es s' \<and> pending s' = pending s \<and> allDataReceived s' = allDataReceived s
    \<and> (work_left s' < work_left s
       \<or> work_left s' = work_left s \<and> (messageSize s \<noteq> emptyReportSize cfg \<and> messageSize s' = emptyReportSize cfg \<or> read_wanted s' = Inr True))"
proof (cases "attributeReportsToSend s")
  case Nil
  then obtain e n xs where "eventReportsToSend s = (e, n) # xs" using some by (cases "eventReportsToSend s") auto
  then show ?thesis using process_event_inv [OF inv Nil, of e n xs] room Nil by (auto simp: process_queues_def)
next
  case (Cons q qs)
  have parts: "sizes_ok cfg sizes s" "order_ok cfg s" "flags_ok rs s" "attributes_kept rs s" "events_kept es s" "messages_ok cfg sizes s"
    using inv by (simp_all add: report_inv_def)
  have q: "report_size sizes (qReport q) = Inr (qSize q)" "sendable cfg sizes (qReport q)" using parts(1) Cons by (simp_all add: sizes_ok_def)
  have all: "allDataReceived s \<Longrightarrow> needSendNext q" and no_events: "eventReports s = []" using parts(2) Cons by (auto simp: order_ok_def)
  note behind = waiting_unflagged [OF parts(3) Cons]
  have ahead: "needSendNext q" if "qs \<noteq> []" "needSendNext (hd qs)" using behind(1) that hd_in_set by blast
  have waiting: "length qs < 20" if "\<not> needSendNext q" "oversize cfg sizes (qReport q)" using behind(2) that few by blast
  have "\<exists>s'. process_attribute cfg sizes q (s\<lparr>attributeReportsToSend := qs\<rparr>) = Inr s' \<and> attribute_step cfg sizes q (s\<lparr>attributeReportsToSend := qs\<rparr>) s'"
  proof (rule process_attribute_step [OF q _ room])
    show "message_fits cfg sizes (s\<lparr>attributeReportsToSend := qs\<rparr>)" using parts(6) by (simp add: messages_ok_def message_fits_def)
  qed (use all ahead waiting in simp_all)
  then obtain s' where s': "process_attribute cfg sizes q (s\<lparr>attributeReportsToSend := qs\<rparr>) = Inr s'"
    "attribute_step cfg sizes q (s\<lparr>attributeReportsToSend := qs\<rparr>) s'" by blast
  have inv': "report_inv cfg sizes rs es s'"
    using sizes_step [OF parts(1) Cons s'(2)] order_step [OF parts(2) Cons s'(2) q(1)] flags_step [OF parts(3) Cons s'(2)]
      kept_step [OF parts(4) Cons s'(2)] events_step [OF parts(5) Cons s'(2)] messages_step [OF parts(6) Cons s'(2) q(1) no_events] room
    by (simp add: report_inv_def)
  have same: "pending s' = pending s" "allDataReceived s' = allDataReceived s" using step_unchanged [OF s'(2)] by simp_all
  have "read_wanted s' = Inr True"
    if "\<not> needSendNext q" "\<not> processQueueFirst s'" "length (attributeReportsToSend s') \<le> 20" "attributeReportsToSend s' = qs @ [q]"
    using that behind(1) all same(2) by (cases qs) (auto simp: read_wanted_def DATA_REPORT_MAX_QUEUED_ATTRIBUTE_MESSAGES_def)
  then show ?thesis
    using step_work [OF Cons s'(2)] inv' same s'(1) Cons by (auto simp: process_queues_def)
qed

end

subsection \<open>Reading keeps the invariant\<close>

lemma same_cluster_sym: "same_cluster a b \<Longrightarrow> same_cluster b a"
  by (auto simp: same_cluster_def split: option.splits)

lemma same_cluster_trans: "same_cluster a b \<Longrightarrow> same_cluster b c \<Longrightarrow> same_cluster a c"
  by (auto simp: same_cluster_def split: option.splits)

lemma send_next_simps [simp]: "qReport (send_next q) = qReport q" "qSize (send_next q) = qSize q" "needSendNext (send_next q)"
  by (simp_all add: send_next_def)

lemma read_wanted_known:
  assumes "order_ok cfg s"
  shows "read_wanted s = Inr True \<or> read_wanted s = Inr False"
    "read_wanted s = Inr True \<Longrightarrow> \<not> allDataReceived s"
    "read_wanted s = Inr True \<Longrightarrow> attributeReportsToSend s = q # qs \<Longrightarrow> \<not> needSendNext q"
    "read_wanted s = Inr False \<Longrightarrow> attributeReportsToSend s = [] \<Longrightarrow> eventReportsToSend s = [] \<Longrightarrow> allDataReceived s"
  using assms by (cases "attributeReportsToSend s"; auto simp: read_wanted_def order_ok_def split: if_splits)+

context report_size_laws begin

lemma enqueue_attribute:
  assumes inv: "report_inv cfg sizes rs es s" and wanted: "read_wanted s = Inr True" and next_value: "pending s = AttributeValue r # vs"
  shows "\<exists>s'. enqueue sizes (AttributeValue r) (s\<lparr>pending := vs\<rparr>) = Inr s' \<and> report_inv cfg sizes rs es s'
    \<and> pending s' = vs \<and> allDataReceived s' = allDataReceived s \<and> work_left s' = work_left s \<and> attributeReportsToSend s' \<noteq> []"
proof -
  have parts: "sizes_ok cfg sizes s" "order_ok cfg s" "flags_ok rs s" "attributes_kept rs s" "events_kept es s" "messages_ok cfg sizes s"
    using inv by (simp_all add: report_inv_def)
  obtain n where n: "report_size sizes r = Inr n" "sendable cfg sizes r"
    using parts(1) next_value by (auto simp: sizes_ok_def sendable_def split: sum.splits)
  define q where "q = \<lparr>qReport = r, qSize = n, needSendNext = False\<rparr>"
  define old where "old = attributeReportsToSend s"
  define queue where "queue = (case old of [] \<Rightarrow> [q] | p # ps \<Rightarrow> if same_cluster (qReport p) r then q # p # ps else map send_next (p # ps) @ [q])"
  define s' where "s' = s\<lparr>pending := vs, attributeReportsToSend := queue\<rparr>"
  have go: "enqueue sizes (AttributeValue r) (s\<lparr>pending := vs\<rparr>) = Inr s'"
    by (simp add: enqueue_def n(1) Let_def s'_def queue_def old_def q_def split: list.split)
  have none: "eventReportsToSend s = []" "eventReports s = []" and waiting: "\<not> allDataReceived s"
    and rest: "vs = map AttributeValue (attributes_of vs) @ map EventValue (events_of vs)"
    using parts(2) next_value read_wanted_known(2) [OF parts(2) wanted] by (auto simp: order_ok_def)
  have unflagged: "\<forall>p\<in>set old. \<not> needSendNext p"
  proof (cases old)
    case (Cons p ps)
    then have eq: "attributeReportsToSend s = p # ps" by (simp add: old_def)
    show ?thesis
      using read_wanted_known(3) [OF parts(2) wanted eq] waiting_unflagged(1) [OF parts(3) eq] Cons by simp
  qed simp
  have members: "\<forall>p\<in>set queue. qReport p = r \<and> qSize p = n \<or> (\<exists>p'\<in>set old. qReport p = qReport p' \<and> qSize p = qSize p')"
    unfolding queue_def q_def by (auto split: list.split)
  have sizes_q: "\<forall>p\<in>set queue. report_size sizes (qReport p) = Inr (qSize p) \<and> sendable cfg sizes (qReport p)"
  proof
    fix p assume "p \<in> set queue"
    then consider "qReport p = r" "qSize p = n" | p' where "p' \<in> set old" "qReport p = qReport p'" "qSize p = qSize p'" using members by blast
    then show "report_size sizes (qReport p) = Inr (qSize p) \<and> sendable cfg sizes (qReport p)"
      using n parts(1) by cases (simp_all add: sizes_ok_def old_def)
  qed
  have old_in: "\<exists>p'\<in>set queue. qSize p' = qSize p" if "p \<in> set old" for p
    using that unfolding queue_def by (cases old) auto
  have "sizes_ok cfg sizes s'"
    using parts(1) sizes_q next_value by (simp add: sizes_ok_def s'_def)
  moreover have "order_ok cfg s'"
  proof -
    have "\<exists>p\<in>set queue. available cfg s < qSize p" if first: "\<not> processQueueFirst s"
    proof -
      obtain p where "p \<in> set old" "available cfg s < qSize p" using parts(2) first by (auto simp: order_ok_def old_def)
      moreover from this(1) obtain p' where "p' \<in> set queue" "qSize p' = qSize p" using old_in by blast
      ultimately show ?thesis by (intro bexI [of _ p']) simp_all
    qed
    then show ?thesis using none waiting rest by (simp add: order_ok_def s'_def available_def)
  qed
  moreover have "flags_ok rs s'"
  proof -
    obtain fs us where "old = fs @ us" "\<forall>p\<in>set fs. needSendNext p" and u: "length us \<le> 1 \<or> (\<forall>p\<in>set us. \<forall>p'\<in>set us. same_cluster (qReport p) (qReport p'))"
      "mset (map qReport us) + mset (attributes_of (pending s)) \<subseteq># mset rs"
      using parts(3) unfolding flags_ok_def old_def by blast
    then have "us = old" using unflagged by (cases fs) auto
    note us = this u [unfolded this]
    show ?thesis
    proof (cases old)
      case Nil
      then show ?thesis using us(3) next_value unfolding flags_ok_def s'_def queue_def
        by (intro exI [of _ "[]"] exI [of _ "[q]"]) (auto simp: q_def us(1) [symmetric])
    next
      case (Cons p ps)
      show ?thesis
      proof (cases "same_cluster (qReport p) r")
        case True
        have all: "\<forall>a\<in>set old. same_cluster (qReport a) r"
          using True us(1, 2) Cons by (auto intro: same_cluster_trans)
        then have "\<forall>a\<in>set (q # old). \<forall>b\<in>set (q # old). same_cluster (qReport a) (qReport b)"
          by (simp add: q_def) (metis Cons True same_cluster_sym same_cluster_trans)
        then show ?thesis using us(1, 3) next_value unflagged True Cons unfolding flags_ok_def s'_def queue_def
          by (intro exI [of _ "[]"] exI [of _ "q # old"]) (auto simp: q_def)
      next
        case False
        have "mset (r # attributes_of vs) \<subseteq># mset rs" using us(3) next_value by (simp add: mset_subset_eq_exists_conv) (metis add_mset_add_single union_assoc union_commute)
        then show ?thesis using False Cons unfolding flags_ok_def s'_def queue_def
          by (intro exI [of _ "map send_next old"] exI [of _ "[q]"]) (auto simp: q_def)
      qed
    qed
  qed
  moreover have "attributes_kept rs s'"
  proof -
    obtain A B x C where k: "map snd A = sent_attributes (sentMessages s) @ attributeReports s" "list_all2 (waiting_as rs) B old"
      "snd x = r" "map snd C = attributes_of vs" "\<forall>y\<in>set (x # C). snd y = rs ! fst y" "assigned rs (A @ B @ x # C)"
      using parts(4) next_value by (auto simp: attributes_kept_def old_def map_eq_Cons_conv)
    have x: "waiting_as rs x q" using k(3, 5) by (simp add: waiting_as_def q_def)
    have next_B: "list_all2 (waiting_as rs) B (map send_next old)"
      using k(2) by (auto simp: list_all2_conv_all_nth waiting_as_def)
    have front: "assigned rs (A @ x # B @ C)" using k(5, 6) assigned_move [of rs "A @ B" x C A "B @ C"] by simp
    show ?thesis
    proof (cases "old \<noteq> [] \<and> same_cluster (qReport (hd old)) r")
      case True
      then have "queue = q # old" by (cases old) (simp_all add: queue_def)
      then show ?thesis using k x front unfolding attributes_kept_def s'_def
        by (intro exI [of _ A] exI [of _ "x # B"] exI [of _ C]) simp
    next
      case False
      then have "queue = map send_next old @ [q]" by (cases old) (auto simp: queue_def)
      then show ?thesis using k x next_B unfolding attributes_kept_def s'_def
        by (intro exI [of _ A] exI [of _ "B @ [x]"] exI [of _ C]) (simp add: list_all2_appendI)
    qed
  qed
  moreover have "events_kept es s'" using parts(5) next_value none by (simp add: events_kept_def s'_def)
  moreover have "messages_ok cfg sizes s'" using parts(6) by (simp add: messages_ok_def message_fits_def s'_def)
  moreover have "work_left s' = work_left s"
    using next_value by (simp add: work_left_def s'_def queue_def old_def q_def comp_def split: list.splits)
  ultimately show ?thesis using go by (auto simp: report_inv_def s'_def queue_def split: list.splits)
qed

end

context report_size_laws begin

lemma enqueue_event:
  assumes inv: "report_inv cfg sizes rs es s" and wanted: "read_wanted s = Inr True" and next_value: "pending s = EventValue e # vs"
  shows "\<exists>s'. enqueue sizes (EventValue e) (s\<lparr>pending := vs\<rparr>) = Inr s' \<and> report_inv cfg sizes rs es s'
    \<and> pending s' = vs \<and> allDataReceived s' = allDataReceived s \<and> work_left s' = work_left s \<and> eventReportsToSend s' \<noteq> []"
proof -
  have order: "order_ok cfg s" using inv by (simp add: report_inv_def)
  have last_ones: "attributes_of vs = []" "vs = map EventValue (events_of vs)" "\<not> allDataReceived s"
    using order next_value read_wanted_known(2) [OF order wanted]
    by (auto simp: order_ok_def Cons_eq_append_conv Cons_eq_map_conv)
  obtain n where n: "event_size sizes e = Inr n" "n \<le> capacity cfg"
    using inv next_value by (auto simp: report_inv_def sizes_ok_def sendable_event_def split: sum.splits)
  define s' where "s' = s\<lparr>pending := vs, eventReportsToSend := eventReportsToSend s @ [(e, n)]\<rparr>"
  have "enqueue sizes (EventValue e) (s\<lparr>pending := vs\<rparr>) = Inr s'" by (simp add: enqueue_def n(1) s'_def)
  moreover have "report_inv cfg sizes rs es s'"
  proof -
    have "sizes_ok cfg sizes s'" using inv n next_value by (auto simp: report_inv_def sizes_ok_def s'_def)
    moreover have "order_ok cfg s'" using order last_ones next_value by (simp add: order_ok_def s'_def available_def)
    moreover have "flags_ok rs s'" "attributes_kept rs s'" "events_kept es s'" "messages_ok cfg sizes s'"
      using inv next_value by (simp_all add: report_inv_def flags_ok_def attributes_kept_def events_kept_def messages_ok_def message_fits_def s'_def)
    ultimately show ?thesis by (simp add: report_inv_def)
  qed
  moreover have "work_left s' = work_left s" using next_value by (simp add: work_left_def s'_def)
  ultimately show ?thesis by (auto simp: s'_def)
qed

lemma all_received:
  assumes inv: "report_inv cfg sizes rs es s" and "pending s = []"
  shows "report_inv cfg sizes rs es (s\<lparr>allDataReceived := True, attributeReportsToSend := map send_next (attributeReportsToSend s)\<rparr>)"
proof -
  let ?s = "s\<lparr>allDataReceived := True, attributeReportsToSend := map send_next (attributeReportsToSend s)\<rparr>"
  have "flags_ok rs ?s" unfolding flags_ok_def using assms(2) by (intro exI [of _ "map send_next (attributeReportsToSend s)"] exI [of _ "[]"]) simp
  moreover have "attributes_kept rs ?s"
  proof -
    have next_B: "list_all2 (waiting_as rs) B (map send_next old)" if "list_all2 (waiting_as rs) B old" for B old
      using that by (auto simp: list_all2_conv_all_nth waiting_as_def)
    then show ?thesis using inv by (auto simp: report_inv_def attributes_kept_def)
  qed
  ultimately show ?thesis
    using inv assms(2) by (auto simp: report_inv_def sizes_ok_def order_ok_def events_kept_def messages_ok_def message_fits_def available_def)
qed

text \<open>A round ends the loop or gets on with the work.\<close>

lemma round_progress:
  assumes inv: "report_inv cfg sizes rs es s" and room: "40 \<le> capacity cfg"
    and few: "\<forall>r\<in>set rs. oversize cfg sizes r \<longrightarrow> length (filter (same_cluster r) rs) \<le> 20"
  shows "(\<exists>s'. report_round cfg sizes s = Inr (Continue s') \<and> report_inv cfg sizes rs es s' \<and> (s', s) \<in> measures [work_left, unread, idle_rank cfg])
    \<or> (\<exists>s'. report_round cfg sizes s = Inr (Finished s') \<and> report_inv cfg sizes rs es s' \<and> pending s' = [] \<and> attributeReportsToSend s' = [] \<and> eventReportsToSend s' = [])"
proof -
  have order: "order_ok cfg s" using inv by (simp add: report_inv_def)
  note known = read_wanted_known [OF order]
  show ?thesis
  proof (cases "read_wanted s = Inr True")
    case True
    show ?thesis
    proof (cases "pending s")
      case Nil
      let ?s = "s\<lparr>allDataReceived := True, attributeReportsToSend := map send_next (attributeReportsToSend s)\<rparr>"
      have new: "report_inv cfg sizes rs es ?s" using all_received [OF inv Nil] .
      show ?thesis
      proof (cases "attributeReportsToSend s = [] \<and> eventReportsToSend s = []")
        case empty: True
        then have same: "?s = s\<lparr>allDataReceived := True\<rparr>" by (cases s) simp
        show ?thesis using True Nil empty new [unfolded same] by (intro disjI2 exI [of _ "s\<lparr>allDataReceived := True\<rparr>"]) (simp add: report_round_def)
      next
        case False
        have "report_round cfg sizes s = Inr (Continue ?s)" using True Nil False by (auto simp: report_round_def Let_def)
        moreover have "(?s, s) \<in> measures [work_left, unread, idle_rank cfg]"
          using known(2) [OF True] Nil by (simp add: work_left_def unread_def comp_def)
        ultimately show ?thesis using new by blast
      qed
    next
      case (Cons v vs)
      have "\<exists>t. enqueue sizes v (s\<lparr>pending := vs\<rparr>) = Inr t \<and> report_inv cfg sizes rs es t \<and> pending t = vs \<and> allDataReceived t = allDataReceived s
          \<and> work_left t = work_left s \<and> (attributeReportsToSend t \<noteq> [] \<or> eventReportsToSend t \<noteq> [])"
        using enqueue_attribute [OF inv True, of _ vs] enqueue_event [OF inv True, of _ vs] Cons by (cases v) auto
      then obtain t where t: "enqueue sizes v (s\<lparr>pending := vs\<rparr>) = Inr t" "report_inv cfg sizes rs es t" "pending t = vs"
        "allDataReceived t = allDataReceived s" "work_left t = work_left s" "attributeReportsToSend t \<noteq> [] \<or> eventReportsToSend t \<noteq> []" by blast
      obtain s' where s': "process_queues cfg sizes t = Inr (Continue s')" "report_inv cfg sizes rs es s'" "pending s' = pending t"
        "allDataReceived s' = allDataReceived t" "work_left s' \<le> work_left t"
        using process_progress [OF t(2, 6) room few] by force
      have "report_round cfg sizes s = Inr (Continue s')" using True Cons t(1) s'(1) by (simp add: report_round_def)
      moreover have "(s', s) \<in> measures [work_left, unread, idle_rank cfg]"
        using s'(3-5) t(3-5) Cons by (auto simp: unread_def)
      ultimately show ?thesis using s'(2) by blast
    qed
  next
    case False
    then have not: "read_wanted s = Inr False" using known(1) by blast
    then have round: "report_round cfg sizes s = process_queues cfg sizes s" by (simp add: report_round_def)
    show ?thesis
    proof (cases "attributeReportsToSend s = [] \<and> eventReportsToSend s = []")
      case True
      then have "allDataReceived s" using known(4) not by blast
      moreover from this have "pending s = []" using order by (simp add: order_ok_def)
      ultimately show ?thesis unfolding round using True inv by (auto simp: process_queues_def)
    next
      case some: False
      obtain s' where s': "process_queues cfg sizes s = Inr (Continue s')" "report_inv cfg sizes rs es s'" "pending s' = pending s"
        "allDataReceived s' = allDataReceived s"
        "work_left s' < work_left s
         \<or> work_left s' = work_left s \<and> (messageSize s \<noteq> emptyReportSize cfg \<and> messageSize s' = emptyReportSize cfg \<or> read_wanted s' = Inr True)"
        using process_progress [OF inv _ room few] some by blast
      then have "(s', s) \<in> measures [work_left, unread, idle_rank cfg]"
        using not by (auto simp: unread_def idle_rank_def)
      then show ?thesis unfolding round using s'(1, 2) by blast
    qed
  qed
qed

text \<open>The loop ends, every message fits, and everything is in the messages.\<close>

lemma loop_finishes:
  assumes "report_inv cfg sizes rs es s" "40 \<le> capacity cfg"
    "\<forall>r\<in>set rs. oversize cfg sizes r \<longrightarrow> length (filter (same_cluster r) rs) \<le> 20"
  shows "\<exists>n ms m. report_loop cfg sizes n s = Inr (Some (ms @ [m])) \<and> (\<forall>m\<in>set (ms @ [m]). message_length cfg sizes m \<le> maxPayloadSize cfg)
    \<and> (\<forall>m\<in>set ms. moreChunkedMessages m) \<and> \<not> moreChunkedMessages m
    \<and> delivers rs (sent_attributes (ms @ [m])) \<and> sent_events (ms @ [m]) = es"
  using assms(1)
proof (induction s rule: wf_induct [OF wf_measures [of "[work_left, unread, idle_rank cfg]"]])
  case (1 s)
  from round_progress [OF 1(2) assms(2, 3)] show ?case
  proof (elim disjE exE conjE)
    fix s' assume s': "report_round cfg sizes s = Inr (Continue s')" "report_inv cfg sizes rs es s'" "(s', s) \<in> measures [work_left, unread, idle_rank cfg]"
    then obtain n ms m where "report_loop cfg sizes n s' = Inr (Some (ms @ [m])) \<and> (\<forall>m\<in>set (ms @ [m]). message_length cfg sizes m \<le> maxPayloadSize cfg)
      \<and> (\<forall>m\<in>set ms. moreChunkedMessages m) \<and> \<not> moreChunkedMessages m
      \<and> delivers rs (sent_attributes (ms @ [m])) \<and> sent_events (ms @ [m]) = es" using 1(1) by blast
    then show ?case using s'(1) by (intro exI [of _ "Suc n"] exI [of _ ms] exI [of _ m]) simp
  next
    fix s' assume s': "report_round cfg sizes s = Inr (Finished s')" "report_inv cfg sizes rs es s'" "pending s' = []" "attributeReportsToSend s' = []"
      "eventReportsToSend s' = []"
    define m where "m = \<lparr>mAttributes = attributeReports s', mEvents = eventReports s', moreChunkedMessages = False\<rparr>"
    have fits: "message_fits cfg sizes s'" "\<forall>m\<in>set (sentMessages s'). message_length cfg sizes m \<le> maxPayloadSize cfg \<and> moreChunkedMessages m"
      using s'(2) by (simp_all add: report_inv_def messages_ok_def)
    have "report_loop cfg sizes (Suc 0) s = Inr (Some (sentMessages s' @ [m]))"
      using s'(1) send_message(1) [OF fits(1), of False] by (simp add: m_def)
    moreover have "delivers rs (sent_attributes (sentMessages s' @ [m]))"
      using s'(2-4) by (auto simp: report_inv_def attributes_kept_def delivers_def m_def)
    moreover have "sent_events (sentMessages s' @ [m]) = es"
      using s'(2, 3, 5) by (simp add: report_inv_def events_kept_def m_def)
    moreover have "message_length cfg sizes m \<le> maxPayloadSize cfg" using send_message(2) [OF fits(1), of False] by (simp add: m_def)
    ultimately show ?case using fits(2)
      by (intro exI [of _ "Suc 0"] exI [of _ "sentMessages s'"] exI [of _ m]) (simp add: m_def)
  qed
qed

end

subsection \<open>A report from its start\<close>

lemma part_of_enumerated:
  "part_of i (zip [j..<j + length rs] rs) = (if j \<le> i \<and> i < j + length rs then [rs ! (i - j)] else [])"
proof (induction rs arbitrary: j)
  case (Cons r rs)
  have "zip [j..<j + length (r # rs)] (r # rs) = (j, r) # zip [Suc j..<Suc j + length rs] rs"
    by (simp add: upt_conv_Cons del: upt_Suc)
  then show ?case using Cons.IH [of "Suc j"] by (auto simp: nth_Cons' Suc_diff_Suc)
qed simp

lemma assigned_start: "assigned rs (zip [0..<length rs] rs)"
proof -
  have "fst x < length rs" if "x \<in> set (zip [0..<length rs] rs)" for x
    using that by (auto simp: set_zip)
  then show ?thesis using part_of_enumerated [of _ 0 rs] by (simp add: assigned_def pieces_def)
qed

context report_size_laws begin

lemma start_inv:
  assumes "\<forall>r\<in>set rs. sendable cfg sizes r" "\<forall>e\<in>set es. sendable_event cfg sizes e" "0 \<le> capacity cfg"
  shows "report_inv cfg sizes rs es (start_report cfg (map AttributeValue rs @ map EventValue es))"
proof -
  let ?s = "start_report cfg (map AttributeValue rs @ map EventValue es)"
  have "attributes_kept rs ?s"
    unfolding attributes_kept_def using assigned_start [of rs]
    by (intro exI [of _ "[]"] exI [of _ "zip [0..<length rs] rs"]) (auto simp: start_report_def sent_attributes_def set_zip)
  moreover have "flags_ok rs ?s" by (simp add: flags_ok_def start_report_def)
  ultimately show ?thesis
    using assms by (simp add: report_inv_def sizes_ok_def order_ok_def events_kept_def messages_ok_def message_fits_def start_report_def capacity_def sent_events_def)
qed

lemma data_report_sent:
  assumes "\<forall>r\<in>set rs. sendable cfg sizes r" "\<forall>e\<in>set es. sendable_event cfg sizes e" "40 \<le> capacity cfg"
    "\<forall>r\<in>set rs. oversize cfg sizes r \<longrightarrow> length (filter (same_cluster r) rs) \<le> 20"
  shows "\<exists>n ms m. sendDataReport cfg sizes n (map AttributeValue rs @ map EventValue es) = Inr (Some (ms @ [m]))
    \<and> (\<forall>m\<in>set (ms @ [m]). message_length cfg sizes m \<le> maxPayloadSize cfg)
    \<and> (\<forall>m\<in>set ms. moreChunkedMessages m) \<and> \<not> moreChunkedMessages m
    \<and> delivers rs (sent_attributes (ms @ [m])) \<and> sent_events (ms @ [m]) = es"
  unfolding sendDataReport_def using start_inv [OF assms(1, 2)] assms(3, 4) by (intro loop_finishes) simp_all

end

subsection \<open>Reports that are never sent\<close>

text \<open>
  A message without reports is sent, and the state is the same as before: from then on the loop only sends
  empty messages.
\<close>

definition nothing_fits :: "report_config \<Rightarrow> report_state \<Rightarrow> bool" where
  "nothing_fits cfg s \<longleftrightarrow>
     attributeReports s = [] \<and> eventReports s = [] \<and> messageSize s = emptyReportSize cfg \<and> processQueueFirst s
     \<and> (case attributeReportsToSend s of
          [] \<Rightarrow> False
        | q # qs \<Rightarrow> capacity cfg < qSize q
            \<and> (if allDataReceived s \<or> needSendNext q then needSendNext q \<and> \<not> canAttributePayloadBeChunked (qReport q) else 20 \<le> length qs))"

lemma nothing_fits_forever:
  assumes "nothing_fits cfg s" "emptyReportSize cfg \<le> maxPayloadSize cfg"
  shows "report_loop cfg sizes n s = Inr None"
  using assms(1)
proof (induction n arbitrary: s)
  case (Suc n)
  obtain q qs where q: "attributeReportsToSend s = q # qs" "capacity cfg < qSize q"
    "if allDataReceived s \<or> needSendNext q then needSendNext q \<and> \<not> canAttributePayloadBeChunked (qReport q) else 20 \<le> length qs"
    using Suc.prems unfolding nothing_fits_def by (auto split: list.splits)
  let ?s' = "(after_sending cfg s)\<lparr>attributeReportsToSend := q # qs\<rparr>"
  have sent: "sendAndResetReport cfg sizes (s\<lparr>attributeReportsToSend := qs\<rparr>) = Inr ((after_sending cfg s)\<lparr>attributeReportsToSend := qs\<rparr>)"
    "sendAndResetReport cfg sizes (s\<lparr>attributeReportsToSend := qs, processQueueFirst := False\<rparr>) = Inr ((after_sending cfg s)\<lparr>attributeReportsToSend := qs\<rparr>)"
    using Suc.prems assms(2) by (simp_all add: nothing_fits_def sendAndResetReport_def sendDataReportMessage_def message_length_def after_sending_def)
  have same: "maxPayloadSize cfg - messageSize s - 3 = capacity cfg" "maxPayloadSize cfg - emptyReportSize cfg - 3 = capacity cfg" "processQueueFirst s"
    using Suc.prems by (simp_all add: nothing_fits_def capacity_def)
  have "process_attribute cfg sizes q (s\<lparr>attributeReportsToSend := qs\<rparr>) = Inr ?s'"
  proof (cases "needSendNext q")
    case True
    then show ?thesis using q sent(1) same by (simp add: process_attribute_def send_or_queue_def)
  next
    case False
    then have "\<not> allDataReceived s" "20 \<le> length qs" using q(3) by (auto split: if_splits)
    then show ?thesis using q(1, 2) sent(2) same False
      by (simp add: process_attribute_def send_or_queue_def DATA_REPORT_MAX_QUEUED_ATTRIBUTE_MESSAGES_def)
  qed
  then have "report_round cfg sizes s = Inr (Continue ?s')"
    using q(1) same by (simp add: report_round_def read_wanted_def process_queues_def)
  moreover have "nothing_fits cfg ?s'" using Suc.prems q by (simp add: nothing_fits_def after_sending_def)
  ultimately show ?case using Suc.IH by simp
qed simp

text \<open>The rounds of a loop, one by one.\<close>

lemma report_loop_round: "report_round cfg sizes s = Inr (Continue s') \<Longrightarrow> (\<And>n. report_loop cfg sizes n s' = Inr None) \<Longrightarrow> report_loop cfg sizes n s = Inr None"
  by (cases n) simp_all

lemma value_too_large_never_ends:
  assumes "report_size sizes r = Inr k" "capacity cfg < k" "\<not> canAttributePayloadBeChunked r" "40 \<le> capacity cfg"
  shows "sendDataReport cfg sizes n [AttributeValue r] = Inr None"
proof -
  define q where "q = \<lparr>qReport = r, qSize = k, needSendNext = False\<rparr>"
  define s where "s = start_report cfg []"
  have c: "maxPayloadSize cfg - messageSize s - 3 = capacity cfg" by (simp add: s_def start_report_def capacity_def)
  have "report_round cfg sizes (start_report cfg [AttributeValue r]) = Inr (Continue (s\<lparr>attributeReportsToSend := [q], processQueueFirst := False\<rparr>))"
    using assms c by (simp add: report_round_def read_wanted_def start_report_def enqueue_def Let_def process_queues_def process_attribute_def
        send_or_queue_def q_def s_def DATA_REPORT_MIN_AVAILABLE_BYTES_BEFORE_SENDING_def DATA_REPORT_MAX_QUEUED_ATTRIBUTE_MESSAGES_def)
  moreover have "report_round cfg sizes (s\<lparr>attributeReportsToSend := [q], processQueueFirst := False\<rparr>)
      = Inr (Continue (s\<lparr>attributeReportsToSend := [send_next q], processQueueFirst := False, allDataReceived := True\<rparr>))"
    by (simp add: report_round_def read_wanted_def s_def start_report_def q_def Let_def DATA_REPORT_MAX_QUEUED_ATTRIBUTE_MESSAGES_def)
  moreover have "report_round cfg sizes (s\<lparr>attributeReportsToSend := [send_next q], processQueueFirst := False, allDataReceived := True\<rparr>)
      = Inr (Continue (after_sending cfg (s\<lparr>attributeReportsToSend := [send_next q], allDataReceived := True\<rparr>)))"
    using assms c
    by (simp add: report_round_def read_wanted_def process_queues_def process_attribute_def send_or_queue_def q_def s_def start_report_def send_next_def
        sendAndResetReport_def sendDataReportMessage_def message_length_def capacity_def after_sending_def)
  moreover have "nothing_fits cfg (after_sending cfg (s\<lparr>attributeReportsToSend := [send_next q], allDataReceived := True\<rparr>))"
    using assms by (simp add: nothing_fits_def after_sending_def s_def start_report_def q_def)
  then have "report_loop cfg sizes n (after_sending cfg (s\<lparr>attributeReportsToSend := [send_next q], allDataReceived := True\<rparr>)) = Inr None" for n
    using nothing_fits_forever assms(4) by (simp add: capacity_def)
  ultimately show ?thesis unfolding sendDataReport_def by (metis report_loop_round)
qed

lemma more_than_twenty_lists_never_end:
  assumes over: "\<forall>r\<in>set rs. (\<exists>k. report_size sizes r = Inr k \<and> capacity cfg < k)" and one: "\<forall>r\<in>set rs. \<forall>r'\<in>set rs. same_cluster r r'"
    and many: "20 < length rs" and room: "40 \<le> capacity cfg"
  shows "sendDataReport cfg sizes n (map AttributeValue rs @ vs) = Inr None"
proof -
  define waits where "waits s \<longleftrightarrow>
      attributeReports s = [] \<and> eventReports s = [] \<and> eventReportsToSend s = [] \<and> messageSize s = emptyReportSize cfg \<and> \<not> allDataReceived s
      \<and> length (attributeReportsToSend s) \<le> 20 \<and> (attributeReportsToSend s = [] \<or> \<not> processQueueFirst s)
      \<and> (\<forall>q\<in>set (attributeReportsToSend s). \<not> needSendNext q \<and> qReport q \<in> set rs \<and> capacity cfg < qSize q)" for s :: report_state
  have "report_loop cfg sizes n s = Inr None"
    if "waits s" "pending s = map AttributeValue us @ vs" "set us \<subseteq> set rs" "20 < length (attributeReportsToSend s) + length us" for s us n
    using that
  proof (induction us arbitrary: s n)
    case Nil
    then show ?case by (simp add: waits_def)
  next
    case (Cons r us)
    let ?qs = "attributeReportsToSend s"
    obtain k where k: "report_size sizes r = Inr k" "capacity cfg < k" using over Cons.prems(3) by auto
    define q where "q = \<lparr>qReport = r, qSize = k, needSendNext = False\<rparr>"
    have cluster: "same_cluster (qReport p) r" if "p \<in> set ?qs" for p using that one Cons.prems(1, 3) by (auto simp: waits_def)
    have flags: "\<not> needSendNext p" if "p \<in> set ?qs" for p using that Cons.prems(1) by (auto simp: waits_def)
    have c: "maxPayloadSize cfg - messageSize s - 3 = capacity cfg" "messageSize s = emptyReportSize cfg" "maxPayloadSize cfg - emptyReportSize cfg - 3 = capacity cfg"
      using Cons.prems(1) by (simp_all add: waits_def capacity_def)
    have wanted: "read_wanted s = Inr True"
      using Cons.prems(1) flags by (cases ?qs) (auto simp: waits_def read_wanted_def DATA_REPORT_MAX_QUEUED_ATTRIBUTE_MESSAGES_def)
    let ?t = "s\<lparr>pending := map AttributeValue us @ vs, attributeReportsToSend := ?qs\<rparr>"
    have "enqueue sizes (AttributeValue r) (s\<lparr>pending := map AttributeValue us @ vs\<rparr>)
        = Inr (s\<lparr>pending := map AttributeValue us @ vs, attributeReportsToSend := q # ?qs\<rparr>)"
      using cluster by (cases ?qs) (simp_all add: enqueue_def k(1) Let_def q_def)
    then have round: "report_round cfg sizes s = and_then (process_attribute cfg sizes q ?t) (\<lambda>s. Inr (Continue s))"
      using wanted Cons.prems(2) by (simp add: report_round_def process_queues_def)
    have queueing: "process_attribute cfg sizes q ?t = send_or_queue cfg sizes (capacity cfg) False q (?t\<lparr>processQueueFirst := False\<rparr>)"
      using k(2) c Cons.prems(1) by (simp add: process_attribute_def q_def waits_def)
    show ?case
    proof (cases "length ?qs = 20")
      case True
      let ?u = "(after_sending cfg ?t)\<lparr>attributeReportsToSend := q # ?qs\<rparr>"
      have "sendAndResetReport cfg sizes (?t\<lparr>processQueueFirst := False\<rparr>) = Inr (after_sending cfg ?t)"
        using Cons.prems(1) room by (simp add: waits_def sendAndResetReport_def sendDataReportMessage_def message_length_def after_sending_def capacity_def)
      then have "report_round cfg sizes s = Inr (Continue ?u)"
        unfolding round queueing using True k(2) c(3)
        by (simp add: send_or_queue_def DATA_REPORT_MAX_QUEUED_ATTRIBUTE_MESSAGES_def q_def after_sending_def)
      moreover have "nothing_fits cfg ?u"
        using Cons.prems(1) True k(2) by (simp add: nothing_fits_def after_sending_def q_def waits_def)
      then have "report_loop cfg sizes n ?u = Inr None" for n using nothing_fits_forever room by (simp add: capacity_def)
      ultimately show ?thesis by (rule report_loop_round)
    next
      case False
      let ?u = "?t\<lparr>processQueueFirst := False, attributeReportsToSend := ?qs @ [q]\<rparr>"
      have few: "length ?qs < 20" using Cons.prems(1) False by (simp add: waits_def)
      have hd: "?qs = [] \<or> \<not> needSendNext (hd ?qs)" using flags by (cases ?qs) auto
      have "report_round cfg sizes s = Inr (Continue ?u)"
        unfolding round queueing using few hd room
        by (auto simp: send_or_queue_def DATA_REPORT_MAX_QUEUED_ATTRIBUTE_MESSAGES_def DATA_REPORT_MIN_AVAILABLE_BYTES_BEFORE_SENDING_def)
      moreover have "waits ?u" using Cons.prems(1, 3) few k(2) by (auto simp: waits_def q_def)
      then have "report_loop cfg sizes n ?u = Inr None" for n using Cons.IH [of ?u n] Cons.prems(3, 4) by simp
      ultimately show ?thesis by (rule report_loop_round)
    qed
  qed
  from this [of "start_report cfg (map AttributeValue rs @ vs)" rs n] show ?thesis
    using many by (simp add: sendDataReport_def waits_def start_report_def)
qed

end
