(* ===== verification/ReportSizes.thy ===== *)
theory ReportSizes
  imports DataReports
begin

text \<open>
  The sizes of encoded reports: the schemas write to a stream by appending, so the length of a list is that of
  its items and its frame.  This is what \<open>report_size_laws\<close> asks for; its interpretation by \<open>tlv_sizes\<close> gives
  the theorems on sending, and with \<open>AttributeReports\<close> that a peer reads what was sent.
\<close>

subsection \<open>Writing to a stream appends\<close>

definition appends :: "(tlv_writer \<Rightarrow> tlv_writer res) \<Rightarrow> bool" where
  "appends f \<longleftrightarrow> (\<exists>e. \<forall>es. f (ArrayWriter es) = Inl e) \<or> (\<exists>xs. \<forall>es. f (ArrayWriter es) = Inr (ArrayWriter (es @ xs)))"

lemma appends_Inl [intro, simp]: "appends (\<lambda>w. Inl e)"
  by (auto simp: appends_def)

lemma appends_Inr [intro, simp]: "appends Inr" "appends (\<lambda>w. Inr w)"
  by (auto simp: appends_def intro!: exI [of _ "[]"])

lemma appends_cases:
  assumes "appends f"
  obtains (error) e where "\<And>es. f (ArrayWriter es) = Inl e" | (elements) xs where "\<And>es. f (ArrayWriter es) = Inr (ArrayWriter (es @ xs))"
  using assms unfolding appends_def by blast

lemma appends_elements: "(\<And>es. f (ArrayWriter es) = Inr (ArrayWriter (es @ xs))) \<Longrightarrow> appends f"
  unfolding appends_def by blast

lemma appends_error: "(\<And>es. f (ArrayWriter es) = Inl e) \<Longrightarrow> appends f"
  unfolding appends_def by blast

lemma appends_then [intro]:
  assumes "appends f" "appends g"
  shows "appends (\<lambda>w. and_then (f w) g)"
  using assms(1)
proof (cases rule: appends_cases)
  case (error e)
  then show ?thesis by (intro appends_error [of _ e]) simp
next
  case (elements xs)
  show ?thesis using assms(2)
  proof (cases rule: appends_cases)
    case (error e)
    then show ?thesis using elements by (intro appends_error [of _ e]) simp
  next
    case (elements ys)
    then show ?thesis using \<open>\<And>es. f (ArrayWriter es) = Inr (ArrayWriter (es @ xs))\<close> by (intro appends_elements [of _ "xs @ ys"]) simp
  qed
qed

lemma appends_after [intro]: "(\<And>x. m = Inr x \<Longrightarrow> appends (f x)) \<Longrightarrow> appends (\<lambda>w. and_then m (\<lambda>x. f x w))"
  by (cases m) auto

lemma appends_fold [intro]: "(\<And>x. x \<in> set xs \<Longrightarrow> appends (f x)) \<Longrightarrow> appends (fold_res f xs)"
proof (induction xs)
  case Nil
  then show ?case by (intro appends_elements [of _ "[]"]) simp
next
  case (Cons x xs)
  then have "appends (\<lambda>w. and_then (f x w) (fold_res f xs))" by (intro appends_then) auto
  then show ?case by (simp add: appends_def)
qed

lemma appends_if [intro]: "(b \<Longrightarrow> appends f) \<Longrightarrow> (\<not> b \<Longrightarrow> appends g) \<Longrightarrow> appends (\<lambda>w. if b then f w else g w)"
  by (cases b) simp_all

lemma appends_writeTag [intro, simp]: "appends (writeTag ty tag)"
  by (auto simp: appends_def writeTag_def)

lemma appends_value [intro, simp]: "appends (\<lambda>w. and_then (writeTag ty tag w) (writePrimitive ty v))"
  by (auto simp: appends_def writeTag_def writePrimitive_def)

lemma appends_entry:
  assumes "\<And>optional repeated i enc x. map_of entries name = Some (optional, repeated, i, enc) \<Longrightarrow> appends (enc x)"
  shows "appends (encode_entry entries opts v name)"
proof (cases "map_of entries name")
  case None
  then show ?thesis by (intro appends_error [of _ TypeError]) (simp add: encode_entry_def)
next
  case (Some e)
  obtain optional repeated i enc where e: "e = (optional, repeated, i, enc)" by (cases e) auto
  then have enc: "appends (enc x)" for x using assms Some by blast
  show ?thesis
  proof (cases "forWriteInteraction opts \<and> allowMissingFields opts")
    case True
    then show ?thesis using Some e by (intro appends_error [of _ InternalError]) (simp add: encode_entry_def)
  next
    case False
    let ?f = "\<lambda>w. and_then (get_property name v) (\<lambda>fieldValue.
            if fieldValue = Undef then
              (if \<not> optional \<and> \<not> allowMissingFields opts then
                 (if forWriteInteraction opts \<and> i = FabricIndex_id then Inr w
                  else Inl ValidationMandatoryFieldMissingError)
               else Inr w)
            else if repeated then
              (case fieldValue of
                 JArray xs \<Rightarrow> fold_res enc xs w
               | _ \<Rightarrow> Inl ValidationDatatypeMismatchError)
            else enc fieldValue w)"
    have "encode_entry entries opts v name = ?f"
      unfolding encode_entry_def [abs_def] Some e by (simp only: option.case prod.case if_not_P [OF False])
    moreover have "appends ?f"
    proof (rule appends_after)
      fix x
      show "appends (\<lambda>w. if x = Undef then
              (if \<not> optional \<and> \<not> allowMissingFields opts then
                 (if forWriteInteraction opts \<and> i = FabricIndex_id then Inr w
                  else Inl ValidationMandatoryFieldMissingError)
               else Inr w)
            else if repeated then
              (case x of
                 JArray xs \<Rightarrow> fold_res enc xs w
               | _ \<Rightarrow> Inl ValidationDatatypeMismatchError)
            else enc x w)"
        by (intro appends_if; cases x) (simp_all add: enc appends_fold appends_if)
    qed
    ultimately show ?thesis by simp
  qed
qed

text \<open>The elements \<open>AnySchema\<close> writes for a stream.\<close>

fun any_elements :: "tlv_tag option \<Rightarrow> tlv_element list \<Rightarrow> tlv_element list" where
  "any_elements tag [] = []"
| "any_elements tag (e # es) =
     (case elType e of
        OtherType _ \<Rightarrow> []
      | ty \<Rightarrow> [\<lparr>elTag = if tag \<noteq> None then tag else elTag e, elType = ty, elValue = if carries_value ty then elValue e else PUndefined\<rparr>])
     @ any_elements None es"

lemma any_encode_stream: "any_encode es tag (ArrayWriter ws) = Inr (ArrayWriter (ws @ any_elements tag es))"
proof (induction es arbitrary: tag ws)
  case (Cons e es)
  then show ?case by (cases "elType e") (simp_all add: Let_def writeTag_def writePrimitive_def carries_value_def)
qed simp

lemma appends_any: "appends (any_encode es tag)"
  by (rule appends_elements) (rule any_encode_stream)

lemma encode_appends: "appends (encodeTlvInternal S v tag opts)"
proof (induction S arbitrary: v tag rule: tlv_schema_induct)
  case (Numeric num t p mn mx)
  then show ?case by (cases v) (simp_all add: Let_def)
next
  case (String utf mn mx)
  show ?case
  proof (cases v)
    case (Prim x)
    then show ?thesis by (cases x) (simp_all add: Let_def)
  qed simp_all
next
  case Boolean
  show ?case
  proof (cases v)
    case (Prim x)
    then show ?thesis by (cases x) simp_all
  qed simp_all
next
  case NoArguments
  then show ?case by (simp add: appends_then appends_if)
next
  case Any
  show ?case
  proof (cases v)
    case (JArray xs)
    then show ?thesis by (cases xs) simp_all
  qed (simp_all add: appends_any)
next
  case (Nullable S)
  then show ?case by (simp add: appends_if)
next
  case (Array S mn mx)
  then show ?case by simp (intro appends_then appends_after appends_fold; simp)
next
  case (Object fds st allow)
  let ?entries = "map (\<lambda>f. (fieldName f, isOptional f, isRepeated f, fieldId f,
              (\<lambda>x. encodeTlvInternal (fieldSchema f) x (context_tag (fieldId f)) opts))) fds"
  have entry: "appends (encode_entry ?entries opts v name)" for name
  proof (rule appends_entry)
    fix optional repeated i enc x
    assume "map_of ?entries name = Some (optional, repeated, i, enc)"
    then have "(name, optional, repeated, i, enc) \<in> set ?entries" by (rule map_of_SomeD)
    then show "appends (enc x)" using Object.IH by auto
  qed
  have "appends (encode_structure ?entries opts v)"
    unfolding encode_structure_def [abs_def] using entry by (intro appends_fold)
  moreover have "appends (encode_list ?entries opts v)"
    unfolding encode_list_def [abs_def] using entry by (intro appends_after appends_then appends_fold)
  ultimately have "appends (\<lambda>w. if st then encode_structure ?entries opts v w else encode_list ?entries opts v w)" by (intro appends_if)
  then have "appends (\<lambda>w. and_then (if st then encode_structure ?entries opts v w else encode_list ?entries opts v w) (writeTag EndOfContainer None))"
    by (intro appends_then) simp_all
  then show ?case unfolding encodeTlvInternal.simps Let_def by (rule appends_then [OF appends_writeTag])
next
  case (Wrapper S wrap unwrap)
  then show ?case by simp (intro appends_after; simp)
qed simp_all

subsection \<open>Streams of the reports\<close>

definition stop :: tlv_element where
  "stop = element_of None EndOfContainer PUndefined"

lemma encode_item:
  "encodeTlvInternal S v None opts (ArrayWriter es) = and_then (encodeTlv S v opts) (\<lambda>xs. Inr (ArrayWriter (es @ xs)))"
  using encode_appends [of S v None opts] by (cases rule: appends_cases) (simp_all add: encodeTlv_def)

lemma encode_items:
  "fold_res (\<lambda>x. encodeTlvInternal S x None opts) xs (ArrayWriter es)
    = and_then (map_res (\<lambda>x. encodeTlv S x opts) xs) (\<lambda>ess. Inr (ArrayWriter (es @ concat ess)))"
proof (induction xs arbitrary: es)
  case (Cons x xs)
  then show ?case by (cases "encodeTlv S x opts"; cases "map_res (\<lambda>x. encodeTlv S x opts) xs") (simp_all add: encode_item)
qed simp

lemma encode_array:
  "encodeTlv (ArraySchema S mn mx) (JArray xs) opts
    = and_then (map_res (\<lambda>x. encodeTlv S x opts) xs) (\<lambda>ess. Inr (element_of None Array PUndefined # concat ess @ [stop]))"
proof -
  have "encodeTlvInternal (ArraySchema S mn mx) (JArray xs) None opts (ArrayWriter [])
      = and_then (map_res (\<lambda>x. encodeTlv S x opts) xs) (\<lambda>ess. Inr (ArrayWriter (element_of None Array PUndefined # concat ess @ [stop])))"
    by (cases "map_res (\<lambda>x. encodeTlv S x opts) xs") (simp_all add: writeTag_def array_items_def encode_items element_of_def stop_def)
  then show ?thesis by (cases "map_res (\<lambda>x. encodeTlv S x opts) xs") (simp_all add: encodeTlv_def)
qed

definition number_elements :: "int \<Rightarrow> int option \<Rightarrow> tlv_element list" where
  "number_elements i n = (case n of None \<Rightarrow> [] | Some x \<Rightarrow> [element_of (context_tag i) (UnsignedInt (getUIntTlvLength (PNumber x))) (PNumber x)])"

definition path_elements :: "attribute_path \<Rightarrow> tlv_element list" where
  "path_elements p =
     element_of (context_tag 1) List PUndefined
     # (case enableTagCompression p of None \<Rightarrow> [] | Some b \<Rightarrow> [element_of (context_tag 0) (Boolean b) PUndefined])
     @ (case nodeId p of None \<Rightarrow> [] | Some x \<Rightarrow> [element_of (context_tag 1) (UnsignedInt (getUIntTlvLength (PBigInt x))) (PBigInt x)])
     @ number_elements 2 (endpointId p) @ number_elements 3 (clusterId p) @ number_elements 4 (attributeId p)
     @ (case listIndex p of WholeArray \<Rightarrow> [] | AppendItem \<Rightarrow> [element_of (context_tag 5) NullType PUndefined] | ItemAt i \<Rightarrow> number_elements 5 (Some (int i)))
     @ number_elements 6 (wildcardPathFlags p) @ [stop]"

lemma encode_number [simp]:
  "encodeTlvInternal (NumericSchema b UnsignedNumber UIntLength mn mx) (Prim v) tag opts (ArrayWriter es)
    = Inr (ArrayWriter (es @ [element_of tag (UnsignedInt (getUIntTlvLength v)) v]))"
  by (simp add: Let_def numeric_type_length_def provided_length_def writeTag_def writePrimitive_def element_of_def)

lemma entry_absent:
  "\<lbrakk>map_of entries name = Some (True, False, i, enc); get_property name v = Inr Undef\<rbrakk> \<Longrightarrow> encode_entry entries no_options v name w = Inr w"
  by (simp add: encode_entry_def no_options_def)

lemma entry_present:
  "\<lbrakk>map_of entries name = Some (optional, False, i, enc); get_property name v = Inr x; x \<noteq> Undef\<rbrakk> \<Longrightarrow> encode_entry entries no_options v name w = enc x w"
  by (simp add: encode_entry_def no_options_def)

lemma entry_number:
  assumes "map_of entries name = Some (True, False, i, \<lambda>x. encodeTlvInternal (NumericSchema b UnsignedNumber UIntLength mn mx) x (context_tag i) no_options)"
    "get_property name v = Inr (number_or_undefined n)"
  shows "encode_entry entries no_options v name (ArrayWriter es) = Inr (ArrayWriter (es @ number_elements i n))"
proof (cases n)
  case None
  then show ?thesis using entry_absent [OF assms(1), of v] assms(2) by (simp add: number_or_undefined_def number_elements_def)
next
  case (Some k)
  then show ?thesis using entry_present [OF assms] by (simp add: number_or_undefined_def number_elements_def del: encodeTlvInternal.simps)
qed

lemma encode_path: "encodeTlvInternal TlvAttributePath (path_object p) (context_tag 1) no_options (ArrayWriter es) = Inr (ArrayWriter (es @ path_elements p))"
proof -
  let ?enc = "\<lambda>S i x. encodeTlvInternal S x (context_tag i) no_options"
  define entries where "entries =
    [(''enableTagCompression'', True, False, 0 :: int, ?enc BooleanSchema 0), (''nodeId'', True, False, 1, ?enc TlvUInt64 1),
     (''endpointId'', True, False, 2, ?enc TlvUInt16 2), (''clusterId'', True, False, 3, ?enc TlvUInt32 3), (''attributeId'', True, False, 4, ?enc TlvUInt32 4),
     (''listIndex'', True, False, 5, ?enc (NullableSchema TlvUInt16) 5), (''wildcardPathFlags'', True, False, 6, ?enc TlvUInt32 6)]"
  let ?run = "encode_entry entries no_options (path_object p)"
  have numbers: "?run ''endpointId'' (ArrayWriter es) = Inr (ArrayWriter (es @ number_elements 2 (endpointId p)))"
    "?run ''clusterId'' (ArrayWriter es) = Inr (ArrayWriter (es @ number_elements 3 (clusterId p)))"
    "?run ''attributeId'' (ArrayWriter es) = Inr (ArrayWriter (es @ number_elements 4 (attributeId p)))"
    "?run ''wildcardPathFlags'' (ArrayWriter es) = Inr (ArrayWriter (es @ number_elements 6 (wildcardPathFlags p)))" for es
    by (rule entry_number; simp add: entries_def TlvUInt16_def TlvUInt32_def path_object_def get_property_def del: encodeTlvInternal.simps)+
  have found: "map_of entries ''enableTagCompression'' = Some (True, False, 0, ?enc BooleanSchema 0)"
    "map_of entries ''nodeId'' = Some (True, False, 1, ?enc TlvUInt64 1)"
    "map_of entries ''listIndex'' = Some (True, False, 5, ?enc (NullableSchema TlvUInt16) 5)"
    by (simp_all add: entries_def del: encodeTlvInternal.simps)
  have given: "get_property ''enableTagCompression'' (path_object p) = Inr (case enableTagCompression p of None \<Rightarrow> Undef | Some b \<Rightarrow> Prim (PBool b))"
    "get_property ''nodeId'' (path_object p) = Inr (case nodeId p of None \<Rightarrow> Undef | Some i \<Rightarrow> Prim (PBigInt i))"
    "get_property ''listIndex'' (path_object p)
      = Inr (case listIndex p of WholeArray \<Rightarrow> Undef | AppendItem \<Rightarrow> Null | ItemAt i \<Rightarrow> Prim (PNumber (int i)))"
    by (simp_all add: path_object_def get_property_def)
  have flag: "?run ''enableTagCompression'' (ArrayWriter es)
      = Inr (ArrayWriter (es @ (case enableTagCompression p of None \<Rightarrow> [] | Some b \<Rightarrow> [element_of (context_tag 0) (Boolean b) PUndefined])))" for es
  proof (cases "enableTagCompression p")
    case None
    then show ?thesis using entry_absent [OF found(1)] given(1) by simp
  next
    case (Some b)
    then show ?thesis using entry_present [OF found(1) given(1)] by (simp add: writeTag_def element_of_def)
  qed
  have node: "?run ''nodeId'' (ArrayWriter es)
      = Inr (ArrayWriter (es @ (case nodeId p of None \<Rightarrow> [] | Some x \<Rightarrow> [element_of (context_tag 1) (UnsignedInt (getUIntTlvLength (PBigInt x))) (PBigInt x)])))" for es
  proof (cases "nodeId p")
    case None
    then show ?thesis using entry_absent [OF found(2)] given(2) by simp
  next
    case (Some x)
    then show ?thesis using entry_present [OF found(2) given(2)] by (simp add: TlvUInt64_def del: encodeTlvInternal.simps)
  qed
  have item: "?run ''listIndex'' (ArrayWriter es)
      = Inr (ArrayWriter (es @ (case listIndex p of WholeArray \<Rightarrow> [] | AppendItem \<Rightarrow> [element_of (context_tag 5) NullType PUndefined] | ItemAt i \<Rightarrow> number_elements 5 (Some (int i)))))" for es
  proof (cases "listIndex p")
    case WholeArray
    then show ?thesis using entry_absent [OF found(3)] given(3) by simp
  next
    case AppendItem
    then show ?thesis using entry_present [OF found(3) given(3)] by (simp add: writeTag_def element_of_def)
  next
    case (ItemAt k)
    have "encodeTlvInternal (NullableSchema TlvUInt16) (Prim (PNumber (int k))) (context_tag 5) no_options (ArrayWriter es)
        = encodeTlvInternal TlvUInt16 (Prim (PNumber (int k))) (context_tag 5) no_options (ArrayWriter es)" by simp
    then show ?thesis using ItemAt entry_present [OF found(3) given(3)]
      by (simp add: TlvUInt16_def number_elements_def del: encodeTlvInternal.simps)
  qed
  have keys: "object_keys (path_object p) = Inr (map fst entries)"
    by (simp add: object_keys_def path_object_def entries_def obj_keys_def is_array_index_def is_digit_def)
  have all: "fold_res ?run (map fst entries) (ArrayWriter (es @ [element_of (context_tag 1) List PUndefined]))
      = Inr (ArrayWriter (es @ butlast (path_elements p)))"
    by (simp add: entries_def [THEN arg_cong [where f = "map fst"]] numbers flag node item path_elements_def butlast_append)
  have listed: "encode_list entries no_options (path_object p) (ArrayWriter (es @ [element_of (context_tag 1) List PUndefined]))
      = Inr (ArrayWriter (es @ butlast (path_elements p)))"
    by (simp add: encode_list_def keys all)
  have "encodeTlvInternal TlvAttributePath (path_object p) (context_tag 1) no_options (ArrayWriter es)
      = and_then (encode_list entries no_options (path_object p) (ArrayWriter (es @ [element_of (context_tag 1) List PUndefined]))) (writeTag EndOfContainer None)"
    by (simp add: TlvAttributePath_def writeTag_def element_of_def entries_def TlvOptionalField_def)
  also have "\<dots> = Inr (ArrayWriter (es @ path_elements p))"
    unfolding listed by (simp add: writeTag_def stop_def element_of_def path_elements_def butlast_append)
  finally show ?thesis .
qed

definition report_elements :: "attribute_path \<Rightarrow> int option \<Rightarrow> tlv_element list \<Rightarrow> tlv_element list" where
  "report_elements p v es =
     [element_of None Structure PUndefined, element_of (context_tag 1) Structure PUndefined]
     @ number_elements 0 v @ path_elements p @ any_elements (context_tag 2) es @ [stop, stop]"

lemma objects_given [simp]: "path_object p \<noteq> Undef" "data_object p v es \<noteq> Undef"
  by (simp_all add: path_object_def data_object_def)

lemma encode_report_data:
  "encodeTlvInternal TlvAttributeReportData (data_object p v es) (context_tag 1) no_options (ArrayWriter ws)
    = Inr (ArrayWriter (ws @ element_of (context_tag 1) Structure PUndefined # number_elements 0 v @ path_elements p @ any_elements (context_tag 2) es @ [stop]))"
proof -
  let ?enc = "\<lambda>S i x. encodeTlvInternal S x (context_tag i) no_options"
  define entries where "entries =
    [(''dataVersion'', True, False, 0 :: int, ?enc TlvUInt32 0), (''path'', False, False, 1, ?enc TlvAttributePath 1), (''data'', False, False, 2, ?enc AnySchema 2)]"
  let ?run = "encode_entry entries no_options (data_object p v es)"
  have version: "?run ''dataVersion'' (ArrayWriter ws) = Inr (ArrayWriter (ws @ number_elements 0 v))" for ws
    by (rule entry_number; simp add: entries_def TlvUInt32_def data_object_def get_property_def del: encodeTlvInternal.simps)
  have found: "map_of entries ''path'' = Some (False, False, 1, ?enc TlvAttributePath 1)" "map_of entries ''data'' = Some (False, False, 2, ?enc AnySchema 2)"
    by (simp_all add: entries_def del: encodeTlvInternal.simps)
  have given: "get_property ''path'' (data_object p v es) = Inr (path_object p)" "get_property ''data'' (data_object p v es) = Inr (JStream es)"
    by (simp_all add: data_object_def get_property_def)
  have path: "?run ''path'' (ArrayWriter ws) = Inr (ArrayWriter (ws @ path_elements p))" for ws
    using entry_present [OF found(1) given(1)] encode_path by simp
  have data: "?run ''data'' (ArrayWriter ws) = Inr (ArrayWriter (ws @ any_elements (context_tag 2) es))" for ws
    using entry_present [OF found(2) given(2)] by (simp add: any_encode_stream)
  have "encode_structure entries no_options (data_object p v es) (ArrayWriter (ws @ [element_of (context_tag 1) Structure PUndefined]))
      = Inr (ArrayWriter ((ws @ [element_of (context_tag 1) Structure PUndefined]) @ number_elements 0 v @ path_elements p @ any_elements (context_tag 2) es))"
    by (simp add: encode_structure_def entries_def [THEN arg_cong [where f = "map fst"]] version path data)
  then show ?thesis
    by (simp add: TlvAttributeReportData_def writeTag_def entries_def TlvOptionalField_def TlvField_def stop_def element_of_def)
qed

lemma encode_report: "encodeTlv TlvAttributeReport (JObject [(''attributeData'', data_object p v es)]) no_options = Inr (report_elements p v es)"
proof -
  let ?v = "JObject [(''attributeData'', data_object p v es)]"
  let ?enc = "\<lambda>S i x. encodeTlvInternal S x (context_tag i) no_options"
  define entries where "entries = [(''attributeStatus'', True, False, 0 :: int, ?enc TlvAttributeStatus 0), (''attributeData'', True, False, 1, ?enc TlvAttributeReportData 1)]"
  have found: "map_of entries ''attributeStatus'' = Some (True, False, 0, ?enc TlvAttributeStatus 0)"
    "map_of entries ''attributeData'' = Some (True, False, 1, ?enc TlvAttributeReportData 1)"
    by (simp_all add: entries_def del: encodeTlvInternal.simps)
  have given: "get_property ''attributeStatus'' ?v = Inr Undef" "get_property ''attributeData'' ?v = Inr (data_object p v es)"
    by (simp_all add: get_property_def)
  have "encode_structure entries no_options ?v (ArrayWriter [element_of None Structure PUndefined])
      = Inr (ArrayWriter (element_of None Structure PUndefined # element_of (context_tag 1) Structure PUndefined # number_elements 0 v
          @ path_elements p @ any_elements (context_tag 2) es @ [stop]))"
    using entry_absent [OF found(1) given(1)] entry_present [OF found(2) given(2)]
    by (simp add: encode_structure_def entries_def [THEN arg_cong [where f = "map fst"]] encode_report_data)
  then have "encodeTlvInternal TlvAttributeReport ?v None no_options (ArrayWriter []) = Inr (ArrayWriter (report_elements p v es))"
    by (simp add: TlvAttributeReport_def writeTag_def entries_def TlvOptionalField_def stop_def element_of_def report_elements_def)
  then show ?thesis by (simp add: encodeTlv_def del: encodeTlvInternal.simps)
qed

lemma encode_payload:
  "arData r = Some d \<Longrightarrow> encodeAttributePayload r opts = and_then (encodeTlv (apSchema d) (apPayload d) opts) (\<lambda>es. Inr (report_elements (apPath d) (apVersion d) es))"
  by (simp add: encodeAttributePayload_def encode_report)

subsection \<open>Lengths of streams\<close>

definition element_length :: "tlv_element \<Rightarrow> int res" where
  "element_length e =
     (case elType e of
        OtherType _ \<Rightarrow> Inr 0
      | ty \<Rightarrow> and_then (getTagByteLength (elTag e)) (\<lambda>n.
          if carries_value ty then and_then (getPrimitiveByteLength ty (elValue e)) (\<lambda>m. Inr (n + m)) else Inr n))"

lemma byte_length_fold: "getEncodedByteLength es = fold_res (\<lambda>e b. and_then (element_length e) (\<lambda>n. Inr (b + n))) es 0"
proof -
  have "(\<lambda>e byteLength.
         case elType e of
           OtherType _ \<Rightarrow> Inr byteLength
         | ty \<Rightarrow>
             and_then (getTagByteLength (elTag e)) (\<lambda>n.
               if carries_value ty
               then and_then (getPrimitiveByteLength ty (elValue e)) (\<lambda>m. Inr (byteLength + n + m))
               else Inr (byteLength + n)))
      = (\<lambda>e b. and_then (element_length e) (\<lambda>n. Inr (b + n)))"
    by (intro ext) (auto simp: element_length_def and_then_assoc and_then_def algebra_simps split: tlv_type_length.split sum.split)
  then show ?thesis by (simp add: getEncodedByteLength_def)
qed

lemma byte_length_shift:
  "fold_res (\<lambda>e b. and_then (element_length e) (\<lambda>n. Inr (b + n))) es a = and_then (getEncodedByteLength es) (\<lambda>n. Inr (a + n))"
  unfolding byte_length_fold
proof (induction es arbitrary: a)
  case (Cons e es)
  show ?case
  proof (cases "element_length e")
    case (Inr n)
    then show ?thesis using Cons.IH [of "a + n"] Cons.IH [of n] by (simp add: and_then_assoc add.assoc)
  qed simp
qed simp

lemma byte_length_Nil [simp]: "getEncodedByteLength [] = Inr 0"
  by (simp add: getEncodedByteLength_def)

lemma byte_length_Cons:
  "getEncodedByteLength (e # es) = and_then (element_length e) (\<lambda>n. and_then (getEncodedByteLength es) (\<lambda>m. Inr (n + m)))"
proof -
  have "getEncodedByteLength (e # es)
      = and_then (and_then (element_length e) (\<lambda>n. Inr (0 + n))) (fold_res (\<lambda>e b. and_then (element_length e) (\<lambda>n. Inr (b + n))) es)"
    by (simp only: byte_length_fold fold_res.simps)
  then show ?thesis by (cases "element_length e") (simp_all add: byte_length_shift)
qed

lemma byte_length_append:
  "getEncodedByteLength (xs @ ys) = and_then (getEncodedByteLength xs) (\<lambda>n. and_then (getEncodedByteLength ys) (\<lambda>m. Inr (n + m)))"
proof (induction xs)
  case Nil
  then show ?case by (cases "getEncodedByteLength ys") simp_all
next
  case (Cons e es)
  show ?case
  proof (cases "element_length e")
    case (Inr n)
    then show ?thesis using Cons.IH
      by (cases "getEncodedByteLength es"; cases "getEncodedByteLength ys") (simp_all add: byte_length_Cons add.assoc)
  qed (simp add: byte_length_Cons)
qed

lemma element_length_nonneg: "element_length e = Inr n \<Longrightarrow> 0 \<le> n"
  by (auto simp: element_length_def getTagByteLength_def getPrimitiveByteLength_def getUIntByteLength_def and_then_Inr_iff
      split: tlv_type_length.splits prod.splits option.splits if_splits tlv_prim.splits tlv_length.splits)

lemma byte_length_nonneg: "getEncodedByteLength es = Inr n \<Longrightarrow> 0 \<le> n"
proof (induction es arbitrary: n)
  case (Cons e es)
  then show ?case using element_length_nonneg by (fastforce simp: byte_length_Cons and_then_Inr_iff)
qed simp

lemma any_length: "getEncodedByteLength (any_elements None es) = getEncodedByteLength es"
proof (induction es)
  case (Cons e es)
  have "element_length e = Inr 0" if "elType e = OtherType n" for n using that by (simp add: element_length_def)
  then show ?case using Cons.IH by (cases "elType e") (simp_all add: byte_length_Cons element_length_def carries_value_def and_then_assoc)
qed simp

lemma any_length_tagged:
  assumes "getEncodedByteLength es = Inr m"
  shows "\<exists>k. getEncodedByteLength (any_elements (context_tag 2) es) = Inr k \<and> m \<le> k + 7 \<and> k \<le> m + 1"
proof (cases es)
  case (Cons e es')
  obtain n l where nl: "element_length e = Inr n" "getEncodedByteLength es' = Inr l" "m = n + l"
    using assms Cons by (auto simp: byte_length_Cons and_then_Inr_iff)
  show ?thesis
  proof (cases "\<exists>j. elType e = OtherType j")
    case True
    then have "n = 0" "any_elements (context_tag 2) es = any_elements None es'" using nl(1) Cons by (auto simp: element_length_def)
    then show ?thesis using nl by (simp add: any_length)
  next
    case False
    define first where "first = \<lparr>elTag = context_tag 2, elType = elType e, elValue = if carries_value (elType e) then elValue e else PUndefined\<rparr>"
    have any: "any_elements (context_tag 2) es = first # any_elements None es'"
      using False Cons by (cases "elType e") (simp_all add: first_def context_tag_def carries_value_def)
    have "\<exists>k. element_length first = Inr k \<and> n \<le> k + 7 \<and> k \<le> n + 1"
      using nl(1) False
      by (cases "elType e") (auto simp: element_length_def first_def carries_value_def getTagByteLength_def context_tag_def tag_fields_def
          and_then_Inr_iff split: option.splits if_splits)
    then show ?thesis using any nl by (auto simp: byte_length_Cons any_length)
  qed
qed (use assms in simp)

text \<open>The length of a report without its data.\<close>

definition frame_length :: "attribute_path \<Rightarrow> int option \<Rightarrow> int res" where
  "frame_length p v = getEncodedByteLength (report_elements p v [])"

lemma report_length:
  "getEncodedByteLength (report_elements p v es) = Inr n
    \<longleftrightarrow> (\<exists>f k. frame_length p v = Inr f \<and> getEncodedByteLength (any_elements (context_tag 2) es) = Inr k \<and> n = f + k)"
  by (auto simp: frame_length_def report_elements_def byte_length_append byte_length_Cons and_then_Inr_iff)

lemma element_lengths [simp]:
  "element_length (element_of None Structure v) = Inr 1" "element_length (element_of None Array v) = Inr 1"
  "element_length (element_of (context_tag i) Structure v) = Inr 2" "element_length (element_of (context_tag i) List v) = Inr 2"
  "element_length (element_of (context_tag i) NullType v) = Inr 2" "element_length (element_of (context_tag i) Array v) = Inr 2" "element_length stop = Inr 1"
  by (simp_all add: element_length_def element_of_def getTagByteLength_def tag_fields_def context_tag_def carries_value_def stop_def)

lemma frame_at_least: "frame_length p v = Inr f \<Longrightarrow> 7 \<le> f"
  using byte_length_nonneg
  by (fastforce simp: frame_length_def report_elements_def path_elements_def byte_length_append byte_length_Cons and_then_Inr_iff)

lemma frame_of_item:
  "frame_length (p\<lparr>listIndex := WholeArray\<rparr>) v = Inr f \<Longrightarrow> frame_length (p\<lparr>listIndex := AppendItem\<rparr>) v = Inr (f + 2)"
  by (auto simp: frame_length_def report_elements_def path_elements_def byte_length_append byte_length_Cons and_then_Inr_iff algebra_simps)

lemma array_length:
  "getEncodedByteLength (any_elements (context_tag 2) (element_of None Array PUndefined # es @ [stop]))
    = and_then (getEncodedByteLength es) (\<lambda>n. Inr (n + 3))"
proof -
  have first: "any_elements (context_tag 2) (element_of None Array PUndefined # ws) = element_of (context_tag 2) Array PUndefined # any_elements None ws" for ws
    by (simp add: element_of_def context_tag_def carries_value_def)
  show ?thesis unfolding first by (cases "getEncodedByteLength es") (simp_all add: byte_length_Cons any_length byte_length_append)
qed

subsection \<open>The laws hold for the sizes as they are computed\<close>

lemma report_size_data:
  assumes "arData r = Some d"
  shows "report_size (tlv_sizes b) r = Inr n
    \<longleftrightarrow> (\<exists>es f k. encodeTlv (apSchema d) (apPayload d) (options_for b r) = Inr es \<and> frame_length (apPath d) (apVersion d) = Inr f
          \<and> getEncodedByteLength (any_elements (context_tag 2) es) = Inr k \<and> n = f + k)"
  by (auto simp: tlv_sizes_def encode_payload [OF assms] and_then_Inr_iff report_length)

lemma list_report_size:
  assumes "apSchema d = ArraySchema S mn mx"
  shows "report_size (tlv_sizes b) (list_report r d xs) = Inr n
    \<longleftrightarrow> (\<exists>ess f k. map_res (\<lambda>x. encodeTlv S x (options_for b r)) xs = Inr ess \<and> frame_length ((apPath d)\<lparr>listIndex := WholeArray\<rparr>) (apVersion d) = Inr f
          \<and> getEncodedByteLength (concat ess) = Inr k \<and> n = f + k + 3)"
proof -
  have data: "arData (list_report r d xs) = Some \<lparr>apPath = (apPath d)\<lparr>listIndex := WholeArray\<rparr>, apSchema = ArraySchema S mn mx, apPayload = JArray xs, apVersion = apVersion d\<rparr>"
    by (simp add: list_report_def assms)
  have opts: "options_for b (list_report r d xs) = options_for b r" by (simp add: options_for_def list_report_def)
  show ?thesis unfolding report_size_data [OF data] by (auto simp: encode_array array_length opts and_then_Inr_iff simp del: any_elements.simps)
qed

lemma item_data_size:
  "data_size (tlv_sizes b) (item_report r d S x) = and_then (encodeTlv S x (options_for b r)) getEncodedByteLength"
  by (simp add: tlv_sizes_def encodeAttributePayloadData_def item_report_def options_for_def)

lemma item_report_size:
  "report_size (tlv_sizes b) (item_report r d S x) = Inr n
    \<longleftrightarrow> (\<exists>es f k. encodeTlv S x (options_for b r) = Inr es \<and> frame_length ((apPath d)\<lparr>listIndex := AppendItem\<rparr>) (apVersion d) = Inr f
          \<and> getEncodedByteLength (any_elements (context_tag 2) es) = Inr k \<and> n = f + k)"
proof -
  have data: "arData (item_report r d S x) = Some \<lparr>apPath = (apPath d)\<lparr>listIndex := AppendItem\<rparr>, apSchema = S, apPayload = x, apVersion = apVersion d\<rparr>"
    by (simp add: item_report_def)
  have opts: "options_for b (item_report r d S x) = options_for b r" by (simp add: options_for_def item_report_def)
  show ?thesis unfolding report_size_data [OF data] by (simp add: opts)
qed

lemma map_res_append: "map_res f (xs @ ys) = and_then (map_res f xs) (\<lambda>as. and_then (map_res f ys) (\<lambda>bs. Inr (as @ bs)))"
proof (induction xs)
  case Nil
  then show ?case by (cases "map_res f ys") simp_all
next
  case (Cons x xs)
  then show ?case by (cases "f x"; cases "map_res f xs"; cases "map_res f ys") simp_all
qed

interpretation tlv: report_size_laws "tlv_sizes forFabricFilteredRead" for forFabricFilteredRead
proof
  fix r n assume "report_size (tlv_sizes forFabricFilteredRead) r = Inr n"
  then show "0 \<le> n" by (auto simp: tlv_sizes_def and_then_Inr_iff dest: byte_length_nonneg)
next
  fix e n assume "event_size (tlv_sizes forFabricFilteredRead) e = Inr n"
  then show "0 \<le> n" by (auto simp: tlv_sizes_def dest: byte_length_nonneg)
next
  fix d S mn mx r xs ys n assume "apSchema d = ArraySchema S mn mx" "report_size (tlv_sizes forFabricFilteredRead) (list_report r d (xs @ ys)) = Inr n"
  then show "\<exists>m. report_size (tlv_sizes forFabricFilteredRead) (list_report r d xs) = Inr m"
    by (auto simp: list_report_size map_res_append and_then_Inr_iff byte_length_append)
next
  fix d S mn mx r xs x n m
  assume "apSchema d = ArraySchema S mn mx" "report_size (tlv_sizes forFabricFilteredRead) (list_report r d (xs @ [x])) = Inr n"
    "report_size (tlv_sizes forFabricFilteredRead) (list_report r d xs) = Inr m"
  then show "data_size (tlv_sizes forFabricFilteredRead) (item_report r d S x) = Inr (n - m)"
    by (auto simp: list_report_size map_res_append and_then_Inr_iff byte_length_append item_data_size)
next
  fix r n assume "data_size (tlv_sizes forFabricFilteredRead) r = Inr n"
  then show "0 \<le> n" by (auto simp: tlv_sizes_def and_then_Inr_iff dest: byte_length_nonneg)
next
  fix d S mn mx r n x m
  assume S: "apSchema d = ArraySchema S mn mx" "report_size (tlv_sizes forFabricFilteredRead) (list_report r d []) = Inr n"
    "data_size (tlv_sizes forFabricFilteredRead) (item_report r d S x) = Inr m"
  then obtain f es where f: "frame_length ((apPath d)\<lparr>listIndex := WholeArray\<rparr>) (apVersion d) = Inr f" "n = f + 3"
    "encodeTlv S x (options_for forFabricFilteredRead r) = Inr es" "getEncodedByteLength es = Inr m"
    by (auto simp: list_report_size item_data_size and_then_Inr_iff)
  obtain k where "getEncodedByteLength (any_elements (context_tag 2) es) = Inr k" "m \<le> k + 7" "k \<le> m + 1" using any_length_tagged [OF f(4)] by blast
  then show "\<exists>k. report_size (tlv_sizes forFabricFilteredRead) (item_report r d S x) = Inr k \<and> m \<le> k \<and> k \<le> n + m"
    using f frame_of_item [OF f(1)] frame_at_least [OF f(1)] by (auto simp: item_report_size)
qed

subsection \<open>A report reaches its reader\<close>


text \<open>The data in the reports of a message, as it is received.\<close>

definition wire :: "bool \<Rightarrow> attribute_report \<Rightarrow> attribute_data list res" where
  "wire b r =
     (case arData r of
        None \<Rightarrow> Inr []
      | Some d \<Rightarrow>
          and_then (encodeTlv (apSchema d) (apPayload d) (options_for b r)) (\<lambda>es. Inr [\<lparr>adPath = apPath d, adVersion = apVersion d, adData = es\<rparr>]))"

definition received_data :: "bool \<Rightarrow> report_message list \<Rightarrow> attribute_data list res" where
  "received_data b ms = and_then (map_res (wire b) (sent_attributes ms)) (\<lambda>dss. Inr (concat dss))"

lemma encode_fitting:
  assumes "sound_schema S" "fits S v"
  shows "encodeTlv S v (options_for b r) = encodeTlv S v no_options" "\<exists>es. encodeTlv S v no_options = Inr es"
  using encodeTlv_elements [OF assms] by (simp_all add: options_for_def no_options_def)

lemma wire_pieces:
  assumes "arData r = Some d" "reportable registry d" "pieces r ps"
  shows "\<exists>dss. map_res (wire b) ps = Inr dss \<and> transmits no_options d (concat dss) \<and> (\<forall>ds\<in>set dss. \<forall>w\<in>set ds. key_of (adPath w) = key_of (apPath d))"
proof -
  have sound: "sound_schema (apSchema d)" "fits (apSchema d) (apPayload d)" and whole: "listIndex (apPath d) = WholeArray"
    using assms(2) by (simp_all add: reportable_def)
  have path: "(apPath d)\<lparr>listIndex := WholeArray\<rparr> = apPath d" using whole by simp
  from assms(3) consider (one) "ps = [r]"
    | (parts) S mn mx xs k where "apSchema d = ArraySchema S mn mx" "apPayload d = JArray xs" "ps = list_report r d (take k xs) # map (item_report r d S) (drop k xs)"
    using assms(1) unfolding pieces_def by auto
  then show ?thesis
  proof cases
    case one
    obtain es where "encodeTlv (apSchema d) (apPayload d) no_options = Inr es" using encode_fitting(2) [OF sound] by blast
    then show ?thesis using one assms(1) encode_fitting(1) [OF sound, of b r] path
      by (auto simp: wire_def transmits_def on_wire_def)
  next
    case parts
    have S: "sound_schema S" "\<forall>x\<in>set xs. fits S x" using sound parts(1, 2) by (auto simp: list_all_iff)
    let ?es = "\<lambda>x. elements S x None"
    have items: "encodeTlv S x no_options = Inr (?es x)" "encodeTlv S x (options_for b r) = Inr (?es x)" if "x \<in> set xs" for x
      using encodeTlv_elements [OF S(1)] S(2) that by (simp_all add: options_for_def no_options_def)
    have first: "encodeTlv (ArraySchema S mn mx) (JArray (take k xs)) opts = Inr (element_of None Array PUndefined # concat (map ?es (take k xs)) @ [stop])"
      if "opts = no_options \<or> opts = options_for b r" for opts
      using that items by (subst encode_array, subst map_res_Inr [where g = ?es]) (auto dest: in_set_takeD)
    have list: "wire b (list_report r d (take k xs)) = Inr [on_wire d WholeArray (element_of None Array PUndefined # concat (map ?es (take k xs)) @ [stop])]"
      using first [of "options_for b r"] by (simp add: wire_def list_report_def on_wire_def parts(1) options_for_def)
    have item: "wire b (item_report r d S x) = Inr [on_wire d AppendItem (?es x)]" if "x \<in> set xs" for x
      using items(2) [OF that] by (simp add: wire_def item_report_def on_wire_def options_for_def)
    have "map_res (wire b) (map (item_report r d S) ys) = Inr (map (\<lambda>x. [on_wire d AppendItem (?es x)]) ys)" if "set ys \<subseteq> set xs" for ys
      using that by (induction ys) (simp_all add: item)
    from this [of "drop k xs"] have "map_res (wire b) (map (item_report r d S) (drop k xs)) = Inr (map (\<lambda>x. [on_wire d AppendItem (?es x)]) (drop k xs))"
      using set_drop_subset by fast
    then have all: "map_res (wire b) ps
        = Inr ([on_wire d WholeArray (element_of None Array PUndefined # concat (map ?es (take k xs)) @ [stop])]
            # map (\<lambda>x. [on_wire d AppendItem (?es x)]) (drop k xs))"
      using list by (simp add: parts(3))
    have "map_res (\<lambda>x. encodeTlv S x no_options) (drop k xs) = Inr (map ?es (drop k xs))"
      using items(1) by (intro map_res_Inr) (auto dest: in_set_dropD)
    then have "transmits no_options d (on_wire d WholeArray (element_of None Array PUndefined # concat (map ?es (take k xs)) @ [stop])
        # map (on_wire d AppendItem) (map ?es (drop k xs)))"
      unfolding transmits_def using parts(1, 2) first [of no_options] by blast
    then show ?thesis using all by (auto simp: concat_map_singleton comp_def)
  qed
qed

text \<open>The data of one attribute among that of all.\<close>

lemma filter_wires:
  assumes "\<forall>x\<in>set L. \<forall>w\<in>set (f (snd x)). P w \<longleftrightarrow> fst x = i"
  shows "filter P (concat (map f (map snd L))) = concat (map f (part_of i L))"
  using assms
proof (induction L)
  case (Cons x L)
  have "filter P (f (snd x)) = (if fst x = i then f (snd x) else [])"
    using Cons.prems by (auto simp: filter_empty_conv intro: filter_True)
  then show ?case using Cons by simp
qed simp

lemma map_res_parts: "map_res f xs = Inr ys \<Longrightarrow> x \<in> set xs \<Longrightarrow> \<exists>y. f x = Inr y \<and> y \<in> set ys"
  by (induction xs arbitrary: ys) (auto simp: and_then_Inr_iff)

lemma map_res_all: "map_res f xs = Inr ys \<Longrightarrow> ys = map (\<lambda>x. projr (f x)) xs"
  by (induction xs arbitrary: ys) (auto simp: and_then_Inr_iff)


subsection \<open>Examples\<close>

definition small_config :: report_config where
  "small_config = \<lparr>maxPayloadSize = 60, emptyReportSize = 12\<rparr>"

definition long_list :: attribute_data_payload where
  "long_list = labels_data\<lparr>apSchema := ArraySchema BooleanSchema 0 100, apPayload := JArray (replicate 30 (Prim (PBool True)))\<rparr>"

definition sample_event :: "tlv_element list" where
  "sample_event = [element_of None Structure PUndefined, element_of (context_tag 0) (Boolean True) PUndefined, stop]"

definition list_registry :: cluster_registry where
  "list_registry cl at = (if cl = 6 then if at = 0 then Some (''onOff'', BooleanSchema) else if at = 1 then Some (''labels'', ArraySchema BooleanSchema 0 100) else None else None)"

lemma samples_sendable:
  "sendable small_config (tlv_sizes False) (report_of on_off_data)" "sendable small_config (tlv_sizes False) (report_of long_list)"
  "sendable_event small_config (tlv_sizes False) sample_event" "oversize small_config (tlv_sizes False) (report_of long_list)"
  by code_simp+



end
