(* ===== verification/Dns.thy ===== *)
theory Dns
  imports JsEncoding JsText
begin

text \<open>
  DNS messages as multicast discovery uses them: packages/general/src/codec/DnsCodec.ts, with the addresses of
  packages/general/src/util/Ip.ts.  Names are read with
  the pointers of their compression and written without.  The reader and the writer are those of \<open>BytesIO\<close>,
  here in big-endian order.  The value of a record is one of the kinds that the codec tells apart by the type
  of the record; \<open>forInstance\<close>, which is not part of the message, is left out.
\<close>

subsection \<open>Numbers in text\<close>

definition dot :: "16 word" where "dot = 0x2e"
definition colon :: "16 word" where "colon = 0x3a"

definition digit_unit :: "nat \<Rightarrow> 16 word" where
  "digit_unit d = of_nat (if d < 10 then 48 + d else 87 + d)"

text \<open>\<open>toString(radix)\<close> of a number that is not negative.\<close>

fun to_radix :: "nat \<Rightarrow> nat \<Rightarrow> js_string" where
  "to_radix b n = (if n < b \<or> b < 2 then [digit_unit n] else to_radix b (n div b) @ [digit_unit (n mod b)])"

declare to_radix.simps [simp del]

text \<open>\<open>parseInt\<close>: \<open>None\<close> is \<open>NaN\<close>, a radix of 0 is one that is not given.\<close>

definition unit_digit :: "16 word \<Rightarrow> int option" where
  "unit_digit u =
     (let n = uint u
      in if 48 \<le> n \<and> n \<le> 57 then Some (n - 48)
         else if 97 \<le> n \<and> n \<le> 122 then Some (n - 87)
         else if 65 \<le> n \<and> n \<le> 90 then Some (n - 55) else None)"

definition white_space :: "16 word \<Rightarrow> bool" where
  "white_space u \<longleftrightarrow>
     uint u \<in> {9, 10, 11, 12, 13, 32, 0xa0, 0x1680, 0x2028, 0x2029, 0x202f, 0x205f, 0x3000, 0xfeff} \<or> 0x2000 \<le> uint u \<and> uint u \<le> 0x200a"

fun digits_from :: "int \<Rightarrow> int option \<Rightarrow> js_string \<Rightarrow> int option" where
  "digits_from b acc [] = acc"
| "digits_from b acc (u # us) =
     (case unit_digit u of
        Some d \<Rightarrow> if d < b then digits_from b (Some ((case acc of None \<Rightarrow> 0 | Some a \<Rightarrow> a) * b + d)) us else acc
      | None \<Rightarrow> acc)"

definition js_parse_int :: "js_string \<Rightarrow> int \<Rightarrow> int option" where
  "js_parse_int s radix =
     (let s = dropWhile white_space s;
          negative = (case s of u # _ \<Rightarrow> u = 0x2d | [] \<Rightarrow> False);
          s = (case s of u # us \<Rightarrow> if u = 0x2d \<or> u = 0x2b then us else s | [] \<Rightarrow> s);
          hex = ((radix = 0 \<or> radix = 16) \<and> (take 2 s = [0x30, 0x78] \<or> take 2 s = [0x30, 0x58]));
          (s, b) = (if hex then (drop 2 s, 16) else (s, if radix = 0 then 10 else radix))
      in map_option (\<lambda>n. if negative then - n else n) (digits_from b None s))"

text \<open>A number is written modulo its width, \<open>NaN\<close> as 0.\<close>

definition or_nan :: "int option \<Rightarrow> int" where
  "or_nan n = (case n of None \<Rightarrow> 0 | Some i \<Rightarrow> i)"

subsection \<open>Addresses in text\<close>

definition isIPv4 :: "js_string \<Rightarrow> bool" where "isIPv4 ip \<longleftrightarrow> js_includes [dot] ip"
definition isIPv6 :: "js_string \<Rightarrow> bool" where "isIPv6 ip \<longleftrightarrow> js_includes [colon] ip"

text \<open>Four numbers modulo 256; a part that is missing or is not a number gives 0.\<close>

definition ipv4ToBytes :: "js_string \<Rightarrow> byte list" where
  "ipv4ToBytes ip =
     (let ipParts = js_split dot ip
      in map (\<lambda>i. word_of_int (or_nan (if i < length ipParts then js_parse_int (ipParts ! i) 0 else None))) [0..<4])"

definition ipv4ToNumber :: "js_string \<Rightarrow> int" where "ipv4ToNumber ip = le_val (rev (ipv4ToBytes ip))"

text \<open>\<open>replace\<close> of the first occurrence, and \<open>padEnd\<close>.\<close>

fun replace_first :: "'a list \<Rightarrow> 'a list \<Rightarrow> 'a list \<Rightarrow> 'a list" where
  "replace_first p r [] = (if p = [] then r else [])"
| "replace_first p r (x # xs) = (if starts_with p (x # xs) then r @ drop (length p) (x # xs) else x # replace_first p r xs)"

definition pad_end :: "int \<Rightarrow> 'a list \<Rightarrow> 'a list \<Rightarrow> 'a list" where
  "pad_end n fill s = s @ take (nat n - length s) (concat (replicate (nat n) fill))"

text \<open>Eight groups modulo 65536: what is written past the eighth is lost, what is not written is 0.\<close>

definition ipv6ToArray :: "js_string \<Rightarrow> int list" where
  "ipv6ToArray ip =
     (let ipParts = js_split colon ip;
          valueCount = int (length (filter (\<lambda>v. v \<noteq> []) ipParts));
          ipParts = (if valueCount \<noteq> 8 then js_split colon (replace_first [colon, colon] (pad_end ((8 - valueCount) * 2 + 1) [0x30, colon] [colon]) ip)
            else ipParts);
          vs = map (\<lambda>part. or_nan (js_parse_int part 16) mod 65536) (filter (\<lambda>part. part \<noteq> []) ipParts)
      in take 8 (vs @ replicate 8 0))"

definition ipv6ToBytes :: "js_string \<Rightarrow> byte list" where
  "ipv6ToBytes ip = concat (map (\<lambda>v. map word_of_int [js_shr v 8, js_and v 0xff]) (ipv6ToArray ip))"

text \<open>The loop over the groups of the mask goes on to the sixteenth group; the ninth is \<open>undefined\<close>, and \<open>undefined & undefined\<close> is 0
  on both sides, so that a mask without a group of zeros makes the function return \<open>undefined\<close>, here \<open>None\<close>.\<close>

fun same_groups :: "int list \<Rightarrow> int list \<Rightarrow> int list \<Rightarrow> bool option" where
  "same_groups (a # as) (b # bs) (m # ms) =
     (if m = 0 then Some True else if js_and a m \<noteq> js_and b m then Some False else same_groups as bs ms)"
| "same_groups _ _ _ = None"

definition onSameNetwork :: "js_string \<Rightarrow> js_string \<Rightarrow> js_string \<Rightarrow> bool option" where
  "onSameNetwork ip1 ip2 m =
     (if isIPv4 ip1 then
        (if \<not> isIPv4 ip2 \<or> \<not> isIPv4 m then Some False
         else Some (js_and (ipv4ToNumber ip1) (ipv4ToNumber m) = js_and (ipv4ToNumber ip2) (ipv4ToNumber m)))
      else if isIPv4 ip2 \<or> isIPv4 m then Some False
      else same_groups (ipv6ToArray ip1) (ipv6ToArray ip2) (ipv6ToArray m))"

subsection \<open>Messages\<close>

definition DnsRecordType_A :: int where "DnsRecordType_A = 0x01"
definition DnsRecordType_PTR :: int where "DnsRecordType_PTR = 0x0c"
definition DnsRecordType_TXT :: int where "DnsRecordType_TXT = 0x10"
definition DnsRecordType_AAAA :: int where "DnsRecordType_AAAA = 0x1c"
definition DnsRecordType_SRV :: int where "DnsRecordType_SRV = 0x21"

definition DnsMessageType_Query :: int where "DnsMessageType_Query = 0"
definition DnsMessageType_TruncatedQuery :: int where "DnsMessageType_TruncatedQuery = 0x0200"
definition DnsMessageType_Response :: int where "DnsMessageType_Response = 0x8400"

definition DnsRecordClass_IN :: int where "DnsRecordClass_IN = 0x01"

datatype dns_value =
    NameValue js_string
  | ServiceValue int int int js_string
  | TextValue "js_string list"
  | AddressValue js_string
  | RawValue "byte list"

record dns_query =
  queryName :: js_string
  queryType :: int
  queryClass :: int
  uniCastResponse :: bool

record dns_record =
  recordName :: js_string
  recordType :: int
  recordClass :: int
  flushCache :: bool
  ttl :: int
  recordValue :: dns_value

record dns_message =
  transactionId :: int
  messageType :: int
  queries :: "dns_query list"
  answers :: "dns_record list"
  authorities :: "dns_record list"
  additionalRecords :: "dns_record list"

definition PtrRecord :: "js_string \<Rightarrow> js_string \<Rightarrow> int \<Rightarrow> bool \<Rightarrow> dns_record" where
  "PtrRecord name v t flush =
     \<lparr>recordName = name, recordType = DnsRecordType_PTR, recordClass = DnsRecordClass_IN, flushCache = flush, ttl = t, recordValue = NameValue v\<rparr>"

definition ARecord :: "js_string \<Rightarrow> js_string \<Rightarrow> int \<Rightarrow> bool \<Rightarrow> dns_record" where
  "ARecord name v t flush =
     \<lparr>recordName = name, recordType = DnsRecordType_A, recordClass = DnsRecordClass_IN, flushCache = flush, ttl = t, recordValue = AddressValue v\<rparr>"

definition AAAARecord :: "js_string \<Rightarrow> js_string \<Rightarrow> int \<Rightarrow> bool \<Rightarrow> dns_record" where
  "AAAARecord name v t flush =
     \<lparr>recordName = name, recordType = DnsRecordType_AAAA, recordClass = DnsRecordClass_IN, flushCache = flush, ttl = t, recordValue = AddressValue v\<rparr>"

definition TxtRecord :: "js_string \<Rightarrow> js_string list \<Rightarrow> int \<Rightarrow> bool \<Rightarrow> dns_record" where
  "TxtRecord name v t flush =
     \<lparr>recordName = name, recordType = DnsRecordType_TXT, recordClass = DnsRecordClass_IN, flushCache = flush, ttl = t, recordValue = TextValue v\<rparr>"

definition SrvRecord :: "js_string \<Rightarrow> (int \<times> int \<times> int \<times> js_string) \<Rightarrow> int \<Rightarrow> bool \<Rightarrow> dns_record" where
  "SrvRecord name v t flush =
     \<lparr>recordName = name, recordType = DnsRecordType_SRV, recordClass = DnsRecordClass_IN, flushCache = flush, ttl = t, recordValue = (case v of (priority, weight, port, target) \<Rightarrow> ServiceValue priority weight port target)\<rparr>"

subsection \<open>Decoding\<close>

lemma read_uint_advances:
  "read_uint n r = Inr (v, r') \<Longrightarrow> buffer r' = buffer r \<and> offset r' = offset r + int n \<and> 0 \<le> offset r \<and> offset r + int n \<le> int (length (buffer r)) \<and> 0 \<le> v"
  using read_uint_range [of n r v r']
  by (auto simp: read_uint_def getOffsetAndAdvance_def data_view_get_def Let_def and_then_Inr_iff split: if_splits)

text \<open>A pointer is 14 bits in two bytes; the code takes every length from 64 on for one.\<close>

lemma pointer_value:
  assumes "0 \<le> x" "x < 256" "0 \<le> low" "low < 256"
  shows "js_or low (js_shl (js_and x 0x3f) 8) = x mod 64 * 256 + low"
proof -
  have m: "0 \<le> x mod 64" "x mod 64 < 64" by simp_all
  have "js_and x 63 = x mod 64" using assms int_and_pow2_minus1 [of x 6] by (simp add: js_and_def)
  then have "js_shl (js_and x 0x3f) 8 = x mod 64 * 2 ^ 8" using m by (simp add: js_shl_def)
  then show ?thesis using int_or_shift [of low 8 "x mod 64"] assms m by (simp add: js_or_def or.commute)
qed

lemma label_flags:
  assumes "0 \<le> x" "x < 256"
  shows "js_and x 0xc0 = 0 \<longleftrightarrow> x < 64"
proof -
  have all: "list_all (\<lambda>x. (js_and (int x) 0xc0 = 0) = (x < 64)) [0..<256]" by code_simp
  have "(js_and (int (nat x)) 0xc0 = 0) = (nat x < 64)"
    using all assms unfolding list_all_iff by (metis atLeastLessThan_iff nat_less_iff set_upt zero_le of_nat_numeral)
  then show ?thesis using assms by (simp add: nat_less_iff)
qed

definition unvisited :: "byte list \<Rightarrow> int set \<Rightarrow> nat" where
  "unvisited message visited = card ({0..<int (length message)} - visited)"

lemma unvisited_insert: "i \<notin> V \<Longrightarrow> 0 \<le> i \<Longrightarrow> i < int (length m) \<Longrightarrow> unvisited m V = Suc (unvisited m (insert i V))"
proof -
  assume i: "i \<notin> V" "0 \<le> i" "i < int (length m)"
  then have "card ({0..<int (length m)} - V) = Suc (card ({0..<int (length m)} - V - {i}))" by (intro card.remove) simp_all
  then show ?thesis by (simp only: unvisited_def Diff_insert [of _ i V])
qed

lemma unvisited_mono: "unvisited m (insert i V) \<le> unvisited m V"
  unfolding unvisited_def by (rule card_mono) auto

function decodeQName :: "data_reader \<Rightarrow> byte list \<Rightarrow> int set \<Rightarrow> (js_string \<times> data_reader) res"
  and decodeQNameItems :: "data_reader \<Rightarrow> byte list \<Rightarrow> int set \<Rightarrow> js_string list \<Rightarrow> (js_string \<times> data_reader) res" where
  "decodeQName reader message visited =
     (if offset reader \<in> visited then Inl UnexpectedDataError
      else decodeQNameItems reader message (insert (offset reader) visited) [])"
| "decodeQNameItems reader message visited qNameItems =
     (case readUInt8 reader of
        Inl e \<Rightarrow> Inl e
      | Inr (itemLength, reader1) \<Rightarrow>
          if itemLength = 0 then Inr (js_join [dot] qNameItems, reader1)
          else if js_and itemLength 0xc0 \<noteq> 0 then
            (if remainingBytesCount reader1 < 1 then Inl UnexpectedDataError
             else case readUInt8 reader1 of
               Inl e \<Rightarrow> Inl e
             | Inr (low, reader2) \<Rightarrow>
                 let indexInMessage = js_or low (js_shl (js_and itemLength 0x3f) 8)
                 in if indexInMessage \<ge> int (length message) then Inl UnexpectedDataError
                    else case decodeQName ((new_DataReader message False)\<lparr>offset := indexInMessage\<rparr>) message visited of
                      Inl e \<Rightarrow> Inl e
                    | Inr (name, _) \<Rightarrow> Inr (js_join [dot] (qNameItems @ [name]), reader2))
          else if remainingBytesCount reader1 < itemLength + 1 then Inl UnexpectedDataError
          else case readUtf8String itemLength reader1 of
            (item, reader2) \<Rightarrow> decodeQNameItems reader2 message visited (qNameItems @ [item]))"
  by pat_completeness auto
termination
proof (relation "measures [case_sum (\<lambda>(r, m, V). 3 * unvisited m V + (if 0 \<le> offset r \<and> offset r < int (length m) then 0 else 2)) (\<lambda>(r, m, V, _). 3 * unvisited m V + 1),
    case_sum (\<lambda>_. 0) (\<lambda>(r, _). nat (int (length (buffer r)) - offset r))]", goal_cases)
  case 1
  then show ?case by simp
next
  case (2 r m V)
  then show ?case using unvisited_insert [of "offset r" V m] unvisited_mono [of m "offset r" V] by auto
next
  case (3 r m V items b x y ba xa ya xb)
  then have "xb = x mod 64 * 256 + xa" "0 \<le> xa"
    using pointer_value readUInt8_range [of r x y] readUInt8_range [of y xa ya] by auto
  then have "0 \<le> xb" by simp
  then show ?case using 3 by simp
next
  case (4 r m V items b x y xa ya)
  have y: "buffer y = buffer r" "offset y = offset r + 1" "offset r + 1 \<le> int (length (buffer r))" "0 \<le> x"
    using read_uint_advances [of 1 r x y] 4 by (auto simp: readUInt8_def)
  have "buffer ya = buffer y" "offset ya \<ge> offset y"
    using 4 y by (auto simp: readUtf8String_def readByteArray_def getOffsetAndAdvance_def Let_def remainingBytesCount_def split: prod.splits)
  then show ?case using y by simp
qed

declare decodeQName.simps [simp del] decodeQNameItems.simps [simp del]

definition decodeQuery :: "data_reader \<Rightarrow> byte list \<Rightarrow> (dns_query \<times> data_reader) res" where
  "decodeQuery reader message =
     and_then (decodeQName reader message {}) (\<lambda>(name, reader).
     and_then (readUInt16 reader) (\<lambda>(ty, reader).
     and_then (readUInt16 reader) (\<lambda>(classInt, reader).
       Inr (\<lparr>queryName = name, queryType = ty, queryClass = js_and classInt 0x7fff, uniCastResponse = (js_and classInt 0x8000 \<noteq> 0)\<rparr>, reader))))"

definition decodeSrvRecord :: "byte list \<Rightarrow> byte list \<Rightarrow> dns_value res" where
  "decodeSrvRecord valueBytes message =
     and_then (readUInt16 (new_DataReader valueBytes False)) (\<lambda>(priority, reader).
     and_then (readUInt16 reader) (\<lambda>(weight, reader).
     and_then (readUInt16 reader) (\<lambda>(port, reader).
     and_then (decodeQName reader message {}) (\<lambda>(target, reader). Inr (ServiceValue priority weight port target)))))"

function decodeTxt_loop :: "byte list \<Rightarrow> data_reader \<Rightarrow> int \<Rightarrow> js_string list \<Rightarrow> js_string list res" where
  "decodeTxt_loop valueBytes reader bytesRead result =
     (if bytesRead < int (length valueBytes) then
        (case readUInt8 reader of
           Inl e \<Rightarrow> Inl e
         | Inr (len, reader) \<Rightarrow>
             (case readUtf8String len reader of
                (entry, reader) \<Rightarrow> decodeTxt_loop valueBytes reader (bytesRead + (len + 1)) (result @ [entry])))
      else Inr result)"
  by pat_completeness auto
termination
  by (relation "measure (\<lambda>(bs, _, n, _). nat (int (length bs) - n))") (use readUInt8_range in fastforce)+

declare decodeTxt_loop.simps [simp del]

definition decodeTxtRecord :: "byte list \<Rightarrow> dns_value res" where
  "decodeTxtRecord valueBytes = and_then (decodeTxt_loop valueBytes (new_DataReader valueBytes False) 0 []) (\<lambda>ts. Inr (TextValue ts))"

fun read_times :: "nat \<Rightarrow> (data_reader \<Rightarrow> ('a \<times> data_reader) res) \<Rightarrow> data_reader \<Rightarrow> ('a list \<times> data_reader) res" where
  "read_times 0 f reader = Inr ([], reader)"
| "read_times (Suc n) f reader =
     and_then (f reader) (\<lambda>(x, reader). and_then (read_times n f reader) (\<lambda>(xs, reader). Inr (x # xs, reader)))"

text \<open>Runs of zero groups as start and length; the shortest of them, the first among equals, is left out.\<close>

fun zero_sequences :: "nat \<Rightarrow> js_string list \<Rightarrow> (nat \<times> nat) list" where
  "zero_sequences i [] = []"
| "zero_sequences i (x # xs) =
     (if x \<noteq> [0x30] then zero_sequences (Suc i) xs
      else let n = length (takeWhile (\<lambda>y. y = [0x30]) xs)
           in (i, Suc n) # zero_sequences (i + Suc n) (drop n xs))"

definition compress_zeros :: "js_string list \<Rightarrow> js_string list" where
  "compress_zeros ipItems =
     (case sort_key snd (zero_sequences 0 ipItems) of
        [] \<Rightarrow> ipItems
      | (start, len) # _ \<Rightarrow> take start ipItems @ [[]] @ drop (start + len) ipItems)"

definition decodeAaaaRecord :: "byte list \<Rightarrow> dns_value res" where
  "decodeAaaaRecord valueBytes =
     and_then (read_times 8 readUInt16 (new_DataReader valueBytes False)) (\<lambda>(ns, reader).
       Inr (AddressValue (js_join [colon] (compress_zeros (map (\<lambda>n. to_radix 16 (nat n)) ns)))))"

definition decodeARecord :: "byte list \<Rightarrow> dns_value res" where
  "decodeARecord valueBytes =
     and_then (read_times 4 readUInt8 (new_DataReader valueBytes False)) (\<lambda>(ns, reader).
       Inr (AddressValue (js_join [dot] (map (\<lambda>n. to_radix 10 (nat n)) ns))))"

definition decodeRecordValue :: "byte list \<Rightarrow> int \<Rightarrow> byte list \<Rightarrow> dns_value res" where
  "decodeRecordValue valueBytes ty message =
     (if ty = DnsRecordType_PTR then and_then (decodeQName (new_DataReader valueBytes False) message {}) (\<lambda>(name, reader). Inr (NameValue name))
      else if ty = DnsRecordType_SRV then decodeSrvRecord valueBytes message
      else if ty = DnsRecordType_TXT then decodeTxtRecord valueBytes
      else if ty = DnsRecordType_AAAA then decodeAaaaRecord valueBytes
      else if ty = DnsRecordType_A then decodeARecord valueBytes
      else Inr (RawValue valueBytes))"

definition decodeRecord :: "data_reader \<Rightarrow> byte list \<Rightarrow> (dns_record \<times> data_reader) res" where
  "decodeRecord reader message =
     and_then (decodeQName reader message {}) (\<lambda>(name, reader).
     and_then (readUInt16 reader) (\<lambda>(ty, reader).
     and_then (readUInt16 reader) (\<lambda>(classInt, reader).
     and_then (readUInt32 reader) (\<lambda>(seconds, reader).
     and_then (readUInt16 reader) (\<lambda>(valueLength, reader).
       case readByteArray valueLength reader of
         (valueBytes, reader) \<Rightarrow>
           and_then (decodeRecordValue valueBytes ty message) (\<lambda>v.
             Inr (\<lparr>recordName = name, recordType = ty, recordClass = js_and classInt 0x7fff, flushCache = (js_and classInt 0x8000 \<noteq> 0),
                   ttl = seconds, recordValue = v\<rparr>, reader)))))))"

text \<open>Anything wrong with a message makes it \<open>undefined\<close>.\<close>

definition dns_decode :: "byte list \<Rightarrow> dns_message option" where
  "dns_decode message =
     (case
        and_then (readUInt16 (new_DataReader message False)) (\<lambda>(i, reader).
        and_then (readUInt16 reader) (\<lambda>(ty, reader).
        and_then (readUInt16 reader) (\<lambda>(queriesCount, reader).
        and_then (readUInt16 reader) (\<lambda>(answersCount, reader).
        and_then (readUInt16 reader) (\<lambda>(authoritiesCount, reader).
        and_then (readUInt16 reader) (\<lambda>(additionalCount, reader).
        and_then (read_times (nat queriesCount) (\<lambda>r. decodeQuery r message) reader) (\<lambda>(qs, reader).
        and_then (read_times (nat answersCount) (\<lambda>r. decodeRecord r message) reader) (\<lambda>(as, reader).
        and_then (read_times (nat authoritiesCount) (\<lambda>r. decodeRecord r message) reader) (\<lambda>(us, reader).
        and_then (read_times (nat additionalCount) (\<lambda>r. decodeRecord r message) reader) (\<lambda>(xs, reader).
          Inr \<lparr>transactionId = i, messageType = ty, queries = qs, answers = as, authorities = us, additionalRecords = xs\<rparr>))))))))))
      of Inl e \<Rightarrow> None | Inr m \<Rightarrow> Some m)"

subsection \<open>Encoding\<close>

definition encodeQName :: "js_string \<Rightarrow> byte list res" where
  "encodeQName qname =
     (let writer = new_DataWriter False;
          writer = (if qname \<noteq> [] then
              fold (\<lambda>label writer. writeByteArray (text_encode label) (writeUInt8 (int (length (text_encode label))) writer)) (js_split dot qname) writer
            else writer)
      in writer_bytes (writeUInt8 0 writer))"

definition encodeARecord :: "js_string \<Rightarrow> byte list res" where
  "encodeARecord ip =
     (if \<not> isIPv4 ip then Inl UnexpectedDataError
      else writer_bytes (fold (\<lambda>part. writeUInt8 (or_nan (js_parse_int part 0))) (js_split dot ip) (new_DataWriter False)))"

definition encodeAaaaRecord :: "js_string \<Rightarrow> byte list res" where
  "encodeAaaaRecord ip =
     (if \<not> isIPv6 ip then Inl UnexpectedDataError
      else let parts = js_split colon ip
           in writer_bytes (fold (\<lambda>part writer.
                  let writer = (if part = [] then (writeUInt16 0 ^^ (8 - length parts)) writer else writer)
                  in writeUInt16 (or_nan (js_parse_int part 16)) writer) parts (new_DataWriter False)))"

definition encodeTxtRecord :: "js_string list \<Rightarrow> byte list res" where
  "encodeTxtRecord entries =
     writer_bytes (fold (\<lambda>entry writer. writeByteArray (text_encode entry) (writeUInt8 (int (length (text_encode entry))) writer)) entries (new_DataWriter False))"

definition encodeSrvRecord :: "int \<Rightarrow> int \<Rightarrow> int \<Rightarrow> js_string \<Rightarrow> byte list res" where
  "encodeSrvRecord priority weight port target =
     and_then (encodeQName target) (\<lambda>name.
       writer_bytes (writeByteArray name (writeUInt16 port (writeUInt16 weight (writeUInt16 priority (new_DataWriter False))))))"

text \<open>The types of the record and of its value belong together; the code casts.\<close>

definition encodeRecordValue :: "dns_value \<Rightarrow> int \<Rightarrow> byte list res" where
  "encodeRecordValue v ty =
     (if ty = DnsRecordType_PTR then (case v of NameValue name \<Rightarrow> encodeQName name | _ \<Rightarrow> Inl TypeError)
      else if ty = DnsRecordType_SRV then (case v of ServiceValue p w q t \<Rightarrow> encodeSrvRecord p w q t | _ \<Rightarrow> Inl TypeError)
      else if ty = DnsRecordType_TXT then (case v of TextValue ts \<Rightarrow> encodeTxtRecord ts | _ \<Rightarrow> Inl TypeError)
      else if ty = DnsRecordType_AAAA then (case v of AddressValue ip \<Rightarrow> encodeAaaaRecord ip | _ \<Rightarrow> Inl TypeError)
      else if ty = DnsRecordType_A then (case v of AddressValue ip \<Rightarrow> encodeARecord ip | _ \<Rightarrow> Inl TypeError)
      else (case v of RawValue bs \<Rightarrow> Inr bs | _ \<Rightarrow> Inl UnexpectedDataError))"

definition encodeRecord :: "dns_record \<Rightarrow> byte list res" where
  "encodeRecord r =
     and_then (encodeQName (recordName r)) (\<lambda>name.
     and_then (encodeRecordValue (recordValue r) (recordType r)) (\<lambda>encodedValue.
       writer_bytes (writeByteArray encodedValue (writeUInt16 (int (length encodedValue)) (writeUInt32 (ttl r)
         (writeUInt16 (js_or (recordClass r) (if flushCache r then 0x8000 else 0)) (writeUInt16 (recordType r)
           (writeByteArray name (new_DataWriter False)))))))))"

text \<open>An answer may be encoded already.\<close>

datatype dns_answer = Record dns_record | Encoded "byte list"

definition encode_answer :: "dns_answer \<Rightarrow> byte list res" where
  "encode_answer a = (case a of Record r \<Rightarrow> encodeRecord r | Encoded bs \<Rightarrow> Inr bs)"

definition write_query :: "dns_query \<Rightarrow> data_writer \<Rightarrow> data_writer res" where
  "write_query q writer =
     and_then (encodeQName (queryName q)) (\<lambda>name.
       Inr (writeUInt16 (js_or (queryClass q) (if uniCastResponse q then 0x8000 else 0)) (writeUInt16 (queryType q) (writeByteArray name writer))))"

definition dns_encode ::
  "int option \<Rightarrow> int \<Rightarrow> dns_query list \<Rightarrow> dns_answer list \<Rightarrow> dns_record list \<Rightarrow> dns_answer list \<Rightarrow> byte list res" where
  "dns_encode msgType i qs as us xs =
     (case msgType of
        None \<Rightarrow> Inl InternalError
      | Some ty \<Rightarrow>
          if qs \<noteq> [] \<and> ty \<noteq> DnsMessageType_Query \<and> ty \<noteq> DnsMessageType_TruncatedQuery then Inl InternalError
          else if us \<noteq> [] then Inl NotImplementedError
          else
            let writer = writeUInt16 (int (length xs)) (writeUInt16 (int (length us)) (writeUInt16 (int (length as))
                  (writeUInt16 (int (length qs)) (writeUInt16 ty (writeUInt16 i (new_DataWriter False))))))
            in and_then (fold_res write_query qs writer) (\<lambda>writer.
               and_then (fold_res (\<lambda>a writer. and_then (encode_answer a) (\<lambda>bs. Inr (writeByteArray bs writer))) (as @ map Record us @ xs) writer)
                 writer_bytes))"

subsection \<open>Big-endian reading and writing\<close>

definition be_bytes :: "nat \<Rightarrow> int \<Rightarrow> byte list" where
  "be_bytes n v = rev (le_bytes n v)"

definition rb :: "byte list \<Rightarrow> byte list \<Rightarrow> data_reader" where
  "rb pre rest = \<lparr>littleEndian = False, buffer = pre @ rest, offset = int (length pre)\<rparr>"

lemma length_be_bytes [simp]: "length (be_bytes n v) = n"
  by (simp add: be_bytes_def)

lemma new_DataReader_rb: "new_DataReader bs False = rb [] bs"
  by (simp add: new_DataReader_def rb_def)

lemma new_reader_at: "(new_DataReader (pre @ rest) False)\<lparr>offset := int (length pre)\<rparr> = rb pre rest"
  by (simp add: new_DataReader_def rb_def)

lemma rb_fields [simp]: "offset (rb pre rest) = int (length pre)" "buffer (rb pre rest) = pre @ rest" "remainingBytesCount (rb pre rest) = int (length rest)"
  by (simp_all add: rb_def remainingBytesCount_def)

lemma read_uint_rb: "length bs = n \<Longrightarrow> read_uint n (rb pre (bs @ rest)) = Inr (le_val (rev bs), rb (pre @ bs) rest)"
  by (auto simp: read_uint_def getOffsetAndAdvance_def rb_def data_view_get_def Let_def)

lemma read_be [codec_simps]:
  "readUInt8 (rb pre (be_bytes 1 v @ rest)) = Inr (v mod 256, rb (pre @ be_bytes 1 v) rest)"
  "readUInt16 (rb pre (be_bytes 2 v @ rest)) = Inr (v mod 65536, rb (pre @ be_bytes 2 v) rest)"
  "readUInt32 (rb pre (be_bytes 4 v @ rest)) = Inr (v mod 4294967296, rb (pre @ be_bytes 4 v) rest)"
  using read_uint_rb [of "be_bytes 1 v" 1] read_uint_rb [of "be_bytes 2 v" 2] read_uint_rb [of "be_bytes 4 v" 4]
  by (simp_all add: read_defs be_bytes_def)

lemma readByteArray_rb: "l = int (length bs) \<Longrightarrow> readByteArray l (rb pre (bs @ rest)) = (bs, rb (pre @ bs) rest)"
  by (auto simp: readByteArray_def getOffsetAndAdvance_def rb_def subarray_def rel_index_def Let_def)

lemma readUtf8String_rb: "l = int (length bs) \<Longrightarrow> readUtf8String l (rb pre (bs @ rest)) = (text_decode bs, rb (pre @ bs) rest)"
  by (simp add: readUtf8String_def readByteArray_rb)

text \<open>A writer in big-endian order and what it has written.\<close>

definition be_writer :: "data_writer \<Rightarrow> bool" where
  "be_writer w \<longleftrightarrow> \<not> wLittleEndian w \<and> wlength w = length (written w)"

lemma be_new [simp]: "be_writer (new_DataWriter False)" "written (new_DataWriter False) = []"
  by (simp_all add: new_DataWriter_def be_writer_def written_def)

lemma be_write_int [simp]:
  "be_writer w \<Longrightarrow> written (write_int n v w) = written w @ be_bytes n v" "be_writer w \<Longrightarrow> be_writer (write_int n v w)"
  by (simp_all add: write_int_def push_chunk_def written_def be_writer_def be_bytes_def)

lemma be_write_bytes [simp]: "be_writer w \<Longrightarrow> be_writer (writeByteArray bs w)"
  by (simp add: writeByteArray_def push_chunk_def written_def be_writer_def)

lemma be_writer_bytes [simp]: "be_writer w \<Longrightarrow> writer_bytes w = Inr (written w)"
  using copy_chunks_fill [of "chunks w" "replicate (wlength w) 0" "[]"]
  by (auto simp: be_writer_def written_def writer_bytes_def toByteArray_def split: list.splits)

end
