(* ===== verification/DnsRoundTrip.thy ===== *)
theory DnsRoundTrip
  imports Dns
begin

text \<open>
  What the writer of DNS messages produces is read back: numbers and addresses in text, names, the values of the
  records, and whole messages.  Names are written without pointers; that the reader follows a pointer to an
  earlier name is stated on its own.
\<close>

subsection \<open>Numbers in text\<close>

lemma uint_digit_unit: "d < 36 \<Longrightarrow> uint (digit_unit d) = (if d < 10 then 48 + int d else 87 + int d)"
  by (simp add: digit_unit_def uint_nat)

lemma unit_digit_unit [simp]: "d < 36 \<Longrightarrow> unit_digit (digit_unit d) = Some (int d)"
  by (simp add: unit_digit_def uint_digit_unit Let_def)

lemma digit_not_white: "d < 36 \<Longrightarrow> \<not> white_space (digit_unit d)"
  by (simp add: white_space_def uint_digit_unit)

lemma digit_unit_eq_iff: "d < 36 \<Longrightarrow> digit_unit d = u \<longleftrightarrow> (if d < 10 then 48 + int d else 87 + int d) = uint u"
  using uint_digit_unit [of d] by (metis word_uint_eqI)

lemma to_radix_digits:
  "2 \<le> b \<Longrightarrow> \<exists>ds. to_radix b n = map digit_unit ds \<and> ds \<noteq> [] \<and> (\<forall>d\<in>set ds. d < b) \<and> foldl (\<lambda>a d. a * b + d) 0 ds = n"
proof (induction b n rule: to_radix.induct)
  case (1 b n)
  show ?case
  proof (cases "n < b")
    case True
    then show ?thesis by (intro exI [of _ "[n]"]) (simp add: to_radix.simps [of b n])
  next
    case False
    then obtain ds where "to_radix b (n div b) = map digit_unit ds" "\<forall>d\<in>set ds. d < b" "foldl (\<lambda>a d. a * b + d) 0 ds = n div b"
      using 1 by force
    then show ?thesis using False 1(2) by (intro exI [of _ "ds @ [n mod b]"]) (simp add: to_radix.simps [of b n])
  qed
qed

lemma digits_from_digits:
  assumes "b \<le> 36" "\<forall>d\<in>set ds. d < b"
  shows "digits_from (int b) (Some (int a)) (map digit_unit ds) = Some (int (foldl (\<lambda>a d. a * b + d) a ds))"
  using assms(2)
proof (induction ds arbitrary: a)
  case (Cons d ds)
  then show ?case using assms(1) Cons.IH [of "a * b + d"] by simp
qed simp

lemma parse_digits:
  assumes ds: "ds \<noteq> []" "\<forall>d\<in>set ds. d < b" and b: "b = 10 \<and> radix = 0 \<or> b = 16 \<and> radix = 16"
  shows "js_parse_int (map digit_unit ds) radix = Some (int (foldl (\<lambda>a d. a * b + d) 0 ds))"
proof -
  obtain d ds' where c: "ds = d # ds'" using ds(1) by (cases ds) auto
  have d: "d < b" "d < 36" "b \<le> 36" using ds b c by auto
  have hex: "take 2 (map digit_unit ds) \<noteq> [0x30, 0x78]" "take 2 (map digit_unit ds) \<noteq> [0x30, 0x58]"
    using ds b d c by (cases ds'; auto simp: digit_unit_eq_iff split: if_splits)+
  have "digits_from (int b) None (map digit_unit ds) = Some (int (foldl (\<lambda>a d. a * b + d) 0 ds))"
    using digits_from_digits [of b ds' d] ds d c by simp
  moreover have "dropWhile white_space (map digit_unit ds) = map digit_unit ds"
    using d c by (simp add: digit_not_white)
  ultimately show ?thesis
    using b d hex c by (auto simp: js_parse_int_def Let_def digit_unit_eq_iff)
qed

lemma parse_to_radix [simp]:
  "js_parse_int (to_radix 10 n) 0 = Some (int n)" "js_parse_int (to_radix 16 n) 16 = Some (int n)"
  using to_radix_digits [of 10 n] to_radix_digits [of 16 n] parse_digits [of _ 10 0] parse_digits [of _ 16 16] by fastforce+

lemma to_radix_free:
  assumes "2 \<le> b" "b \<le> 36" "unit_digit u = None"
  shows "u \<notin> set (to_radix b n)"
proof
  obtain ds where ds: "to_radix b n = map digit_unit ds" "\<forall>d\<in>set ds. d < b" using to_radix_digits [OF assms(1), of n] by metis
  assume "u \<in> set (to_radix b n)"
  with ds obtain d where "d < b" "u = digit_unit d" by auto
  with assms show False by simp
qed

lemma to_radix_zero:
  assumes "2 \<le> b" "b \<le> 36"
  shows "to_radix b n = [0x30] \<longleftrightarrow> n = 0"
proof
  assume z: "to_radix b n = [0x30]"
  obtain ds where ds: "map digit_unit ds = [0x30]" "\<forall>d\<in>set ds. d < b" "foldl (\<lambda>a d. a * b + d) 0 ds = n"
    using to_radix_digits [OF assms(1), of n] z by metis
  then obtain d where "ds = [d]" "digit_unit d = 0x30" by (cases ds) auto
  with ds assms show "n = 0" by (simp add: digit_unit_eq_iff split: if_splits)
qed (use assms in \<open>simp add: to_radix.simps digit_unit_def\<close>)

lemma to_radix_nonempty [simp]: "to_radix b n \<noteq> []"
  by (simp add: to_radix.simps [of b n])

subsection \<open>What a chain of writes and of reads gives\<close>

lemma fold_writes:
  "(\<And>x w. x \<in> set xs \<Longrightarrow> be_writer w \<Longrightarrow> be_writer (wr x w) \<and> written (wr x w) = written w @ bytes_of x) \<Longrightarrow>
   be_writer w \<Longrightarrow> be_writer (fold wr xs w) \<and> written (fold wr xs w) = written w @ concat (map bytes_of xs)"
proof (induction xs arbitrary: w)
  case (Cons x xs)
  then show ?case using Cons.prems(1) [of x w] Cons.IH [of "wr x w"] by simp
qed simp

lemma writer_bytes_fold:
  assumes "\<And>x w. x \<in> set xs \<Longrightarrow> be_writer w \<Longrightarrow> be_writer (wr x w) \<and> written (wr x w) = written w @ bytes_of x"
  shows "writer_bytes (fold wr xs (new_DataWriter False)) = Inr (concat (map bytes_of xs))"
  using fold_writes [of xs wr bytes_of "new_DataWriter False"] assms by simp

text \<open>An item that is read back from its bytes, wherever they stand; so are many of them, one after the other.\<close>

locale be_item =
  fixes bytes_of :: "'a \<Rightarrow> byte list" and read_item :: "data_reader \<Rightarrow> ('a \<times> data_reader) res" and ok :: "'a \<Rightarrow> bool"
  assumes read_item: "ok x \<Longrightarrow> read_item (rb pre (bytes_of x @ rest)) = Inr (x, rb (pre @ bytes_of x) rest)"
begin

lemma read_items:
  "\<forall>x\<in>set xs. ok x \<Longrightarrow> read_times (length xs) read_item (rb pre (concat (map bytes_of xs) @ rest)) = Inr (xs, rb (pre @ concat (map bytes_of xs)) rest)"
proof (induction xs arbitrary: pre)
  case (Cons x xs)
  then show ?case using read_item [of x pre "concat (map bytes_of xs) @ rest"] by simp
qed simp

lemma read_items_counted:
  assumes "\<forall>x\<in>set xs. ok x" "n = length xs"
  shows "read_times n read_item (rb pre (concat (map bytes_of xs) @ rest)) = Inr (xs, rb (pre @ concat (map bytes_of xs)) rest)"
  using read_items assms by simp

end

interpretation be8: be_item "be_bytes 1" readUInt8 "\<lambda>v. 0 \<le> v \<and> v < 256"
  by unfold_locales (simp add: read_be [unfolded One_nat_def])

interpretation be16: be_item "be_bytes 2" readUInt16 "\<lambda>v. 0 \<le> v \<and> v < 65536"
  by unfold_locales (simp add: read_be)

interpretation be32: be_item "be_bytes 4" readUInt32 "\<lambda>v. 0 \<le> v \<and> v < 4294967296"
  by unfold_locales (simp add: read_be)

subsection \<open>Addresses\<close>

lemmas be_write_defs = writeUInt8_def writeUInt16_def writeUInt32_def

lemma be_written_bytes [simp]: "be_writer w \<Longrightarrow> written (writeByteArray bs w) = written w @ bs"
  by (simp add: writeByteArray_def push_chunk_def written_def be_writer_def)

lemma js_includes_sep: "js_includes [c] s \<longleftrightarrow> c \<in> set s"
  by (induction s) (auto simp: starts_with_def)

lemma join_includes_sep: "2 \<le> length xs \<Longrightarrow> c \<in> set (js_join [c] xs)"
  by (cases xs; cases "tl xs") auto

text \<open>Four numbers, in text and in bytes.\<close>

definition ipv4_text :: "int list \<Rightarrow> js_string" where
  "ipv4_text ns = js_join [dot] (map (\<lambda>n. to_radix 10 (nat n)) ns)"

lemma decodeARecord_bytes:
  assumes "length ns = 4" "\<forall>n\<in>set ns. 0 \<le> n \<and> n < 256"
  shows "decodeARecord (concat (map (be_bytes 1) ns)) = Inr (AddressValue (ipv4_text ns))"
  using be8.read_items_counted [of ns 4 "[]" "[]"] assms by (simp add: decodeARecord_def new_DataReader_rb ipv4_text_def)

lemma encodeARecord_text:
  assumes "length ns = 4" "\<forall>n\<in>set ns. 0 \<le> n \<and> n < 256"
  shows "encodeARecord (ipv4_text ns) = Inr (concat (map (be_bytes 1) ns))"
proof -
  have "dot \<notin> set (to_radix 10 n)" for n by (rule to_radix_free) (simp_all add: dot_def unit_digit_def)
  then have "js_split dot (ipv4_text ns) = map (\<lambda>n. to_radix 10 (nat n)) ns"
    unfolding ipv4_text_def using assms by (intro js_split_join) auto
  moreover have "isIPv4 (ipv4_text ns)"
    using assms by (simp add: isIPv4_def js_includes_sep ipv4_text_def join_includes_sep)
  moreover have "writer_bytes (fold (\<lambda>part. writeUInt8 (or_nan (js_parse_int part 0))) (map (\<lambda>n. to_radix 10 (nat n)) ns) (new_DataWriter False))
    = Inr (concat (map (\<lambda>part. be_bytes 1 (or_nan (js_parse_int part 0))) (map (\<lambda>n. to_radix 10 (nat n)) ns)))"
    using assms by (intro writer_bytes_fold) (auto simp: be_write_defs or_nan_def)
  ultimately show ?thesis using assms by (simp add: encodeARecord_def or_nan_def o_def cong: map_cong)
qed

text \<open>Eight groups; the reader leaves out a run of zeros, which the writer puts back.\<close>

definition ipv6_text :: "int list \<Rightarrow> js_string" where
  "ipv6_text ns = js_join [colon] (compress_zeros (map (\<lambda>n. to_radix 16 (nat n)) ns))"

lemma zero_sequences_in:
  "(st, len) \<in> set (zero_sequences i xs) \<Longrightarrow> 1 \<le> len \<and> (\<exists>a b. xs = a @ replicate len [0x30] @ b \<and> st = i + length a)"
proof (induction i xs rule: zero_sequences.induct)
  case (2 i x xs)
  let ?n = "length (takeWhile (\<lambda>y. y = [0x30]) xs)"
  have run: "xs = replicate ?n [0x30] @ drop ?n xs"
  proof -
    have "replicate ?n [0x30] = takeWhile (\<lambda>y. y = [0x30]) xs" by (rule replicate_length_same) (auto dest: set_takeWhileD)
    then show ?thesis by (metis dropWhile_eq_drop takeWhile_dropWhile_id)
  qed
  show ?case
  proof (cases "x = [0x30] \<and> (st, len) = (i, Suc ?n)")
    case True
    then show ?thesis using run by (intro conjI exI [of _ "[]"] exI [of _ "drop ?n xs"]) auto
  next
    case False
    then consider "x \<noteq> [0x30]" "(st, len) \<in> set (zero_sequences (Suc i) xs)"
      | "x = [0x30]" "(st, len) \<in> set (zero_sequences (i + Suc ?n) (drop ?n xs))"
      using 2(3) by (auto simp: Let_def split: if_splits)
    then show ?thesis
    proof cases
      case 1
      then obtain a b where "1 \<le> len" "xs = a @ replicate len [0x30] @ b" "st = Suc i + length a" using 2(1) by blast
      then show ?thesis by (intro conjI exI [of _ "x # a"] exI [of _ b]) auto
    next
      case 2
      then obtain a b where ab: "1 \<le> len" "drop ?n xs = a @ replicate len [0x30] @ b" "st = i + Suc ?n + length a"
        using "2.IH"(2) [of ?n] by auto
      then have "x # xs = (x # replicate ?n [0x30] @ a) @ replicate len [0x30] @ b" using run by simp
      then show ?thesis using ab by (intro conjI exI [of _ "x # replicate ?n [0x30] @ a"] exI [of _ b]) simp_all
    qed
  qed
qed simp

lemma compress_zeros_cases:
  obtains "compress_zeros xs = xs"
  | a b len where "1 \<le> len" "xs = a @ replicate len [0x30] @ b" "compress_zeros xs = a @ [[]] @ b"
proof (cases "sort_key snd (zero_sequences 0 xs)")
  case Nil
  then show ?thesis using that(1) by (simp add: compress_zeros_def)
next
  case (Cons z zs)
  obtain st len where z: "z = (st, len)" by (cases z)
  have "z \<in> set (zero_sequences 0 xs)" using Cons by (metis list.set_intros(1) set_sort)
  then obtain a b where "1 \<le> len" "xs = a @ replicate len [0x30] @ b" "st = length a"
    using zero_sequences_in [of st len 0 xs] z by auto
  then show ?thesis using that(2) [of len a b] Cons z by (simp add: compress_zeros_def)
qed

lemma decodeAaaaRecord_bytes:
  assumes "length ns = 8" "\<forall>n\<in>set ns. 0 \<le> n \<and> n < 65536"
  shows "decodeAaaaRecord (concat (map (be_bytes 2) ns)) = Inr (AddressValue (ipv6_text ns))"
  using be16.read_items_counted [of ns 8 "[]" "[]"] assms by (simp add: decodeAaaaRecord_def new_DataReader_rb ipv6_text_def)

lemma write_zeros: "be_writer w \<Longrightarrow> be_writer ((write_int 2 0 ^^ k) w) \<and> written ((write_int 2 0 ^^ k) w) = written w @ concat (replicate k (be_bytes 2 0))"
  by (induction k) (simp_all add: be_write_defs concat_replicate_trivial flip: replicate_append_same)

definition aaaa_part :: "nat \<Rightarrow> js_string \<Rightarrow> byte list" where
  "aaaa_part k part = (if part = [] then concat (replicate k (be_bytes 2 0)) else []) @ be_bytes 2 (or_nan (js_parse_int part 16))"

lemma aaaa_part_group: "0 \<le> n \<Longrightarrow> aaaa_part k (to_radix 16 (nat n)) = be_bytes 2 n"
  by (simp add: aaaa_part_def or_nan_def)

lemma aaaa_part_empty: "aaaa_part k [] = concat (replicate (Suc k) (be_bytes 2 0))"
  by (simp add: aaaa_part_def or_nan_def js_parse_int_def concat_replicate_trivial flip: replicate_append_same)

lemma encodeAaaaRecord_parts:
  assumes "2 \<le> length parts" "\<forall>p\<in>set parts. colon \<notin> set p \<and> \<bar>or_nan (js_parse_int p 16)\<bar> < 65536"
  shows "encodeAaaaRecord (js_join [colon] parts) = Inr (concat (map (aaaa_part (8 - length parts)) parts))"
proof -
  have "parts \<noteq> []" using assms(1) by auto
  then have "js_split colon (js_join [colon] parts) = parts" using assms(2) by (intro js_split_join) auto
  moreover have "isIPv6 (js_join [colon] parts)" using assms(1) by (simp add: isIPv6_def js_includes_sep join_includes_sep)
  moreover have "writer_bytes (fold (\<lambda>part writer.
      let writer = (if part = [] then (writeUInt16 0 ^^ (8 - length parts)) writer else writer)
      in writeUInt16 (or_nan (js_parse_int part 16)) writer) parts (new_DataWriter False)) = Inr (concat (map (aaaa_part (8 - length parts)) parts))"
    using assms(2) by (intro writer_bytes_fold) (auto simp: Let_def aaaa_part_def write_zeros be_write_defs)
  ultimately show ?thesis by (simp add: encodeAaaaRecord_def Let_def)
qed

lemma map_to_radix_zeros:
  "map (\<lambda>n. to_radix 16 (nat n)) ns = replicate len [0x30] \<Longrightarrow> \<forall>n\<in>set ns. 0 \<le> n \<Longrightarrow> ns = replicate len 0"
  by (induction ns arbitrary: len) (case_tac len; fastforce simp: to_radix_zero)+

lemma encodeAaaaRecord_text:
  assumes ns: "length ns = 8" "\<forall>n\<in>set ns. 0 \<le> n \<and> n < 65536" and nonzero: "\<exists>n\<in>set ns. n \<noteq> 0"
  shows "encodeAaaaRecord (ipv6_text ns) = Inr (concat (map (be_bytes 2) ns))"
proof -
  let ?g = "\<lambda>n. to_radix 16 (nat n)"
  let ?parts = "compress_zeros (map ?g ns)"
  have free: "colon \<notin> set (to_radix 16 n)" for n by (rule to_radix_free) (simp_all add: colon_def unit_digit_def)
  have part: "colon \<notin> set (?g n) \<and> \<bar>or_nan (js_parse_int (?g n) 16)\<bar> < 65536" if "n \<in> set ns" for n
    using that ns free by (simp add: or_nan_def)
  have empty: "or_nan (js_parse_int [] 16) = 0" by (simp add: js_parse_int_def or_nan_def)
  consider "?parts = map ?g ns" | a b len where "1 \<le> len" "map ?g ns = a @ replicate len [0x30] @ b" "?parts = a @ [[]] @ b"
    by (rule compress_zeros_cases [of "map ?g ns"])
  then show ?thesis
  proof cases
    case 1
    then show ?thesis
      using encodeAaaaRecord_parts [of "map ?g ns"] ns part by (simp add: ipv6_text_def o_def aaaa_part_group cong: map_cong)
  next
    case (2 a b len)
    then obtain n1 z n2 where n: "ns = n1 @ z @ n2" "a = map ?g n1" "b = map ?g n2" "map ?g z = replicate len [0x30]"
      by (auto simp: map_eq_append_conv append_eq_map_conv)
    then have z: "z = replicate len 0" using map_to_radix_zeros [of z len] ns by simp
    have "n1 \<noteq> [] \<or> n2 \<noteq> []" using nonzero n z by auto
    then have two: "2 \<le> length ?parts" using 2(3) n by (cases n1; cases n2) auto
    have k: "Suc (8 - length ?parts) = len" using 2 n ns z by auto
    have parts: "?parts = map ?g n1 @ [[]] @ map ?g n2" using 2(3) n by simp
    have "concat (map (aaaa_part j) (map ?g n1 @ [[]] @ map ?g n2)) = concat (map (be_bytes 2) ns)" if "Suc j = len" for j
    proof -
      have "map (aaaa_part j) (map ?g n1) = map (be_bytes 2) n1" "map (aaaa_part j) (map ?g n2) = map (be_bytes 2) n2"
        using n ns by (simp_all add: aaaa_part_group)
      then show ?thesis using n(1) z that aaaa_part_empty [of j] by (simp only: map_append concat_append map_replicate) simp
    qed
    from this [OF k] have middle: "concat (map (aaaa_part (8 - length ?parts)) ?parts) = concat (map (be_bytes 2) ns)"
      unfolding parts [symmetric] .
    have "encodeAaaaRecord (ipv6_text ns) = Inr (concat (map (aaaa_part (8 - length ?parts)) ?parts))"
      unfolding ipv6_text_def using two part empty 2(3) n by (intro encodeAaaaRecord_parts) auto
    then show ?thesis using middle by simp
  qed
qed

subsection \<open>Names\<close>

definition dns_label :: "js_string \<Rightarrow> bool" where
  "dns_label l \<longleftrightarrow> l \<noteq> [] \<and> dot \<notin> set l \<and> paired l \<and> take 1 l \<noteq> [0xFEFF] \<and> length (text_encode l) < 64"

definition labels_of :: "js_string \<Rightarrow> js_string list" where
  "labels_of s = (if s = [] then [] else js_split dot s)"

definition dns_name :: "js_string \<Rightarrow> bool" where
  "dns_name s \<longleftrightarrow> (\<forall>l\<in>set (labels_of s). dns_label l)"

definition text_bytes :: "js_string \<Rightarrow> byte list" where
  "text_bytes s = be_bytes 1 (int (length (text_encode s))) @ text_encode s"

definition name_bytes :: "js_string list \<Rightarrow> byte list" where
  "name_bytes ls = concat (map text_bytes ls) @ be_bytes 1 0"

lemma js_join_split: "js_join [c] (js_split c s) = s"
proof (induction s)
  case (Cons x xs)
  obtain w ws where w: "js_split c xs = w # ws" by (metis js_split_nonempty list.exhaust)
  then show ?case using Cons by (cases ws) auto
qed simp

lemma js_join_labels [simp]: "js_join [dot] (labels_of s) = s"
  by (simp add: labels_of_def js_join_split)

lemma label_bytes_range: "dns_label l \<Longrightarrow> 0 < length (text_encode l) \<and> length (text_encode l) < 64"
proof -
  assume l: "dns_label l"
  have "text_encode l \<noteq> []"
  proof
    assume "text_encode l = []"
    then have "text_decode (text_encode l) = []" by (simp add: text_decode_def)
    then show False using l text_decode_encode [of l] by (simp add: dns_label_def)
  qed
  then show ?thesis using l by (simp add: dns_label_def)
qed

lemma write_text:
  assumes "be_writer w" "length (text_encode s) < 256"
  shows "be_writer (writeByteArray (text_encode s) (writeUInt8 (int (length (text_encode s))) w)) \<and>
    written (writeByteArray (text_encode s) (writeUInt8 (int (length (text_encode s))) w)) = written w @ text_bytes s"
  using assms by (simp add: be_write_defs text_bytes_def)

lemma encodeQName_bytes:
  assumes "dns_name s"
  shows "encodeQName s = Inr (name_bytes (labels_of s))"
proof -
  let ?w = "fold (\<lambda>label writer. writeByteArray (text_encode label) (writeUInt8 (int (length (text_encode label))) writer)) (labels_of s) (new_DataWriter False)"
  have "be_writer ?w \<and> written ?w = written (new_DataWriter False) @ concat (map text_bytes (labels_of s))"
    using assms by (intro fold_writes write_text) (auto simp: dns_name_def dns_label_def)
  moreover have "encodeQName s = writer_bytes (writeUInt8 0 ?w)"
    by (simp add: encodeQName_def labels_of_def Let_def)
  ultimately show ?thesis by (simp add: be_write_defs name_bytes_def)
qed

lemma bytes_nonempty [simp]: "be_bytes (Suc n) v \<noteq> []" "text_bytes s \<noteq> []" "name_bytes ls \<noteq> []"
  by (simp_all add: be_bytes_def le_bytes.simps text_bytes_def name_bytes_def)

text \<open>One turn of the loop: the end of a name, a label, a pointer.\<close>

lemma items_end: "decodeQNameItems (rb pre (be_bytes 1 0 @ rest)) message V items = Inr (js_join [dot] items, rb (pre @ be_bytes 1 0) rest)"
  using be8.read_item [of 0 pre rest] by (subst decodeQNameItems.simps) simp

lemma items_label:
  assumes "dns_label l" "rest \<noteq> []"
  shows "decodeQNameItems (rb pre (text_bytes l @ rest)) message V items = decodeQNameItems (rb (pre @ text_bytes l) rest) message V (items @ [l])"
proof -
  let ?n = "int (length (text_encode l))"
  have l: "0 < ?n" "?n < 64" "text_decode (text_encode l) = l"
    using assms label_bytes_range [of l] text_decode_encode [of l] by (auto simp: dns_label_def)
  have "readUInt8 (rb pre (be_bytes 1 ?n @ text_encode l @ rest)) = Inr (?n, rb (pre @ be_bytes 1 ?n) (text_encode l @ rest))"
    using be8.read_item [of ?n pre "text_encode l @ rest"] l by simp
  moreover have "1 \<le> length rest" using assms(2) by (simp add: Suc_le_eq)
  ultimately show ?thesis
    using l label_flags [of ?n] assms(2) by (subst decodeQNameItems.simps) (simp add: text_bytes_def readUtf8String_rb)
qed

lemma decode_labels:
  "\<forall>l\<in>set ls. dns_label l \<Longrightarrow> rest \<noteq> [] \<Longrightarrow>
   decodeQNameItems (rb pre (concat (map text_bytes ls) @ rest)) message V items =
     decodeQNameItems (rb (pre @ concat (map text_bytes ls)) rest) message V (items @ ls)"
proof (induction ls arbitrary: pre items)
  case (Cons l ls)
  then show ?case
    using items_label [of l "concat (map text_bytes ls) @ rest" pre message V items] Cons.IH [of "pre @ text_bytes l" "items @ [l]"] by simp
qed simp

lemma decodeQNameItems_name:
  assumes "\<forall>l\<in>set ls. dns_label l"
  shows "decodeQNameItems (rb pre (name_bytes ls @ rest)) message V items = Inr (js_join [dot] (items @ ls), rb (pre @ name_bytes ls) rest)"
  using decode_labels [OF assms, of "be_bytes 1 0 @ rest"] items_end [of "pre @ concat (map text_bytes ls)" rest message V "items @ ls"]
  by (simp add: name_bytes_def)

interpretation qname: be_item "\<lambda>s. name_bytes (labels_of s)" "\<lambda>r. decodeQName r message {}" dns_name for message
  by unfold_locales (simp add: decodeQName.simps dns_name_def decodeQNameItems_name)

text \<open>A pointer to a name that stands elsewhere in the message.\<close>

definition pointer_bytes :: "nat \<Rightarrow> byte list" where
  "pointer_bytes i = be_bytes 1 (192 + int i div 256) @ be_bytes 1 (int i mod 256)"

lemma pointer_nonempty [simp]: "pointer_bytes i \<noteq> []"
  by (simp add: pointer_bytes_def)

lemma items_pointer:
  assumes "i < 16384" "i < length message"
  shows "decodeQNameItems (rb pre (pointer_bytes i @ rest)) message V items =
    (case decodeQName ((new_DataReader message False)\<lparr>offset := int i\<rparr>) message V of
       Inl e \<Rightarrow> Inl e
     | Inr (name, _) \<Rightarrow> Inr (js_join [dot] (items @ [name]), rb (pre @ pointer_bytes i) rest))"
proof -
  let ?hi = "192 + int i div 256" and ?lo = "int i mod 256"
  have q: "0 \<le> int i div 256" "int i div 256 < 64" using assms(1) by linarith+
  moreover have "(192 + q) mod 64 = q" if "0 \<le> q" "q < 64" for q :: int
    using mod_mult_self2 [of q 64 3] that by (simp add: add.commute)
  ultimately have "?hi mod 64 = int i div 256" by blast
  then have hi: "192 \<le> ?hi" "?hi < 256" "0 \<le> ?lo" "?lo < 256" "?hi mod 64 * 256 + ?lo = int i" using q by simp_all
  have "readUInt8 (rb pre (be_bytes 1 ?hi @ be_bytes 1 ?lo @ rest)) = Inr (?hi, rb (pre @ be_bytes 1 ?hi) (be_bytes 1 ?lo @ rest))"
    using be8.read_item [of ?hi pre] hi by simp
  moreover have "readUInt8 (rb (pre @ be_bytes 1 ?hi) (be_bytes 1 ?lo @ rest)) = Inr (?lo, rb ((pre @ be_bytes 1 ?hi) @ be_bytes 1 ?lo) rest)"
    using be8.read_item [of ?lo "pre @ be_bytes 1 ?hi"] hi by simp
  moreover have "js_or ?lo (js_shl (js_and ?hi 0x3f) 8) = int i" using pointer_value [of ?hi ?lo] hi by simp
  moreover have "?hi \<noteq> 0" "js_and ?hi 0xc0 \<noteq> 0" using label_flags [of ?hi] hi by auto
  ultimately show ?thesis
    using assms(2) by (subst decodeQNameItems.simps) (simp only: pointer_bytes_def append_assoc, simp add: Let_def split: sum.splits prod.splits)
qed

lemma decodeQName_labels_pointer:
  assumes "\<forall>l\<in>set ls. dns_label l" "i < 16384" "i < length message"
  shows "decodeQName (rb pre (concat (map text_bytes ls) @ pointer_bytes i @ rest)) message {} =
    (case decodeQName ((new_DataReader message False)\<lparr>offset := int i\<rparr>) message {int (length pre)} of
       Inl e \<Rightarrow> Inl e
     | Inr (name, _) \<Rightarrow> Inr (js_join [dot] (ls @ [name]), rb (pre @ concat (map text_bytes ls) @ pointer_bytes i) rest))"
  using decode_labels [OF assms(1), of "pointer_bytes i @ rest" pre message "{int (length pre)}" "[]"]
    items_pointer [OF assms(2,3), of "pre @ concat (map text_bytes ls)" rest "{int (length pre)}" ls]
  by (simp add: decodeQName.simps [of "rb pre (concat (map text_bytes ls) @ pointer_bytes i @ rest)"] split: sum.splits prod.splits)

lemma name_at:
  assumes "dns_name s" "int (length a) \<notin> V"
  shows "decodeQName ((new_DataReader (a @ name_bytes (labels_of s) @ b) False)\<lparr>offset := int (length a)\<rparr>) message V =
    Inr (s, rb (a @ name_bytes (labels_of s)) b)"
  using decodeQNameItems_name [of "labels_of s" a b message "insert (int (length a)) V" "[]"] assms
  by (simp add: new_reader_at decodeQName.simps dns_name_def)

subsection \<open>Values of records\<close>

definition text_entry :: "js_string \<Rightarrow> bool" where
  "text_entry s \<longleftrightarrow> paired s \<and> take 1 s \<noteq> [0xFEFF] \<and> length (text_encode s) < 256"

lemma encodeTxtRecord_bytes:
  "\<forall>s\<in>set ts. text_entry s \<Longrightarrow> encodeTxtRecord ts = Inr (concat (map text_bytes ts))"
  unfolding encodeTxtRecord_def by (intro writer_bytes_fold write_text) (auto simp: text_entry_def)

lemma decodeTxt_loop_bytes:
  assumes "\<forall>s\<in>set ts. text_entry s"
  shows "decodeTxt_loop (pre @ concat (map text_bytes ts)) (rb pre (concat (map text_bytes ts))) (int (length pre)) acc = Inr (acc @ ts)"
  using assms
proof (induction ts arbitrary: pre acc)
  case Nil
  then show ?case by (simp add: decodeTxt_loop.simps)
next
  case (Cons t ts)
  let ?n = "int (length (text_encode t))" and ?tail = "concat (map text_bytes ts)"
  have t: "0 \<le> ?n" "?n < 256" "text_decode (text_encode t) = t"
    using Cons.prems text_decode_encode [of t] by (auto simp: text_entry_def)
  have "readUInt8 (rb pre (be_bytes 1 ?n @ text_encode t @ ?tail)) = Inr (?n, rb (pre @ be_bytes 1 ?n) (text_encode t @ ?tail))"
    using be8.read_item [of ?n pre] t by simp
  moreover have "text_bytes t = be_bytes 1 ?n @ text_encode t" by (simp add: text_bytes_def)
  ultimately show ?case
    using t Cons.IH [of "(pre @ be_bytes 1 ?n) @ text_encode t" "acc @ [t]"] Cons.prems
    by (subst decodeTxt_loop.simps) (simp add: readUtf8String_rb ac_simps)
qed

lemma decodeTxtRecord_bytes:
  "\<forall>s\<in>set ts. text_entry s \<Longrightarrow> decodeTxtRecord (concat (map text_bytes ts)) = Inr (TextValue ts)"
  using decodeTxt_loop_bytes [of ts "[]" "[]"] by (simp add: decodeTxtRecord_def new_DataReader_rb)

text \<open>A value that fits the type of its record and that the writer and the reader both take.\<close>

definition uint_below :: "int \<Rightarrow> int \<Rightarrow> bool" where "uint_below b n \<longleftrightarrow> 0 \<le> n \<and> n < b"

definition dns_value_ok :: "int \<Rightarrow> dns_value \<Rightarrow> bool" where
  "dns_value_ok ty v \<longleftrightarrow>
     (case v of
        NameValue s \<Rightarrow> ty = DnsRecordType_PTR \<and> dns_name s
      | ServiceValue p w q t \<Rightarrow> ty = DnsRecordType_SRV \<and> uint_below 65536 p \<and> uint_below 65536 w \<and> uint_below 65536 q \<and> dns_name t
      | TextValue ts \<Rightarrow> ty = DnsRecordType_TXT \<and> (\<forall>s\<in>set ts. text_entry s)
      | AddressValue ip \<Rightarrow>
          ty = DnsRecordType_A \<and> (\<exists>ns. length ns = 4 \<and> (\<forall>n\<in>set ns. uint_below 256 n) \<and> ip = ipv4_text ns) \<or>
          ty = DnsRecordType_AAAA \<and> (\<exists>ns. length ns = 8 \<and> (\<forall>n\<in>set ns. uint_below 65536 n) \<and> (\<exists>n\<in>set ns. n \<noteq> 0) \<and> ip = ipv6_text ns)
      | RawValue bs \<Rightarrow> ty \<notin> {DnsRecordType_PTR, DnsRecordType_SRV, DnsRecordType_TXT, DnsRecordType_AAAA, DnsRecordType_A})"

lemmas record_type_defs = DnsRecordType_A_def DnsRecordType_PTR_def DnsRecordType_TXT_def DnsRecordType_AAAA_def DnsRecordType_SRV_def

lemma service_value:
  assumes "uint_below 65536 p" "uint_below 65536 w" "uint_below 65536 q" "dns_name t"
  shows "encodeSrvRecord p w q t = Inr (be_bytes 2 p @ be_bytes 2 w @ be_bytes 2 q @ name_bytes (labels_of t))"
    and "decodeSrvRecord (be_bytes 2 p @ be_bytes 2 w @ be_bytes 2 q @ name_bytes (labels_of t)) message = Inr (ServiceValue p w q t)"
proof -
  show "encodeSrvRecord p w q t = Inr (be_bytes 2 p @ be_bytes 2 w @ be_bytes 2 q @ name_bytes (labels_of t))"
    using assms by (simp add: encodeSrvRecord_def encodeQName_bytes be_write_defs uint_below_def)
  show "decodeSrvRecord (be_bytes 2 p @ be_bytes 2 w @ be_bytes 2 q @ name_bytes (labels_of t)) message = Inr (ServiceValue p w q t)"
    using assms qname.read_item [of t "(be_bytes 2 p @ be_bytes 2 w) @ be_bytes 2 q" "[]" message]
    by (simp add: decodeSrvRecord_def new_DataReader_rb be16.read_item uint_below_def)
qed

lemma value_read_back:
  assumes "dns_value_ok ty v"
  obtains bs where "encodeRecordValue v ty = Inr bs" "\<And>message. decodeRecordValue bs ty message = Inr v"
proof (cases v)
  case (NameValue s)
  then show ?thesis
    using assms that [of "name_bytes (labels_of s)"] qname.read_item [of s "[]" "[]"]
    by (simp add: dns_value_ok_def encodeRecordValue_def decodeRecordValue_def encodeQName_bytes new_DataReader_rb)
next
  case (ServiceValue p w q t)
  then show ?thesis
    using assms service_value [of p w q t] that [of "be_bytes 2 p @ be_bytes 2 w @ be_bytes 2 q @ name_bytes (labels_of t)"]
    by (simp add: dns_value_ok_def encodeRecordValue_def decodeRecordValue_def record_type_defs)
next
  case (TextValue ts)
  then show ?thesis
    using assms that [of "concat (map text_bytes ts)"]
    by (simp add: dns_value_ok_def encodeRecordValue_def decodeRecordValue_def record_type_defs encodeTxtRecord_bytes decodeTxtRecord_bytes)
next
  case (AddressValue ip)
  consider ns where "ty = DnsRecordType_A" "length ns = 4" "\<forall>n\<in>set ns. 0 \<le> n \<and> n < 256" "ip = ipv4_text ns"
    | ns where "ty = DnsRecordType_AAAA" "length ns = 8" "\<forall>n\<in>set ns. 0 \<le> n \<and> n < 65536" "\<exists>n\<in>set ns. n \<noteq> 0" "ip = ipv6_text ns"
    using assms AddressValue by (auto simp: dns_value_ok_def uint_below_def)
  then show ?thesis
  proof cases
    case (1 ns)
    then show ?thesis
      using that [of "concat (map (be_bytes 1) ns)"] AddressValue encodeARecord_text [of ns] decodeARecord_bytes [of ns]
      by (simp add: encodeRecordValue_def decodeRecordValue_def record_type_defs)
  next
    case (2 ns)
    then show ?thesis
      using that [of "concat (map (be_bytes 2) ns)"] AddressValue encodeAaaaRecord_text [of ns] decodeAaaaRecord_bytes [of ns]
      by (simp add: encodeRecordValue_def decodeRecordValue_def record_type_defs)
  qed
next
  case (RawValue bs)
  then show ?thesis
    using assms that [of bs] by (simp add: dns_value_ok_def encodeRecordValue_def decodeRecordValue_def)
qed

subsection \<open>Queries, records and messages\<close>

text \<open>The top bit of a class is a flag.\<close>

lemma class_flag:
  assumes "0 \<le> c" "c < 32768"
  shows "js_or c (if flag then 0x8000 else 0) = c + (if flag then 32768 else 0)"
    and "js_and (c + (if flag then 32768 else 0)) 0x7fff = c"
    and "js_and (c + (if flag then 32768 else 0)) 0x8000 \<noteq> 0 \<longleftrightarrow> flag"
proof -
  let ?x = "c + (if flag then 32768 else 0)"
  have x: "0 \<le> ?x" "?x < 65536" using assms by auto
  show "js_or c (if flag then 0x8000 else 0) = ?x"
    using assms int_or_shift [of c 15 1] by (simp add: js_or_def or.commute [of c] add.commute [of c])
  show "js_and ?x 0x7fff = c"
    using assms x int_and_pow2_minus1 [of ?x 15] by (simp add: js_and_def)
  have "js_and ?x 0x8000 = ?x AND 2 ^ 15" using x by (simp add: js_and_def)
  then have "js_and ?x 0x8000 \<noteq> 0 \<longleftrightarrow> bit ?x 15" by (simp only: and_exp_eq_0_iff_not_bit not_not)
  also have "\<dots> \<longleftrightarrow> odd (?x div 32768)" by (simp add: bit_iff_odd)
  also have "?x div 32768 = (if flag then 1 else 0)" using assms div_mult_self1 [of 32768 c 1] by (simp add: div_pos_pos_trivial)
  also have "odd (if flag then 1 else 0 :: int) \<longleftrightarrow> flag" by simp
  finally show "js_and ?x 0x8000 \<noteq> 0 \<longleftrightarrow> flag" .
qed

definition class_bytes :: "int \<Rightarrow> bool \<Rightarrow> byte list" where
  "class_bytes c flag = be_bytes 2 (js_or c (if flag then 0x8000 else 0))"

lemma read_class:
  assumes "uint_below 32768 c"
  shows "readUInt16 (rb pre (class_bytes c flag @ rest)) = Inr (js_or c (if flag then 0x8000 else 0), rb (pre @ class_bytes c flag) rest)"
    and "js_and (js_or c (if flag then 0x8000 else 0)) 0x7fff = c"
    and "js_and (js_or c (if flag then 0x8000 else 0)) 0x8000 \<noteq> 0 \<longleftrightarrow> flag"
    and "0 \<le> js_or c (if flag then 0x8000 else 0) \<and> js_or c (if flag then 0x8000 else 0) < 65536"
proof -
  note c = assms [unfolded uint_below_def] and flags = class_flag [of c flag]
  show range: "0 \<le> js_or c (if flag then 0x8000 else 0) \<and> js_or c (if flag then 0x8000 else 0) < 65536"
    using c flags(1) by auto
  show "readUInt16 (rb pre (class_bytes c flag @ rest)) = Inr (js_or c (if flag then 0x8000 else 0), rb (pre @ class_bytes c flag) rest)"
    unfolding class_bytes_def by (rule be16.read_item [OF range])
  show "js_and (js_or c (if flag then 0x8000 else 0)) 0x7fff = c"
    "js_and (js_or c (if flag then 0x8000 else 0)) 0x8000 \<noteq> 0 \<longleftrightarrow> flag"
    using c flags by metis+
qed

definition dns_query_ok :: "dns_query \<Rightarrow> bool" where
  "dns_query_ok q \<longleftrightarrow> dns_name (queryName q) \<and> uint_below 65536 (queryType q) \<and> uint_below 32768 (queryClass q)"

definition query_bytes :: "dns_query \<Rightarrow> byte list" where
  "query_bytes q = name_bytes (labels_of (queryName q)) @ be_bytes 2 (queryType q) @ class_bytes (queryClass q) (uniCastResponse q)"

lemma write_query_bytes:
  assumes "dns_query_ok q" "be_writer w"
  shows "\<exists>w'. write_query q w = Inr w' \<and> be_writer w' \<and> written w' = written w @ query_bytes q"
  using assms read_class(4) [of "queryClass q" "uniCastResponse q"]
  by (auto simp: write_query_def dns_query_ok_def encodeQName_bytes query_bytes_def class_bytes_def be_write_defs uint_below_def)

interpretation query: be_item query_bytes "\<lambda>r. decodeQuery r message" dns_query_ok for message
proof
  fix q pre rest
  assume q: "dns_query_ok q"
  let ?name = "name_bytes (labels_of (queryName q))" and ?ty = "be_bytes 2 (queryType q)"
  have "decodeQName (rb pre (query_bytes q @ rest)) message {} = Inr (queryName q, rb (pre @ ?name) (?ty @ class_bytes (queryClass q) (uniCastResponse q) @ rest))"
    using q qname.read_item [of "queryName q" pre "?ty @ class_bytes (queryClass q) (uniCastResponse q) @ rest" message]
    by (simp add: dns_query_ok_def query_bytes_def)
  moreover have "readUInt16 (rb (pre @ ?name) (?ty @ class_bytes (queryClass q) (uniCastResponse q) @ rest)) =
      Inr (queryType q, rb ((pre @ ?name) @ ?ty) (class_bytes (queryClass q) (uniCastResponse q) @ rest))"
    using q by (intro be16.read_item) (simp add: dns_query_ok_def uint_below_def)
  ultimately show "decodeQuery (rb pre (query_bytes q @ rest)) message = Inr (q, rb (pre @ query_bytes q) rest)"
    using q read_class [of "queryClass q"] by (simp add: decodeQuery_def dns_query_ok_def query_bytes_def)
qed

definition value_bytes :: "dns_record \<Rightarrow> byte list" where
  "value_bytes r = (case encodeRecordValue (recordValue r) (recordType r) of Inr bs \<Rightarrow> bs | Inl e \<Rightarrow> [])"

definition dns_record_ok :: "dns_record \<Rightarrow> bool" where
  "dns_record_ok r \<longleftrightarrow>
     dns_name (recordName r) \<and> uint_below 65536 (recordType r) \<and> uint_below 32768 (recordClass r) \<and> uint_below 4294967296 (ttl r) \<and>
     dns_value_ok (recordType r) (recordValue r) \<and> length (value_bytes r) < 65536"

definition record_bytes :: "dns_record \<Rightarrow> byte list" where
  "record_bytes r =
     name_bytes (labels_of (recordName r)) @ be_bytes 2 (recordType r) @ class_bytes (recordClass r) (flushCache r) @
     be_bytes 4 (ttl r) @ be_bytes 2 (int (length (value_bytes r))) @ value_bytes r"

lemma record_value:
  assumes "dns_record_ok r"
  shows "encodeRecordValue (recordValue r) (recordType r) = Inr (value_bytes r)"
    and "decodeRecordValue (value_bytes r) (recordType r) message = Inr (recordValue r)"
proof -
  obtain bs where "encodeRecordValue (recordValue r) (recordType r) = Inr bs"
      "\<And>message. decodeRecordValue bs (recordType r) message = Inr (recordValue r)"
    using value_read_back assms unfolding dns_record_ok_def by metis
  then show "encodeRecordValue (recordValue r) (recordType r) = Inr (value_bytes r)"
    "decodeRecordValue (value_bytes r) (recordType r) message = Inr (recordValue r)"
    by (simp_all add: value_bytes_def)
qed

lemma encodeRecord_bytes: "dns_record_ok r \<Longrightarrow> encodeRecord r = Inr (record_bytes r)"
  using record_value(1) [of r] read_class(4) [of "recordClass r" "flushCache r"]
  by (simp add: encodeRecord_def dns_record_ok_def encodeQName_bytes record_bytes_def class_bytes_def be_write_defs uint_below_def)

interpretation answer: be_item record_bytes "\<lambda>r. decodeRecord r message" dns_record_ok for message
proof
  fix r pre rest
  assume r: "dns_record_ok r"
  let ?name = "name_bytes (labels_of (recordName r))" and ?ty = "be_bytes 2 (recordType r)" and ?cl = "class_bytes (recordClass r) (flushCache r)"
  let ?ttl = "be_bytes 4 (ttl r)" and ?len = "be_bytes 2 (int (length (value_bytes r)))" and ?v = "value_bytes r"
  have "decodeQName (rb pre (record_bytes r @ rest)) message {} = Inr (recordName r, rb (pre @ ?name) (?ty @ ?cl @ ?ttl @ ?len @ ?v @ rest))"
    using r qname.read_item [of "recordName r" pre "?ty @ ?cl @ ?ttl @ ?len @ ?v @ rest" message]
    by (simp add: dns_record_ok_def record_bytes_def)
  moreover have "readUInt16 (rb (pre @ ?name) (?ty @ ?cl @ ?ttl @ ?len @ ?v @ rest)) = Inr (recordType r, rb ((pre @ ?name) @ ?ty) (?cl @ ?ttl @ ?len @ ?v @ rest))"
    using r by (intro be16.read_item) (simp add: dns_record_ok_def uint_below_def)
  moreover have "readUInt32 (rb (pre @ ?name @ ?ty @ ?cl) (?ttl @ ?len @ ?v @ rest)) = Inr (ttl r, rb ((pre @ ?name @ ?ty @ ?cl) @ ?ttl) (?len @ ?v @ rest))"
    using r by (intro be32.read_item) (simp add: dns_record_ok_def uint_below_def)
  moreover have "readUInt16 (rb (pre @ ?name @ ?ty @ ?cl @ ?ttl) (?len @ ?v @ rest)) =
      Inr (int (length ?v), rb ((pre @ ?name @ ?ty @ ?cl @ ?ttl) @ ?len) (?v @ rest))"
    using r by (intro be16.read_item) (simp add: dns_record_ok_def)
  ultimately show "decodeRecord (rb pre (record_bytes r @ rest)) message = Inr (r, rb (pre @ record_bytes r) rest)"
    using r read_class [of "recordClass r"] record_value(2) [OF r]
    by (simp add: decodeRecord_def readByteArray_rb dns_record_ok_def record_bytes_def)
qed

definition dns_message_ok :: "dns_message \<Rightarrow> bool" where
  "dns_message_ok m \<longleftrightarrow>
     uint_below 65536 (transactionId m) \<and> uint_below 65536 (messageType m) \<and>
     (queries m = [] \<or> messageType m = DnsMessageType_Query \<or> messageType m = DnsMessageType_TruncatedQuery) \<and> authorities m = [] \<and>
     length (queries m) < 65536 \<and> length (answers m) < 65536 \<and> length (additionalRecords m) < 65536 \<and>
     (\<forall>q\<in>set (queries m). dns_query_ok q) \<and> (\<forall>r\<in>set (answers m @ additionalRecords m). dns_record_ok r)"

definition message_bytes :: "dns_message \<Rightarrow> byte list" where
  "message_bytes m =
     be_bytes 2 (transactionId m) @ be_bytes 2 (messageType m) @ be_bytes 2 (int (length (queries m))) @ be_bytes 2 (int (length (answers m))) @
     be_bytes 2 0 @ be_bytes 2 (int (length (additionalRecords m))) @
     concat (map query_bytes (queries m)) @ concat (map record_bytes (answers m)) @ concat (map record_bytes (additionalRecords m))"

lemma fold_res_writes:
  "(\<And>x w. x \<in> set xs \<Longrightarrow> be_writer w \<Longrightarrow> \<exists>w'. f x w = Inr w' \<and> be_writer w' \<and> written w' = written w @ g x) \<Longrightarrow> be_writer w \<Longrightarrow>
   \<exists>w'. fold_res f xs w = Inr w' \<and> be_writer w' \<and> written w' = written w @ concat (map g xs)"
proof (induction xs arbitrary: w)
  case (Cons x xs)
  obtain w1 where w1: "f x w = Inr w1" "be_writer w1" "written w1 = written w @ g x" using Cons.prems(1) [of x w] Cons.prems(2) by auto
  then show ?case using Cons.IH [of w1] Cons.prems(1) by auto
qed simp

lemma dns_encode_bytes:
  assumes "dns_message_ok m"
  shows "dns_encode (Some (messageType m)) (transactionId m) (queries m) (map Record (answers m)) (authorities m) (map Record (additionalRecords m)) = Inr (message_bytes m)"
proof -
  note ok = assms [unfolded dns_message_ok_def]
  define w where "w = writeUInt16 (int (length (additionalRecords m))) (writeUInt16 0 (writeUInt16 (int (length (answers m)))
    (writeUInt16 (int (length (queries m))) (writeUInt16 (messageType m) (writeUInt16 (transactionId m) (new_DataWriter False))))))"
  let ?rs = "answers m @ additionalRecords m"
  let ?f = "\<lambda>a writer. and_then (encode_answer a) (\<lambda>bs. Inr (writeByteArray bs writer))"
  have w: "be_writer w" "written w = be_bytes 2 (transactionId m) @ be_bytes 2 (messageType m) @ be_bytes 2 (int (length (queries m))) @
      be_bytes 2 (int (length (answers m))) @ be_bytes 2 0 @ be_bytes 2 (int (length (additionalRecords m)))"
    using ok by (auto simp: w_def be_write_defs uint_below_def)
  obtain w1 where w1: "fold_res write_query (queries m) w = Inr w1" "be_writer w1" "written w1 = written w @ concat (map query_bytes (queries m))"
    using fold_res_writes [of "queries m" write_query query_bytes w] write_query_bytes ok w(1) by blast
  have "\<exists>w'. fold_res ?f (map Record ?rs) w1 = Inr w' \<and> be_writer w' \<and> written w' = written w1 @ concat (map (\<lambda>a. projr (encode_answer a)) (map Record ?rs))"
    using ok w1(2) encodeRecord_bytes by (intro fold_res_writes) (auto simp: encode_answer_def)
  moreover have "map (\<lambda>a. projr (encode_answer a)) (map Record ?rs) = map record_bytes ?rs"
    using ok encodeRecord_bytes by (auto simp: encode_answer_def)
  ultimately have "\<exists>w'. fold_res ?f (map Record ?rs) w1 = Inr w' \<and> be_writer w' \<and> written w' = written w1 @ concat (map record_bytes ?rs)"
    by (simp only:)
  then obtain w2 where w2: "fold_res ?f (map Record ?rs) w1 = Inr w2" "be_writer w2" "written w2 = written w1 @ concat (map record_bytes ?rs)"
    by blast
  have "dns_encode (Some (messageType m)) (transactionId m) (queries m) (map Record (answers m)) (authorities m) (map Record (additionalRecords m)) =
      and_then (fold_res write_query (queries m) w) (\<lambda>writer. and_then (fold_res ?f (map Record ?rs) writer) writer_bytes)"
    using ok by (auto simp: dns_encode_def w_def Let_def)
  also have "\<dots> = Inr (message_bytes m)"
    using w w1 w2 by (simp add: message_bytes_def)
  finally show ?thesis .
qed

lemma dns_decode_bytes:
  assumes "dns_message_ok m"
  shows "dns_decode (message_bytes m) = Some m"
proof -
  note ok = assms [unfolded dns_message_ok_def uint_below_def]
  let ?m = "message_bytes m"
  let ?i = "be_bytes 2 (transactionId m)" and ?ty = "be_bytes 2 (messageType m)" and ?nq = "be_bytes 2 (int (length (queries m)))"
  let ?na = "be_bytes 2 (int (length (answers m)))" and ?nu = "be_bytes 2 0" and ?nx = "be_bytes 2 (int (length (additionalRecords m)))"
  let ?q = "concat (map query_bytes (queries m))" and ?a = "concat (map record_bytes (answers m))" and ?x = "concat (map record_bytes (additionalRecords m))"
  have head: "readUInt16 (new_DataReader ?m False) = Inr (transactionId m, rb ?i (?ty @ ?nq @ ?na @ ?nu @ ?nx @ ?q @ ?a @ ?x))"
    "readUInt16 (rb ?i (?ty @ ?nq @ ?na @ ?nu @ ?nx @ ?q @ ?a @ ?x)) = Inr (messageType m, rb (?i @ ?ty) (?nq @ ?na @ ?nu @ ?nx @ ?q @ ?a @ ?x))"
    "readUInt16 (rb (?i @ ?ty) (?nq @ ?na @ ?nu @ ?nx @ ?q @ ?a @ ?x)) = Inr (int (length (queries m)), rb (?i @ ?ty @ ?nq) (?na @ ?nu @ ?nx @ ?q @ ?a @ ?x))"
    "readUInt16 (rb (?i @ ?ty @ ?nq) (?na @ ?nu @ ?nx @ ?q @ ?a @ ?x)) = Inr (int (length (answers m)), rb (?i @ ?ty @ ?nq @ ?na) (?nu @ ?nx @ ?q @ ?a @ ?x))"
    "readUInt16 (rb (?i @ ?ty @ ?nq @ ?na) (?nu @ ?nx @ ?q @ ?a @ ?x)) = Inr (0, rb (?i @ ?ty @ ?nq @ ?na @ ?nu) (?nx @ ?q @ ?a @ ?x))"
    "readUInt16 (rb (?i @ ?ty @ ?nq @ ?na @ ?nu) (?nx @ ?q @ ?a @ ?x)) = Inr (int (length (additionalRecords m)), rb (?i @ ?ty @ ?nq @ ?na @ ?nu @ ?nx) (?q @ ?a @ ?x))"
    using ok by (simp_all add: message_bytes_def new_DataReader_rb be16.read_item)
  let ?h = "?i @ ?ty @ ?nq @ ?na @ ?nu @ ?nx"
  have "read_times (length (queries m)) (\<lambda>r. decodeQuery r ?m) (rb ?h (?q @ ?a @ ?x)) = Inr (queries m, rb (?h @ ?q) (?a @ ?x))"
    by (rule query.read_items) (use ok in blast)
  moreover have "read_times (length (answers m)) (\<lambda>r. decodeRecord r ?m) (rb (?h @ ?q) (?a @ ?x)) = Inr (answers m, rb ((?h @ ?q) @ ?a) ?x)"
    by (rule answer.read_items) (use ok in simp)
  moreover have "read_times (length (additionalRecords m)) (\<lambda>r. decodeRecord r ?m) (rb ((?h @ ?q) @ ?a) (?x @ [])) =
      Inr (additionalRecords m, rb (((?h @ ?q) @ ?a) @ ?x) [])"
    by (rule answer.read_items) (use ok in simp)
  ultimately show ?thesis using head ok by (simp add: dns_decode_def)
qed

subsection \<open>Properties\<close>


lemma ascii_text:
  "\<forall>u\<in>set s. unat u < 128 \<Longrightarrow> paired s \<and> text_encode s = map (\<lambda>u. of_nat (unat u)) s"
proof (induction s rule: code_points.induct)
  case (3 u v us)
  then show ?case by (simp add: text_encode_def utf8_def high_surrogate_def low_surrogate_def)
qed (simp_all add: text_encode_def utf8_def high_surrogate_def low_surrogate_def)

lemma length_name_bytes: "length (name_bytes ls) = 1 + (\<Sum>l\<leftarrow>ls. 1 + length (text_encode l))"
  by (induction ls) (simp_all add: name_bytes_def text_bytes_def)

definition ascii_units :: "string \<Rightarrow> js_string" where
  "ascii_units s = map (\<lambda>c. of_nat (of_char c)) s"

text \<open>What a node announces of itself: its service, where it is and its addresses.\<close>

definition sample_answers :: "dns_record list" where
  "sample_answers =
     [PtrRecord (ascii_units ''_matter._tcp.local'') (ascii_units ''A1-7._matter._tcp.local'') 120 False,
      SrvRecord (ascii_units ''A1-7._matter._tcp.local'') (0, 0, 5540, ascii_units ''00C0FFEE.local'') 120 True,
      TxtRecord (ascii_units ''A1-7._matter._tcp.local'') [ascii_units ''SII=5000'', [0xE9, 0xD83D, 0xDE00], []] 120 True]"

definition sample_addresses :: "dns_record list" where
  "sample_addresses =
     [AAAARecord (ascii_units ''00C0FFEE.local'') (ascii_units ''fe80:0:0:0:e777::1:7314'') 120 True,
      ARecord (ascii_units ''00C0FFEE.local'') (ascii_units ''192.168.200.5'') 120 False]"

definition sample_response :: dns_message where
  "sample_response =
     \<lparr>transactionId = 0, messageType = DnsMessageType_Response, queries = [], answers = sample_answers, authorities = [],
      additionalRecords = sample_addresses\<rparr>"

lemma sample_texts:
  "ipv4_text [192, 168, 200, 5] = ascii_units ''192.168.200.5''"
  "ipv6_text [0xfe80, 0, 0, 0, 0xe777, 0, 1, 0x7314] = ascii_units ''fe80:0:0:0:e777::1:7314''"
  by (simp_all add: ipv4_text_def ipv6_text_def to_radix.simps digit_unit_def ascii_units_def compress_zeros_def colon_def dot_def)

lemma sample_values:
  "dns_value_ok DnsRecordType_A (AddressValue (ascii_units ''192.168.200.5''))"
  "dns_value_ok DnsRecordType_AAAA (AddressValue (ascii_units ''fe80:0:0:0:e777::1:7314''))"
  "encodeARecord (ascii_units ''192.168.200.5'') = Inr (concat (map (be_bytes 1) [192, 168, 200, 5]))"
  "encodeAaaaRecord (ascii_units ''fe80:0:0:0:e777::1:7314'') = Inr (concat (map (be_bytes 2) [0xfe80, 0, 0, 0, 0xe777, 0, 1, 0x7314]))"
proof -
  have four: "length ns = 4 \<Longrightarrow> \<forall>n\<in>set ns. uint_below 256 n \<Longrightarrow> dns_value_ok DnsRecordType_A (AddressValue (ipv4_text ns))" for ns
    by (auto simp: dns_value_ok_def)
  show "dns_value_ok DnsRecordType_A (AddressValue (ascii_units ''192.168.200.5''))"
    using four [of "[192, 168, 200, 5]"] by (simp add: sample_texts uint_below_def)
  have eight: "length ns = 8 \<Longrightarrow> \<forall>n\<in>set ns. uint_below 65536 n \<Longrightarrow> \<exists>n\<in>set ns. n \<noteq> 0 \<Longrightarrow> dns_value_ok DnsRecordType_AAAA (AddressValue (ipv6_text ns))" for ns
    by (auto simp: dns_value_ok_def)
  show "dns_value_ok DnsRecordType_AAAA (AddressValue (ascii_units ''fe80:0:0:0:e777::1:7314''))"
    using eight [of "[0xfe80, 0, 0, 0, 0xe777, 0, 1, 0x7314]"] by (simp add: sample_texts uint_below_def)
  show "encodeARecord (ascii_units ''192.168.200.5'') = Inr (concat (map (be_bytes 1) [192, 168, 200, 5]))"
    using encodeARecord_text [of "[192, 168, 200, 5]"] by (simp add: sample_texts)
  show "encodeAaaaRecord (ascii_units ''fe80:0:0:0:e777::1:7314'') = Inr (concat (map (be_bytes 2) [0xfe80, 0, 0, 0, 0xe777, 0, 1, 0x7314]))"
    using encodeAaaaRecord_text [of "[0xfe80, 0, 0, 0, 0xe777, 0, 1, 0x7314]"] by (simp add: sample_texts)
qed

lemma sample_labels:
  "labels_of (ascii_units ''_matter._tcp.local'') = map ascii_units [''_matter'', ''_tcp'', ''local'']"
  "labels_of (ascii_units ''A1-7._matter._tcp.local'') = map ascii_units [''A1-7'', ''_matter'', ''_tcp'', ''local'']"
  "labels_of (ascii_units ''00C0FFEE.local'') = map ascii_units [''00C0FFEE'', ''local'']"
  by (simp_all add: labels_of_def ascii_units_def dot_def)

lemma ascii_label:
  assumes "list_all (\<lambda>c. of_char c < (128 :: nat) \<and> of_char c \<noteq> (46 :: nat)) s"
  shows "paired (ascii_units s) \<and> length (text_encode (ascii_units s)) = length s \<and> take 1 (ascii_units s) \<noteq> [0xFEFF] \<and> dot \<notin> set (ascii_units s)"
proof -
  have u: "unat (of_nat (of_char c) :: 16 word) = of_char c" "of_char c < (128 :: nat)" "of_char c \<noteq> (46 :: nat)" if "c \<in> set s" for c
    using assms that by (auto simp: list_all_iff)
  have "\<forall>u\<in>set (ascii_units s). unat u < 128 \<and> unat u \<noteq> 46" using u by (auto simp: ascii_units_def)
  moreover have "unat (0xFEFF :: 16 word) = 65279" "unat dot = 46" by (simp_all add: dot_def)
  ultimately have "0xFEFF \<notin> set (ascii_units s)" "dot \<notin> set (ascii_units s)" by fastforce+
  moreover have "paired (ascii_units s) \<and> text_encode (ascii_units s) = map (\<lambda>u. of_nat (unat u)) (ascii_units s)"
    using ascii_text [of "ascii_units s"] \<open>\<forall>u\<in>set (ascii_units s). unat u < 128 \<and> unat u \<noteq> 46\<close> by blast
  ultimately show ?thesis by (cases "ascii_units s") (auto simp: ascii_units_def)
qed

lemma sample_ascii:
  assumes "s \<in> {''_matter'', ''_tcp'', ''local'', ''A1-7'', ''00C0FFEE'', ''SII=5000''}"
  shows "paired (ascii_units s) \<and> length (text_encode (ascii_units s)) = length s \<and> take 1 (ascii_units s) \<noteq> [0xFEFF] \<and> dns_label (ascii_units s)"
proof -
  have "list_all (\<lambda>c. of_char c < (128 :: nat) \<and> of_char c \<noteq> (46 :: nat)) s" using assms by auto
  then show ?thesis using assms ascii_label [of s] by (auto simp: dns_label_def ascii_units_def)
qed

lemma sample_names:
  "dns_name (ascii_units ''_matter._tcp.local'')" "dns_name (ascii_units ''A1-7._matter._tcp.local'')" "dns_name (ascii_units ''00C0FFEE.local'')"
  by (simp_all add: dns_name_def sample_labels sample_ascii)

lemma sample_entries: "text_entry (ascii_units ''SII=5000'')" "text_entry [0xE9, 0xD83D, 0xDE00]" "text_entry []"
  "length (text_encode [0xE9, 0xD83D, 0xDE00]) = 6" "text_encode [] = []"
  using sample_ascii [of "''SII=5000''"]
  by (simp_all add: text_entry_def text_encode_def utf8_def high_surrogate_def low_surrogate_def)

lemma sample_response_ok: "dns_message_ok sample_response"
  by (simp add: dns_message_ok_def sample_response_def sample_answers_def sample_addresses_def dns_record_ok_def PtrRecord_def SrvRecord_def
      TxtRecord_def AAAARecord_def ARecord_def DnsMessageType_Response_def DnsRecordClass_IN_def sample_values sample_names sample_entries
      dns_value_ok_def [of _ "NameValue _"] dns_value_ok_def [of _ "ServiceValue _ _ _ _"] dns_value_ok_def [of _ "TextValue _"]
      value_bytes_def encodeRecordValue_def encodeQName_bytes service_value encodeTxtRecord_bytes length_name_bytes sample_labels sample_ascii
      text_bytes_def uint_below_def sample_values [unfolded record_type_defs] record_type_defs)


text \<open>C40: Names that are compressed are followed.  Labels that end in a pointer to a name elsewhere in the message give the labels joined to
  that name, and reading goes on right after the pointer; a pointer back to the start of its own name is refused.\<close>

theorem dns_pointer_followed:
  assumes "\<forall>l\<in>set ls. dns_label l" "dns_name s" "length pre < 16384"
    and target: "message = a @ name_bytes (labels_of s) @ b" "length a < 16384" "length a \<noteq> length pre"
    and looped: "looping = pre @ concat (map text_bytes ls) @ pointer_bytes (length pre) @ rest"
  shows "decodeQName (rb pre (concat (map text_bytes ls) @ pointer_bytes (length a) @ rest)) message {} =
      Inr (js_join [dot] (ls @ [s]), rb (pre @ concat (map text_bytes ls) @ pointer_bytes (length a)) rest) \<and>
    decodeQName (rb pre (concat (map text_bytes ls) @ pointer_bytes (length pre) @ rest)) looping {} = Inl UnexpectedDataError"
proof
  have "length a < length message" using target(1) by (simp add: name_bytes_def)
  then show "decodeQName (rb pre (concat (map text_bytes ls) @ pointer_bytes (length a) @ rest)) message {} =
      Inr (js_join [dot] (ls @ [s]), rb (pre @ concat (map text_bytes ls) @ pointer_bytes (length a)) rest)"
    using decodeQName_labels_pointer [OF assms(1) target(2)] name_at [of s a "{int (length pre)}" b message] assms(2) target by simp
  have "length pre < length looping" using looped by (simp add: pointer_bytes_def)
  then show "decodeQName (rb pre (concat (map text_bytes ls) @ pointer_bytes (length pre) @ rest)) looping {} = Inl UnexpectedDataError"
    using decodeQName_labels_pointer [OF assms(1,3)] by (simp add: decodeQName.simps [of "_\<lparr>offset := _\<rparr>"])
qed

theorem dns_pointer_followed_witness:
  "decodeQName (rb (name_bytes [ascii_units ''local'']) (text_bytes (ascii_units ''00C0FFEE'') @ pointer_bytes 0 @ [1])) (name_bytes [ascii_units ''local''] @ [9]) {} =
    Inr (ascii_units ''00C0FFEE.local'', rb (name_bytes [ascii_units ''local''] @ text_bytes (ascii_units ''00C0FFEE'') @ pointer_bytes 0) [1]) \<and>
   decodeQName (rb (name_bytes [ascii_units ''local'']) (text_bytes (ascii_units ''00C0FFEE'') @ pointer_bytes 7 @ [1]))
     (name_bytes [ascii_units ''local''] @ text_bytes (ascii_units ''00C0FFEE'') @ pointer_bytes 7 @ [1]) {} = Inl UnexpectedDataError"
proof -
  have "labels_of (ascii_units ''local'') = [ascii_units ''local'']" by (simp add: labels_of_def ascii_units_def dot_def)
  moreover have "js_join [dot] [ascii_units ''00C0FFEE'', ascii_units ''local''] = ascii_units ''00C0FFEE.local''"
    by (simp add: ascii_units_def dot_def)
  moreover have seven: "length (name_bytes [ascii_units ''local'']) = 7" by (simp add: length_name_bytes sample_ascii)
  ultimately show ?thesis
    using dns_pointer_followed [of "[ascii_units ''00C0FFEE'']" "ascii_units ''local''" "name_bytes [ascii_units ''local'']" "name_bytes [ascii_units ''local''] @ [9]" "[]" "[9]" _ "[1]", OF _ _ _ _ _ _ refl]
    by (simp add: sample_ascii dns_name_def seven)
qed

subsection \<open>Where the codec goes wrong\<close>

lemma ipv6_loopback_as_26_bytes:
  "encodeAaaaRecord (ascii_units ''::1'') = Inr (replicate 25 0 @ [1])" "ipv6ToBytes (ascii_units ''::1'') = replicate 15 0 @ [1]"
  by code_simp+

lemma zero_run_at_start_misread:
  "decodeAaaaRecord (replicate 15 0 @ [1]) = Inr (AddressValue (ascii_units '':1''))" "ipv6ToArray (ascii_units '':1'') = [1, 0, 0, 0, 0, 0, 0, 0]"
proof -
  have "concat (map (be_bytes 2) [0, 0, 0, 0, 0, 0, 0, 1]) = replicate 15 0 @ [1]" by code_simp
  moreover have "ipv6_text [0, 0, 0, 0, 0, 0, 0, 1] = ascii_units '':1''"
    by (simp add: ipv6_text_def to_radix.simps digit_unit_def ascii_units_def compress_zeros_def colon_def)
  ultimately show "decodeAaaaRecord (replicate 15 0 @ [1]) = Inr (AddressValue (ascii_units '':1''))"
    using decodeAaaaRecord_bytes [of "[0, 0, 0, 0, 0, 0, 0, 1]"] by simp
  show "ipv6ToArray (ascii_units '':1'') = [1, 0, 0, 0, 0, 0, 0, 0]" by code_simp
qed

lemma unspecified_address_lost:
  "decodeAaaaRecord (replicate 16 0) = Inr (AddressValue [])" "encodeAaaaRecord [] = Inl UnexpectedDataError"
proof -
  have "concat (map (be_bytes 2) [0, 0, 0, 0, 0, 0, 0, 0]) = replicate 16 0" by code_simp
  moreover have "ipv6_text [0, 0, 0, 0, 0, 0, 0, 0] = []"
    by (simp add: ipv6_text_def to_radix.simps digit_unit_def compress_zeros_def)
  ultimately show "decodeAaaaRecord (replicate 16 0) = Inr (AddressValue [])"
    using decodeAaaaRecord_bytes [of "[0, 0, 0, 0, 0, 0, 0, 0]"] by simp
  show "encodeAaaaRecord [] = Inl UnexpectedDataError" by code_simp
qed

lemma full_mask_undefined:
  "onSameNetwork (ascii_units ''::1'') (ascii_units ''::1'') (ascii_units ''ffff:ffff:ffff:ffff:ffff:ffff:ffff:ffff'') = None"
  by code_simp

lemma ipv4ToBytes_four: "length (ipv4ToBytes ip) = 4"
  by (simp add: ipv4ToBytes_def Let_def)

lemma ipv6_through_ipv4ToBytes: "ipv4ToBytes (ascii_units ''fe80::1'') = [0, 0, 0, 0]"
  by code_simp

lemma long_label_not_read:
  "encodeQName (replicate 64 0x61) = Inr (64 # replicate 64 0x61 @ [0])"
  "decodeQName (new_DataReader (64 # replicate 64 0x61 @ [0]) False) (64 # replicate 64 0x61 @ [0]) {} = Inl UnexpectedDataError"
proof -
  let ?l = "replicate 64 0x61 :: js_string" and ?bs = "64 # replicate 64 0x61 @ [0] :: byte list"
  have l: "text_encode ?l = replicate 64 0x61"
    using ascii_text [of ?l] by (simp add: map_replicate)
  have one: "be_bytes 1 64 = [64]" "be_bytes 1 97 = [0x61]" "be_bytes 1 0 = [0]" by code_simp+
  have "text_bytes ?l = 64 # replicate 64 0x61" using l one by (simp add: text_bytes_def)
  moreover have "js_split dot ?l = [?l]" by (rule js_split_free) (simp add: dot_def)
  ultimately show "encodeQName ?l = Inr ?bs"
    using write_text [of "new_DataWriter False" ?l] l one by (simp add: encodeQName_def be_write_defs)
  have bs: "?bs = be_bytes 1 64 @ be_bytes 1 97 @ replicate 63 0x61 @ [0]" using one by (simp add: numeral_eq_Suc)
  have "readUInt8 (rb [] (be_bytes 1 64 @ be_bytes 1 97 @ replicate 63 0x61 @ [0])) = Inr (64, rb (be_bytes 1 64) (be_bytes 1 97 @ replicate 63 0x61 @ [0]))"
    using be8.read_item [of 64 "[]"] by simp
  moreover have "readUInt8 (rb (be_bytes 1 64) (be_bytes 1 97 @ replicate 63 0x61 @ [0])) = Inr (97, rb (be_bytes 1 64 @ be_bytes 1 97) (replicate 63 0x61 @ [0]))"
    using be8.read_item [of 97 "be_bytes 1 64"] by simp
  moreover have "js_and 64 0xc0 \<noteq> 0" "js_or 97 (js_shl (js_and 64 0x3f) 8) = 97" by code_simp+
  ultimately show "decodeQName (new_DataReader ?bs False) ?bs {} = Inl UnexpectedDataError"
    unfolding new_DataReader_rb bs by (simp add: decodeQName.simps decodeQNameItems.simps)
qed

end
